(* ===== verification/Prelude.thy ===== *)
theory Prelude
  imports Main "HOL-Library.Word" "HOL-Library.List_Lexorder" "HOL-Library.Multiset" "HOL-Library.Sublist"
begin

text \<open>
  Shared vocabulary of the development: the machine types of the Go source (bytes, fixed
  width integers, 64-bit \<open>int\<close>), its error values, byte slices, and the big-endian
  integer codecs of \<open>encoding/binary\<close> with their round-trip laws. Two collections are
  declared here and filled by the component theories: \<open>codec_simps\<close> (round-trip and
  length laws of codecs) and \<open>inv_intros\<close> (operations keep their invariant).
\<close>

unbundle bit_operations_syntax

named_theorems codec_simps "round-trip and length laws of the codecs"
named_theorems inv_intros "operations keep the invariant of their component"

section \<open>Machine types\<close>

type_synonym u8 = "8 word"
type_synonym u16 = "16 word"
type_synonym u32 = "32 word"
type_synonym u64 = "64 word"

text \<open>A Go \<open>[]byte\<close>, a Go \<open>string\<close> and a Go array \<open>[n]byte\<close> are all lists of bytes.\<close>

type_synonym bytes = "u8 list"

text \<open>A string literal of the source as its bytes.\<close>

definition str :: "string \<Rightarrow> bytes" where
  "str s = map of_char s"

lemma str_Nil [simp]: "str [] = []"
  by (simp add: str_def)

lemma str_Cons [simp]: "str (c # s) = of_char c # str s"
  by (simp add: str_def)

lemma length_str [simp]: "length (str s) = length s"
  by (simp add: str_def)

section \<open>Errors\<close>

text \<open>
  The failures of the source as values. \<open>Panic\<close> is a run-time panic (an index or a slice
  bound out of range): it is no \<open>error\<close> value in Go, and no caller in the source recovers
  from it, so every caller passes it on. \<open>UnexpectedEnd\<close> and \<open>InvalidFormat\<close> are the
  two sentinel errors of package \<open>bencode\<close>; the other errors, which the callers only
  compare with \<open>nil\<close>, carry a tag that names the check that failed.
\<close>

datatype goerr = Panic | UnexpectedEnd | InvalidFormat | Fail string

type_synonym 'a res = "goerr + 'a"

section \<open>64-bit signed arithmetic\<close>

text \<open>
  Go's \<open>int\<close> and \<open>int64\<close> are 64 bits wide and wrap around silently. Where the source
  can leave the range, the model applies \<open>wrap64\<close> after the operation.
\<close>

definition wrap64 :: "int \<Rightarrow> int" where
  "wrap64 x = (x + 2 ^ 63) mod 2 ^ 64 - 2 ^ 63"

definition in_int64 :: "int \<Rightarrow> bool" where
  "in_int64 x \<longleftrightarrow> - (2 ^ 63) \<le> x \<and> x < 2 ^ 63"

lemma wrap64_id [simp]: "in_int64 x \<Longrightarrow> wrap64 x = x"
  by (simp add: wrap64_def in_int64_def)

lemma in_int64_wrap64 [simp]: "in_int64 (wrap64 x)"
  using pos_mod_bound [of "2 ^ 64" "x + 2 ^ 63"] pos_mod_sign [of "2 ^ 64" "x + 2 ^ 63"]
  by (simp add: wrap64_def in_int64_def)

lemma wrap64_overflow:
  assumes "2 ^ 63 \<le> x" "x < 2 ^ 64"
  shows "wrap64 x = x - 2 ^ 64"
proof -
  have "(x + 2 ^ 63) mod 2 ^ 64 = (x + 2 ^ 63 - 2 ^ 64) mod 2 ^ 64"
    by (metis minus_mod_self2)
  also have "\<dots> = x + 2 ^ 63 - 2 ^ 64"
    using assms by (intro mod_pos_pos_trivial) simp_all
  finally show ?thesis by (simp add: wrap64_def)
qed

text \<open>An \<open>int64\<close> kept as a word is read back with \<open>sint\<close>.\<close>

lemma sint_of_int64 [simp]: "in_int64 i \<Longrightarrow> sint (word_of_int i :: 64 word) = i"
  by (simp add: in_int64_def int_word_sint)

lemma sint_of_nat_64: "n < 2 ^ 63 \<Longrightarrow> sint (of_nat n :: 64 word) = int n"
proof -
  assume "n < 2 ^ 63"
  then have "in_int64 (int n)" by (simp add: in_int64_def)
  then have "sint (word_of_int (int n) :: 64 word) = int n" by (rule sint_of_int64)
  then show ?thesis by simp
qed

section \<open>Big-endian integers\<close>

text \<open>
  \<open>put_be n w\<close> is what \<open>binary.BigEndian.PutUint16/32/64\<close> write (most significant byte
  first) and \<open>get_be\<close> what \<open>binary.BigEndian.Uint16/32/64\<close> read.
\<close>

primrec put_be :: "nat \<Rightarrow> 'a::len word \<Rightarrow> bytes" where
  "put_be 0 w = []"
| "put_be (Suc n) w = ucast (drop_bit (8 * n) w) # put_be n w"

primrec get_be_acc :: "'a::len word \<Rightarrow> bytes \<Rightarrow> 'a word" where
  "get_be_acc acc [] = acc"
| "get_be_acc acc (b # bs) = get_be_acc (push_bit 8 acc OR ucast b) bs"

definition get_be :: "bytes \<Rightarrow> 'a::len word" where
  "get_be bs = get_be_acc 0 bs"

abbreviation put16 :: "u16 \<Rightarrow> bytes" where "put16 \<equiv> put_be 2"
abbreviation put32 :: "u32 \<Rightarrow> bytes" where "put32 \<equiv> put_be 4"
abbreviation put64 :: "u64 \<Rightarrow> bytes" where "put64 \<equiv> put_be 8"
abbreviation get16 :: "bytes \<Rightarrow> u16" where "get16 \<equiv> get_be"
abbreviation get32 :: "bytes \<Rightarrow> u32" where "get32 \<equiv> get_be"
abbreviation get64 :: "bytes \<Rightarrow> u64" where "get64 \<equiv> get_be"

lemma length_put_be [simp, codec_simps]: "length (put_be n w) = n"
  by (induction n) simp_all

lemma put_be_neq_Nil [simp]: "put_be n w = [] \<longleftrightarrow> n = 0"
  by (cases n) simp_all

lemma bit_get_be_acc_put_be:
  fixes acc w :: "'a::len word"
  shows "i < LENGTH('a) \<Longrightarrow>
    bit (get_be_acc acc (put_be n w)) i = (if i < 8 * n then bit w i else bit acc (i - 8 * n))"
proof (induction n arbitrary: acc)
  case 0
  then show ?case by simp
next
  case (Suc n)
  then show ?case
    by (auto simp: bit_simps algebra_simps)
qed

lemma get_be_put_be [codec_simps]:
  fixes w :: "'a::len word"
  assumes "LENGTH('a) = 8 * n"
  shows "get_be (put_be n w) = w"
  unfolding get_be_def using assms
  by (intro bit_word_eqI) (simp add: bit_get_be_acc_put_be)

lemma get16_put16 [simp]: "get16 (put16 w) = w"
  by (rule get_be_put_be) simp

lemma get32_put32 [simp]: "get32 (put32 w) = w"
  by (rule get_be_put_be) simp

lemma get64_put64 [simp]: "get64 (put64 w) = w"
  by (rule get_be_put_be) simp

lemma get_be_acc_snoc:
  "get_be_acc acc (bs @ [b]) = push_bit 8 (get_be_acc acc bs) OR ucast b"
  by (induction bs arbitrary: acc) simp_all

lemma put_be_snoc_OR:
  fixes acc :: "'a::len word"
  assumes "8 * Suc n \<le> LENGTH('a)"
  shows "put_be (Suc n) (push_bit 8 acc OR ucast b) = put_be n acc @ [b]"
  using assms
proof (induction n)
  case 0
  have "ucast (push_bit 8 acc OR ucast b) = b"
    using 0 by (intro bit_word_eqI) (auto simp: bit_simps)
  then show ?case by simp
next
  case (Suc n)
  have "ucast (drop_bit (8 * Suc n) (push_bit 8 acc OR ucast b)) =
    (ucast (drop_bit (8 * n) acc) :: u8)"
    using Suc.prems by (intro bit_word_eqI) (auto simp: bit_simps algebra_simps dest: bit_imp_le_length)
  with Suc show ?case
    by (simp del: put_be.simps add: put_be.simps(2) [of "Suc n"] put_be.simps(2) [of n acc])
qed

lemma put_be_get_be [codec_simps]:
  assumes "length bs = n" "8 * n \<le> LENGTH('a::len)"
  shows "put_be n (get_be bs :: 'a word) = bs"
  unfolding get_be_def using assms
proof (induction bs arbitrary: n rule: rev_induct)
  case Nil
  then show ?case by simp
next
  case (snoc b bs)
  then have n: "n = Suc (length bs)" by simp
  with snoc.prems have "8 * Suc (length bs) \<le> LENGTH('a)" by simp
  then show ?case
    using snoc.IH [of "length bs"] by (simp add: n get_be_acc_snoc put_be_snoc_OR del: put_be.simps)
qed

section \<open>Slices\<close>

text \<open>\<open>data[i:j]\<close> of the source, used where the bounds have been checked.\<close>

definition slice :: "'a list \<Rightarrow> nat \<Rightarrow> nat \<Rightarrow> 'a list" where
  "slice xs i j = take (j - i) (drop i xs)"

lemma length_slice [simp]: "length (slice xs i j) = min (j - i) (length xs - i)"
  by (simp add: slice_def)

lemma slice_append_right:
  "length xs = i \<Longrightarrow> slice (xs @ ys) i j = take (j - i) ys"
  by (simp add: slice_def)

lemma slice_mid: "length xs = i \<Longrightarrow> length ys = j - i \<Longrightarrow> slice (xs @ ys @ zs) i j = ys"
  by (simp add: slice_def)

text \<open>Go's \<open>copy\<close> into a fixed-size zeroed array: short input is padded with zeros.\<close>

definition copy_array :: "nat \<Rightarrow> bytes \<Rightarrow> bytes" where
  "copy_array n bs = take n bs @ replicate (n - length bs) 0"

lemma length_copy_array [simp]: "length (copy_array n bs) = n"
  by (simp add: copy_array_def)

lemma copy_array_id [simp]: "length bs = n \<Longrightarrow> copy_array n bs = bs"
  by (simp add: copy_array_def)

end
