(* ===== verification/Codec.thy ===== *)
theory Codec
  imports Prelude
begin

text \<open>
  The interfaces that the wire formats share. A \<open>stream_codec\<close> decodes one value from the
  front of a byte stream and hands the rest back (bencode, the peer wire protocol); a
  \<open>fixed_codec\<close> has entries of a fixed width that the source concatenates (compact nodes
  and peers, info-hash samples, hash lists); an \<open>exact_codec\<close> is a fixed codec in which
  every block of the right width is the encoding of what it decodes to. The loops over such
  data are the functions \<open>decode_while\<close>, \<open>decode_indexed\<close> and \<open>decode_n\<close>; the laws
  about them are proved once here and reach the components by interpretation.
\<close>

section \<open>Loops over encoded data\<close>

text \<open>The loop \<open>for len(data) >= n { ... data[:n] ...; data = data[n:] }\<close>.\<close>

fun decode_while :: "nat \<Rightarrow> (bytes \<Rightarrow> 'a) \<Rightarrow> bytes \<Rightarrow> 'a list" where
  "decode_while n f data =
     (if n = 0 \<or> length data < n then []
      else f (take n data) # decode_while n f (drop n data))"

declare decode_while.simps [simp del]

text \<open>The loop \<open>for i := range len(data)/n { ... data[i*n:(i+1)*n] ... }\<close>.\<close>

definition decode_indexed :: "nat \<Rightarrow> (bytes \<Rightarrow> 'a) \<Rightarrow> bytes \<Rightarrow> 'a list" where
  "decode_indexed n f data =
     map (\<lambda>i. f (slice data (i * n) ((i + 1) * n))) [0..<length data div n]"

text \<open>Reading \<open>k\<close> values one after the other from a stream, stopping at the first error.\<close>

primrec decode_n :: "(bytes \<Rightarrow> ('a \<times> bytes) res) \<Rightarrow> nat \<Rightarrow> bytes \<Rightarrow> ('a list \<times> bytes) res" where
  "decode_n dec 0 data = Inr ([], data)"
| "decode_n dec (Suc k) data =
     (case dec data of
        Inl e \<Rightarrow> Inl e
      | Inr (x, rest) \<Rightarrow>
          (case decode_n dec k rest of
             Inl e \<Rightarrow> Inl e
           | Inr (xs, rest') \<Rightarrow> Inr (x # xs, rest')))"

lemma decode_while_short [simp]: "length data < n \<Longrightarrow> decode_while n f data = []"
  by (simp add: decode_while.simps [of n f data])

lemma decode_while_step:
  "length xs = n \<Longrightarrow> 0 < n \<Longrightarrow> decode_while n f (xs @ ys) = f xs # decode_while n f ys"
  by (simp add: decode_while.simps [of n f "xs @ ys"])

lemma length_decode_while: "0 < n \<Longrightarrow> length (decode_while n f data) = length data div n"
proof (induction n f data rule: decode_while.induct)
  case (1 n f data)
  show ?case
  proof (cases "length data < n")
    case True
    then show ?thesis by simp
  next
    case False
    then have "length data div n = Suc ((length data - n) div n)"
      using "1.prems" by (simp add: le_div_geq)
    with False "1" show ?thesis by (simp add: decode_while.simps [of n f data])
  qed
qed

lemma set_decode_while: "x \<in> set (decode_while n f data) \<Longrightarrow> \<exists>bs. length bs = n \<and> x = f bs"
proof (induction n f data rule: decode_while.induct)
  case (1 n f data)
  show ?case
  proof (cases "n = 0 \<or> length data < n")
    case True
    with "1.prems" show ?thesis by (simp add: decode_while.simps [of n f data])
  next
    case False
    with "1.prems" consider "x = f (take n data)" | "x \<in> set (decode_while n f (drop n data))"
      by (auto simp: decode_while.simps [of n f data])
    then show ?thesis
    proof cases
      case 1
      with False show ?thesis by (intro exI [of _ "take n data"]) simp
    next
      case 2
      with False "1.IH" show ?thesis by simp
    qed
  qed
qed

text \<open>The indexed loop and the consuming loop compute the same list.\<close>

lemma decode_indexed_eq_while: "0 < n \<Longrightarrow> decode_indexed n f data = decode_while n f data"
proof (induction n f data rule: decode_while.induct)
  case (1 n f data)
  show ?case
  proof (cases "length data < n")
    case True
    then show ?thesis by (simp add: decode_indexed_def)
  next
    case False
    then have len: "length data div n = Suc (length (drop n data) div n)"
      using "1.prems" by (simp add: le_div_geq)
    have shift: "slice data (Suc i * n) ((Suc i + 1) * n) =
        slice (drop n data) (i * n) ((i + 1) * n)" for i
      by (simp add: slice_def add.commute)
    have "decode_indexed n f data = f (take n data) # decode_indexed n f (drop n data)"
      unfolding decode_indexed_def len
      by (simp add: upt_conv_Cons map_Suc_upt [symmetric] shift del: upt_Suc mult_Suc map_Suc_upt)
         (simp add: slice_def add.commute)
    with False "1" show ?thesis by (simp add: decode_while.simps [of n f data])
  qed
qed

section \<open>Codecs of fixed width\<close>

locale fixed_codec =
  fixes n :: nat and enc :: "'a \<Rightarrow> bytes" and dec :: "bytes \<Rightarrow> 'a" and ok :: "'a \<Rightarrow> bool"
  assumes n_pos: "0 < n"
    and length_enc: "ok x \<Longrightarrow> length (enc x) = n"
    and dec_enc: "ok x \<Longrightarrow> dec (enc x) = x"
begin

lemma enc_inj: "ok x \<Longrightarrow> ok y \<Longrightarrow> enc x = enc y \<Longrightarrow> x = y"
  by (metis dec_enc)

lemma length_concat_enc: "\<forall>x \<in> set xs. ok x \<Longrightarrow> length (concat (map enc xs)) = length xs * n"
  by (induction xs) (simp_all add: length_enc)

lemma decode_while_concat:
  assumes "\<forall>x \<in> set xs. ok x" "length rest < n"
  shows "decode_while n dec (concat (map enc xs) @ rest) = xs"
  using assms(1)
proof (induction xs)
  case Nil
  then show ?case using assms(2) by simp
next
  case (Cons x xs)
  then show ?case by (simp add: decode_while_step length_enc n_pos dec_enc)
qed

lemma decode_while_all: "\<forall>x \<in> set xs. ok x \<Longrightarrow> decode_while n dec (concat (map enc xs)) = xs"
  using decode_while_concat [of xs "[]"] n_pos by simp

lemma decode_indexed_all:
  "\<forall>x \<in> set xs. ok x \<Longrightarrow> decode_indexed n dec (concat (map enc xs)) = xs"
  by (simp add: decode_indexed_eq_while n_pos decode_while_all)

end

locale exact_codec = fixed_codec +
  assumes ok_dec: "length bs = n \<Longrightarrow> ok (dec bs)"
    and enc_dec: "length bs = n \<Longrightarrow> enc (dec bs) = bs"
begin

lemma ok_decode_while: "\<forall>x \<in> set (decode_while n dec data). ok x"
proof
  fix x assume "x \<in> set (decode_while n dec data)"
  then obtain bs where "length bs = n" "x = dec bs"
    using set_decode_while [of x n dec data] by auto
  then show "ok x" by (simp add: ok_dec)
qed

lemma concat_decode_while:
  assumes "n dvd length data"
  shows "concat (map enc (decode_while n dec data)) = data"
proof -
  from assms obtain k where "length data = n * k" ..
  then show ?thesis
  proof (induction k arbitrary: data)
    case 0
    then show ?case using n_pos by simp
  next
    case (Suc k)
    then have "data = take n data @ drop n data" "length (take n data) = n"
      "length (drop n data) = n * k" by simp_all
    with Suc.IH [of "drop n data"] show ?case
      by (metis append_take_drop_id concat.simps(2) decode_while_step enc_dec list.simps(9) n_pos)
  qed
qed

end

section \<open>Codecs on a stream\<close>

locale stream_codec =
  fixes enc :: "'a \<Rightarrow> bytes" and dec :: "bytes \<Rightarrow> ('a \<times> bytes) res" and ok :: "'a \<Rightarrow> bool"
  assumes dec_enc_append: "ok x \<Longrightarrow> dec (enc x @ rest) = Inr (x, rest)"
begin

text \<open>No encoding is a prefix of another one, so a concatenation splits in one way only.\<close>

lemma prefix_free:
  "ok x \<Longrightarrow> ok y \<Longrightarrow> enc x @ r = enc y @ s \<Longrightarrow> x = y \<and> r = s"
  by (metis dec_enc_append Inr_inject prod.inject)

lemma stream_enc_inj: "ok x \<Longrightarrow> ok y \<Longrightarrow> enc x = enc y \<Longrightarrow> x = y"
  using prefix_free [of x y "[]" "[]"] by simp

lemma decode_n_concat:
  "\<forall>x \<in> set xs. ok x \<Longrightarrow>
    decode_n dec (length xs) (concat (map enc xs) @ rest) = Inr (xs, rest)"
  by (induction xs) (simp_all add: dec_enc_append)

lemma concat_inj:
  assumes "\<forall>x \<in> set xs. ok x" "\<forall>y \<in> set ys. ok y" "length xs = length ys"
    and "concat (map enc xs) = concat (map enc ys)"
  shows "xs = ys"
  using decode_n_concat [of xs "[]"] decode_n_concat [of ys "[]"] assms by simp

end

section \<open>Decoders that read a prefix\<close>

text \<open>
  \<open>reads dec data x rest\<close>: the decoder takes a non-empty prefix off its input, and what it
  returns depends on that prefix only. It is what lets a caller cut the raw bytes of a value
  out of its input, or read a message although more data follows.
\<close>

definition reads :: "(bytes \<Rightarrow> ('a \<times> bytes) res) \<Rightarrow> bytes \<Rightarrow> 'a \<Rightarrow> bytes \<Rightarrow> bool" where
  "reads dec data x rest \<longleftrightarrow>
     (\<exists>c. c \<noteq> [] \<and> data = c @ rest \<and> (\<forall>r. dec (c @ r) = Inr (x, r)))"

lemma readsI: "c \<noteq> [] \<Longrightarrow> data = c @ rest \<Longrightarrow> (\<And>r. dec (c @ r) = Inr (x, r)) \<Longrightarrow> reads dec data x rest"
  by (auto simp: reads_def)

lemma readsE:
  assumes "reads dec data x rest"
  obtains c where "c \<noteq> []" "data = c @ rest" "\<And>r. dec (c @ r) = Inr (x, r)"
  using assms by (auto simp: reads_def)

locale prefix_decoder =
  fixes dec :: "bytes \<Rightarrow> ('a \<times> bytes) res"
  assumes dec_reads: "dec data = Inr (x, rest) \<Longrightarrow> reads dec data x rest"
begin

lemma dec_shorter: "dec data = Inr (x, rest) \<Longrightarrow> length rest < length data"
  by (drule dec_reads) (auto elim: readsE)

lemma dec_rest: "dec data = Inr (x, rest) \<Longrightarrow> rest = drop (length data - length rest) data"
  by (drule dec_reads) (auto elim: readsE)

text \<open>The bytes that were read decode to the same value on their own.\<close>

lemma dec_raw:
  assumes "dec data = Inr (x, rest)"
  shows "dec (take (length data - length rest) data @ r) = Inr (x, r)"
  using dec_reads [OF assms] by (auto elim: readsE)

text \<open>Appending data to the input only appends it to the rest.\<close>

lemma dec_append: "dec data = Inr (x, rest) \<Longrightarrow> dec (data @ more) = Inr (x, rest @ more)"
  by (drule dec_reads) (auto elim: readsE)

end

section \<open>Compact addresses\<close>

text \<open>An address of \<open>n\<close> bytes and a port, the cell of every compact peer list.\<close>

definition addr_cell :: "nat \<Rightarrow> bytes \<Rightarrow> bytes \<times> u16" where
  "addr_cell n bs = (take n bs, get16 (slice bs n (n + 2)))"

definition put_addr :: "bytes \<times> u16 \<Rightarrow> bytes" where
  "put_addr a = fst a @ put16 (snd a)"

interpretation addr_codec: exact_codec "n + 2" put_addr "addr_cell n" "\<lambda>a. length (fst a) = n" for n
proof unfold_locales
  fix bs :: bytes assume len: "length bs = n + 2"
  then have "slice bs n (n + 2) = drop n bs" by (simp add: slice_def)
  then show "put_addr (addr_cell n bs) = bs"
    using len put_be_get_be [where 'a = 16, of "drop n bs" 2] by (simp add: put_addr_def addr_cell_def)
qed (auto simp: put_addr_def addr_cell_def slice_append_right)

lemma encoded_addr_count:
  assumes "\<forall>a \<in> set as. length (fst a) = n"
  shows "length (concat (map put_addr as)) mod (n + 2) = 0"
    "length (concat (map put_addr as)) div (n + 2) = length as"
  unfolding addr_codec.length_concat_enc [OF assms]
  by (rule mod_mult_self2_is_0, rule nonzero_mult_div_cancel_right) simp

end
