(* ===== verification/GoStd.thy ===== *)
theory GoStd
  imports Codec
begin

text \<open>
  The functions of Go's standard library that the source calls and that matter for its
  results: decimal printing and parsing (\<open>strconv\<close>), hexadecimal text
  (\<open>encoding/hex\<close>), IP addresses as byte slices (\<open>net.IP\<close>) and the Castagnoli
  checksum (\<open>hash/crc32\<close>). The cryptographic functions (SHA-1, SHA-256, Ed25519) are
  arguments of the definitions that use them.
\<close>

section \<open>Decimal numbers (strconv)\<close>

definition digit :: "nat \<Rightarrow> u8" where
  "digit d = of_nat (48 + d)"

fun dec_digits :: "nat \<Rightarrow> bytes" where
  "dec_digits n = (if n < 10 then [digit n] else dec_digits (n div 10) @ [digit (n mod 10)])"

declare dec_digits.simps [simp del]

text \<open>\<open>strconv.AppendInt(_, i, 10)\<close>, \<open>strconv.FormatInt\<close> and \<open>strconv.Itoa\<close>.\<close>

definition itoa :: "int \<Rightarrow> bytes" where
  "itoa i = (if i < 0 then 45 # dec_digits (nat (- i)) else dec_digits (nat i))"

definition is_digit :: "u8 \<Rightarrow> bool" where
  "is_digit b \<longleftrightarrow> 48 \<le> b \<and> b \<le> 57"

primrec dec_val_acc :: "nat \<Rightarrow> bytes \<Rightarrow> nat option" where
  "dec_val_acc acc [] = Some acc"
| "dec_val_acc acc (b # bs) =
     (if is_digit b then dec_val_acc (10 * acc + (unat b - 48)) bs else None)"

text \<open>The digits of an unsigned number: empty input and other bytes are syntax errors.\<close>

definition parse_digits :: "bytes \<Rightarrow> nat option" where
  "parse_digits s = (if s = [] then None else dec_val_acc 0 s)"

text \<open>\<open>strconv.ParseUint(s, 10, n)\<close>.\<close>

definition parse_uint :: "nat \<Rightarrow> bytes \<Rightarrow> nat res" where
  "parse_uint n s =
     (case parse_digits s of
        None \<Rightarrow> Inl (Fail ''syntax'')
      | Some v \<Rightarrow> if v < 2 ^ n then Inr v else Inl (Fail ''range''))"

text \<open>
  \<open>strconv.ParseInt(s, 10, 64)\<close> and \<open>strconv.Atoi\<close>: one optional sign, \<open>+\<close> or
  \<open>-\<close>, then digits (leading zeros allowed), then the range check.
\<close>

definition parse_int64 :: "bytes \<Rightarrow> int res" where
  "parse_int64 s =
     (let (neg, ds) =
        (case s of
           [] \<Rightarrow> (False, [])
         | b # bs \<Rightarrow> if b = 43 then (False, bs) else if b = 45 then (True, bs) else (False, s))
      in case parse_digits ds of
           None \<Rightarrow> Inl (Fail ''syntax'')
         | Some v \<Rightarrow>
             if \<not> neg \<and> 2 ^ 63 \<le> v then Inl (Fail ''range'')
             else if neg \<and> 2 ^ 63 < v then Inl (Fail ''range'')
             else Inr (if neg then - int v else int v))"

lemma unat_digit [simp]: "d < 10 \<Longrightarrow> unat (digit d) = 48 + d"
  by (simp only: digit_def unat_of_nat) simp

lemma is_digit_unat: "is_digit b \<longleftrightarrow> 48 \<le> unat b \<and> unat b \<le> 57"
  by (simp add: is_digit_def word_le_nat_alt)

lemma is_digit_digit [simp]: "d < 10 \<Longrightarrow> is_digit (digit d)"
  by (simp add: is_digit_unat)

lemma dec_val_acc_append:
  "dec_val_acc acc (xs @ ys) = Option.bind (dec_val_acc acc xs) (\<lambda>a. dec_val_acc a ys)"
  by (induction xs arbitrary: acc) simp_all

lemma dec_val_dec_digits [simp]: "dec_val_acc 0 (dec_digits n) = Some n"
proof (induction n rule: dec_digits.induct)
  case (1 n)
  then show ?case
    by (cases "n < 10") (simp_all add: dec_digits.simps [of n] dec_val_acc_append)
qed

lemma dec_digits_not_Nil [simp]: "dec_digits n \<noteq> []"
  by (subst dec_digits.simps) simp

lemma set_dec_digits: "\<forall>b \<in> set (dec_digits n). is_digit b"
proof (induction n rule: dec_digits.induct)
  case (1 n)
  then show ?case
    by (cases "n < 10") (auto simp: dec_digits.simps [of n])
qed

lemma is_digit_neq [simp]:
  "is_digit b \<Longrightarrow> b \<noteq> 43" "is_digit b \<Longrightarrow> b \<noteq> 45" "is_digit b \<Longrightarrow> b \<noteq> 58"
  "is_digit b \<Longrightarrow> b \<noteq> 101"
  by (auto simp: is_digit_def)

lemma hd_dec_digits: "is_digit (hd (dec_digits n))"
  using set_dec_digits [of n] by (cases "dec_digits n") simp_all

lemma hd_dec_digits_zero: "hd (dec_digits n) = 48 \<longleftrightarrow> n = 0"
proof (induction n rule: dec_digits.induct)
  case (1 n)
  show ?case
  proof (cases "n < 10")
    case True
    have "digit n = 48 \<longleftrightarrow> n = 0"
      using True by (simp add: word_unat_eq_iff)
    with True show ?thesis by (simp add: dec_digits.simps [of n])
  next
    case False
    with "1" show ?thesis by (simp add: dec_digits.simps [of n])
  qed
qed

lemma length_dec_digits_gt1: "1 < length (dec_digits n) \<longleftrightarrow> 10 \<le> n"
  by (subst dec_digits.simps) (auto simp: Suc_le_eq)

lemma length_dec_digits_le: "n < 10 ^ k \<Longrightarrow> 0 < k \<Longrightarrow> length (dec_digits n) \<le> k"
proof (induction n arbitrary: k rule: dec_digits.induct)
  case (1 n)
  show ?case
  proof (cases "n < 10")
    case True
    with "1.prems" show ?thesis by (simp add: dec_digits.simps [of n])
  next
    case False
    with "1.prems" obtain k' where k: "k = Suc k'" "0 < k'"
      by (cases k; cases "k - 1") auto
    with "1.prems" have "n div 10 < 10 ^ k'" by (simp add: less_mult_imp_div_less)
    with False "1.IH" k show ?thesis by (simp add: dec_digits.simps [of n])
  qed
qed

lemma parse_digits_dec_digits [simp]: "parse_digits (dec_digits n) = Some n"
  by (simp add: parse_digits_def)

lemma parse_uint_dec_digits [simp]: "v < 2 ^ n \<Longrightarrow> parse_uint n (dec_digits v) = Inr v"
  by (simp add: parse_uint_def)

lemma itoa_not_Nil [simp]: "itoa i \<noteq> []"
  by (simp add: itoa_def)

lemma parse_int64_itoa [codec_simps]:
  assumes "in_int64 i"
  shows "parse_int64 (itoa i) = Inr i"
proof (cases "i < 0")
  case True
  with assms have "nat (- i) \<le> 2 ^ 63" by (simp add: in_int64_def)
  with True show ?thesis by (simp add: parse_int64_def itoa_def)
next
  case False
  have h: "is_digit (hd (dec_digits (nat i)))" by (rule hd_dec_digits)
  obtain b bs where bs: "dec_digits (nat i) = b # bs"
    by (cases "dec_digits (nat i)") simp_all
  with h have "b \<noteq> 43" "b \<noteq> 45" by simp_all
  moreover from assms False have "nat i < 2 ^ 63" by (simp add: in_int64_def)
  moreover have "parse_digits (b # bs) = Some (nat i)"
    by (metis bs parse_digits_dec_digits)
  ultimately show ?thesis
    using False by (simp add: parse_int64_def itoa_def bs)
qed

section \<open>Hexadecimal text (encoding/hex)\<close>

definition hex_char :: "u8 \<Rightarrow> u8" where
  "hex_char v = (if v < 10 then 48 + v else 87 + v)"

definition hex_val :: "u8 \<Rightarrow> u8 option" where
  "hex_val c =
     (if 48 \<le> c \<and> c \<le> 57 then Some (c - 48)
      else if 97 \<le> c \<and> c \<le> 102 then Some (c - 87)
      else if 65 \<le> c \<and> c \<le> 70 then Some (c - 55)
      else None)"

primrec hex_encode :: "bytes \<Rightarrow> bytes" where
  "hex_encode [] = []"
| "hex_encode (b # bs) = hex_char (drop_bit 4 b) # hex_char (b AND 15) # hex_encode bs"

fun hex_decode :: "bytes \<Rightarrow> bytes res" where
  "hex_decode [] = Inr []"
| "hex_decode [_] = Inl (Fail ''hex'')"
| "hex_decode (a # b # cs) =
     (case (hex_val a, hex_val b) of
        (Some x, Some y) \<Rightarrow>
          (case hex_decode cs of
             Inl e \<Rightarrow> Inl e
           | Inr bs \<Rightarrow> Inr ((push_bit 4 x OR y) # bs))
      | _ \<Rightarrow> Inl (Fail ''hex''))"

lemma hex_val_hex_char [simp]: "v < 16 \<Longrightarrow> hex_val (hex_char v) = Some v"
proof -
  assume v: "v < 16"
  then have "unat v < 16" by (simp add: word_less_nat_alt)
  moreover have "unat (48 + v) = 48 + unat v" "unat (87 + v) = 87 + unat v"
    using \<open>unat v < 16\<close> by (simp_all add: unat_word_ariths)
  ultimately show ?thesis
    by (auto simp: hex_val_def hex_char_def word_less_nat_alt word_le_nat_alt)
qed

lemma nibble_high: "drop_bit 4 (b :: u8) < 16"
proof -
  have "unat b < 256" using unsigned_less [of b, where 'a = nat] by simp
  then have "unat (drop_bit 4 b) < 16"
    by (subst unat_drop_bit_eq) (simp add: drop_bit_eq_div)
  then show ?thesis by (simp only: word_less_nat_alt) simp
qed

lemma nibble_low: "(b :: u8) AND 15 < 16"
proof -
  have "b AND 15 \<le> 15" by (rule word_and_le1)
  then show ?thesis by (rule order.strict_trans1) simp
qed

lemma nibbles_join: "push_bit 4 (drop_bit 4 b) OR (b AND 15) = (b :: u8)"
proof -
  have m: "(15 :: u8) = mask 4" by (simp add: mask_eq_exp_minus_1)
  show ?thesis
    unfolding m by (intro bit_word_eqI) (auto simp: bit_simps)
qed

lemma hex_decode_encode [simp, codec_simps]: "hex_decode (hex_encode bs) = Inr bs"
  by (induction bs) (simp_all add: nibble_high nibble_low nibbles_join)

lemma length_hex_encode [simp]: "length (hex_encode bs) = 2 * length bs"
  by (induction bs) simp_all

text \<open>Hexadecimal numbers without padding, as \<open>%x\<close> prints them.\<close>

fun hex_digits :: "nat \<Rightarrow> bytes" where
  "hex_digits n =
     (if n < 16 then [hex_char (of_nat n)] else hex_digits (n div 16) @ [hex_char (of_nat (n mod 16))])"

declare hex_digits.simps [simp del]

primrec hex_num :: "nat \<Rightarrow> bytes \<Rightarrow> nat option" where
  "hex_num acc [] = Some acc"
| "hex_num acc (b # bs) =
     (case hex_val b of None \<Rightarrow> None | Some v \<Rightarrow> hex_num (16 * acc + unat v) bs)"

lemma hex_num_append: "hex_num acc (xs @ ys) = Option.bind (hex_num acc xs) (\<lambda>a. hex_num a ys)"
  by (induction xs arbitrary: acc) (simp_all split: option.split)

lemma hex_val_small: "n < 16 \<Longrightarrow> hex_val (hex_char (of_nat n)) = Some (of_nat n) \<and> unat (of_nat n :: u8) = n"
  by (simp add: word_less_nat_alt unat_of_nat)

lemma hex_num_hex_digits: "hex_num 0 (hex_digits n) = Some n"
proof (induction n rule: hex_digits.induct)
  case (1 n)
  then show ?case
    using hex_val_small [of n] hex_val_small [of "n mod 16"]
    by (cases "n < 16") (simp_all add: hex_digits.simps [of n] hex_num_append)
qed

lemma hex_val_zero: "hex_val 48 = Some 0"
  by (simp add: hex_val_def)

section \<open>IP addresses (net.IP)\<close>

text \<open>
  A \<open>net.IP\<close> is a byte slice of length 4 or 16, or empty (\<open>nil\<close>). The 16-byte form of an
  IPv4 address has the prefix \<open>v4in6\<close>.
\<close>

definition v4in6 :: bytes where
  "v4in6 = replicate 10 0 @ [255, 255]"

definition to4 :: "bytes \<Rightarrow> bytes option" where
  "to4 ip =
     (if length ip = 4 then Some ip
      else if length ip = 16 \<and> take 12 ip = v4in6 then Some (drop 12 ip)
      else None)"

definition to16 :: "bytes \<Rightarrow> bytes option" where
  "to16 ip =
     (if length ip = 4 then Some (v4in6 @ ip)
      else if length ip = 16 then Some ip
      else None)"

text \<open>\<open>net.IPv4(a, b, c, d)\<close>, on the four bytes as a list.\<close>

definition ipv4 :: "bytes \<Rightarrow> bytes" where
  "ipv4 q = v4in6 @ q"

text \<open>\<open>net.IP.Equal\<close>: an IPv4 address equals its 16-byte form.\<close>

definition ip_equal :: "bytes \<Rightarrow> bytes \<Rightarrow> bool" where
  "ip_equal a b \<longleftrightarrow>
     (if length a = length b then a = b
      else if length a = 4 \<and> length b = 16 then b = v4in6 @ a
      else if length a = 16 \<and> length b = 4 then a = v4in6 @ b
      else False)"

lemma length_v4in6 [simp]: "length v4in6 = 12"
  by (simp add: v4in6_def)

lemma length_to4: "to4 ip = Some q \<Longrightarrow> length q = 4"
  by (auto simp: to4_def split: if_splits)

lemma length_to16: "to16 ip = Some q \<Longrightarrow> length q = 16"
  by (auto simp: to16_def split: if_splits)

lemma to4_ipv4 [simp]: "length q = 4 \<Longrightarrow> to4 (ipv4 q) = Some q"
  by (simp add: to4_def ipv4_def)

lemma length_ipv4 [simp]: "length q = 4 \<Longrightarrow> length (ipv4 q) = 16"
  by (simp add: ipv4_def)

lemma to16_of_16 [simp]: "length ip = 16 \<Longrightarrow> to16 ip = Some ip"
  by (simp add: to16_def)

lemma to4_of_4 [simp]: "length ip = 4 \<Longrightarrow> to4 ip = Some ip"
  by (simp add: to4_def)

text \<open>
  \<open>net.IP.String\<close>: dotted decimal for IPv4; for IPv6 eight hexadecimal groups, where the first
  longest run of at least two zero groups is written \<open>::\<close>.
\<close>

fun join_bytes :: "bytes \<Rightarrow> bytes list \<Rightarrow> bytes" where
  "join_bytes sep [] = []"
| "join_bytes sep [x] = x"
| "join_bytes sep (x # y # zs) = x @ sep @ join_bytes sep (y # zs)"

definition dotted :: "bytes \<Rightarrow> bytes" where
  "dotted q = join_bytes [46] (map (\<lambda>b. itoa (uint b)) q)"

definition zero_run :: "u16 list \<Rightarrow> nat \<Rightarrow> nat" where
  "zero_run gs i = length (takeWhile (\<lambda>g. g = 0) (drop i gs))"

definition best_zero_run :: "u16 list \<Rightarrow> nat \<times> nat" where
  "best_zero_run gs =
     foldl (\<lambda>(s, e) i. let l = zero_run gs i in if 2 \<le> l \<and> e - s < l then (i, i + l) else (s, e))
       (255, 255) [0..<8]"

definition ipv6_string :: "bytes \<Rightarrow> bytes" where
  "ipv6_string ip =
     (let gs = decode_indexed 2 get16 ip; (s, e) = best_zero_run gs;
          hex = (\<lambda>xs. join_bytes [58] (map (\<lambda>g. hex_digits (unat g)) xs))
      in if s < 8 then hex (take s gs) @ [58, 58] @ hex (drop e gs) else hex gs)"

definition ip_string :: "bytes \<Rightarrow> bytes" where
  "ip_string ip =
     (if ip = [] then str ''<nil>''
      else if length ip \<noteq> 4 \<and> length ip \<noteq> 16 then 63 # hex_encode ip
      else case to4 ip of Some q \<Rightarrow> dotted q | None \<Rightarrow> ipv6_string ip)"

text \<open>\<open>net.JoinHostPort\<close>.\<close>

definition join_host_port :: "bytes \<Rightarrow> bytes \<Rightarrow> bytes" where
  "join_host_port host port =
     (if 58 \<in> set host then [91] @ host @ [93, 58] @ port else host @ [58] @ port)"

section \<open>Strings (strings)\<close>

text \<open>\<open>strings.Split\<close> at a separator of one byte, and the test for a first byte.\<close>

fun split_on :: "u8 \<Rightarrow> bytes \<Rightarrow> bytes list" where
  "split_on c [] = [[]]"
| "split_on c (x # xs) =
     (if x = c then [] # split_on c xs
      else case split_on c xs of [] \<Rightarrow> [[x]] | y # ys \<Rightarrow> (x # y) # ys)"

definition starts_with :: "u8 \<Rightarrow> bytes \<Rightarrow> bool" where
  "starts_with c s \<longleftrightarrow> s \<noteq> [] \<and> hd s = c"

text \<open>\<open>strings.HasPrefix\<close> of a literal.\<close>

definition has_prefix :: "bytes \<Rightarrow> string \<Rightarrow> bool" where
  "has_prefix s p \<longleftrightarrow> take (length p) s = str p"

lemma has_prefix_append [simp]: "has_prefix (str p @ s) p"
  by (simp add: has_prefix_def)

lemma has_prefix_append': "p = q \<Longrightarrow> has_prefix (str p @ s) q"
  by simp

lemma split_on_not_Nil [simp]: "split_on c xs \<noteq> []"
  by (induction xs) (auto split: list.split)

lemma length_split_on: "x \<in> set (split_on c xs) \<Longrightarrow> length x \<le> length xs"
  by (induction xs arbitrary: x) (fastforce split: if_splits list.splits)+

lemma split_on_join: "join_bytes [c] (split_on c xs) = xs"
proof (induction xs)
  case (Cons x xs)
  obtain y ys where s: "split_on c xs = y # ys" by (cases "split_on c xs") simp_all
  with Cons show ?case by (cases ys) simp_all
qed simp

lemma split_on_free:
  "c \<notin> set y \<Longrightarrow> split_on c y = [y]" "c \<notin> set y \<Longrightarrow> split_on c (y @ c # zs) = y # split_on c zs"
  by (induction y) auto

lemma join_split_on: "ys \<noteq> [] \<Longrightarrow> \<forall>y \<in> set ys. c \<notin> set y \<Longrightarrow> split_on c (join_bytes [c] ys) = ys"
  by (induction "[c]" ys rule: join_bytes.induct) (simp_all add: split_on_free)

section \<open>CRC-32C (hash/crc32, Castagnoli)\<close>

text \<open>\<open>crc32.Checksum(data, MakeTable(Castagnoli))\<close>, one bit at a time.\<close>

definition crc_bit :: "u32 \<Rightarrow> u32" where
  "crc_bit c = (if bit c 0 then drop_bit 1 c XOR 0x82F63B78 else drop_bit 1 c)"

definition crc_byte :: "u32 \<Rightarrow> u8 \<Rightarrow> u32" where
  "crc_byte c b = (crc_bit ^^ 8) (c XOR ucast b)"

definition crc32c :: "bytes \<Rightarrow> u32" where
  "crc32c bs = NOT (foldl crc_byte (NOT 0) bs)"

end
