(* ===== verification/GoStrings.thy ===== *)
theory GoStrings
  imports GoStd
begin

text \<open>
  The functions of Go's package \<open>strings\<close> that the source uses on text from outside:
  \<open>IndexByte\<close>, \<open>TrimSpace\<close>, \<open>ToLower\<close> and \<open>Split\<close> at a line end.
\<close>

section \<open>Searching\<close>

primrec index_byte :: "u8 \<Rightarrow> bytes \<Rightarrow> nat option" where
  "index_byte c [] = None"
| "index_byte c (b # bs) = (if b = c then Some 0 else map_option Suc (index_byte c bs))"

lemma index_byte_first: "c \<notin> set xs \<Longrightarrow> index_byte c (xs @ c # ys) = Some (length xs)"
  by (induction xs) auto

lemma index_byte_none: "c \<notin> set xs \<Longrightarrow> index_byte c xs = None"
  by (induction xs) auto

section \<open>Trimming\<close>

text \<open>\<open>strings.TrimSpace\<close>: the UTF-8 encodings of the white space runes.\<close>

definition space_runes :: "bytes list" where
  "space_runes =
     [[9], [10], [11], [12], [13], [32], [0xC2, 0x85], [0xC2, 0xA0], [0xE1, 0x9A, 0x80]] @
     map (\<lambda>b. [0xE2, 0x80, b]) ([0x80, 0x81, 0x82, 0x83, 0x84, 0x85, 0x86, 0x87, 0x88, 0x89, 0x8A, 0xA8, 0xA9, 0xAF]) @
     [[0xE2, 0x81, 0x9F], [0xE3, 0x80, 0x80]]"

definition strip_one :: "bytes list \<Rightarrow> bytes \<Rightarrow> bytes option" where
  "strip_one spaces s =
     map_option (\<lambda>p. drop (length p) s) (List.find (\<lambda>p. p \<noteq> [] \<and> take (length p) s = p) spaces)"

lemma strip_one_shorter: "strip_one spaces s = Some s' \<Longrightarrow> length s' < length s"
proof -
  assume "strip_one spaces s = Some s'"
  then obtain p where "p \<noteq> []" "take (length p) s = p" "s' = drop (length p) s"
    by (auto simp: strip_one_def find_Some_iff)
  moreover from this have "s \<noteq> []" by auto
  ultimately show ?thesis by simp
qed

function trim_with :: "bytes list \<Rightarrow> bytes \<Rightarrow> bytes" where
  "trim_with spaces s = (case strip_one spaces s of None \<Rightarrow> s | Some s' \<Rightarrow> trim_with spaces s')"
  by pat_completeness auto

termination trim_with
  by (relation "measure (\<lambda>(spaces, s). length s)") (auto dest: strip_one_shorter)

declare trim_with.simps [simp del]

definition trim_space :: "bytes \<Rightarrow> bytes" where
  "trim_space s = rev (trim_with (map rev space_runes) (rev (trim_with space_runes s)))"

text \<open>Printable ASCII bytes begin and end no white space.\<close>

definition printable :: "u8 \<Rightarrow> bool" where
  "printable c \<longleftrightarrow> 33 \<le> c \<and> c \<le> 126"

lemma printable_digit: "is_digit c \<Longrightarrow> printable c"
  by (simp add: is_digit_unat printable_def word_le_nat_alt)

lemma strip_one_printable:
  "printable c \<Longrightarrow> strip_one space_runes (c # s) = None \<and> strip_one (map rev space_runes) (c # s) = None"
proof -
  assume "printable c"
  then have "33 \<le> unat c \<and> unat c \<le> 126" by (simp add: printable_def word_le_nat_alt)
  then have "c \<noteq> 9" "c \<noteq> 10" "c \<noteq> 11" "c \<noteq> 12" "c \<noteq> 13" "c \<noteq> 32" "c \<noteq> 0xC2" "c \<noteq> 0xE1" "c \<noteq> 0xE2" "c \<noteq> 0xE3"
    "c \<noteq> 0x80" "c \<noteq> 0x81" "c \<noteq> 0x82" "c \<noteq> 0x83" "c \<noteq> 0x84" "c \<noteq> 0x85" "c \<noteq> 0x86" "c \<noteq> 0x87" "c \<noteq> 0x88"
    "c \<noteq> 0x89" "c \<noteq> 0x8A" "c \<noteq> 0xA8" "c \<noteq> 0xA9" "c \<noteq> 0xAF" "c \<noteq> 0xA0" "c \<noteq> 0x9F"
    by auto
  then show ?thesis by (simp add: strip_one_def space_runes_def)
qed

lemma trim_space_Nil [simp]: "trim_space [] = []"
proof -
  have "strip_one spaces [] = None" for spaces by (simp add: strip_one_def find_None_iff)
  then show ?thesis by (simp add: trim_space_def trim_with.simps)
qed

lemma trim_space_printable:
  assumes "s = [] \<or> printable (hd s) \<and> printable (last s)"
  shows "trim_space s = s"
proof (cases "s = []")
  case False
  then have "trim_with space_runes s = s"
    using assms strip_one_printable [of "hd s" "tl s"] by (simp add: trim_with.simps)
  moreover have "rev s = last s # tl (rev s)" using False by (metis hd_Cons_tl hd_rev rev_is_Nil_conv)
  then have "strip_one (map rev space_runes) (rev s) = None"
    using strip_one_printable [of "last s" "tl (rev s)"] assms False by metis
  then have "trim_with (map rev space_runes) (rev s) = rev s" by (simp add: trim_with.simps)
  ultimately show ?thesis by (simp add: trim_space_def)
qed simp

lemma trim_space_digits:
  assumes "s \<noteq> []" "is_digit (hd s)" "is_digit (last s)"
  shows "trim_space s = s"
  using assms by (intro trim_space_printable) (simp add: printable_digit)

text \<open>One blank in front.\<close>

lemma trim_space_blank: "trim_space (32 # s) = trim_space s"
proof -
  have "strip_one space_runes (32 # s) = Some s" by (simp add: strip_one_def space_runes_def)
  then show ?thesis by (simp add: trim_space_def trim_with.simps [of _ "32 # s"])
qed

section \<open>Lower case\<close>

text \<open>
  \<open>strings.ToLower\<close>, as far as a comparison with a text of ASCII letters can tell: the runes that
  become ASCII letters are the capital letters, the dotted capital I and the Kelvin sign.
\<close>

definition lower_byte :: "u8 \<Rightarrow> u8" where
  "lower_byte c = (if 65 \<le> c \<and> c \<le> 90 then c + 32 else c)"

fun lower_runes :: "bytes \<Rightarrow> bytes" where
  "lower_runes [] = []"
| "lower_runes (a # s) =
     (case s of
        b # s' \<Rightarrow>
          if a = 0xC4 \<and> b = 0xB0 then 105 # lower_runes s'
          else (case s' of
                  c # s'' \<Rightarrow>
                    if a = 0xE2 \<and> b = 0x84 \<and> c = 0xAA then 107 # lower_runes s''
                    else lower_byte a # lower_runes s
                | [] \<Rightarrow> lower_byte a # lower_runes s)
      | [] \<Rightarrow> lower_byte a # lower_runes s)"

section \<open>Lines\<close>

text \<open>\<open>strings.Split\<close> at a carriage return with a line feed.\<close>

fun split_lines :: "bytes \<Rightarrow> bytes list" where
  "split_lines [] = [[]]"
| "split_lines (a # s) =
     (case s of
        b # s' \<Rightarrow>
          if a = 13 \<and> b = 10 then [] # split_lines s'
          else (case split_lines s of [] \<Rightarrow> [[a]] | l # ls \<Rightarrow> (a # l) # ls)
      | [] \<Rightarrow> [[a]])"

declare split_lines.simps(2) [simp del]

lemma split_lines_not_Nil [simp]: "split_lines s \<noteq> []"
proof (cases s)
  case (Cons a t)
  then show ?thesis by (simp only: split_lines.simps(2)) (simp split: list.splits)
qed simp

lemma split_lines_other: "a \<noteq> 13 \<Longrightarrow> split_lines (a # s) = (a # hd (split_lines s)) # tl (split_lines s)"
proof (cases s)
  case (Cons b t)
  moreover assume "a \<noteq> 13"
  moreover obtain l ls where "split_lines s = l # ls" by (cases "split_lines s") simp_all
  ultimately show ?thesis by (simp add: split_lines.simps(2) [of a])
qed (simp add: split_lines.simps(2) [of _ "[]"])

lemma split_lines_break: "split_lines (13 # 10 # s) = [] # split_lines s"
  by (simp add: split_lines.simps(2) [of 13 "10 # s"])

lemma split_lines_line: "13 \<notin> set l \<Longrightarrow> split_lines (l @ 13 # 10 # s) = l # split_lines s"
  by (induction l) (simp_all add: split_lines_break split_lines_other)

end
