(* ===== verification/Bencode.thy ===== *)
theory Bencode
  imports GoStd GoStrings
begin

text \<open>
  Package \<open>bencode\<close> (\<open>bencode/bencode.go\<close>): values, the encoder, the recursive-descent
  decoder with its "return the rest" convention, and the raw dictionary decoder behind the
  info-hash. The decoder is one mutual recursion on the unread input; its termination rests
  on the fact that every value consumes input. Main results: decoding an encoding gives the
  value back with its dictionaries in key order, whatever follows in the stream; decoded
  values are canonical; the raw decoder returns exactly the bytes of each entry.
\<close>

section \<open>Values\<close>

text \<open>
  A Go \<open>map[string]Value\<close> is an association list with distinct keys; the source only looks
  keys up, sets them, and sorts them when it encodes, so their order carries no meaning.
  \<open>Int\<close> is an \<open>int64\<close>, read with \<open>sint\<close>.
\<close>

datatype bvalue =
    BString bytes
  | BInt "64 word"
  | BList "bvalue list"
  | BDict "(bytes \<times> bvalue) list"

type_synonym bdict = "(bytes \<times> bvalue) list"

section \<open>Encoding\<close>

definition append_string :: "bytes \<Rightarrow> bytes \<Rightarrow> bytes" where
  "append_string buf s = buf @ itoa (int (length s)) @ [58] @ s"

text \<open>\<open>appendEncoded\<close>: the loops over items and sorted keys extend the buffer.\<close>

fun append_encoded :: "bytes \<Rightarrow> bvalue \<Rightarrow> bytes" where
  "append_encoded buf (BString s) = append_string buf s"
| "append_encoded buf (BInt i) = buf @ [105] @ itoa (sint i) @ [101]"
| "append_encoded buf (BList vs) = foldl append_encoded (buf @ [108]) vs @ [101]"
| "append_encoded buf (BDict d) =
     foldl (\<lambda>b p. append_encoded (append_string b (fst p)) (snd p))
       (buf @ [100]) (sort_key fst d) @ [101]"

definition encode :: "bvalue \<Rightarrow> bytes" where
  "encode v = append_encoded [] v"

section \<open>Decoding\<close>

text \<open>The loop of \<open>decodeString\<close> that looks for the colon after the length.\<close>

primrec scan_colon :: "nat \<Rightarrow> bytes \<Rightarrow> nat res" where
  "scan_colon i [] = Inl InvalidFormat"
| "scan_colon i (b # bs) =
     (if b = 58 then Inr i
      else if b < 48 \<or> 57 < b then Inl InvalidFormat
      else scan_colon (Suc i) bs)"

text \<open>
  \<open>decodeString\<close>: the length comes from \<open>ParseInt\<close>, the end is computed in 64-bit
  arithmetic and compared with the input's length. A negative end passes that check, and the
  slice expression then panics.
\<close>

definition decode_string :: "bytes \<Rightarrow> (bytes \<times> bytes) res" where
  "decode_string data =
     (case scan_colon 0 data of
        Inl e \<Rightarrow> Inl e
      | Inr colon_idx \<Rightarrow>
          (case parse_int64 (take colon_idx data) of
             Inl _ \<Rightarrow> Inl InvalidFormat
           | Inr len \<Rightarrow>
               (let start = int colon_idx + 1; end = wrap64 (start + len)
                in if int (length data) < end then Inl UnexpectedEnd
                   else if end < start then Inl Panic
                   else Inr (slice data (nat start) (nat end), drop (nat end) data))))"

definition decode_int :: "bytes \<Rightarrow> (64 word \<times> bytes) res" where
  "decode_int data =
     (if length data < 3 then Inl UnexpectedEnd
      else case index_byte 101 (drop 1 data) of
        None \<Rightarrow> Inl InvalidFormat
      | Some j \<Rightarrow>
          (let e_idx = j + 1; num_str = slice data 1 e_idx
           in if 1 < length num_str \<and> hd num_str = 48 then Inl InvalidFormat
              else if num_str = str ''-0'' then Inl InvalidFormat
              else case parse_int64 num_str of
                Inl _ \<Rightarrow> Inl InvalidFormat
              | Inr n \<Rightarrow> Inr (word_of_int n, drop (e_idx + 1) data)))"

text \<open>
  \<open>decodeValue\<close>, and the loops of \<open>decodeList\<close> and \<open>decodeDict\<close> after the type byte.
  The dictionary loop carries the previous key (\<open>None\<close> while \<open>first\<close> holds).
\<close>

function (sequential) decode_value :: "bytes \<Rightarrow> (bvalue \<times> bytes) res"
  and decode_list :: "bvalue list \<Rightarrow> bytes \<Rightarrow> (bvalue list \<times> bytes) res"
  and decode_dict :: "bdict \<Rightarrow> bytes option \<Rightarrow> bytes \<Rightarrow> (bdict \<times> bytes) res"
where
  "decode_value [] = Inl UnexpectedEnd"
| "decode_value (b # bs) =
     (if b = 105 then
        (case decode_int (b # bs) of Inl e \<Rightarrow> Inl e | Inr (i, rest) \<Rightarrow> Inr (BInt i, rest))
      else if b = 108 then
        (case decode_list [] bs of Inl e \<Rightarrow> Inl e | Inr (vs, rest) \<Rightarrow> Inr (BList vs, rest))
      else if b = 100 then
        (case decode_dict [] None bs of Inl e \<Rightarrow> Inl e | Inr (d, rest) \<Rightarrow> Inr (BDict d, rest))
      else if 48 \<le> b \<and> b \<le> 57 then
        (case decode_string (b # bs) of Inl e \<Rightarrow> Inl e | Inr (s, rest) \<Rightarrow> Inr (BString s, rest))
      else Inl InvalidFormat)"
| "decode_list items [] = Inl UnexpectedEnd"
| "decode_list items (b # bs) =
     (if b = 101 then Inr (items, bs)
      else case decode_value (b # bs) of
        Inl e \<Rightarrow> Inl e
      | Inr (v, rest) \<Rightarrow> decode_list (items @ [v]) rest)"
| "decode_dict dict prev [] = Inl UnexpectedEnd"
| "decode_dict dict prev (b # bs) =
     (if b = 101 then Inr (dict, bs)
      else case decode_string (b # bs) of
        Inl e \<Rightarrow> Inl e
      | Inr (key, rest) \<Rightarrow>
          (if (case prev of None \<Rightarrow> False | Some p \<Rightarrow> key \<le> p) then Inl InvalidFormat
           else case decode_value rest of
             Inl e \<Rightarrow> Inl e
           | Inr (v, rest2) \<Rightarrow> decode_dict (dict @ [(key, v)]) (Some key) rest2))"
  by pat_completeness auto

lemma index_byte_less: "index_byte c xs = Some j \<Longrightarrow> j < length xs"
  by (induction xs arbitrary: j) (auto split: if_splits)

lemma decode_string_shorter: "decode_string data = Inr (s, rest) \<Longrightarrow> length rest < length data"
  by (auto simp: decode_string_def Let_def split: sum.splits if_splits)

lemma decode_int_shorter: "decode_int data = Inr (i, rest) \<Longrightarrow> length rest < length data"
  by (auto simp: decode_int_def Let_def split: option.splits sum.splits if_splits)

lemma decode_shorter_aux:
  "decode_value_decode_list_decode_dict_dom (Inl data) \<Longrightarrow>
     decode_value data = Inr (v, rest) \<Longrightarrow> length rest < length data"
  "decode_value_decode_list_decode_dict_dom (Inr (Inl (items, data))) \<Longrightarrow>
     decode_list items data = Inr (vs, rest) \<Longrightarrow> length rest < length data"
  "decode_value_decode_list_decode_dict_dom (Inr (Inr (dict, prev, data))) \<Longrightarrow>
     decode_dict dict prev data = Inr (d, rest) \<Longrightarrow> length rest < length data"
proof (induction data and items data and dict prev data arbitrary: v rest and vs rest and d rest
    rule: decode_value_decode_list_decode_dict.pinduct)
  case (2 b bs)
  then show ?case
    by (fastforce simp: decode_value.psimps split: sum.splits if_splits
        dest: decode_string_shorter decode_int_shorter)
next
  case (4 items b bs)
  then show ?case
    by (fastforce simp: decode_list.psimps split: sum.splits if_splits)
next
  case (6 dict prev b bs)
  then show ?case
    by (fastforce simp: decode_dict.psimps split: sum.splits if_splits
        dest: decode_string_shorter)
qed (simp_all add: decode_value.psimps decode_list.psimps decode_dict.psimps)

termination decode_value
  by (relation "measure (\<lambda>x. case x of Inl data \<Rightarrow> 2 * length data
        | Inr (Inl (items, data)) \<Rightarrow> 2 * length data + 1
        | Inr (Inr (dict, prev, data)) \<Rightarrow> 2 * length data + 1)")
     (auto dest!: decode_shorter_aux decode_string_shorter)

section \<open>The decoder reads a prefix\<close>

declare decode_value.simps [simp del] decode_list.simps [simp del] decode_dict.simps [simp del]

lemmas decode_simps = decode_value.simps decode_list.simps decode_dict.simps

lemma scan_colon_digits:
  "\<forall>b \<in> set ds. is_digit b \<Longrightarrow> scan_colon i (ds @ 58 # r) = Inr (i + length ds)"
proof (induction ds arbitrary: i)
  case (Cons b ds)
  then have "\<not> (b < 48 \<or> 57 < b)" "b \<noteq> 58" by (auto simp: is_digit_def)
  with Cons show ?case by simp
qed simp

lemma index_byte_append:
  "c \<notin> set xs \<Longrightarrow> index_byte c (xs @ c # ys) = Some (length xs)"
  by (induction xs) auto

lemma scan_colon_Inr:
  "scan_colon i data = Inr j \<Longrightarrow>
    \<exists>ds r. data = ds @ 58 # r \<and> j = i + length ds \<and> (\<forall>b \<in> set ds. is_digit b)"
proof (induction data arbitrary: i)
  case (Cons b data)
  show ?case
  proof (cases "b = 58")
    case True
    with Cons.prems show ?thesis by (intro exI [of _ "[]"] exI [of _ data]) auto
  next
    case False
    with Cons.prems have "is_digit b" "scan_colon (Suc i) data = Inr j"
      by (auto simp: is_digit_def not_less split: if_splits)
    then obtain ds r where "data = ds @ 58 # r" "j = Suc i + length ds" "\<forall>b \<in> set ds. is_digit b"
      using Cons.IH by blast
    with \<open>is_digit b\<close> show ?thesis by (intro exI [of _ "b # ds"] exI [of _ r]) auto
  qed
qed simp

lemma decode_string_reads: "decode_string data = Inr (s, rest) \<Longrightarrow> reads decode_string data s rest"
proof -
  assume a: "decode_string data = Inr (s, rest)"
  then obtain j where j: "scan_colon 0 data = Inr j"
    by (auto simp: decode_string_def split: sum.splits)
  then obtain ds t where d: "data = ds @ 58 # t" "j = length ds" "\<forall>b \<in> set ds. is_digit b"
    using scan_colon_Inr [of 0 data j] by auto
  from a j obtain n where n: "parse_int64 ds = Inr n"
    by (auto simp: decode_string_def d(1) scan_colon_digits d(3) split: sum.splits)
  define e where "e = wrap64 (int j + 1 + n)"
  from a have e: "e \<le> int (length data)" "int j + 1 \<le> e"
    and s: "s = slice data (nat (int j + 1)) (nat e)" "rest = drop (nat e) data"
    by (auto simp: decode_string_def d scan_colon_digits n e_def Let_def split: if_splits)
  define k where "k = nat e - Suc j"
  have k: "nat e = Suc (j + k)" "nat (int j + 1) = Suc j" "k \<le> length t"
    using e d by (simp_all add: k_def)
  have int_e: "e = int (Suc (j + k))" using k(1) e(2) by simp
  have s': "s = take k t" "rest = drop k t"
    unfolding s k slice_def by (simp_all add: d)
  have "decode_string ((ds @ 58 # s) @ r) = Inr (s, r)" for r
    using k by (simp add: decode_string_def scan_colon_digits d n)
      (simp add: Let_def flip: d(2) e_def, simp add: int_e s' slice_def d k k(2) [unfolded d(2)])
  moreover have "data = (ds @ 58 # s) @ rest" by (simp add: s' d)
  ultimately show ?thesis by (intro readsI) auto
qed

lemma index_byte_Some:
  "index_byte c xs = Some j \<Longrightarrow> \<exists>ys zs. xs = ys @ c # zs \<and> j = length ys \<and> c \<notin> set ys"
proof (induction xs arbitrary: j)
  case (Cons x xs)
  show ?case
  proof (cases "x = c")
    case True
    with Cons.prems show ?thesis by (intro exI [of _ "[]"] exI [of _ xs]) auto
  next
    case False
    with Cons.prems obtain i where "index_byte c xs = Some i" "j = Suc i" by auto
    with Cons.IH obtain ys zs where "xs = ys @ c # zs" "i = length ys" "c \<notin> set ys" by blast
    with False \<open>j = Suc i\<close> show ?thesis by (intro exI [of _ "x # ys"] exI [of _ zs]) auto
  qed
qed simp

lemma decode_int_at:
  "101 \<notin> set ys \<Longrightarrow> ys \<noteq> [] \<Longrightarrow> decode_int (b # ys @ 101 # r) =
    (if 1 < length ys \<and> hd ys = 48 then Inl InvalidFormat
     else if ys = str ''-0'' then Inl InvalidFormat
     else case parse_int64 ys of Inl _ \<Rightarrow> Inl InvalidFormat | Inr n \<Rightarrow> Inr (word_of_int n, r))"
proof -
  assume ys: "101 \<notin> set ys" "ys \<noteq> []"
  then have "\<not> length (b # ys @ 101 # r) < 3" by (cases ys) simp_all
  then show ?thesis
    using ys by (simp add: decode_int_def index_byte_append Let_def slice_def split: sum.splits)
qed

lemma decode_int_reads: "decode_int data = Inr (i, rest) \<Longrightarrow> reads decode_int data i rest"
proof -
  assume a: "decode_int data = Inr (i, rest)"
  then obtain b bs j where d: "data = b # bs" and j: "index_byte 101 bs = Some j"
    by (cases data) (auto simp: decode_int_def split: option.splits if_splits)
  then obtain ys zs where y: "bs = ys @ 101 # zs" "101 \<notin> set ys"
    using index_byte_Some by blast
  have "ys \<noteq> []"
    using a by (auto simp: decode_int_def d y slice_def parse_int64_def parse_digits_def
        split: if_splits)
  then have "decode_int ((b # ys @ [101]) @ r) = Inr (i, r)" "rest = zs" for r
    using a y by (auto simp: d decode_int_at split: if_splits sum.splits)
  then show ?thesis by (intro readsI [of "b # ys @ [101]"]) (auto simp: d y)
qed

lemma decode_reads:
  "decode_value data = Inr (v, rest) \<Longrightarrow> reads decode_value data v rest"
  "decode_list items data = Inr (vs, rest) \<Longrightarrow> reads (decode_list items) data vs rest"
  "decode_dict dict prev data = Inr (d, rest) \<Longrightarrow> reads (decode_dict dict prev) data d rest"
proof (induction data and items data and dict prev data arbitrary: v rest and vs rest and d rest
    rule: decode_value_decode_list_decode_dict.induct)
  case (2 b bs)
  consider (int) i where "b = 105" "decode_int (b # bs) = Inr (i, rest)" "v = BInt i"
    | (list) vs where "b = 108" "decode_list [] bs = Inr (vs, rest)" "v = BList vs"
    | (dict) d where "b = 100" "decode_dict [] None bs = Inr (d, rest)" "v = BDict d"
    | (string) s where "48 \<le> b" "b \<le> 57" "decode_string (b # bs) = Inr (s, rest)" "v = BString s"
    using "2.prems" by (auto simp: decode_simps split: if_splits sum.splits)
  then show ?case
  proof cases
    case int
    then obtain c where c: "c \<noteq> []" "b # bs = c @ rest" "\<And>r. decode_int (c @ r) = Inr (i, r)"
      using decode_int_reads [OF int(2)] by (auto simp: reads_def)
    moreover from c obtain cs where "c = b # cs" by (cases c) auto
    ultimately show ?thesis
      using int by (intro readsI [of c]) (auto simp: decode_value.simps(2))
  next
    case list
    then obtain c where "bs = c @ rest" "\<And>r. decode_list [] (c @ r) = Inr (vs, r)"
      using "2.IH" by (auto simp: reads_def)
    with list show ?thesis by (intro readsI [of "b # c"]) (auto simp: decode_simps)
  next
    case dict
    then obtain c where "bs = c @ rest" "\<And>r. decode_dict [] None (c @ r) = Inr (d, r)"
      using "2.IH" by (auto simp: reads_def)
    with dict show ?thesis by (intro readsI [of "b # c"]) (auto simp: decode_simps)
  next
    case string
    then obtain c where c: "c \<noteq> []" "b # bs = c @ rest" "\<And>r. decode_string (c @ r) = Inr (s, r)"
      using decode_string_reads [OF string(3)] by (auto simp: reads_def)
    moreover from string have "b \<noteq> 105" "b \<noteq> 108" "b \<noteq> 100" by auto
    moreover from c obtain cs where "c = b # cs" by (cases c) auto
    ultimately show ?thesis
      using string by (intro readsI [of c]) (auto simp: decode_value.simps(2))
  qed
next
  case (4 items b bs)
  show ?case
  proof (cases "b = 101")
    case True
    with "4.prems" show ?thesis by (intro readsI [of "[b]"]) (auto simp: decode_simps)
  next
    case False
    with "4.prems" obtain v rest1 where v: "decode_value (b # bs) = Inr (v, rest1)"
      and vs: "decode_list (items @ [v]) rest1 = Inr (vs, rest)"
      by (auto simp: decode_list.simps split: sum.splits)
    from "4.IH" False v obtain c where c: "c \<noteq> []" "b # bs = c @ rest1"
      "\<And>r. decode_value (c @ r) = Inr (v, r)" by (auto simp: reads_def)
    from "4.IH" False v vs have "reads (decode_list (items @ [v])) rest1 vs rest" by auto
    then obtain c' where c': "rest1 = c' @ rest"
      "\<And>r. decode_list (items @ [v]) (c' @ r) = Inr (vs, r)" by (auto simp: reads_def)
    obtain cs where "c = b # cs" using c by (cases c) auto
    with c c' False show ?thesis
      by (intro readsI [of "c @ c'"]) (auto simp: decode_list.simps)
  qed
next
  case (6 dict prev b bs)
  show ?case
  proof (cases "b = 101")
    case True
    with "6.prems" show ?thesis by (intro readsI [of "[b]"]) (auto simp: decode_simps)
  next
    case False
    with "6.prems" obtain key rest1 v rest2 where k: "decode_string (b # bs) = Inr (key, rest1)"
      and prev: "\<not> (case prev of None \<Rightarrow> False | Some p \<Rightarrow> key \<le> p)"
      and v: "decode_value rest1 = Inr (v, rest2)"
      and d: "decode_dict (dict @ [(key, v)]) (Some key) rest2 = Inr (d, rest)"
      by (auto simp: decode_dict.simps split: sum.splits if_splits)
    from decode_string_reads [OF k] obtain c where c: "c \<noteq> []" "b # bs = c @ rest1"
      "\<And>r. decode_string (c @ r) = Inr (key, r)" by (auto simp: reads_def)
    from "6.IH" False k prev v have "reads decode_value rest1 v rest2" by auto
    then obtain c' where c': "rest1 = c' @ rest2"
      "\<And>r. decode_value (c' @ r) = Inr (v, r)" by (auto simp: reads_def)
    from "6.IH" False k prev v d
    have "reads (decode_dict (dict @ [(key, v)]) (Some key)) rest2 d rest" by auto
    then obtain c'' where c'': "rest2 = c'' @ rest"
      "\<And>r. decode_dict (dict @ [(key, v)]) (Some key) (c'' @ r) = Inr (d, r)" by (auto simp: reads_def)
    obtain cs where "c = b # cs" using c by (cases c) auto
    with c c' c'' prev False show ?thesis
      by (intro readsI [of "c @ c' @ c''"]) (auto simp: decode_dict.simps)
  qed
qed (simp_all add: decode_simps)

interpretation bencode_reader: prefix_decoder decode_value
  by unfold_locales (rule decode_reads)

interpretation bstring_reader: prefix_decoder decode_string
  by unfold_locales (rule decode_string_reads)

section \<open>The exported decoders\<close>

definition decode :: "bytes \<Rightarrow> bvalue res" where
  "decode data =
     (case decode_value data of
        Inl e \<Rightarrow> Inl e
      | Inr (v, rest) \<Rightarrow> if rest \<noteq> [] then Inl InvalidFormat else Inr v)"

text \<open>\<open>DecodeFirst\<close> returns the number of bytes consumed.\<close>

definition decode_first :: "bytes \<Rightarrow> (bvalue \<times> nat) res" where
  "decode_first data =
     (case decode_value data of
        Inl e \<Rightarrow> Inl e
      | Inr (v, rest) \<Rightarrow> Inr (v, length data - length rest))"

record raw_value =
  rv_val :: bvalue
  rv_raw :: bytes

definition decode_raw :: "bytes \<Rightarrow> raw_value res" where
  "decode_raw data =
     (case decode_value data of
        Inl e \<Rightarrow> Inl e
      | Inr (v, rest) \<Rightarrow>
          Inr \<lparr>rv_val = v, rv_raw = take (length data - length rest) data\<rparr>)"

text \<open>The loop of \<open>DecodeDictRaw\<close>, after the leading \<open>d\<close>.\<close>

function decode_dict_raw_loop ::
    "(bytes \<times> raw_value) list \<Rightarrow> bytes option \<Rightarrow> bytes \<Rightarrow> (bytes \<times> raw_value) list res"
where
  "decode_dict_raw_loop result prev data =
     (if data = [] then Inl UnexpectedEnd
      else if hd data = 101 then Inr result
      else case decode_string data of
        Inl e \<Rightarrow> Inl e
      | Inr (key, rest) \<Rightarrow>
          (if (case prev of None \<Rightarrow> False | Some p \<Rightarrow> key \<le> p) then Inl InvalidFormat
           else case decode_value rest of
             Inl e \<Rightarrow> Inl e
           | Inr (v, rest2) \<Rightarrow>
               decode_dict_raw_loop
                 (result @ [(key, \<lparr>rv_val = v, rv_raw = take (length rest - length rest2) rest\<rparr>)])
                 (Some key) rest2))"
  by pat_completeness auto

termination
  by (relation "measure (\<lambda>(result, prev, data). length data)")
     (auto dest!: bencode_reader.dec_shorter bstring_reader.dec_shorter)

declare decode_dict_raw_loop.simps [simp del]

definition decode_dict_raw :: "bytes \<Rightarrow> (bytes \<times> raw_value) list res" where
  "decode_dict_raw data =
     (if data = [] \<or> hd data \<noteq> 100 then Inl InvalidFormat
      else decode_dict_raw_loop [] None (drop 1 data))"

section \<open>Reading a dictionary\<close>

text \<open>
  \<open>d[key].(String)\<close> and the like of the packages that consume bencode: the comma-ok forms
  of a map lookup followed by a type assertion.
\<close>

definition dict_get :: "bdict \<Rightarrow> string \<Rightarrow> bvalue option" where
  "dict_get d k = map_of d (str k)"

definition get_string :: "bdict \<Rightarrow> string \<Rightarrow> bytes option" where
  "get_string d k = (case dict_get d k of Some (BString s) \<Rightarrow> Some s | _ \<Rightarrow> None)"

definition get_int :: "bdict \<Rightarrow> string \<Rightarrow> 64 word option" where
  "get_int d k = (case dict_get d k of Some (BInt i) \<Rightarrow> Some i | _ \<Rightarrow> None)"

definition int_or_zero :: "bdict \<Rightarrow> string \<Rightarrow> int" where
  "int_or_zero d k = (case get_int d k of Some i \<Rightarrow> sint i | None \<Rightarrow> 0)"

definition get_list :: "bdict \<Rightarrow> string \<Rightarrow> bvalue list option" where
  "get_list d k = (case dict_get d k of Some (BList vs) \<Rightarrow> Some vs | _ \<Rightarrow> None)"

definition get_dict :: "bdict \<Rightarrow> string \<Rightarrow> bdict option" where
  "get_dict d k = (case dict_get d k of Some (BDict e) \<Rightarrow> Some e | _ \<Rightarrow> None)"

text \<open>\<open>d[key] = v\<close> on a map.\<close>

primrec dict_set :: "bytes \<Rightarrow> bvalue \<Rightarrow> bdict \<Rightarrow> bdict" where
  "dict_set k v [] = [(k, v)]"
| "dict_set k v (p # d) = (if fst p = k then (k, v) # d else p # dict_set k v d)"

section \<open>Encodings as concatenations\<close>

definition enc_string :: "bytes \<Rightarrow> bytes" where
  "enc_string s = append_string [] s"

definition enc_entry :: "bytes \<times> bvalue \<Rightarrow> bytes" where
  "enc_entry p = enc_string (fst p) @ encode (snd p)"

lemma append_string_eq: "append_string buf s = buf @ enc_string s"
  by (simp add: append_string_def enc_string_def)

lemma foldl_append_eq:
  assumes "\<And>x buf. x \<in> set xs \<Longrightarrow> f buf x = buf @ g x"
  shows "foldl f buf xs = buf @ concat (map g xs)"
  using assms by (induction xs arbitrary: buf) simp_all

text \<open>The buffer argument is a prefix of the result: the encoder only appends.\<close>

lemma append_encoded_eq: "append_encoded buf v = buf @ encode v"
proof (induction v arbitrary: buf)
  case (BList vs)
  then have "foldl append_encoded b vs = b @ concat (map encode vs)" for b
    by (intro foldl_append_eq) simp
  then show ?case by (simp add: encode_def)
next
  case (BDict d)
  have "append_encoded (append_string b (fst p)) (snd p) = b @ enc_entry p"
    if "p \<in> set (sort_key fst d)" for b p
  proof -
    from that have "p \<in> set d" "snd p \<in> Basic_BNFs.snds p" by (simp_all add: snds.simps)
    then show ?thesis by (simp add: append_string_eq enc_entry_def BDict)
  qed
  then have "foldl (\<lambda>b p. append_encoded (append_string b (fst p)) (snd p)) b (sort_key fst d) =
      b @ concat (map enc_entry (sort_key fst d))" for b
    by (rule foldl_append_eq)
  then show ?case by (simp add: encode_def)
qed (simp_all add: encode_def append_string_eq)

lemma encode_simps [simp]:
  "encode (BString s) = enc_string s"
  "encode (BInt i) = 105 # itoa (sint i) @ [101]"
  "encode (BList vs) = 108 # concat (map encode vs) @ [101]"
  "encode (BDict d) = 100 # concat (map enc_entry (sort_key fst d)) @ [101]"
proof -
  have l: "foldl append_encoded b vs = b @ concat (map encode vs)" for b
    by (rule foldl_append_eq) (rule append_encoded_eq)
  have d: "foldl (\<lambda>b p. append_encoded (append_string b (fst p)) (snd p)) b ps =
      b @ concat (map enc_entry ps)" for b ps
    by (rule foldl_append_eq) (simp add: append_encoded_eq append_string_eq enc_entry_def)
  show "encode (BString s) = enc_string s"
    "encode (BInt i) = 105 # itoa (sint i) @ [101]"
    "encode (BList vs) = 108 # concat (map encode vs) @ [101]"
    "encode (BDict d) = 100 # concat (map enc_entry (sort_key fst d)) @ [101]"
    by (simp_all add: encode_def l d) (simp add: append_string_eq)
qed

section \<open>Decoding an encoding\<close>

text \<open>
  Strings are shorter than \<open>2^62\<close> bytes, which any Go slice that fits in memory is; the
  bound keeps the end index of \<open>decodeString\<close> from wrapping around.
\<close>

definition small :: "bytes \<Rightarrow> bool" where
  "small s \<longleftrightarrow> length s < 2 ^ 62"

lemma enc_string_eq: "enc_string s = dec_digits (length s) @ 58 # s"
  by (simp add: enc_string_def append_string_def itoa_def)

lemma decode_string_enc:
  assumes "small s"
  shows "decode_string (enc_string s @ rest) = Inr (s, rest)"
proof -
  let ?n = "length s" and ?k = "length (dec_digits (length s))"
  have n: "?n < 2 ^ 62" using assms by (simp add: small_def)
  then have k: "?k \<le> 19" by (intro length_dec_digits_le) simp_all
  have sc: "scan_colon 0 (enc_string s @ rest) = Inr ?k"
    by (simp add: enc_string_eq scan_colon_digits set_dec_digits)
  have itoa: "dec_digits ?n = itoa (int ?n)" by (simp add: itoa_def)
  have ps: "parse_int64 (dec_digits ?n) = Inr (int ?n)"
    unfolding itoa using n by (intro parse_int64_itoa) (simp add: in_int64_def)
  have "wrap64 (int ?k + 1 + int ?n) = int ?k + 1 + int ?n"
    using n k by (intro wrap64_id) (simp add: in_int64_def)
  moreover have "nat (int ?k + 1 + int ?n) = Suc (?k + ?n)" "nat (int ?k + 1) = Suc ?k"
    by simp_all
  ultimately show ?thesis
    by (simp add: decode_string_def sc) (simp add: ps Let_def enc_string_eq slice_def)
qed

lemma hd_enc_string: "\<exists>b bs. enc_string s = b # bs \<and> is_digit b"
  using hd_dec_digits [of "length s"]
  by (cases "dec_digits (length s)") (auto simp: enc_string_eq)

lemma itoa_chars: "b \<in> set (itoa i) \<Longrightarrow> is_digit b \<or> b = 45"
  using set_dec_digits by (auto simp: itoa_def split: if_splits)

lemma decode_int_enc: "decode_int (105 # itoa (sint i) @ 101 # rest) = Inr (i, rest)"
proof -
  let ?s = "itoa (sint i)"
  have "101 \<notin> set ?s" by (auto dest: itoa_chars simp: is_digit_def)
  then have idx: "index_byte 101 (?s @ 101 # rest) = Some (length ?s)"
    by (rule index_byte_append)
  have lz: "\<not> (1 < length ?s \<and> hd ?s = 48)"
    using hd_dec_digits_zero [of "nat (sint i)"] length_dec_digits_gt1 [of "nat (sint i)"]
    by (auto simp: itoa_def)
  have "?s \<noteq> [45, 48]"
  proof
    assume "?s = [45, 48]"
    then have "sint i < 0" "dec_digits (nat (- sint i)) = [48]"
      using hd_dec_digits [of "nat (sint i)"]
      by (auto simp: itoa_def is_digit_def split: if_splits)
    then show False using hd_dec_digits_zero [of "nat (- sint i)"] by simp
  qed
  moreover have "in_int64 (sint i)"
    using sint_range_size [of i] by (simp add: in_int64_def word_size)
  moreover have "0 < length ?s" by simp
  ultimately show ?thesis
    using lz by (simp add: decode_int_def idx Let_def slice_def parse_int64_itoa del: length_greater_0_conv)
qed

text \<open>
  \<open>norm\<close> puts every dictionary in key order, which is the only way in which a decoded value
  can differ from the encoded one. \<open>wf_value\<close>: the keys of a map are distinct.
\<close>

fun norm :: "bvalue \<Rightarrow> bvalue" where
  "norm (BString s) = BString s"
| "norm (BInt i) = BInt i"
| "norm (BList vs) = BList (map norm vs)"
| "norm (BDict d) = BDict (map (\<lambda>p. (fst p, norm (snd p))) (sort_key fst d))"

fun wf_value :: "bvalue \<Rightarrow> bool" where
  "wf_value (BString s) = small s"
| "wf_value (BInt i) = True"
| "wf_value (BList vs) = (\<forall>v \<in> set vs. wf_value v)"
| "wf_value (BDict d) = (distinct (map fst d) \<and> (\<forall>p \<in> set d. small (fst p) \<and> wf_value (snd p)))"

fun canonical :: "bvalue \<Rightarrow> bool" where
  "canonical (BString s) = small s"
| "canonical (BInt i) = True"
| "canonical (BList vs) = (\<forall>v \<in> set vs. canonical v)"
| "canonical (BDict d) =
     (sorted_wrt (<) (map fst d) \<and> (\<forall>p \<in> set d. small (fst p) \<and> canonical (snd p)))"

lemma wf_value_if_canonical: "canonical v \<Longrightarrow> wf_value v"
  by (induction v rule: canonical.induct) (auto simp: strict_sorted_iff)

lemma norm_if_canonical: "canonical v \<Longrightarrow> norm v = v"
proof (induction v rule: canonical.induct)
  case (3 vs)
  then show ?case by (auto intro: map_idI)
next
  case (4 d)
  then have "sort_key fst d = d"
    by (intro sort_key_id_if_sorted) (simp add: strict_sorted_iff)
  with 4 show ?case by (auto intro!: map_idI)
qed simp_all

lemma encode_Cons: "\<exists>b bs. encode v = b # bs \<and> b \<noteq> 101"
proof (cases v)
  case (BString s)
  obtain b bs where "enc_string s = b # bs" "is_digit b" using hd_enc_string by blast
  then show ?thesis using BString by auto
qed simp_all

lemma decode_list_enc:
  assumes "\<And>v rest. v \<in> set vs \<Longrightarrow> decode_value (encode v @ rest) = Inr (norm v, rest)"
  shows "decode_list items (concat (map encode vs) @ 101 # rest) = Inr (items @ map norm vs, rest)"
  using assms
proof (induction vs arbitrary: items)
  case Nil
  then show ?case by (simp add: decode_list.simps)
next
  case (Cons v vs)
  obtain b bs where b: "encode v = b # bs" "b \<noteq> 101" using encode_Cons by blast
  have "decode_value (b # bs @ concat (map encode vs) @ 101 # rest) =
      Inr (norm v, concat (map encode vs) @ 101 # rest)"
    using Cons.prems [of v "concat (map encode vs) @ 101 # rest"] b(1) by simp
  moreover have "decode_list (items @ [norm v]) (concat (map encode vs) @ 101 # rest) =
      Inr ((items @ [norm v]) @ map norm vs, rest)"
    by (rule Cons.IH) (simp add: Cons.prems)
  ultimately show ?case by (simp add: b decode_list.simps)
qed

lemma decode_dict_enc:
  assumes "\<And>p rest. p \<in> set d \<Longrightarrow>
      small (fst p) \<and> decode_value (encode (snd p) @ rest) = Inr (norm (snd p), rest)"
    and "sorted_wrt (<) (map fst d)"
    and "case prev of None \<Rightarrow> True | Some k \<Rightarrow> \<forall>p \<in> set d. k < fst p"
  shows "decode_dict dict prev (concat (map enc_entry d) @ 101 # rest) =
    Inr (dict @ map (\<lambda>p. (fst p, norm (snd p))) d, rest)"
  using assms
proof (induction d arbitrary: dict prev)
  case Nil
  then show ?case by (simp add: decode_dict.simps)
next
  case (Cons p d)
  let ?rest = "concat (map enc_entry d) @ 101 # rest"
  obtain b bs where b: "enc_string (fst p) = b # bs" "is_digit b" using hd_enc_string by blast
  have p: "small (fst p)" "decode_value (encode (snd p) @ ?rest) = Inr (norm (snd p), ?rest)"
    using Cons.prems(1) [of p ?rest] by simp_all
  then have key: "decode_string (b # bs @ encode (snd p) @ ?rest) = Inr (fst p, encode (snd p) @ ?rest)"
    using decode_string_enc [of "fst p" "encode (snd p) @ ?rest"] b(1) by simp
  have prev: "\<not> (case prev of None \<Rightarrow> False | Some k \<Rightarrow> fst p \<le> k)"
    using Cons.prems(3) by (auto split: option.splits)
  have "decode_dict (dict @ [(fst p, norm (snd p))]) (Some (fst p)) ?rest =
      Inr ((dict @ [(fst p, norm (snd p))]) @ map (\<lambda>p. (fst p, norm (snd p))) d, rest)"
    by (rule Cons.IH) (use Cons.prems in auto)
  then show ?case
    using b p key prev by (simp add: enc_entry_def [of p] decode_dict.simps)
qed

theorem decode_value_encode:
  "wf_value v \<Longrightarrow> decode_value (encode v @ rest) = Inr (norm v, rest)"
proof (induction v arbitrary: rest)
  case (BString s)
  obtain b bs where b: "enc_string s = b # bs" "is_digit b" using hd_enc_string by blast
  then have "b \<noteq> 105" "b \<noteq> 108" "b \<noteq> 100" "48 \<le> b \<and> b \<le> 57" by (auto simp: is_digit_def)
  moreover have "decode_string (b # bs @ rest) = Inr (s, rest)"
    using decode_string_enc [of s rest] BString b by simp
  ultimately show ?case by (simp add: b decode_value.simps)
next
  case (BInt i)
  then show ?case by (simp add: decode_value.simps decode_int_enc)
next
  case (BList vs)
  then have "decode_list [] (concat (map encode vs) @ 101 # rest) = Inr ([] @ map norm vs, rest)"
    by (intro decode_list_enc) auto
  then show ?case by (simp add: decode_value.simps)
next
  case (BDict d)
  have "decode_dict [] None (concat (map enc_entry (sort_key fst d)) @ 101 # rest) =
      Inr ([] @ map (\<lambda>p. (fst p, norm (snd p))) (sort_key fst d), rest)"
  proof (rule decode_dict_enc)
    fix p rest assume "p \<in> set (sort_key fst d)"
    then show "small (fst p) \<and> decode_value (encode (snd p) @ rest) = Inr (norm (snd p), rest)"
      using BDict by (auto simp: snds.simps)
  next
    show "sorted_wrt (<) (map fst (sort_key fst d))"
      using BDict.prems by (simp add: strict_sorted_iff distinct_map distinct_sort inj_on_def)
  qed simp
  then show ?case by (simp add: decode_value.simps)
qed

interpretation bencode: stream_codec encode decode_value canonical
  by unfold_locales (simp add: decode_value_encode wf_value_if_canonical norm_if_canonical)

interpretation bstring: stream_codec enc_string decode_string small
  by unfold_locales (rule decode_string_enc)

lemma decode_encode [codec_simps]: "wf_value v \<Longrightarrow> decode (encode v) = Inr (norm v)"
  using decode_value_encode [of v "[]"] by (simp add: decode_def)

section \<open>Looking up keys of a normalised dictionary\<close>

definition norm_dict :: "bdict \<Rightarrow> bdict" where
  "norm_dict d = map (\<lambda>p. (fst p, norm (snd p))) (sort_key fst d)"

lemma norm_BDict: "norm (BDict d) = BDict (norm_dict d)"
  by (simp add: norm_dict_def)

lemma norm_dict_canonical [simp]: "canonical (BDict d) \<Longrightarrow> norm_dict d = d"
  using norm_if_canonical [of "BDict d"] by (simp only: norm_BDict bvalue.inject)

lemma decode_encode_dict: "wf_value (BDict d) \<Longrightarrow> decode (encode (BDict d)) = Inr (BDict (norm_dict d))"
  by (simp only: decode_encode norm_BDict)

lemma map_of_map_snd: "map_of (map (\<lambda>p. (fst p, f (snd p))) d) k = map_option f (map_of d k)"
  by (induction d) auto

lemma map_of_sort_key: "distinct (map fst d) \<Longrightarrow> map_of (sort_key fst d) = map_of d"
  by (subst map_of_inject_set) (simp_all add: distinct_map distinct_sort)

lemma dict_get_norm: "distinct (map fst d) \<Longrightarrow> dict_get (norm_dict d) k = map_option norm (dict_get d k)"
  by (simp add: dict_get_def norm_dict_def map_of_map_snd map_of_sort_key)

lemma get_norm:
  assumes "distinct (map fst d)"
  shows "get_string (norm_dict d) k = get_string d k"
    and "get_int (norm_dict d) k = get_int d k"
    and "get_list (norm_dict d) k = map_option (map norm) (get_list d k)"
    and "get_dict (norm_dict d) k = map_option norm_dict (get_dict d k)"
  using dict_get_norm [OF assms, of k]
  by (cases "dict_get d k"; cases "the (dict_get d k)";
      simp add: get_string_def get_int_def get_list_def get_dict_def norm_dict_def)+

section \<open>Decoded values are canonical\<close>

lemma decode_string_length: "decode_string data = Inr (s, rest) \<Longrightarrow> length s \<le> length data"
  by (auto simp: decode_string_def Let_def split: sum.splits if_splits)

definition keys_upto :: "bdict \<Rightarrow> bytes option \<Rightarrow> bool" where
  "keys_upto dict prev \<longleftrightarrow> (\<forall>p \<in> set dict. \<exists>k. prev = Some k \<and> fst p \<le> k)"

lemma canonical_snoc:
  assumes "canonical (BDict dict)" "keys_upto dict prev" "small key" "canonical v"
    and "\<not> (case prev of None \<Rightarrow> False | Some p \<Rightarrow> key \<le> p)"
  shows "canonical (BDict (dict @ [(key, v)]))" "keys_upto (dict @ [(key, v)]) (Some key)"
  using assms by (fastforce simp: keys_upto_def sorted_wrt_append split: option.splits)+

lemma decode_canonical:
  "decode_value data = Inr (v, rest) \<Longrightarrow> length data < 2 ^ 62 \<Longrightarrow> canonical v"
  "decode_list items data = Inr (vs, rest) \<Longrightarrow> length data < 2 ^ 62 \<Longrightarrow>
     \<forall>x \<in> set items. canonical x \<Longrightarrow> \<forall>x \<in> set vs. canonical x"
  "decode_dict dict prev data = Inr (d, rest) \<Longrightarrow> length data < 2 ^ 62 \<Longrightarrow>
     canonical (BDict dict) \<Longrightarrow> keys_upto dict prev \<Longrightarrow> canonical (BDict d)"
proof (induction data and items data and dict prev data arbitrary: v rest and vs rest and d rest
    rule: decode_value_decode_list_decode_dict.induct)
  case (2 b bs)
  show ?case
    using "2.prems" "2.IH"
    by (auto simp: decode_value.simps keys_upto_def small_def split: sum.splits if_splits
        dest: decode_string_length)
next
  case (4 items b bs)
  show ?case
  proof (cases "b = 101")
    case False
    with "4.prems" obtain v rest1 where v: "decode_value (b # bs) = Inr (v, rest1)"
      and vs: "decode_list (items @ [v]) rest1 = Inr (vs, rest)"
      by (auto simp: decode_list.simps split: sum.splits)
    have len: "length rest1 < 2 ^ 62"
      using bencode_reader.dec_shorter [OF v] "4.prems"(2) by linarith
    have "canonical v" using "4.IH"(1) [OF False v "4.prems"(2)] .
    then have "\<forall>x \<in> set (items @ [v]). canonical x" using "4.prems"(3) by simp
    then show ?thesis by (rule "4.IH"(2) [OF False v refl vs len])
  qed (use "4.prems" in \<open>simp add: decode_list.simps\<close>)
next
  case (6 dict prev b bs)
  show ?case
  proof (cases "b = 101")
    case False
    with "6.prems" obtain key rest1 v rest2 where k: "decode_string (b # bs) = Inr (key, rest1)"
      and prev: "\<not> (case prev of None \<Rightarrow> False | Some p \<Rightarrow> key \<le> p)"
      and v: "decode_value rest1 = Inr (v, rest2)"
      and d: "decode_dict (dict @ [(key, v)]) (Some key) rest2 = Inr (d, rest)"
      by (auto simp: decode_dict.simps split: sum.splits if_splits)
    have len: "length rest1 < 2 ^ 62" "length rest2 < 2 ^ 62"
      using bstring_reader.dec_shorter [OF k] bencode_reader.dec_shorter [OF v] "6.prems"(2)
      by linarith+
    have "small key" using decode_string_length [OF k] "6.prems"(2) by (simp add: small_def)
    moreover have "canonical v" using "6.IH"(1) [OF False k refl prev v] len by simp
    ultimately show ?thesis
      using "6.IH"(2) [OF False k refl prev v refl d] len canonical_snoc "6.prems"(3,4) prev
      by blast
  qed (use "6.prems" in \<open>simp add: decode_dict.simps\<close>)
qed (simp_all add: decode_simps)

section \<open>The raw decoder agrees with the decoder\<close>

definition raw_ok :: "bytes \<Rightarrow> raw_value \<Rightarrow> bool" where
  "raw_ok data r \<longleftrightarrow> decode (rv_raw r) = Inr (rv_val r) \<and> sublist (rv_raw r) data"

abbreviation raw_vals :: "(bytes \<times> raw_value) list \<Rightarrow> bdict" where
  "raw_vals \<equiv> map (\<lambda>p. (fst p, rv_val (snd p)))"

lemma raw_ok_cut:
  assumes "decode_value data = Inr (v, rest)" "raw = take (length data - length rest) data"
  shows "raw_ok data \<lparr>rv_val = v, rv_raw = raw\<rparr>"
  using bencode_reader.dec_raw [OF assms(1), of "[]"] assms(2)
  by (simp add: raw_ok_def decode_def)

lemma raw_ok_suffix: "raw_ok rest r \<Longrightarrow> suffix rest data \<Longrightarrow> raw_ok data r"
  unfolding raw_ok_def by (blast intro: sublist_order.order_trans suffix_imp_sublist)

lemma reads_suffix: "reads f data x rest \<Longrightarrow> suffix rest data"
  by (auto simp: reads_def suffix_def)

lemma decode_dict_raw_loop_eq:
  "case decode_dict (raw_vals result) prev data of
     Inl e \<Rightarrow> decode_dict_raw_loop result prev data = Inl e
   | Inr (d, rest) \<Rightarrow> \<exists>new. decode_dict_raw_loop result prev data = Inr (result @ new) \<and>
       d = raw_vals (result @ new) \<and> (\<forall>p \<in> set new. raw_ok data (snd p))"
proof (induction result prev data rule: decode_dict_raw_loop.induct)
  case (1 result prev data)
  show ?case
  proof (cases data)
    case Nil
    then show ?thesis by (simp add: decode_dict.simps decode_dict_raw_loop.simps [of _ _ "[]"])
  next
    case (Cons b bs)
    note unf = decode_dict.simps decode_dict_raw_loop.simps [of result prev "b # bs"] Cons
    consider (stop) "b = 101"
      | (err) "b \<noteq> 101" "\<nexists>key rest v rest2. decode_string data = Inr (key, rest) \<and>
          \<not> (case prev of None \<Rightarrow> False | Some p \<Rightarrow> key \<le> p) \<and> decode_value rest = Inr (v, rest2)"
      | (entry) key rest v rest2 where "b \<noteq> 101" "decode_string data = Inr (key, rest)"
          "\<not> (case prev of None \<Rightarrow> False | Some p \<Rightarrow> key \<le> p)" "decode_value rest = Inr (v, rest2)"
      by blast
    then show ?thesis
    proof cases
      case stop
      then show ?thesis
        by (simp add: Cons decode_dict.simps decode_dict_raw_loop.simps [of result prev "101 # bs"])
    next
      case err
      then show ?thesis by (auto simp: unf split: sum.splits)
    next
      case entry
      note b = entry(1) and k = entry(2) and prev = entry(3) and v = entry(4)
      define raw where "raw = take (length rest - length rest2) rest"
      have suf: "suffix rest data" "suffix rest2 rest"
        using decode_string_reads [OF k] decode_reads(1) [OF v] by (simp_all add: reads_suffix)
      have "raw_ok data \<lparr>rv_val = v, rv_raw = raw\<rparr>"
        using raw_ok_suffix [OF raw_ok_cut [OF v raw_def] suf(1)] .
      moreover have "suffix rest2 data" using suf by (meson suffix_order.order_trans)
      moreover have hd: "data \<noteq> []" "hd data \<noteq> 101" using Cons b by simp_all
      note "1.IH" [OF hd k refl prev v refl, folded raw_def]
      ultimately show ?thesis
        using b k prev v
        by (fastforce simp: unf raw_def [symmetric] split: sum.splits intro: raw_ok_suffix)
    qed
  qed
qed

lemma parse_digits_nonneg:
  assumes "\<forall>b \<in> set ds. is_digit b" "parse_int64 ds = Inr n"
  shows "0 \<le> n" "n < 2 ^ 63"
proof -
  have "(case ds of [] \<Rightarrow> (False, []) | b # bs \<Rightarrow> if b = 43 then (False, bs)
      else if b = 45 then (True, bs) else (False, ds)) = (False, ds)"
    using assms(1) by (cases ds) auto
  with assms(2) show "0 \<le> n" "n < 2 ^ 63"
    by (auto simp: parse_int64_def split: option.splits if_splits)
qed

lemma scan_colon_Inl: "scan_colon i data = Inl e \<Longrightarrow> e = InvalidFormat"
  by (induction data arbitrary: i) (auto split: if_splits)

text \<open>What \<open>DecodeDictRaw\<close> reads from an encoded dictionary: every raw value is its encoding.\<close>

definition raw_entry :: "bytes \<times> bvalue \<Rightarrow> bytes \<times> raw_value" where
  "raw_entry p = (fst p, \<lparr>rv_val = norm (snd p), rv_raw = encode (snd p)\<rparr>)"

lemma decode_dict_raw_loop_enc:
  assumes "\<forall>p \<in> set d. small (fst p) \<and> wf_value (snd p)"
    and "sorted_wrt (<) (map fst d)"
    and "case prev of None \<Rightarrow> True | Some k \<Rightarrow> \<forall>p \<in> set d. k < fst p"
  shows "decode_dict_raw_loop result prev (concat (map enc_entry d) @ 101 # rest) =
    Inr (result @ map raw_entry d)"
  using assms
proof (induction d arbitrary: result prev)
  case Nil
  then show ?case by (simp add: decode_dict_raw_loop.simps)
next
  case (Cons p d)
  let ?rest = "concat (map enc_entry d) @ 101 # rest"
  obtain b bs where b: "enc_string (fst p) = b # bs" "is_digit b" using hd_enc_string by blast
  have p: "small (fst p)" "decode_value (encode (snd p) @ ?rest) = Inr (norm (snd p), ?rest)"
    using Cons.prems(1) decode_value_encode [of "snd p" ?rest] by simp_all
  then have key: "decode_string (b # bs @ encode (snd p) @ ?rest) = Inr (fst p, encode (snd p) @ ?rest)"
    using decode_string_enc [of "fst p" "encode (snd p) @ ?rest"] b(1) by simp
  have prev: "\<not> (case prev of None \<Rightarrow> False | Some k \<Rightarrow> fst p \<le> k)"
    using Cons.prems(3) by (auto split: option.splits)
  have "decode_dict_raw_loop (result @ [raw_entry p]) (Some (fst p)) ?rest =
      Inr ((result @ [raw_entry p]) @ map raw_entry d)"
    by (rule Cons.IH) (use Cons.prems in auto)
  then show ?case
    using b p key prev
    by (simp add: enc_entry_def [of p] decode_dict_raw_loop.simps [of result] raw_entry_def [of p])
qed

lemma decode_dict_raw_encode:
  assumes "wf_value (BDict d)"
  shows "decode_dict_raw (encode (BDict d)) = Inr (map raw_entry (sort_key fst d))"
proof -
  have "sorted_wrt (<) (map fst (sort_key fst d))"
    using assms by (simp add: strict_sorted_iff distinct_map)
  then show ?thesis
    using assms decode_dict_raw_loop_enc [of "sort_key fst d" None "[]" "[]"]
    by (simp add: decode_dict_raw_def)
qed

lemma map_of_raw_entries:
  assumes "distinct (map fst d)"
  shows "map_of (map raw_entry (sort_key fst d)) k =
    map_option (\<lambda>v. \<lparr>rv_val = norm v, rv_raw = encode v\<rparr>) (map_of d k)"
proof -
  have "map_of (map raw_entry e) k = map_option (\<lambda>v. \<lparr>rv_val = norm v, rv_raw = encode v\<rparr>) (map_of e k)" for e
    by (induction e) (auto simp: raw_entry_def)
  then show ?thesis by (simp add: map_of_sort_key [OF assms])
qed

lemma raw_values_decode:
  assumes "decode_dict_raw data = Inr rs" "p \<in> set rs"
  shows "decode (rv_raw (snd p)) = Inr (rv_val (snd p))"
proof -
  have "decode_dict_raw_loop [] None (drop 1 data) = Inr rs" using assms(1) by (simp add: decode_dict_raw_def split: if_splits)
  then show ?thesis
    using decode_dict_raw_loop_eq [of "[]" None "drop 1 data"] assms(2)
    by (auto simp: raw_ok_def split: sum.splits prod.splits)
qed

section \<open>Properties\<close>

text \<open>
  C4. Encoding and decoding are inverse: whatever value is encoded (with distinct dictionary
  keys, as a Go map has), \<open>Decode\<close> returns it with its dictionaries in key order, and a
  value already in key order is returned unchanged. \<open>DecodeFirst\<close> does the same when any
  bytes follow, and reports exactly the length of the encoding as consumed.
\<close>

theorem bencode_roundtrip:
  assumes "wf_value v"
  shows "decode (encode v) = Inr (norm v) \<and> (canonical v \<longrightarrow> norm v = v) \<and>
    decode_first (encode v @ rest) = Inr (norm v, length (encode v))"
  using assms decode_value_encode [of v rest]
  by (simp_all add: decode_encode norm_if_canonical decode_first_def)

theorem bencode_roundtrip_witness:
  "decode (encode (BDict [(str ''b'', BInt 7), (str ''a'', BList [BString (str ''x'')])])) =
    Inr (BDict [(str ''a'', BList [BString (str ''x'')]), (str ''b'', BInt 7)])"
  using bencode_roundtrip
    [of "BDict [(str ''b'', BInt 7), (str ''a'', BList [BString (str ''x'')])]"]
  by (simp add: small_def)

text \<open>
  C24. What the decoder accepts is canonical: the keys of every dictionary are strictly
  ascending (so no key is lost or overwritten), and encoding the decoded value and decoding
  again gives the same value, although the input itself need not be the canonical encoding.
\<close>

theorem decode_reencode:
  assumes "decode data = Inr v" "length data < 2 ^ 62"
  shows "canonical v \<and> decode (encode v) = Inr v"
proof -
  have "canonical v"
    using assms by (auto simp: decode_def split: sum.splits if_splits intro: decode_canonical(1))
  then show ?thesis
    by (simp add: decode_encode wf_value_if_canonical norm_if_canonical)
qed

theorem decode_reencode_witness:
  "decode (str ''i+5e'') = Inr (BInt 5) \<and> decode (encode (BInt 5)) = Inr (BInt 5)"
proof -
  have "decode (str ''i+5e'') = Inr (BInt 5)"
    by (simp add: decode_def decode_value.simps decode_int_def slice_def parse_int64_def
        parse_digits_def is_digit_def)
  then show ?thesis using decode_reencode [of "str ''i+5e''" "BInt 5"] by simp
qed

text \<open>
  C23. \<open>decodeString\<close> panics on some inputs: exactly when the declared length, added to the
  offset of the string's first byte, leaves the range of \<open>int\<close>. The sum wraps around to a
  negative number, passes the check against the input's length, and the slice expression
  fails at run time. Twenty bytes from the network are enough.
\<close>

theorem decode_string_panic_iff:
  assumes "length data < 2 ^ 63"
  shows "decode_string data = Inl Panic \<longleftrightarrow>
    (\<exists>ds r n. data = ds @ 58 # r \<and> (\<forall>b \<in> set ds. is_digit b) \<and> parse_int64 ds = Inr n \<and>
      2 ^ 63 \<le> int (length ds) + 1 + n)" (is "?L \<longleftrightarrow> ?R")
proof (cases "\<exists>ds r n. data = ds @ 58 # r \<and> (\<forall>b \<in> set ds. is_digit b) \<and> parse_int64 ds = Inr n")
  case True
  then obtain ds r n where d: "data = ds @ 58 # r" "\<forall>b \<in> set ds. is_digit b" "parse_int64 ds = Inr n"
    by blast
  have unique: "ds' = ds" if "data = ds' @ 58 # r'" "\<forall>b \<in> set ds'. is_digit b" for ds' r'
    using scan_colon_digits [OF that(2), of 0 r'] scan_colon_digits [OF d(2), of 0 r] that(1) d(1)
    by (metis Inr_inject add_0 append_eq_append_conv)
  note n = parse_digits_nonneg [OF d(2,3)]
  let ?k = "int (length ds) + 1 + n"
  have e: "decode_string data = Inl Panic \<longleftrightarrow>
      wrap64 ?k \<le> int (length data) \<and> wrap64 ?k < int (length ds) + 1"
    by (simp add: d decode_string_def scan_colon_digits Let_def)
  have "?L \<longleftrightarrow> 2 ^ 63 \<le> ?k"
  proof (cases "2 ^ 63 \<le> ?k")
    case True
    then have "wrap64 ?k = ?k - 2 ^ 64" using n assms d(1) by (intro wrap64_overflow) simp_all
    then show ?thesis using e True n assms d(1) by simp
  next
    case False
    then have "wrap64 ?k = ?k" using n by (intro wrap64_id) (simp add: in_int64_def)
    then show ?thesis using e False n by simp
  qed
  also have "\<dots> \<longleftrightarrow> ?R"
  proof
    assume "2 ^ 63 \<le> ?k"
    with d show ?R by blast
  next
    assume ?R
    then obtain ds' r' n' where "data = ds' @ 58 # r'" "\<forall>b \<in> set ds'. is_digit b"
      "parse_int64 ds' = Inr n'" "2 ^ 63 \<le> int (length ds') + 1 + n'" by blast
    moreover from this have "ds' = ds" using unique by blast
    ultimately show "2 ^ 63 \<le> ?k" using d(3) by simp
  qed
  finally show ?thesis .
next
  case False
  have "decode_string data \<noteq> Inl Panic"
  proof
    assume p: "decode_string data = Inl Panic"
    then obtain j where j: "scan_colon 0 data = Inr j"
      by (auto simp: decode_string_def dest: scan_colon_Inl split: sum.splits)
    then show False using p False scan_colon_Inr [OF j]
      by (auto simp: decode_string_def split: sum.splits)
  qed
  with False show ?thesis by blast
qed

theorem decode_string_panic_iff_witness:
  "decode_string (str ''9223372036854775807:'') = Inl Panic"
proof -
  let ?ds = "str ''9223372036854775807''"
  have "parse_int64 ?ds = Inr 9223372036854775807" "\<forall>b \<in> set ?ds. is_digit b"
    by (simp_all add: parse_int64_def parse_digits_def is_digit_def)
  then have "\<exists>ds r n. ?ds @ [58] = ds @ 58 # r \<and> (\<forall>b \<in> set ds. is_digit b) \<and>
      parse_int64 ds = Inr n \<and> 2 ^ 63 \<le> int (length ds) + 1 + n"
    by (intro exI [of _ ?ds] exI [of _ "[]"] exI [of _ 9223372036854775807]) (simp del: str_Cons)
  moreover have "length (?ds @ [58]) < 2 ^ 63" by (simp del: str_Cons)
  moreover have "str ''9223372036854775807:'' = ?ds @ [58]" by simp
  ultimately show ?thesis
    using decode_string_panic_iff [of "?ds @ [58]"] by metis
qed

text \<open>
  \<open>DecodeDictRaw\<close>, which the info-hash is computed from, agrees with \<open>Decode\<close>: on a
  dictionary it accepts the same inputs and returns the same keys and values, and the raw
  bytes of each entry are a contiguous part of the input that on its own decodes to exactly
  the entry's value.
\<close>

theorem decode_dict_raw_agrees:
  "case decode_value (100 # data) of
     Inl e \<Rightarrow> decode_dict_raw (100 # data) = Inl e
   | Inr (v, rest) \<Rightarrow> \<exists>rs. decode_dict_raw (100 # data) = Inr rs \<and>
       v = BDict (map (\<lambda>p. (fst p, rv_val (snd p))) rs) \<and>
       (\<forall>p \<in> set rs. decode (rv_raw (snd p)) = Inr (rv_val (snd p)) \<and>
          sublist (rv_raw (snd p)) data)"
  using decode_dict_raw_loop_eq [of "[]" None data]
  by (auto simp: decode_value.simps decode_dict_raw_def raw_ok_def split: sum.splits)

theorem decode_dict_raw_agrees_witness:
  "\<exists>rs. decode_dict_raw (str ''d3:foo4:spame'') = Inr rs \<and>
    map (\<lambda>p. (fst p, rv_val (snd p))) rs = [(str ''foo'', BString (str ''spam''))]"
proof -
  have "decode_value (100 # str ''3:foo4:spame'') =
      Inr (BDict [(str ''foo'', BString (str ''spam''))], [])"
    by (simp add: decode_simps decode_string_def parse_int64_def parse_digits_def is_digit_def
        wrap64_def Let_def slice_def)
  then show ?thesis
    using decode_dict_raw_agrees [of "str ''3:foo4:spame''"] by auto
qed

end
