(* ===== verification/DhtTable.thy ===== *)
theory DhtTable
  imports GoStd
begin

text \<open>
  The Kademlia routing table (\<open>dht/table.go\<close>): the XOR distance on 20-byte identifiers, the
  bucket index of a distance, and the table of 160 buckets with \<open>Insert\<close>, \<open>Remove\<close>,
  \<open>Closest\<close> and \<open>Len\<close>. Distances are related to the 160-bit numbers they stand for: the
  bucket index is the position of the highest set bit, and \<open>compareDist\<close> is the order of the
  numbers. The table keeps its invariant (\<open>table_ok\<close>): each node is in the bucket of its
  distance, once, and no bucket holds more than eight.
\<close>

section \<open>Identifiers, nodes and distances\<close>

text \<open>A \<open>NodeID\<close> is a \<open>[20]byte\<close>; \<open>net.UDPAddr\<close> is an IP address and a port.\<close>

definition id_ok :: "bytes \<Rightarrow> bool" where
  "id_ok i \<longleftrightarrow> length i = 20"

record udp_addr =
  ua_ip :: bytes
  ua_port :: int

record node =
  nd_id :: bytes
  nd_addr :: udp_addr

definition bucket_size :: nat where
  "bucket_size = 8"

definition xor_id :: "bytes \<Rightarrow> bytes \<Rightarrow> bytes" where
  "xor_id a b = map2 (XOR) a b"

text \<open>\<open>bits.LeadingZeros8\<close>: eight minus the number of bits of the value.\<close>

fun bit_len :: "nat \<Rightarrow> nat" where
  "bit_len n = (if n = 0 then 0 else Suc (bit_len (n div 2)))"

declare bit_len.simps [simp del]

definition leading_zeros8 :: "u8 \<Rightarrow> nat" where
  "leading_zeros8 b = 8 - bit_len (unat b)"

text \<open>The loop of \<open>BucketIndex\<close>, at byte \<open>i\<close> of the distance.\<close>

primrec bucket_index_from :: "nat \<Rightarrow> bytes \<Rightarrow> int" where
  "bucket_index_from i [] = - 1"
| "bucket_index_from i (b # bs) =
     (if b \<noteq> 0 then 159 - (int i * 8 + int (leading_zeros8 b))
      else bucket_index_from (Suc i) bs)"

definition bucket_index :: "bytes \<Rightarrow> int" where
  "bucket_index d = bucket_index_from 0 d"

fun compare_dist :: "bytes \<Rightarrow> bytes \<Rightarrow> int" where
  "compare_dist (a # as) (b # bs) =
     (if a < b then - 1 else if b < a then 1 else compare_dist as bs)"
| "compare_dist _ _ = 0"

section \<open>The routing table\<close>

record routing_table =
  rt_own :: bytes
  rt_buckets :: "node list list"

definition new_routing_table :: "bytes \<Rightarrow> routing_table" where
  "new_routing_table own = \<lparr>rt_own = own, rt_buckets = replicate 160 []\<rparr>"

text \<open>The loop that looks for an identifier and cuts its node out of the bucket.\<close>

primrec cut_node :: "bytes \<Rightarrow> node list \<Rightarrow> node list option" where
  "cut_node i [] = None"
| "cut_node i (n # ns) = (if nd_id n = i then Some ns else map_option (Cons n) (cut_node i ns))"

definition insert_node :: "routing_table \<Rightarrow> node \<Rightarrow> routing_table \<times> bool" where
  "insert_node rt n =
     (let idx = bucket_index (xor_id (rt_own rt) (nd_id n))
      in if idx < 0 then (rt, False)
         else
           let bucket = rt_buckets rt ! nat idx
           in case cut_node (nd_id n) bucket of
                Some bucket' \<Rightarrow>
                  (rt\<lparr>rt_buckets := (rt_buckets rt)[nat idx := bucket' @ [n]]\<rparr>, True)
              | None \<Rightarrow>
                  if bucket_size \<le> length bucket then (rt, False)
                  else (rt\<lparr>rt_buckets := (rt_buckets rt)[nat idx := bucket @ [n]]\<rparr>, True))"

definition remove_node :: "routing_table \<Rightarrow> bytes \<Rightarrow> routing_table" where
  "remove_node rt i =
     (let idx = bucket_index (xor_id (rt_own rt) i)
      in if idx < 0 then rt
         else case cut_node i (rt_buckets rt ! nat idx) of
           Some bucket' \<Rightarrow> rt\<lparr>rt_buckets := (rt_buckets rt)[nat idx := bucket']\<rparr>
         | None \<Rightarrow> rt)"

text \<open>
  \<open>Closest\<close> sorts all nodes by distance to the target. \<open>sort.Slice\<close> is not stable, but the
  distances of different nodes differ, so the sorted order is the only one there is
  (\<open>sorted_by_distance_unique\<close> below).
\<close>

definition table_nodes :: "routing_table \<Rightarrow> node list" where
  "table_nodes rt = concat (rt_buckets rt)"

definition closest :: "routing_table \<Rightarrow> bytes \<Rightarrow> nat \<Rightarrow> node list" where
  "closest rt target n =
     (let all = sort_key (\<lambda>nd. xor_id (nd_id nd) target) (table_nodes rt)
      in if n < length all then take n all else all)"

definition table_len :: "routing_table \<Rightarrow> nat" where
  "table_len rt = sum_list (map length (rt_buckets rt))"

section \<open>Distances as numbers\<close>

primrec be_nat :: "bytes \<Rightarrow> nat" where
  "be_nat [] = 0"
| "be_nat (b # bs) = unat b * 256 ^ length bs + be_nat bs"

lemma unat_u8_less [simp]: "unat (b :: u8) < 256"
  using unsigned_less [of b, where 'a = nat] by simp

lemma be_nat_less: "be_nat bs < 256 ^ length bs"
proof (induction bs)
  case (Cons b bs)
  have "unat b * 256 ^ length bs + be_nat bs < unat b * 256 ^ length bs + 256 ^ length bs"
    using Cons by simp
  also have "\<dots> = Suc (unat b) * 256 ^ length bs" by simp
  also have "\<dots> \<le> 256 * 256 ^ length bs"
    using unat_u8_less [of b] by (intro mult_le_mono1) linarith
  finally show ?case by simp
qed simp

lemma be_nat_less_iff: "length xs = length ys \<Longrightarrow> be_nat xs < be_nat ys \<longleftrightarrow> xs < ys"
proof (induction xs ys rule: list_induct2)
  case (Cons x xs y ys)
  have "unat a * 256 ^ length zs + m < unat b * 256 ^ length zs + n"
    if "unat a < unat b" "m < 256 ^ length zs" for a b :: u8 and zs :: bytes and m n
  proof -
    have "unat a * 256 ^ length zs + m < Suc (unat a) * 256 ^ length zs" using that by simp
    also have "\<dots> \<le> unat b * 256 ^ length zs" using that by (intro mult_le_mono1) simp
    finally show ?thesis by simp
  qed
  from this [of x y "be_nat xs" xs "be_nat ys"] this [of y x "be_nat ys" xs "be_nat xs"]
  show ?case
    using Cons be_nat_less [of xs] be_nat_less [of ys]
    by (cases x y rule: linorder_cases) (auto simp: word_less_nat_alt)
qed simp

lemma be_nat_inj: "length xs = length ys \<Longrightarrow> be_nat xs = be_nat ys \<longleftrightarrow> xs = ys"
  using be_nat_less_iff [of xs ys] be_nat_less_iff [of ys xs] by (metis less_irrefl linorder_neqE)

lemma compare_dist_less: "length a = length b \<Longrightarrow> compare_dist a b < 0 \<longleftrightarrow> a < b"
  by (induction a b rule: list_induct2) auto

lemma compare_dist_eq: "length a = length b \<Longrightarrow> compare_dist a b = 0 \<longleftrightarrow> a = b"
  by (induction a b rule: list_induct2) auto

lemma bit_len_bounds: "n \<noteq> 0 \<Longrightarrow> 2 ^ (bit_len n - 1) \<le> n \<and> n < 2 ^ bit_len n \<and> 0 < bit_len n"
proof (induction n rule: bit_len.induct)
  case (1 n)
  show ?case
  proof (cases "n div 2 = 0")
    case True
    then have "n = 1" using "1.prems" by linarith
    then show ?thesis by (simp add: bit_len.simps)
  next
    case False
    with "1" have ih: "2 ^ (bit_len (n div 2) - 1) \<le> n div 2" "n div 2 < 2 ^ bit_len (n div 2)"
      "0 < bit_len (n div 2)" by auto
    then obtain k where k: "bit_len (n div 2) = Suc k" by (cases "bit_len (n div 2)") auto
    then have "bit_len n = Suc (Suc k)" using "1.prems" by (simp add: bit_len.simps [of n])
    with ih k show ?thesis by auto
  qed
qed

lemma bit_len_unat_le: "bit_len (unat (b :: u8)) \<le> 8"
proof (cases "unat b = 0")
  case False
  then have "2 ^ (bit_len (unat b) - 1) \<le> unat b" using bit_len_bounds by blast
  also have "\<dots> < 2 ^ 8" by simp
  finally have "bit_len (unat b) - 1 < 8" by (rule power_less_imp_less_exp [rotated]) simp
  then show ?thesis by simp
qed (simp add: bit_len.simps)

lemma bucket_index_from_bounds:
  assumes "i + length d = 20"
  shows "if be_nat d = 0 then bucket_index_from i d = - 1
    else 0 \<le> bucket_index_from i d \<and> bucket_index_from i d < 8 * int (length d) \<and>
      2 ^ nat (bucket_index_from i d) \<le> be_nat d \<and>
      be_nat d < 2 ^ Suc (nat (bucket_index_from i d))"
  using assms
proof (induction d arbitrary: i)
  case (Cons b d)
  show ?case
  proof (cases "b = 0")
    case True
    with Cons.IH [of "Suc i"] Cons.prems show ?thesis by (auto split: if_splits)
  next
    case False
    define L where "L = bit_len (unat b)"
    have "unat b \<noteq> 0" using False by (simp add: unat_eq_0)
    then have L: "2 ^ (L - 1) \<le> unat b" "unat b < 2 ^ L" "0 < L" "L \<le> 8"
      using bit_len_bounds [of "unat b"] bit_len_unat_le [of b] by (simp_all add: L_def)
    let ?m = "8 * length d"
    have m: "(256 :: nat) ^ length d = 2 ^ ?m" by (simp add: power_mult)
    have idx: "bucket_index_from i (b # d) = int (L - 1 + ?m)"
      using False L(3,4) Cons.prems by (simp add: leading_zeros8_def L_def [symmetric])
    have d: "be_nat d < 2 ^ ?m" using be_nat_less [of d] by (simp add: m)
    have "2 ^ (L - 1 + ?m) \<le> be_nat (b # d)"
      using L(1) by (simp add: m power_add trans_le_add1)
    moreover have "be_nat (b # d) < 2 ^ (L + ?m)"
    proof -
      have "be_nat (b # d) < Suc (unat b) * 2 ^ ?m" using d by (simp add: m)
      also have "\<dots> \<le> 2 ^ L * 2 ^ ?m" using L(2) by (intro mult_le_mono1) simp
      finally show ?thesis by (simp add: power_add)
    qed
    moreover have "be_nat (b # d) \<noteq> 0" using \<open>unat b \<noteq> 0\<close> by simp
    moreover have "Suc (L - 1 + ?m) = L + ?m" using L(3) by simp
    ultimately show ?thesis
      unfolding idx nat_int using L(4) by (simp del: be_nat.simps)
  qed
qed simp

lemma length_xor_id [simp]: "length (xor_id a b) = min (length a) (length b)"
  by (simp add: xor_id_def)

lemma nth_xor_id: "i < length a \<Longrightarrow> i < length b \<Longrightarrow> xor_id a b ! i = a ! i XOR b ! i"
  by (simp add: xor_id_def)

lemma xor_id_cancel: "length a = length b \<Longrightarrow> xor_id a (xor_id a b) = b"
  by (rule nth_equalityI) (simp_all add: nth_xor_id xor.assoc [symmetric])

lemma xor_id_commute: "xor_id a b = xor_id b a"
proof (rule nth_equalityI)
  fix i assume "i < length (xor_id a b)"
  then show "xor_id a b ! i = xor_id b a ! i" by (simp add: nth_xor_id xor.commute)
qed simp

lemma xor_id_left_inj: "length a = length c \<Longrightarrow> length b = length c \<Longrightarrow> xor_id a c = xor_id b c \<longleftrightarrow> a = b"
  by (metis xor_id_cancel xor_id_commute)

lemma word_xor_eq_0: "(a :: 'a::len word) XOR b = 0 \<longleftrightarrow> a = b"
  by (metis xor.assoc xor.left_neutral xor.right_neutral xor_self_eq)

lemma be_nat_eq_0: "be_nat bs = 0 \<longleftrightarrow> (\<forall>b \<in> set bs. b = 0)"
  by (induction bs) (auto simp: unat_eq_0)

lemma xor_id_zero: "length a = length b \<Longrightarrow> be_nat (xor_id a b) = 0 \<longleftrightarrow> a = b"
proof -
  assume len: "length a = length b"
  have "(\<forall>x \<in> set (xor_id a b). x = 0) \<longleftrightarrow> (\<forall>i < length a. a ! i XOR b ! i = 0)"
    using len by (auto simp: all_set_conv_all_nth nth_xor_id)
  also have "\<dots> \<longleftrightarrow> a = b"
    using len by (auto simp: list_eq_iff_nth_eq word_xor_eq_0)
  finally show ?thesis by (simp add: be_nat_eq_0)
qed

lemma bucket_index_spec:
  assumes "id_ok d"
  shows "bucket_index d < 0 \<longleftrightarrow> be_nat d = 0"
    and "bucket_index d < 160"
    and "be_nat d \<noteq> 0 \<Longrightarrow> 2 ^ nat (bucket_index d) \<le> be_nat d"
    and "be_nat d \<noteq> 0 \<Longrightarrow> be_nat d < 2 ^ Suc (nat (bucket_index d))"
  using bucket_index_from_bounds [of 0 d] assms
  by (auto simp: bucket_index_def id_ok_def split: if_splits)

section \<open>The invariant of the table\<close>

definition bucket_ok :: "bytes \<Rightarrow> nat \<Rightarrow> node list \<Rightarrow> bool" where
  "bucket_ok own j ns \<longleftrightarrow> length ns \<le> bucket_size \<and> distinct (map nd_id ns) \<and>
     (\<forall>n \<in> set ns. id_ok (nd_id n) \<and> bucket_index (xor_id own (nd_id n)) = int j)"

definition table_ok :: "routing_table \<Rightarrow> bool" where
  "table_ok rt \<longleftrightarrow> id_ok (rt_own rt) \<and> length (rt_buckets rt) = 160 \<and>
     (\<forall>j < 160. bucket_ok (rt_own rt) j (rt_buckets rt ! j))"

text \<open>The abstract table: a finite map from identifiers to nodes.\<close>

definition lookup_node :: "routing_table \<Rightarrow> bytes \<Rightarrow> node option" where
  "lookup_node rt i = find (\<lambda>n. nd_id n = i) (table_nodes rt)"

lemma cut_node_None: "cut_node i ns = None \<longleftrightarrow> i \<notin> nd_id ` set ns"
  by (induction ns) auto

lemma cut_node_Some:
  "cut_node i ns = Some ms \<Longrightarrow> distinct (map nd_id ns) \<Longrightarrow>
    set ms = {n \<in> set ns. nd_id n \<noteq> i} \<and> distinct (map nd_id ms) \<and>
    length ns = Suc (length ms) \<and> i \<in> nd_id ` set ns"
proof (induction ns arbitrary: ms)
  case (Cons n ns)
  show ?case
  proof (cases "nd_id n = i")
    case True
    with Cons.prems show ?thesis by (auto simp: image_iff)
  next
    case False
    with Cons.prems obtain ms' where "cut_node i ns = Some ms'" "ms = n # ms'" by auto
    with Cons False show ?thesis by auto
  qed
qed simp

lemma bucket_index_xor:
  assumes "id_ok own" "id_ok i"
  shows "bucket_index (xor_id own i) < 0 \<longleftrightarrow> i = own" "bucket_index (xor_id own i) < 160"
  using assms bucket_index_spec [of "xor_id own i"] xor_id_zero [of own i]
  by (auto simp: id_ok_def)

lemma table_ok_bucket:
  assumes "table_ok rt" "id_ok i" "i \<noteq> rt_own rt"
  obtains j where "bucket_index (xor_id (rt_own rt) i) = int j" "j < 160"
    "bucket_ok (rt_own rt) j (rt_buckets rt ! j)"
proof -
  have "0 \<le> bucket_index (xor_id (rt_own rt) i)" "bucket_index (xor_id (rt_own rt) i) < 160"
    using assms bucket_index_xor [of "rt_own rt" i] by (auto simp: table_ok_def)
  then obtain j where "bucket_index (xor_id (rt_own rt) i) = int j" "j < 160"
    by (metis nonneg_int_cases of_nat_less_iff of_nat_numeral)
  then show thesis using that assms(1) by (simp add: table_ok_def)
qed

lemma table_ok_update:
  assumes "table_ok rt" "j < 160" "bucket_ok (rt_own rt) j ns"
  shows "table_ok (rt\<lparr>rt_buckets := (rt_buckets rt)[j := ns]\<rparr>)"
  using assms by (auto simp: table_ok_def nth_list_update)

lemma set_concat_nth: "set (concat xss) = (\<Union>j<length xss. set (xss ! j))"
  unfolding set_concat set_conv_nth [of xss] by blast

lemma set_concat_update:
  assumes "j < length xss"
  shows "set (concat (xss[j := ys])) = set ys \<union> (\<Union>k \<in> {..<length xss} - {j}. set (xss ! k))"
  unfolding set_concat_nth using assms by (auto simp: nth_list_update split: if_splits)

lemma distinct_concat_indexed:
  assumes "\<And>j. j < length xss \<Longrightarrow> distinct (map f (xss ! j)) \<and> (\<forall>x \<in> set (xss ! j). g (f x) = int (j + k))"
  shows "distinct (map f (concat xss))"
  using assms
proof (induction xss arbitrary: k)
  case (Cons xs xss)
  have IH: "distinct (map f (concat xss))"
  proof (rule Cons.IH [of "Suc k"])
    fix j assume "j < length xss"
    then show "distinct (map f (xss ! j)) \<and> (\<forall>x \<in> set (xss ! j). g (f x) = int (j + Suc k))"
      using Cons.prems [of "Suc j"] by simp
  qed
  have "f x \<noteq> f y" if "x \<in> set xs" "y \<in> set (concat xss)" for x y
  proof -
    from that(2) obtain j where j: "j < length xss" "y \<in> set (xss ! j)"
      by (auto simp only: set_concat_nth)
    then show ?thesis using Cons.prems [of 0] Cons.prems [of "Suc j"] that(1) by fastforce
  qed
  then show ?case using IH Cons.prems [of 0] by auto
qed simp

lemma distinct_table_ids: "table_ok rt \<Longrightarrow> distinct (map nd_id (table_nodes rt))"
  unfolding table_nodes_def
  by (rule distinct_concat_indexed [where g = "\<lambda>i. bucket_index (xor_id (rt_own rt) i)" and k = 0])
     (auto simp: table_ok_def bucket_ok_def)

lemma find_Some_iff_distinct:
  "distinct (map f xs) \<Longrightarrow> find (\<lambda>x. f x = i) xs = Some x \<longleftrightarrow> x \<in> set xs \<and> f x = i"
  by (induction xs) auto

lemma lookup_node_Some:
  "table_ok rt \<Longrightarrow> lookup_node rt i = Some n \<longleftrightarrow> n \<in> set (table_nodes rt) \<and> nd_id n = i"
  by (simp add: lookup_node_def find_Some_iff_distinct distinct_table_ids)

lemma table_nodes_id_ok: "table_ok rt \<Longrightarrow> n \<in> set (table_nodes rt) \<Longrightarrow> id_ok (nd_id n) \<and> nd_id n \<noteq> rt_own rt"
proof -
  assume a: "table_ok rt" "n \<in> set (table_nodes rt)"
  then obtain j where "j < 160" "n \<in> set (rt_buckets rt ! j)"
    by (auto simp: table_nodes_def table_ok_def set_concat_nth simp del: set_concat)
  with a(1) have "id_ok (nd_id n)" "bucket_index (xor_id (rt_own rt) (nd_id n)) = int j"
    by (auto simp: table_ok_def bucket_ok_def)
  then show ?thesis using bucket_index_xor(1) [of "rt_own rt" "nd_id n"] a(1)
    by (auto simp: table_ok_def)
qed

section \<open>Insert and Remove against the abstract table\<close>

lemma table_nodes_same_bucket:
  assumes "table_ok rt" "j < 160" "k < 160" "m \<in> set (rt_buckets rt ! k)"
    and "bucket_index (xor_id (rt_own rt) (nd_id m)) = int j"
  shows "k = j"
  using assms by (auto simp: table_ok_def bucket_ok_def)

lemma split_update:
  "{m \<in> N. P m} = {m \<in> A. P m} \<Longrightarrow> \<forall>m \<in> R. P m \<Longrightarrow>
    N \<union> R = {m \<in> A \<union> R. P m} \<union> {m \<in> N. \<not> P m}"
  by blast

text \<open>Replacing the bucket of an identifier leaves the nodes with other identifiers alone.\<close>

lemma table_nodes_update:
  assumes ok: "table_ok rt" and j: "bucket_index (xor_id (rt_own rt) i) = int j" "j < 160"
    and new: "{m \<in> set ns. nd_id m \<noteq> i} = {m \<in> set (rt_buckets rt ! j). nd_id m \<noteq> i}"
  shows "set (table_nodes (rt\<lparr>rt_buckets := (rt_buckets rt)[j := ns]\<rparr>)) =
    {m \<in> set (table_nodes rt). nd_id m \<noteq> i} \<union> {m \<in> set ns. nd_id m = i}"
proof -
  have len: "length (rt_buckets rt) = 160" using ok by (simp add: table_ok_def)
  have other: "nd_id m \<noteq> i" if "k < 160" "k \<noteq> j" "m \<in> set (rt_buckets rt ! k)" for k m
    using table_nodes_same_bucket [OF ok j(2) that(1,3)] that(2) j(1) by auto
  have "set (table_nodes rt) =
      set (rt_buckets rt ! j) \<union> (\<Union>k \<in> {..<160} - {j}. set (rt_buckets rt ! k))"
    using j(2) len by (auto simp: table_nodes_def set_concat_nth simp del: set_concat)
  moreover have "set (table_nodes (rt\<lparr>rt_buckets := (rt_buckets rt)[j := ns]\<rparr>)) =
      set ns \<union> (\<Union>k \<in> {..<160} - {j}. set (rt_buckets rt ! k))"
    using j(2) len by (simp add: table_nodes_def set_concat_update del: set_concat)
  moreover have "\<forall>m \<in> (\<Union>k \<in> {..<160} - {j}. set (rt_buckets rt ! k)). nd_id m \<noteq> i"
    using other by auto
  ultimately show ?thesis using split_update [OF new] by simp
qed

lemma insert_node_cases:
  assumes "table_ok rt" "id_ok (nd_id n)"
  obtains (own) "nd_id n = rt_own rt" "insert_node rt n = (rt, False)"
  | (full) j where "bucket_index (xor_id (rt_own rt) (nd_id n)) = int j" "j < 160"
      "nd_id n \<notin> nd_id ` set (rt_buckets rt ! j)" "length (rt_buckets rt ! j) = bucket_size"
      "insert_node rt n = (rt, False)"
  | (stored) j ns where "bucket_index (xor_id (rt_own rt) (nd_id n)) = int j" "j < 160"
      "set ns = insert n {m \<in> set (rt_buckets rt ! j). nd_id m \<noteq> nd_id n}"
      "bucket_ok (rt_own rt) j ns" "last ns = n"
      "insert_node rt n = (rt\<lparr>rt_buckets := (rt_buckets rt)[j := ns]\<rparr>, True)"
proof (cases "nd_id n = rt_own rt")
  case True
  then have "bucket_index (xor_id (rt_own rt) (nd_id n)) < 0"
    using assms bucket_index_xor(1) by (auto simp: table_ok_def)
  with True show thesis by (intro own) (simp_all add: insert_node_def)
next
  case False
  then obtain j where j: "bucket_index (xor_id (rt_own rt) (nd_id n)) = int j" "j < 160"
    and b: "bucket_ok (rt_own rt) j (rt_buckets rt ! j)"
    using table_ok_bucket assms by blast
  let ?b = "rt_buckets rt ! j"
  show thesis
  proof (cases "cut_node (nd_id n) ?b")
    case None
    then have fresh: "nd_id n \<notin> nd_id ` set ?b" by (simp add: cut_node_None)
    then have other: "{m \<in> set ?b. nd_id m \<noteq> nd_id n} = set ?b" by (auto simp: image_iff)
    show thesis
    proof (cases "bucket_size \<le> length ?b")
      case True
      with None j b fresh show thesis by (intro full) (auto simp: insert_node_def bucket_ok_def)
    next
      case False
      with None j b fresh assms(2) show thesis
        by (intro stored [of j "?b @ [n]"]) (auto simp: insert_node_def bucket_ok_def other)
    qed
  next
    case (Some ms)
    note c = cut_node_Some [OF Some]
    with b have ms: "set ms = {m \<in> set ?b. nd_id m \<noteq> nd_id n}" "distinct (map nd_id ms)"
      "length ?b = Suc (length ms)" by (auto simp: bucket_ok_def)
    with Some j b assms(2) show thesis
      by (intro stored [of j "ms @ [n]"]) (auto simp: insert_node_def bucket_ok_def)
  qed
qed

lemma insert_node_ok [inv_intros]:
  assumes "table_ok rt" "id_ok (nd_id n)"
  shows "table_ok (fst (insert_node rt n))"
  using assms by (rule insert_node_cases) (use assms in \<open>simp_all add: table_ok_update\<close>)

lemma insert_node_own [simp]: "rt_own (fst (insert_node rt n)) = rt_own rt"
  by (simp add: insert_node_def Let_def split: option.split)

lemma insert_node_set:
  assumes "table_ok rt" "id_ok (nd_id n)" "insert_node rt n = (rt', True)"
  shows "set (table_nodes rt') = insert n {m \<in> set (table_nodes rt). nd_id m \<noteq> nd_id n}"
  using assms(1,2)
proof (cases rule: insert_node_cases)
  case (stored j ns)
  then have "{m \<in> set ns. nd_id m \<noteq> nd_id n} = {m \<in> set (rt_buckets rt ! j). nd_id m \<noteq> nd_id n}"
    "{m \<in> set ns. nd_id m = nd_id n} = {n}" by auto
  then show ?thesis
    using table_nodes_update [OF assms(1) stored(1,2)] stored(6) assms(3) by auto
qed (use assms(3) in auto)

lemma cut_node_bucket_ok:
  "bucket_ok own j ns \<Longrightarrow> cut_node i ns = Some ms \<Longrightarrow> bucket_ok own j ms"
  by (drule cut_node_Some) (auto simp: bucket_ok_def)

lemma remove_node_ok [inv_intros]:
  assumes "table_ok rt" "id_ok i"
  shows "table_ok (remove_node rt i)"
proof (cases "i = rt_own rt")
  case True
  then show ?thesis using assms by (auto simp: remove_node_def bucket_index_xor table_ok_def)
next
  case False
  with assms obtain j where "bucket_index (xor_id (rt_own rt) i) = int j" "j < 160"
    "bucket_ok (rt_own rt) j (rt_buckets rt ! j)" by (rule table_ok_bucket)
  then show ?thesis using assms(1)
    by (cases "cut_node i (rt_buckets rt ! j)")
      (auto simp: remove_node_def intro: table_ok_update cut_node_bucket_ok)
qed

lemma remove_node_set:
  assumes "table_ok rt" "id_ok i"
  shows "set (table_nodes (remove_node rt i)) = {m \<in> set (table_nodes rt). nd_id m \<noteq> i}"
proof (cases "i = rt_own rt")
  case True
  then have "remove_node rt i = rt"
    using assms bucket_index_xor(1) by (auto simp: remove_node_def table_ok_def)
  with True show ?thesis using assms table_nodes_id_ok by fastforce
next
  case False
  then obtain j where j: "bucket_index (xor_id (rt_own rt) i) = int j" "j < 160"
    and b: "bucket_ok (rt_own rt) j (rt_buckets rt ! j)"
    using table_ok_bucket assms by blast
  show ?thesis
  proof (cases "cut_node i (rt_buckets rt ! j)")
    case None
    then have "i \<notin> nd_id ` set (table_nodes rt)"
      using table_nodes_same_bucket [OF assms(1) j(2)] j assms(1)
      by (auto simp: cut_node_None table_nodes_def set_concat_nth table_ok_def simp del: set_concat)
    then have "{m \<in> set (table_nodes rt). nd_id m \<noteq> i} = set (table_nodes rt)" by auto
    with None j show ?thesis by (simp add: remove_node_def)
  next
    case (Some ms)
    have "set ms = {m \<in> set (rt_buckets rt ! j). nd_id m \<noteq> i}"
      using cut_node_Some [OF Some] b by (simp add: bucket_ok_def)
    then show ?thesis
      using table_nodes_update [OF assms(1) j, of ms] Some j by (auto simp: remove_node_def)
  qed
qed

lemma lookup_node_eqI:
  assumes "table_ok rt" "table_ok rt'"
    and "\<And>n. nd_id n = i \<Longrightarrow> n \<in> set (table_nodes rt) \<longleftrightarrow> n \<in> set (table_nodes rt')"
  shows "lookup_node rt i = lookup_node rt' i"
proof -
  have "lookup_node rt i = Some n \<longleftrightarrow> lookup_node rt' i = Some n" for n
    using assms by (auto simp: lookup_node_Some)
  then show ?thesis by (metis not_None_eq)
qed

section \<open>Sorting by distance\<close>

text \<open>
  Nodes with different identifiers are at different distances, so a list of them has only
  one order by distance: every correct sort gives the same result.
\<close>

definition dist_key :: "bytes \<Rightarrow> node \<Rightarrow> bytes" where
  "dist_key target n = xor_id (nd_id n) target"

definition nodes_ok :: "node list \<Rightarrow> bool" where
  "nodes_ok ns \<longleftrightarrow> distinct (map nd_id ns) \<and> (\<forall>n \<in> set ns. id_ok (nd_id n))"

lemma dist_key_inj: "nodes_ok ns \<Longrightarrow> id_ok target \<Longrightarrow> inj_on (dist_key target) (set ns)"
  unfolding nodes_ok_def distinct_map
  by (auto simp: inj_on_def dist_key_def id_ok_def xor_id_left_inj)

lemma strict_sort_by_distance:
  assumes "nodes_ok ns" "id_ok target"
  shows "sorted_wrt (\<lambda>a b. dist_key target a < dist_key target b) (sort_key (dist_key target) ns)"
proof -
  have "distinct (map (dist_key target) (sort_key (dist_key target) ns))"
    using assms dist_key_inj [OF assms] by (simp add: distinct_map nodes_ok_def distinct_sort)
  then have "sorted_wrt (<) (map (dist_key target) (sort_key (dist_key target) ns))"
    by (simp add: strict_sorted_iff)
  then show ?thesis by (simp add: sorted_wrt_map)
qed

lemma sorted_mset_unique: "mset xs = mset ys \<Longrightarrow> sorted xs \<Longrightarrow> sorted ys \<Longrightarrow> xs = ys"
  by (metis properties_for_sort)

lemma sorted_by_distance_unique:
  assumes "nodes_ok ns" "id_ok target" "mset ms = mset ns"
    and "sorted (map (dist_key target) ms)"
  shows "ms = sort_key (dist_key target) ns"
proof -
  have "set ms = set ns" using assms(3) by (metis set_mset_mset)
  then have "inj_on (dist_key target) (set ms)" using dist_key_inj [OF assms(1,2)] by simp
  moreover have "map (dist_key target) ms = map (dist_key target) (sort_key (dist_key target) ns)"
  proof (rule sorted_mset_unique)
    show "mset (map (dist_key target) ms) = mset (map (dist_key target) (sort_key (dist_key target) ns))"
      using assms(3) by simp
  qed (use assms(4) in simp_all)
  ultimately show ?thesis using \<open>set ms = set ns\<close> by (simp add: inj_on_map_eq_map)
qed

lemma take_nearest:
  assumes "sorted_wrt (\<lambda>a b. f a < (f b :: 'b::linorder)) xs" "c \<in> set (take n xs)"
    "m \<in> set xs" "m \<notin> set (take n xs)"
  shows "f c < f m"
proof -
  from assms have "m \<in> set (drop n xs)" by (metis Un_iff append_take_drop_id set_append)
  with assms(1,2) show ?thesis
    by (metis append_take_drop_id sorted_wrt_append)
qed

lemma table_nodes_ok: "table_ok rt \<Longrightarrow> nodes_ok (table_nodes rt)"
  by (auto simp: nodes_ok_def distinct_table_ids dest: table_nodes_id_ok)

lemma closest_eq: "closest rt target n = take n (sort_key (dist_key target) (table_nodes rt))"
  by (simp add: closest_def dist_key_def [abs_def] Let_def)

lemma table_len_eq: "table_len rt = length (table_nodes rt)"
  by (simp add: table_len_def table_nodes_def length_concat)

lemma nat_xor_le_add: "(m :: nat) XOR n \<le> m + n"
proof (induction m arbitrary: n rule: less_induct)
  case (less m)
  show ?case
  proof (cases "m = 0")
    case False
    then have "(m div 2) XOR (n div 2) \<le> m div 2 + n div 2" by (intro less) simp
    moreover have "m XOR n = of_bool (odd m \<noteq> odd n) + 2 * ((m div 2) XOR (n div 2))"
      by (rule xor_rec)
    ultimately show ?thesis by (auto split: if_splits elim!: oddE evenE)
  qed simp
qed

lemma unat_xor_le: "unat ((a :: u8) XOR b) \<le> unat a + unat b"
  by (simp add: unsigned_xor_eq nat_xor_le_add)

lemma be_nat_xor_le: "length a = length b \<Longrightarrow> be_nat (xor_id a b) \<le> be_nat a + be_nat b"
proof (induction a b rule: list_induct2)
  case (Cons x xs y ys)
  have "unat (x XOR y) * 256 ^ length xs \<le> (unat x + unat y) * 256 ^ length xs"
    by (rule mult_le_mono1) (rule unat_xor_le)
  with Cons show ?case by (simp add: xor_id_def algebra_simps)
qed (simp add: xor_id_def)

lemma xor_id_trans:
  assumes "length a = length b" "length b = length c"
  shows "xor_id a c = xor_id (xor_id a b) (xor_id b c)"
proof (rule nth_equalityI)
  fix i assume "i < length (xor_id a c)"
  moreover have "x XOR z = (x XOR y) XOR (y XOR z)" for x y z :: u8
    by (intro bit_word_eqI) (auto simp: bit_simps)
  ultimately show "xor_id a c ! i = xor_id (xor_id a b) (xor_id b c) ! i"
    using assms by (simp add: nth_xor_id)
qed (use assms in simp)

section \<open>The table as a store of nodes\<close>

text \<open>
  What the DHT node relies on: every table operation keeps the invariant and acts on the map
  from identifiers to nodes like a bounded map update.
\<close>

locale node_store =
  fixes ok :: "'s \<Rightarrow> bool" and own :: "'s \<Rightarrow> bytes" and look :: "'s \<Rightarrow> bytes \<Rightarrow> node option"
    and ins :: "'s \<Rightarrow> node \<Rightarrow> 's \<times> bool" and del :: "'s \<Rightarrow> bytes \<Rightarrow> 's"
  assumes ins_ok: "ok s \<Longrightarrow> id_ok (nd_id n) \<Longrightarrow> ok (fst (ins s n))"
    and ins_own: "own (fst (ins s n)) = own s"
    and ins_look: "ok s \<Longrightarrow> id_ok (nd_id n) \<Longrightarrow>
      look (fst (ins s n)) i = (if snd (ins s n) \<and> i = nd_id n then Some n else look s i)"
    and ins_self: "ok s \<Longrightarrow> nd_id n = own s \<Longrightarrow> \<not> snd (ins s n)"
    and del_ok: "ok s \<Longrightarrow> id_ok i \<Longrightarrow> ok (del s i)"
    and del_look: "ok s \<Longrightarrow> id_ok i \<Longrightarrow> look (del s i) j = (if j = i then None else look s j)"
begin

definition ins_all :: "'s \<Rightarrow> node list \<Rightarrow> 's" where
  "ins_all s ns = foldl (\<lambda>s n. fst (ins s n)) s ns"

lemma ins_all_simps [simp]:
  "ins_all s [] = s" "ins_all s (n # ns) = ins_all (fst (ins s n)) ns"
  by (simp_all add: ins_all_def)

lemma ins_all_ok: "ok s \<Longrightarrow> \<forall>n \<in> set ns. id_ok (nd_id n) \<Longrightarrow> ok (ins_all s ns)"
  by (induction ns arbitrary: s) (simp_all add: ins_ok)

lemma ins_all_own: "own (ins_all s ns) = own s"
  by (induction ns arbitrary: s) (simp_all add: ins_own)

text \<open>After any number of insertions a lookup gives an old node or one of the new ones.\<close>

lemma ins_all_look:
  "ok s \<Longrightarrow> \<forall>n \<in> set ns. id_ok (nd_id n) \<Longrightarrow> look (ins_all s ns) i = Some m \<Longrightarrow>
    look s i = Some m \<or> m \<in> set ns \<and> nd_id m = i"
proof (induction ns arbitrary: s)
  case (Cons n ns)
  then have "look (fst (ins s n)) i = Some m \<or> m \<in> set ns \<and> nd_id m = i"
    using Cons.IH [of "fst (ins s n)"] by (simp add: ins_ok)
  with Cons.prems show ?case by (auto simp: ins_look split: if_splits)
qed simp

lemma ins_all_keeps: "ok s \<Longrightarrow> \<forall>n \<in> set ns. id_ok (nd_id n) \<Longrightarrow> look s i \<noteq> None \<Longrightarrow>
    look (ins_all s ns) i \<noteq> None"
  by (induction ns arbitrary: s) (simp_all add: ins_ok ins_look)

end

lemma insert_node_lookup:
  assumes "table_ok rt" "id_ok (nd_id n)"
  shows "lookup_node (fst (insert_node rt n)) i =
    (if snd (insert_node rt n) \<and> i = nd_id n then Some n else lookup_node rt i)"
proof (cases "insert_node rt n")
  case (Pair rt' b)
  have ok: "table_ok rt'" using insert_node_ok [OF assms] Pair by simp
  show ?thesis
  proof (cases b)
    case True
    with Pair have mem: "set (table_nodes rt') = insert n {m \<in> set (table_nodes rt). nd_id m \<noteq> nd_id n}"
      by (intro insert_node_set assms) simp
    have "lookup_node rt' (nd_id n) = Some n" by (simp add: lookup_node_Some [OF ok] mem)
    moreover have "lookup_node rt' i = lookup_node rt i" if "i \<noteq> nd_id n"
      using that by (intro lookup_node_eqI ok assms(1)) (auto simp: mem)
    ultimately show ?thesis using Pair True by auto
  next
    case False
    have "rt' = rt" using assms
      by (rule insert_node_cases) (use Pair False in auto)
    with Pair False show ?thesis by simp
  qed
qed

lemma remove_node_lookup:
  assumes "table_ok rt" "id_ok i"
  shows "lookup_node (remove_node rt i) j = (if j = i then None else lookup_node rt j)"
proof -
  note ok = remove_node_ok [OF assms] and mem = remove_node_set [OF assms]
  have "lookup_node (remove_node rt i) i \<noteq> Some n" for n by (simp add: lookup_node_Some [OF ok] mem)
  then have "lookup_node (remove_node rt i) i = None" by (metis not_None_eq)
  moreover have "lookup_node (remove_node rt i) j = lookup_node rt j" if "j \<noteq> i"
    using that by (intro lookup_node_eqI ok assms(1)) (auto simp: mem)
  ultimately show ?thesis by simp
qed

lemma insert_node_self: "table_ok rt \<Longrightarrow> nd_id n = rt_own rt \<Longrightarrow> \<not> snd (insert_node rt n)"
  using bucket_index_xor(1) [of "rt_own rt" "nd_id n"]
  by (simp add: insert_node_def table_ok_def)

interpretation table: node_store table_ok rt_own lookup_node insert_node remove_node
  by unfold_locales
    (simp_all add: insert_node_ok insert_node_lookup insert_node_self remove_node_ok remove_node_lookup)

lemma insert_node_stored_iff:
  assumes "table_ok rt" "id_ok (nd_id n)"
  shows "snd (insert_node rt n) \<longleftrightarrow> nd_id n \<noteq> rt_own rt \<and>
    (lookup_node rt (nd_id n) \<noteq> None \<or>
     length (rt_buckets rt ! nat (bucket_index (xor_id (rt_own rt) (nd_id n)))) < bucket_size)"
proof (cases "nd_id n = rt_own rt")
  case True
  then show ?thesis using insert_node_self assms by blast
next
  case False
  then obtain j where j: "bucket_index (xor_id (rt_own rt) (nd_id n)) = int j" "j < 160"
    and b: "bucket_ok (rt_own rt) j (rt_buckets rt ! j)"
    using table_ok_bucket assms by blast
  have "nd_id n \<in> nd_id ` set (rt_buckets rt ! j) \<longleftrightarrow> nd_id n \<in> nd_id ` set (table_nodes rt)"
    using j assms(1) table_nodes_same_bucket [OF assms(1) j(2)]
    by (fastforce simp: table_nodes_def table_ok_def set_concat_nth simp del: set_concat)
  moreover have "lookup_node rt (nd_id n) = None \<longleftrightarrow> nd_id n \<notin> nd_id ` set (table_nodes rt)"
    by (force simp: lookup_node_def find_None_iff image_iff)
  moreover have "cut_node (nd_id n) (rt_buckets rt ! j) = None \<longleftrightarrow>
      nd_id n \<notin> nd_id ` set (rt_buckets rt ! j)" by (rule cut_node_None)
  ultimately have "cut_node (nd_id n) (rt_buckets rt ! j) = None \<longleftrightarrow> lookup_node rt (nd_id n) = None"
    by simp
  then show ?thesis
    using False j(1)
    by (cases "cut_node (nd_id n) (rt_buckets rt ! j)") (auto simp: insert_node_def Let_def split: if_splits)
qed

lemma new_table_ok: "id_ok own \<Longrightarrow> table_ok (new_routing_table own)"
  by (simp add: new_routing_table_def table_ok_def bucket_ok_def)

section \<open>Properties\<close>

text \<open>C15. \<open>Insert\<close> keeps the routing table well formed (every node in the bucket of its
  distance, once, at most eight per bucket) and acts on the map from identifiers to nodes as
  an update: a stored node is what a lookup of its identifier returns, every other identifier
  is unaffected, and a node is refused exactly when it is the local node or it is unknown and
  its bucket is full.\<close>

theorem insert_node_spec:
  assumes "table_ok rt" "id_ok (nd_id n)"
  shows "table_ok (fst (insert_node rt n)) \<and>
    (\<forall>i. lookup_node (fst (insert_node rt n)) i =
      (if snd (insert_node rt n) \<and> i = nd_id n then Some n else lookup_node rt i)) \<and>
    (snd (insert_node rt n) \<longleftrightarrow> nd_id n \<noteq> rt_own rt \<and>
      (lookup_node rt (nd_id n) \<noteq> None \<or>
       length (rt_buckets rt ! nat (bucket_index (xor_id (rt_own rt) (nd_id n)))) < bucket_size))"
  using table.ins_ok [OF assms] table.ins_look [OF assms] insert_node_stored_iff [OF assms] by blast

definition ex_node :: "u8 \<Rightarrow> node" where
  "ex_node b = \<lparr>nd_id = replicate 19 0 @ [b], nd_addr = \<lparr>ua_ip = [10, 0, 0, b], ua_port = 6881\<rparr>\<rparr>"

lemma id_ok_ex_node [simp]: "id_ok (nd_id (ex_node b))"
  by (simp add: ex_node_def id_ok_def)

definition ex_table :: routing_table where
  "ex_table = fst (insert_node (fst (insert_node (new_routing_table (replicate 20 0)) (ex_node 1))) (ex_node 2))"

lemma ex_table_ok: "table_ok ex_table"
  unfolding ex_table_def by (intro inv_intros new_table_ok id_ok_ex_node) (simp add: id_ok_def)

theorem insert_node_spec_witness:
  "table_ok (fst (insert_node ex_table (ex_node 3)))"
  using insert_node_spec [OF ex_table_ok id_ok_ex_node] by simp

text \<open>\<open>Remove\<close> keeps the table well formed and forgets exactly the given identifier.\<close>

theorem remove_node_spec:
  assumes "table_ok rt" "id_ok i"
  shows "table_ok (remove_node rt i) \<and>
    (\<forall>j. lookup_node (remove_node rt i) j = (if j = i then None else lookup_node rt j))"
  using table.del_ok [OF assms] table.del_look [OF assms] by blast

theorem remove_node_spec_witness:
  "lookup_node (remove_node ex_table (nd_id (ex_node 2))) (nd_id (ex_node 2)) = None"
  using remove_node_spec [OF ex_table_ok id_ok_ex_node [of 2]] by simp

text \<open>C14. \<open>Closest\<close> returns the \<open>n\<close> nodes nearest to the target: nodes of the table, in
  strictly increasing distance, \<open>n\<close> of them or all there are, and every node left out is
  farther than every node returned. There is only one such list.\<close>

theorem closest_optimal:
  assumes "table_ok rt" "id_ok target"
  shows "set (closest rt target n) \<subseteq> set (table_nodes rt) \<and>
    length (closest rt target n) = min n (table_len rt) \<and>
    sorted_wrt (\<lambda>a b. be_nat (xor_id (nd_id a) target) < be_nat (xor_id (nd_id b) target))
      (closest rt target n) \<and>
    (\<forall>c \<in> set (closest rt target n). \<forall>m \<in> set (table_nodes rt) - set (closest rt target n).
      be_nat (xor_id (nd_id c) target) < be_nat (xor_id (nd_id m) target))"
proof -
  let ?s = "sort_key (dist_key target) (table_nodes rt)"
  let ?lt = "\<lambda>a b. be_nat (xor_id (nd_id a) target) < be_nat (xor_id (nd_id b) target)"
  have ok: "nodes_ok (table_nodes rt)" using assms(1) by (rule table_nodes_ok)
  then have lt: "?lt a b \<longleftrightarrow> dist_key target a < dist_key target b"
    if "a \<in> set (table_nodes rt)" "b \<in> set (table_nodes rt)" for a b
    using that assms(2) by (auto simp: nodes_ok_def id_ok_def dist_key_def intro!: be_nat_less_iff)
  have s: "sorted_wrt (\<lambda>a b. dist_key target a < dist_key target b) ?s"
    using strict_sort_by_distance ok assms(2) by blast
  then have "sorted_wrt ?lt (take n ?s)"
    by (rule sorted_wrt_mono_rel [rotated, OF sorted_wrt_take]) (auto dest!: in_set_takeD simp: lt)
  moreover have "?lt c m" if "c \<in> set (take n ?s)" "m \<in> set (table_nodes rt) - set (take n ?s)" for c m
    using take_nearest [OF s that(1), of m] that by (subst lt) (auto dest: in_set_takeD)
  ultimately show ?thesis
    by (auto simp: closest_eq table_len_eq dest: in_set_takeD)
qed

theorem closest_optimal_witness:
  "length (closest ex_table (replicate 20 0) 5) = min 5 (table_len ex_table)"
  using closest_optimal [OF ex_table_ok, of "replicate 20 0" 5] by (simp add: id_ok_def)

text \<open>The XOR distance is a metric on identifiers: zero only between equal ones,
  symmetric, and the triangle inequality holds for the numbers the distances stand for.
  \<open>BucketIndex\<close> of a distance is the position of its highest set bit, or negative for zero, and
  \<open>compareDist\<close> is the order of the numbers.\<close>

theorem xor_distance_metric:
  assumes "id_ok a" "id_ok b" "id_ok c"
  shows "(be_nat (xor_id a b) = 0 \<longleftrightarrow> a = b) \<and> xor_id a b = xor_id b a \<and>
    be_nat (xor_id a c) \<le> be_nat (xor_id a b) + be_nat (xor_id b c) \<and>
    (compare_dist a b < 0 \<longleftrightarrow> be_nat a < be_nat b) \<and>
    (a = b \<longrightarrow> bucket_index (xor_id a b) < 0) \<and>
    (a \<noteq> b \<longrightarrow> 0 \<le> bucket_index (xor_id a b) \<and> bucket_index (xor_id a b) < 160 \<and>
      2 ^ nat (bucket_index (xor_id a b)) \<le> be_nat (xor_id a b) \<and>
      be_nat (xor_id a b) < 2 ^ Suc (nat (bucket_index (xor_id a b))))"
proof -
  have len: "length a = length b" "length b = length c" "id_ok (xor_id a b)"
    using assms by (simp_all add: id_ok_def)
  have "be_nat (xor_id a c) \<le> be_nat (xor_id a b) + be_nat (xor_id b c)"
    using be_nat_xor_le [of "xor_id a b" "xor_id b c"] len by (simp add: xor_id_trans [of a b c])
  moreover have "compare_dist a b < 0 \<longleftrightarrow> be_nat a < be_nat b"
    using len by (simp add: compare_dist_less be_nat_less_iff)
  moreover have "be_nat (xor_id a b) = 0 \<longleftrightarrow> a = b" using len by (simp add: xor_id_zero)
  ultimately show ?thesis
    using bucket_index_spec [OF len(3)] xor_id_commute [of a b] by (auto simp: not_less [symmetric])
qed

theorem xor_distance_metric_witness:
  "bucket_index (xor_id (nd_id (ex_node 1)) (nd_id (ex_node 2))) < 160"
  using xor_distance_metric [OF id_ok_ex_node [of 1] id_ok_ex_node [of 2] id_ok_ex_node [of 3]]
  by (auto simp: ex_node_def)

end
