(* ===== verification/DhtKrpc.thy ===== *)
theory DhtKrpc
  imports Bencode
begin

text \<open>
  The KRPC layer (\<open>dht/krpc.go\<close>): messages and their bencoding, and the transport that
  matches responses to outstanding queries by transaction identifier. The transport is given
  as the atomic sections of \<open>Send\<close> and \<open>Listen\<close> and as a step relation over their
  interleavings; its invariant shows that a response reaches the call that sent the query.
\<close>

section \<open>Messages\<close>

text \<open>An element of \<open>Error []any\<close>: \<open>int\<close>, \<open>string\<close> or any other Go value.\<close>

datatype krpc_any = AnyInt "64 word" | AnyString bytes | AnyOther

record message =
  m_txn :: bytes
  m_type :: bytes
  m_method :: bytes
  m_args :: bdict
  m_reply :: bdict
  m_error :: "krpc_any list"
  m_read_only :: bool

definition empty_message :: message where
  "empty_message = \<lparr>m_txn = [], m_type = [], m_method = [], m_args = [], m_reply = [],
     m_error = [], m_read_only = False\<rparr>"

text \<open>Other values leave a \<open>nil\<close> item in the list, which \<open>appendEncoded\<close> skips.\<close>

fun any_value :: "krpc_any \<Rightarrow> bvalue option" where
  "any_value (AnyInt i) = Some (BInt i)"
| "any_value (AnyString s) = Some (BString s)"
| "any_value AnyOther = None"

fun value_any :: "bvalue \<Rightarrow> krpc_any option" where
  "value_any (BInt i) = Some (AnyInt i)"
| "value_any (BString s) = Some (AnyString s)"
| "value_any _ = None"

definition message_dict :: "message \<Rightarrow> bdict" where
  "message_dict msg =
     (let d = [(str ''t'', BString (m_txn msg)), (str ''y'', BString (m_type msg))]
      in if m_type msg = str ''q'' then
           (let d = dict_set (str ''a'') (BDict (m_args msg))
                      (dict_set (str ''q'') (BString (m_method msg)) d)
            in if m_read_only msg then dict_set (str ''ro'') (BInt 1) d else d)
         else if m_type msg = str ''r'' then dict_set (str ''r'') (BDict (m_reply msg)) d
         else if m_type msg = str ''e'' then
           dict_set (str ''e'') (BList (List.map_filter any_value (m_error msg))) d
         else d)"

definition encode_message :: "message \<Rightarrow> bytes" where
  "encode_message msg = encode (BDict (message_dict msg))"

definition string_or_empty :: "bdict \<Rightarrow> string \<Rightarrow> bytes" where
  "string_or_empty d k = (case get_string d k of Some s \<Rightarrow> s | None \<Rightarrow> [])"

definition dict_or_nil :: "bdict \<Rightarrow> string \<Rightarrow> bdict" where
  "dict_or_nil d k = (case get_dict d k of Some e \<Rightarrow> e | None \<Rightarrow> [])"

definition dict_message :: "bdict \<Rightarrow> message res" where
  "dict_message d =
     (if dict_get d ''t'' = None then Inl (Fail ''missing t'')
      else if dict_get d ''y'' = None then Inl (Fail ''missing y'')
      else
        let msg = empty_message\<lparr>m_txn := string_or_empty d ''t'', m_type := string_or_empty d ''y''\<rparr>
        in if m_type msg = str ''q'' then
             Inr (msg\<lparr>m_method := string_or_empty d ''q'', m_args := dict_or_nil d ''a'',
                      m_read_only := (get_int d ''ro'' = Some 1)\<rparr>)
           else if m_type msg = str ''r'' then Inr (msg\<lparr>m_reply := dict_or_nil d ''r''\<rparr>)
           else if m_type msg = str ''e'' then
             Inr (msg\<lparr>m_error := (case get_list d ''e'' of
                     Some items \<Rightarrow> List.map_filter value_any items | None \<Rightarrow> [])\<rparr>)
           else Inr msg)"

definition decode_message :: "bytes \<Rightarrow> message res" where
  "decode_message data =
     (case decode data of
        Inl e \<Rightarrow> Inl e
      | Inr (BDict d) \<Rightarrow> dict_message d
      | Inr _ \<Rightarrow> Inl (Fail ''not a dict''))"

text \<open>
  A message that a query, a response or an error of the source can be: the fields of the
  other kinds are empty, strings are of realistic size, and dictionaries are in key order.
\<close>

definition message_ok :: "message \<Rightarrow> bool" where
  "message_ok m \<longleftrightarrow> small (m_txn m) \<and> small (m_method m) \<and>
     canonical (BDict (m_args m)) \<and> canonical (BDict (m_reply m)) \<and>
     (\<forall>x \<in> set (m_error m). \<exists>v. any_value x = Some v \<and> wf_value v) \<and>
     (m_type m = str ''q'' \<and> m_reply m = [] \<and> m_error m = [] \<or>
      m_type m = str ''r'' \<and> m_method m = [] \<and> m_args m = [] \<and> m_error m = [] \<and> \<not> m_read_only m \<or>
      m_type m = str ''e'' \<and> m_method m = [] \<and> m_args m = [] \<and> m_reply m = [] \<and> \<not> m_read_only m)"

text \<open>The dictionary of each kind of message, entry by entry.\<close>

lemma message_dict_cases:
  "m_type m = str ''q'' \<Longrightarrow> message_dict m =
     [(str ''t'', BString (m_txn m)), (str ''y'', BString (str ''q'')), (str ''q'', BString (m_method m)),
      (str ''a'', BDict (m_args m))] @ (if m_read_only m then [(str ''ro'', BInt 1)] else [])"
  "m_type m = str ''r'' \<Longrightarrow> message_dict m =
     [(str ''t'', BString (m_txn m)), (str ''y'', BString (str ''r'')), (str ''r'', BDict (m_reply m))]"
  "m_type m = str ''e'' \<Longrightarrow> message_dict m =
     [(str ''t'', BString (m_txn m)), (str ''y'', BString (str ''e'')),
      (str ''e'', BList (List.map_filter any_value (m_error m)))]"
  by (simp_all add: message_dict_def Let_def)

lemma value_any_back: "any_value x = Some v \<Longrightarrow> value_any v = Some x \<and> norm v = v"
  by (cases x) auto

lemma map_filter_any_value:
  "\<forall>x \<in> set xs. \<exists>v. any_value x = Some v \<and> wf_value v \<Longrightarrow>
    List.map_filter value_any (map norm (List.map_filter any_value xs)) = xs \<and>
    (\<forall>v \<in> set (List.map_filter any_value xs). wf_value v)"
proof (induction xs)
  case (Cons x xs)
  then obtain v where "any_value x = Some v" "wf_value v" by auto
  with Cons value_any_back [of x v] show ?case by (simp add: map_filter_simps)
qed (simp add: map_filter_simps)

lemma message_okE:
  assumes "message_ok m"
  obtains (query) t q a ro where "m = empty_message\<lparr>m_txn := t, m_type := str ''q'', m_method := q,
      m_args := a, m_read_only := ro\<rparr>" "small t" "small q" "canonical (BDict a)"
  | (reply) t r where "m = empty_message\<lparr>m_txn := t, m_type := str ''r'', m_reply := r\<rparr>"
      "small t" "canonical (BDict r)"
  | (error) t e where "m = empty_message\<lparr>m_txn := t, m_type := str ''e'', m_error := e\<rparr>" "small t"
      "\<forall>x \<in> set e. \<exists>v. any_value x = Some v \<and> wf_value v"
  using assms unfolding message_ok_def empty_message_def by (cases m) (elim conjE disjE; force)

lemma dict_message_dict:
  assumes "message_ok m"
  shows "dict_message (norm_dict (message_dict m)) = Inr m \<and> wf_value (BDict (message_dict m))"
proof -
  have d: "distinct (map fst (message_dict m))"
    using assms by (cases rule: message_okE)
      (simp_all add: message_dict_cases empty_message_def)
  note unf = dict_message_def string_or_empty_def dict_or_nil_def get_norm [OF d] dict_get_norm [OF d]
  note get = get_string_def get_int_def get_list_def get_dict_def dict_get_def
  show ?thesis
    using assms
  proof (cases rule: message_okE)
    case (query t q a ro)
    then have "wf_value (BDict a)" by (intro wf_value_if_canonical)
    with query show ?thesis
      unfolding unf
      by (cases ro) (simp_all add: message_dict_cases get small_def Let_def empty_message_def)
  next
    case (reply t r)
    then have "wf_value (BDict r)" by (intro wf_value_if_canonical)
    with reply show ?thesis
      unfolding unf by (simp add: message_dict_cases get small_def Let_def empty_message_def)
  next
    case (error t e)
    then show ?thesis
      using map_filter_any_value [of e]
      unfolding unf by (simp add: message_dict_cases get small_def Let_def empty_message_def)
  qed
qed

lemma decode_encode_message: "message_ok m \<Longrightarrow> decode_message (encode_message m) = Inr m"
  using dict_message_dict [of m]
  by (simp add: decode_message_def encode_message_def decode_encode_dict del: wf_value.simps encode_simps)

section \<open>Transaction identifiers\<close>

text \<open>\<open>fmt.Sprintf("%02x", n)\<close>.\<close>

definition fmt_02x :: "u16 \<Rightarrow> bytes" where
  "fmt_02x w = (let h = hex_digits (unat w) in if length h < 2 then 48 # h else h)"

lemma hex_num_fmt_02x: "hex_num 0 (fmt_02x w) = Some (unat w)"
  by (simp add: fmt_02x_def Let_def hex_num_hex_digits hex_val_zero)

lemma fmt_02x_inj: "fmt_02x v = fmt_02x w \<longleftrightarrow> v = w"
  by (metis hex_num_fmt_02x option.inject unsigned_word_eqI)

section \<open>The transport\<close>

text \<open>
  A pending transaction maps its identifier to the channel of the \<open>Send\<close> that waits on it.
  Channels are numbered by the order of the calls.
\<close>

record transport =
  tr_txns :: "bytes \<rightharpoonup> nat"
  tr_n :: u16

definition new_transport :: transport where
  "new_transport = \<lparr>tr_txns = (\<lambda>_. None), tr_n = 0\<rparr>"

text \<open>The first atomic section of \<open>Send\<close>, and the message it sends.\<close>

definition tr_register :: "transport \<Rightarrow> nat \<Rightarrow> transport \<times> bytes" where
  "tr_register t ch =
     (let n = tr_n t + 1; txn = fmt_02x n
      in (t\<lparr>tr_n := n, tr_txns := (tr_txns t)(txn \<mapsto> ch)\<rparr>, txn))"

definition tr_query :: "message \<Rightarrow> bytes \<Rightarrow> bytes" where
  "tr_query msg txn = encode_message (msg\<lparr>m_txn := txn\<rparr>)"

text \<open>The section that a failed write and a timeout run.\<close>

definition tr_forget :: "transport \<Rightarrow> bytes \<Rightarrow> transport" where
  "tr_forget t txn = t\<lparr>tr_txns := (tr_txns t)(txn := None)\<rparr>"

text \<open>One iteration of \<open>Listen\<close> on a received packet.\<close>

datatype dispatch = Ignored | Deliver nat message | Handle message

definition tr_receive :: "transport \<Rightarrow> bytes \<Rightarrow> transport \<times> dispatch" where
  "tr_receive t data =
     (case decode_message data of
        Inl _ \<Rightarrow> (t, Ignored)
      | Inr msg \<Rightarrow>
          if m_type msg = str ''r'' \<or> m_type msg = str ''e'' then
            (case tr_txns t (m_txn msg) of
               Some ch \<Rightarrow> (tr_forget t (m_txn msg), Deliver ch msg)
             | None \<Rightarrow> (t, Ignored))
          else (t, Handle msg))"

text \<open>
  The calls of \<open>Send\<close> in progress: \<open>ca_txn\<close> has the identifier of each call that has not
  returned, \<open>ca_box\<close> what its channel (of capacity one) holds, \<open>ca_result\<close> what it returned,
  \<open>ca_next\<close> the number of calls so far.
\<close>

record calls =
  ca_tr :: transport
  ca_next :: nat
  ca_txn :: "nat \<rightharpoonup> bytes"
  ca_box :: "nat \<rightharpoonup> message"
  ca_result :: "nat \<rightharpoonup> message res"

definition new_calls :: calls where
  "new_calls = \<lparr>ca_tr = new_transport, ca_next = 0, ca_txn = (\<lambda>_. None), ca_box = (\<lambda>_. None),
     ca_result = (\<lambda>_. None)\<rparr>"

inductive call_step :: "calls \<Rightarrow> calls \<Rightarrow> bool" where
  send: "tr_register (ca_tr s) (ca_next s) = (t, txn) \<Longrightarrow>
    call_step s (s\<lparr>ca_tr := t, ca_next := Suc (ca_next s), ca_txn := (ca_txn s)(ca_next s \<mapsto> txn)\<rparr>)"
| deliver: "tr_receive (ca_tr s) data = (t, Deliver ch msg) \<Longrightarrow>
    call_step s (s\<lparr>ca_tr := t, ca_box := (ca_box s)(ch \<mapsto> msg)\<rparr>)"
| other: "tr_receive (ca_tr s) data = (t, d) \<Longrightarrow> d = Ignored \<or> d = Handle msg \<Longrightarrow>
    call_step s (s\<lparr>ca_tr := t\<rparr>)"
| result: "ca_txn s ch = Some txn \<Longrightarrow> ca_box s ch = Some msg \<Longrightarrow>
    call_step s (s\<lparr>ca_txn := (ca_txn s)(ch := None), ca_box := (ca_box s)(ch := None),
      ca_result := (ca_result s)(ch \<mapsto> Inr msg)\<rparr>)"
| timeout: "ca_txn s ch = Some txn \<Longrightarrow>
    call_step s (s\<lparr>ca_tr := tr_forget (ca_tr s) txn, ca_txn := (ca_txn s)(ch := None),
      ca_result := (ca_result s)(ch \<mapsto> Inl (Fail ''timeout''))\<rparr>)"

inductive reachable_calls :: "calls \<Rightarrow> bool" where
  start: "reachable_calls new_calls"
| step: "reachable_calls s \<Longrightarrow> call_step s s' \<Longrightarrow> reachable_calls s'"

inductive_cases call_stepE: "call_step s s'"

definition is_reply :: "message \<Rightarrow> bool" where
  "is_reply msg \<longleftrightarrow> m_type msg = str ''r'' \<or> m_type msg = str ''e''"

text \<open>
  A registered channel is the one of a call that has not returned, under the call's own
  identifier, and it is empty. What a channel holds answers its call's identifier, and what
  a call has returned is a response.
\<close>

definition calls_ok :: "calls \<Rightarrow> bool" where
  "calls_ok s \<longleftrightarrow>
     (\<forall>txn ch. tr_txns (ca_tr s) txn = Some ch \<longrightarrow> ca_txn s ch = Some txn \<and> ca_box s ch = None) \<and>
     (\<forall>ch msg. ca_box s ch = Some msg \<longrightarrow> is_reply msg \<and> ch < ca_next s \<and>
        (\<forall>txn. ca_txn s ch = Some txn \<longrightarrow> m_txn msg = txn)) \<and>
     (\<forall>ch txn. ca_txn s ch = Some txn \<longrightarrow>
        ch < ca_next s \<and> txn = fmt_02x (of_nat (Suc ch)) \<and> ca_result s ch = None) \<and>
     (\<forall>ch msg. ca_result s ch = Some (Inr msg) \<longrightarrow>
        is_reply msg \<and> m_txn msg = fmt_02x (of_nat (Suc ch))) \<and>
     (\<forall>ch. ca_result s ch \<noteq> None \<longrightarrow> ch < ca_next s) \<and>
     tr_n (ca_tr s) = of_nat (ca_next s)"

lemma calls_ok_txn:
  "calls_ok s \<Longrightarrow> ca_txn s ch = Some txn \<Longrightarrow> ch < ca_next s \<and> txn = fmt_02x (of_nat (Suc ch))"
  unfolding calls_ok_def by blast

lemma tr_receive_Deliver:
  assumes "tr_receive t data = (t', Deliver ch msg)"
  shows "is_reply msg" "tr_txns t (m_txn msg) = Some ch" "t' = tr_forget t (m_txn msg)"
  using assms by (auto simp: tr_receive_def is_reply_def split: sum.splits if_splits option.splits)

lemma tr_receive_other:
  "tr_receive t data = (t', d) \<Longrightarrow> d = Ignored \<or> d = Handle msg \<Longrightarrow> t' = t"
  by (auto simp: tr_receive_def split: sum.splits if_splits option.splits)

lemma calls_ok_step [inv_intros]: "call_step s s' \<Longrightarrow> calls_ok s \<Longrightarrow> calls_ok s'"
proof (induction rule: call_step.induct)
  case (send s t txn)
  then have t: "t = (ca_tr s)\<lparr>tr_n := tr_n (ca_tr s) + 1, tr_txns := (tr_txns (ca_tr s))(txn \<mapsto> ca_next s)\<rparr>"
    "txn = fmt_02x (of_nat (Suc (ca_next s)))"
    by (auto simp: tr_register_def Let_def calls_ok_def add.commute)
  have "ca_box s (ca_next s) = None" "ca_result s (ca_next s) = None"
    using send.prems unfolding calls_ok_def by (metis less_irrefl not_None_eq)+
  with send.prems t show ?case unfolding calls_ok_def
    by (auto simp: add.commute less_Suc_eq)
next
  case (deliver s data t ch msg)
  note r = tr_receive_Deliver [OF deliver.hyps]
  have only: "tr_txns (ca_tr s) txn \<noteq> Some ch" if "txn \<noteq> m_txn msg" for txn
    using that r(2) deliver.prems unfolding calls_ok_def by (metis option.inject)
  show ?case using deliver.prems r(1,2) only unfolding calls_ok_def tr_forget_def r(3)
    by (auto split: if_splits)
next
  case (other s data t d msg)
  then have "t = ca_tr s" by (blast dest: tr_receive_other)
  then show ?case using other.prems by simp
next
  case (result s ch txn msg)
  then show ?case unfolding calls_ok_def by (auto split: if_splits)
next
  case (timeout s ch txn)
  then show ?case unfolding calls_ok_def tr_forget_def by (auto split: if_splits)
qed

lemma reachable_calls_ok: "reachable_calls s \<Longrightarrow> calls_ok s"
proof (induction rule: reachable_calls.induct)
  case start
  then show ?case by (simp add: calls_ok_def new_calls_def new_transport_def)
qed (rule calls_ok_step)

text \<open>While the 16-bit counter has not wrapped around, no identifier is used twice.\<close>

definition calls_waiting :: "calls \<Rightarrow> bool" where
  "calls_waiting s \<longleftrightarrow> (\<forall>ch txn. ca_txn s ch = Some txn \<longrightarrow>
     ca_box s ch = None \<longrightarrow> tr_txns (ca_tr s) txn = Some ch)"

lemma of_nat_u16_inj: "m < 65536 \<Longrightarrow> n < 65536 \<Longrightarrow> (of_nat m :: u16) = of_nat n \<longleftrightarrow> m = n"
  by (simp add: word_of_nat_eq_iff take_bit_nat_eq_self)

lemma calls_waiting_step:
  "call_step s s' \<Longrightarrow> calls_ok s \<Longrightarrow> calls_waiting s \<Longrightarrow> ca_next s' < 65536 \<Longrightarrow> calls_waiting s'"
proof (induction rule: call_step.induct)
  case (send s t txn)
  then have t: "t = (ca_tr s)\<lparr>tr_n := tr_n (ca_tr s) + 1, tr_txns := (tr_txns (ca_tr s))(txn \<mapsto> ca_next s)\<rparr>"
    "txn = fmt_02x (of_nat (Suc (ca_next s)))"
    by (auto simp: tr_register_def Let_def calls_ok_def add.commute)
  have "txn' \<noteq> txn" if "ca_txn s ch = Some txn'" for ch txn'
  proof -
    note calls_ok_txn [OF send.prems(1) that]
    then show ?thesis
      using t(2) send.prems(3) of_nat_u16_inj [of "Suc ch" "Suc (ca_next s)"]
      by (simp add: fmt_02x_inj del: of_nat_Suc)
  qed
  with send.prems t show ?case by (auto simp: calls_waiting_def)
next
  case (deliver s data t ch msg)
  note r = tr_receive_Deliver [OF deliver.hyps]
  show ?case
    unfolding calls_waiting_def
  proof (intro allI impI)
    let ?s = "s\<lparr>ca_tr := t, ca_box := (ca_box s)(ch \<mapsto> msg)\<rparr>"
    fix ch' txn'
    assume a: "ca_txn ?s ch' = Some txn'" "ca_box ?s ch' = None"
    then have b: "ca_txn s ch' = Some txn'" "ch' \<noteq> ch" "ca_box s ch' = None" by (auto split: if_splits)
    then have c: "tr_txns (ca_tr s) txn' = Some ch'"
      using deliver.prems(2) unfolding calls_waiting_def by blast
    then have "txn' \<noteq> m_txn msg" using b(2) r(2) by auto
    with c show "tr_txns (ca_tr ?s) txn' = Some ch'" by (simp add: r(3) tr_forget_def)
  qed
next
  case (other s data t d msg)
  then have "t = ca_tr s" by (blast dest: tr_receive_other)
  then show ?case using other.prems by simp
next
  case (result s ch txn msg)
  then show ?case by (auto simp: calls_waiting_def)
next
  case (timeout s ch txn)
  have other: "ca_txn s ch' \<noteq> Some txn" if "ch' \<noteq> ch" for ch'
  proof
    assume "ca_txn s ch' = Some txn"
    note c = calls_ok_txn [OF timeout.prems(1) this] calls_ok_txn [OF timeout.prems(1) timeout.hyps]
    then show False
      using that timeout.prems(3) of_nat_u16_inj [of "Suc ch" "Suc ch'"]
      by (auto simp: fmt_02x_inj simp del: of_nat_Suc)
  qed
  show ?case
    unfolding calls_waiting_def
  proof (intro allI impI)
    let ?s = "s\<lparr>ca_tr := tr_forget (ca_tr s) txn, ca_txn := (ca_txn s)(ch := None),
      ca_result := (ca_result s)(ch \<mapsto> Inl (Fail ''timeout''))\<rparr>"
    fix ch' txn'
    assume "ca_txn ?s ch' = Some txn'" "ca_box ?s ch' = None"
    then have b: "ca_txn s ch' = Some txn'" "ch' \<noteq> ch" "ca_box s ch' = None" by (auto split: if_splits)
    then have "tr_txns (ca_tr s) txn' = Some ch'"
      using timeout.prems(2) unfolding calls_waiting_def by blast
    moreover have "txn' \<noteq> txn" using b other by auto
    ultimately show "tr_txns (ca_tr ?s) txn' = Some ch'" by (simp add: tr_forget_def)
  qed
qed

lemma call_step_next: "call_step s s' \<Longrightarrow> ca_next s \<le> ca_next s'"
  by (induction rule: call_step.induct) simp_all

lemma reachable_calls_waiting: "reachable_calls s \<Longrightarrow> ca_next s < 65536 \<Longrightarrow> calls_waiting s"
proof (induction rule: reachable_calls.induct)
  case start
  then show ?case by (simp add: calls_waiting_def new_calls_def)
next
  case (step s s')
  then show ?case
    using call_step_next [of s s'] reachable_calls_ok [of s] by (auto intro: calls_waiting_step)
qed

section \<open>Properties\<close>

text \<open>
  C21. Encoding a query, a response or an error and decoding the packet gives the message back,
  with all of its fields.
\<close>

theorem krpc_roundtrip:
  assumes "message_ok m"
  shows "decode_message (encode_message m) = Inr m"
  using assms by (rule decode_encode_message)

definition ex_query :: message where
  "ex_query = empty_message\<lparr>m_txn := str ''aa'', m_type := str ''q'', m_method := str ''ping'',
     m_args := [(str ''id'', BString (replicate 20 7))], m_read_only := True\<rparr>"

theorem krpc_roundtrip_witness: "decode_message (encode_message ex_query) = Inr ex_query"
  by (rule krpc_roundtrip) (simp add: message_ok_def ex_query_def empty_message_def small_def)

text \<open>
  C20. The transport delivers responses to the right call, under any interleaving of calls,
  packets and timeouts: every message that a call of \<open>Send\<close> returned or that waits in its
  channel is a response or an error with that call's transaction identifier; a registered
  channel is empty, so \<open>Listen\<close> never blocks when it delivers; and until the 16-bit counter
  wraps around, every call that still waits stays registered, so its answer cannot be lost.
\<close>

theorem transport_matching:
  assumes "reachable_calls s"
  shows "(\<forall>ch msg. ca_result s ch = Some (Inr msg) \<longrightarrow>
        is_reply msg \<and> m_txn msg = fmt_02x (of_nat (Suc ch))) \<and>
    (\<forall>ch msg txn. ca_box s ch = Some msg \<longrightarrow> ca_txn s ch = Some txn \<longrightarrow>
        is_reply msg \<and> m_txn msg = txn) \<and>
    (\<forall>data t ch msg. tr_receive (ca_tr s) data = (t, Deliver ch msg) \<longrightarrow>
        ca_box s ch = None \<and> ca_txn s ch = Some (m_txn msg)) \<and>
    (ca_next s < 65536 \<longrightarrow> (\<forall>ch txn. ca_txn s ch = Some txn \<longrightarrow> ca_box s ch = None \<longrightarrow>
        tr_txns (ca_tr s) txn = Some ch))"
  using reachable_calls_ok [OF assms] reachable_calls_waiting [OF assms]
  unfolding calls_ok_def calls_waiting_def by (blast dest: tr_receive_Deliver)

definition ex_calls :: calls where
  "ex_calls = new_calls\<lparr>ca_tr := fst (tr_register new_transport 0), ca_next := 1,
     ca_txn := (\<lambda>_. None)(0 \<mapsto> fmt_02x 1)\<rparr>"

theorem transport_matching_witness: "tr_txns (ca_tr ex_calls) (fmt_02x 1) = Some 0"
proof -
  have "tr_register (ca_tr new_calls) (ca_next new_calls) = (fst (tr_register new_transport 0), fmt_02x 1)"
    by (simp add: new_calls_def tr_register_def new_transport_def Let_def)
  from call_step.send [OF this] have "reachable_calls ex_calls"
    by (intro reachable_calls.step [OF reachable_calls.start]) (simp add: ex_calls_def new_calls_def)
  then show ?thesis
    using transport_matching [of ex_calls] by (auto simp: ex_calls_def new_calls_def)
qed

end
