(* ===== verification/GoNet.thy ===== *)
theory GoNet
  imports GoStrings
begin

text \<open>
  Addresses as text, from Go's package \<open>net\<close>: \<open>net.ParseIP\<close> (over \<open>netip.ParseAddr\<close>) and
  \<open>net.SplitHostPort\<close>, the inverses of \<open>IP.String\<close> and \<open>JoinHostPort\<close> of theory GoStd, and
  the scan of a decimal number by \<open>fmt.Sscanf\<close>. The two round trips are proved at the end.
\<close>

section \<open>Parsing IPv4 addresses\<close>

text \<open>\<open>parseIPv4Fields\<close>: exactly four fields, each of digits only, without leading zeros, at most 255.\<close>

definition parse_octet :: "bytes \<Rightarrow> u8 option" where
  "parse_octet s =
     (case parse_digits s of
        None \<Rightarrow> None
      | Some v \<Rightarrow> if 1 < length s \<and> hd s = 48 then None else if 255 < v then None else Some (of_nat v))"

definition parse_ipv4 :: "bytes \<Rightarrow> bytes option" where
  "parse_ipv4 s =
     (let fields = split_on 46 s
      in if length fields \<noteq> 4 then None else those (map parse_octet fields))"

section \<open>Parsing IPv6 addresses\<close>

text \<open>What follows the loop of \<open>parseIPv6\<close>: the whole string is used, and the ellipsis is expanded.\<close>

definition expand_ip :: "bytes \<Rightarrow> nat option \<Rightarrow> bytes \<Rightarrow> bytes option" where
  "expand_ip ip ellipsis s =
     (if s \<noteq> [] then None
      else if length ip < 16 then
        (case ellipsis of
           None \<Rightarrow> None
         | Some e \<Rightarrow> Some (take e ip @ replicate (16 - length ip) 0 @ drop e ip))
      else if ellipsis \<noteq> None then None
      else Some ip)"

lemma dropWhile_shorter: "dropWhile P s = c # cs \<Longrightarrow> length cs < length s"
  by (metis Suc_le_eq length_Cons length_dropWhile_le)

text \<open>The loop, with the bytes written so far, the place of the ellipsis and the rest of the string.\<close>

abbreviation is_hex :: "u8 \<Rightarrow> bool" where
  "is_hex c \<equiv> hex_val c \<noteq> None"

function parse_groups :: "bytes \<Rightarrow> nat option \<Rightarrow> bytes \<Rightarrow> bytes option" where
  "parse_groups ip ellipsis s =
     (if 16 \<le> length ip then expand_ip ip ellipsis s
      else
        let ds = takeWhile is_hex s; rest = dropWhile is_hex s
        in if ds = [] \<or> 4 < length ds then None
           else if starts_with 46 rest then
             (if ellipsis = None \<and> length ip \<noteq> 12 then None
              else if 16 < length ip + 4 then None
              else case parse_ipv4 s of None \<Rightarrow> None | Some q \<Rightarrow> expand_ip (ip @ q) ellipsis [])
           else
             let ip = ip @ put16 (of_nat (the (hex_num 0 ds)))
             in case rest of
                  [] \<Rightarrow> expand_ip ip ellipsis []
                | c # s \<Rightarrow>
                    if c \<noteq> 58 then None
                    else (case s of
                            [] \<Rightarrow> None
                          | c # s' \<Rightarrow>
                              if c \<noteq> 58 then parse_groups ip ellipsis s
                              else if ellipsis \<noteq> None then None
                              else if s' = [] then expand_ip ip (Some (length ip)) []
                              else parse_groups ip (Some (length ip)) s'))"
  by pat_completeness auto

termination
  by (relation "measure (\<lambda>(ip, e, s). length s)") (auto dest!: dropWhile_shorter [OF sym])

declare parse_groups.simps [simp del]

definition parse_ipv6 :: "bytes \<Rightarrow> bytes option" where
  "parse_ipv6 s =
     (if take 2 s = [58, 58] then
        (if drop 2 s = [] then Some (replicate 16 0) else parse_groups [] (Some 0) (drop 2 s))
      else parse_groups [] None s)"

text \<open>
  \<open>netip.ParseAddr\<close> looks for the first of dot, colon and percent sign; \<open>net.ParseIP\<close> refuses
  addresses with a zone, and gives the 16-byte form.
\<close>

definition parse_ip :: "bytes \<Rightarrow> bytes option" where
  "parse_ip s =
     (case List.find (\<lambda>c. c = 46 \<or> c = 58 \<or> c = 37) s of
        None \<Rightarrow> None
      | Some c \<Rightarrow>
          if c = 46 then map_option ipv4 (parse_ipv4 s)
          else if c = 58 \<and> 37 \<notin> set s then parse_ipv6 s
          else None)"

section \<open>Hosts and ports\<close>

text \<open>\<open>strings.LastIndexByte\<close>.\<close>

definition last_index_byte :: "u8 \<Rightarrow> bytes \<Rightarrow> nat option" where
  "last_index_byte c s = map_option (\<lambda>i. length s - 1 - i) (index_byte c (rev s))"

definition split_host_port :: "bytes \<Rightarrow> (bytes \<times> bytes) res" where
  "split_host_port hostport =
     (case last_index_byte 58 hostport of
        None \<Rightarrow> Inl (Fail ''missing port'')
      | Some i \<Rightarrow>
          (case (if hd hostport = 91 then
                   (case index_byte 93 hostport of
                      None \<Rightarrow> Inl (Fail ''missing ]'')
                    | Some e \<Rightarrow>
                        if e + 1 = length hostport then Inl (Fail ''missing port'')
                        else if e + 1 = i then Inr (slice hostport 1 e, 1, e + 1)
                        else if hostport ! (e + 1) = 58 then Inl (Fail ''too many colons'')
                        else Inl (Fail ''missing port''))
                 else if 58 \<in> set (take i hostport) then Inl (Fail ''too many colons'')
                 else Inr (take i hostport, 0, 0)) of
             Inl e \<Rightarrow> Inl e
           | Inr (host, j, k) \<Rightarrow>
               if 91 \<in> set (drop j hostport) then Inl (Fail ''unexpected ['')
               else if 93 \<in> set (drop k hostport) then Inl (Fail ''unexpected ]'')
               else Inr (host, drop (i + 1) hostport)))"

text \<open>
  \<open>fmt.Sscanf(s, "%d", &v)\<close>: white space other than a line end is skipped, then one optional
  sign and digits are read; what follows is ignored, and on an error the variable keeps its zero.
\<close>

definition scan_int :: "bytes \<Rightarrow> int" where
  "scan_int s =
     (let s = trim_with (remove1 [10] space_runes) s;
          sgn = (if starts_with 43 s \<or> starts_with 45 s then [hd s] else []);
          ds = takeWhile is_digit (drop (length sgn) s)
      in case parse_int64 (sgn @ ds) of Inl _ \<Rightarrow> 0 | Inr v \<Rightarrow> v)"

section \<open>IPv4 addresses read back\<close>

lemma those_Some: "(\<And>x. x \<in> set xs \<Longrightarrow> f (g x) = Some x) \<Longrightarrow> those (map f (map g xs)) = Some xs"
  by (induction xs) simp_all

lemma not_digit: "\<not> is_digit 46" "\<not> is_digit 58" "\<not> is_digit 37" "\<not> is_digit 91" "\<not> is_digit 93"
  by (simp_all add: is_digit_def)

lemma itoa_digits: "0 \<le> i \<Longrightarrow> c \<in> set (itoa i) \<Longrightarrow> is_digit c"
  using set_dec_digits by (simp add: itoa_def)

lemma set_join_bytes: "c \<in> set (join_bytes [s] xs) \<Longrightarrow> c = s \<or> (\<exists>x \<in> set xs. c \<in> set x)"
  by (induction "[s]" xs rule: join_bytes.induct) auto

lemma set_dotted: "c \<in> set (dotted q) \<Longrightarrow> c = 46 \<or> is_digit c"
  unfolding dotted_def by (auto dest!: set_join_bytes dest: itoa_digits [OF uint_ge_0])

lemma parse_octet_itoa: "parse_octet (itoa (uint b)) = Some (b :: u8)"
proof -
  have b: "unat b < 256" using unsigned_less [of b, where 'a = nat] by simp
  have "\<not> (1 < length (dec_digits (unat b)) \<and> hd (dec_digits (unat b)) = 48)"
    using length_dec_digits_gt1 hd_dec_digits_zero by auto
  with b show ?thesis by (simp add: parse_octet_def itoa_def parse_digits_def)
qed

lemma parse_dotted: "length q = 4 \<Longrightarrow> parse_ipv4 (dotted q) = Some q"
proof -
  assume q: "length q = 4"
  have "split_on 46 (dotted q) = map (\<lambda>b. itoa (uint b)) q"
    unfolding dotted_def using q itoa_digits not_digit(1) by (intro join_split_on) auto
  with q show ?thesis by (simp only: parse_ipv4_def Let_def) (simp add: those_Some parse_octet_itoa del: map_map)
qed

section \<open>IPv6 addresses read back\<close>

text \<open>Groups as \<open>IP.String\<close> prints them.\<close>

abbreviation hex_group :: "u16 \<Rightarrow> bytes" where
  "hex_group g \<equiv> hex_digits (unat g)"

abbreviation hex_groups :: "u16 list \<Rightarrow> bytes" where
  "hex_groups gs \<equiv> join_bytes [58] (map hex_group gs)"

abbreviation group_bytes :: "u16 list \<Rightarrow> bytes" where
  "group_bytes gs \<equiv> concat (map put16 gs)"

lemma hex_digits_not_Nil [simp]: "hex_digits n \<noteq> []"
  by (subst hex_digits.simps) simp

lemma set_hex_digits: "c \<in> set (hex_digits n) \<Longrightarrow> is_hex c"
proof (induction n rule: hex_digits.induct)
  case (1 n)
  then show ?case
    using hex_val_small [of n] hex_val_small [of "n mod 16"]
    by (cases "n < 16") (auto simp: hex_digits.simps [of n])
qed

lemma length_hex_digits: "n < 16 ^ k \<Longrightarrow> 0 < k \<Longrightarrow> length (hex_digits n) \<le> k"
proof (induction n arbitrary: k rule: hex_digits.induct)
  case (1 n)
  show ?case
  proof (cases "n < 16")
    case True
    with "1.prems" show ?thesis by (simp add: hex_digits.simps [of n])
  next
    case False
    obtain j where k: "k = Suc j" using "1.prems"(2) by (cases k) simp_all
    have "0 < j" using False "1.prems"(1) k by (cases j) simp_all
    moreover have "n div 16 < 16 ^ j" using "1.prems"(1) k by (simp add: less_mult_imp_div_less mult.commute)
    ultimately show ?thesis using "1.IH" [of j] False k by (simp add: hex_digits.simps [of n])
  qed
qed

lemma hex_group_ok: "length (hex_group g) \<le> 4" "the (hex_num 0 (hex_group g)) = unat g"
proof -
  have "unat g < 16 ^ 4" using unsigned_less [of g, where 'a = nat] by simp
  then show "length (hex_group g) \<le> 4" by (rule length_hex_digits) simp
  show "the (hex_num 0 (hex_group g)) = unat g" by (simp add: hex_num_hex_digits)
qed

lemma not_hex: "\<not> is_hex 58" "\<not> is_hex 46" "\<not> is_hex 37"
  by (simp_all add: hex_val_def)

text \<open>One round of the loop, on a group that ends the string or is followed by a colon.\<close>

lemma group_scan:
  "takeWhile is_hex (hex_group g) = hex_group g" "dropWhile is_hex (hex_group g) = []"
  "takeWhile is_hex (hex_group g @ 58 # s) = hex_group g" "dropWhile is_hex (hex_group g @ 58 # s) = 58 # s"
  using set_hex_digits not_hex(1) by (simp_all add: takeWhile_append dropWhile_append)

lemma parse_groups_last:
  "length ip < 16 \<Longrightarrow> parse_groups ip ell (hex_group g) = expand_ip (ip @ put16 g) ell []"
  using hex_group_ok [of g]
  by (subst parse_groups.simps)
     (simp add: group_scan starts_with_def Let_def del: not_None_eq)

lemma parse_groups_next:
  assumes "length ip < 16" "c \<noteq> 58"
  shows "parse_groups ip ell (hex_group g @ 58 # c # s) = parse_groups (ip @ put16 g) ell (c # s)"
  using assms hex_group_ok [of g]
  by (subst parse_groups.simps)
     (simp add: group_scan starts_with_def Let_def del: not_None_eq)

lemma parse_groups_ellipsis:
  assumes "length ip < 16"
  shows "parse_groups ip None (hex_group g @ 58 # 58 # s) =
    (if s = [] then expand_ip (ip @ put16 g) (Some (length ip + 2)) []
     else parse_groups (ip @ put16 g) (Some (length ip + 2)) s)"
  using assms hex_group_ok [of g]
  by (subst parse_groups.simps)
     (simp add: group_scan starts_with_def Let_def del: not_None_eq)

text \<open>A row of groups starts with a digit, so no round ends at an ellipsis inside it.\<close>

lemma hex_groups_Cons: "gs \<noteq> [] \<Longrightarrow> hex_groups (g # gs) = hex_group g @ 58 # hex_groups gs"
  by (cases gs) simp_all

lemma hex_groups_head:
  assumes "gs \<noteq> []"
  obtains c s where "hex_groups gs = c # s" "is_hex c"
proof -
  obtain g gs' where gs: "gs = g # gs'" using assms by (cases gs) simp_all
  obtain c s where c: "hex_group g = c # s" by (cases "hex_group g") simp_all
  then have "is_hex c" using set_hex_digits [of c "unat g"] by simp
  moreover have "\<exists>s'. hex_groups gs = c # s'" using c gs by (cases gs') simp_all
  ultimately show thesis using that by blast
qed

lemma is_hex_neq: "is_hex c \<Longrightarrow> c \<noteq> 58 \<and> c \<noteq> 46 \<and> c \<noteq> 37"
  using not_hex by (metis (full_types))

lemma parse_groups_row:
  "gs \<noteq> [] \<Longrightarrow> length ip + 2 * length gs \<le> 16 \<Longrightarrow>
    parse_groups ip ell (hex_groups gs) = expand_ip (ip @ group_bytes gs) ell []"
proof (induction gs arbitrary: ip)
  case (Cons g gs)
  show ?case
  proof (cases "gs = []")
    case True
    with Cons.prems show ?thesis by (simp add: parse_groups_last)
  next
    case False
    then obtain c s where c: "hex_groups gs = c # s" "is_hex c" using hex_groups_head by blast
    have "parse_groups ip ell (hex_groups (g # gs)) = parse_groups (ip @ put16 g) ell (hex_groups gs)"
      using Cons.prems is_hex_neq [OF c(2)] by (simp only: hex_groups_Cons [OF False] c(1)) (simp add: parse_groups_next)
    also have "\<dots> = expand_ip ((ip @ put16 g) @ group_bytes gs) ell []"
      using Cons.prems False by (intro Cons.IH) simp_all
    finally show ?thesis by simp
  qed
qed simp

lemma parse_groups_split:
  "gs \<noteq> [] \<Longrightarrow> length ip + 2 * (length gs + length hs) \<le> 16 \<Longrightarrow>
    parse_groups ip None (hex_groups gs @ 58 # 58 # hex_groups hs) =
      expand_ip (ip @ group_bytes gs @ group_bytes hs) (Some (length ip + 2 * length gs)) []"
proof (induction gs arbitrary: ip)
  case (Cons g gs)
  show ?case
  proof (cases "gs = []")
    case True
    have "hs = [] \<longleftrightarrow> hex_groups hs = []" using hex_groups_head [of hs] by (metis join_bytes.simps(1) list.distinct(1) list.simps(8))
    with True Cons.prems show ?thesis by (cases "hs = []") (simp_all add: parse_groups_ellipsis parse_groups_row)
  next
    case False
    then obtain c s where c: "hex_groups gs = c # s" "is_hex c" using hex_groups_head by blast
    have "parse_groups ip None (hex_groups (g # gs) @ 58 # 58 # hex_groups hs) =
        parse_groups (ip @ put16 g) None (hex_groups gs @ 58 # 58 # hex_groups hs)"
      using Cons.prems is_hex_neq [OF c(2)] by (simp only: hex_groups_Cons [OF False] c(1)) (simp add: parse_groups_next)
    also have "\<dots> = expand_ip ((ip @ put16 g) @ group_bytes gs @ group_bytes hs)
        (Some (length (ip @ put16 g) + 2 * length gs)) []"
      using Cons.prems False by (intro Cons.IH) simp_all
    finally show ?thesis by (simp add: algebra_simps)
  qed
qed simp

text \<open>The run of zeros that \<open>IP.String\<close> leaves out.\<close>

definition zero_span :: "u16 list \<Rightarrow> nat \<times> nat \<Rightarrow> bool" where
  "zero_span gs se \<longleftrightarrow> se = (255, 255) \<or>
     fst se < snd se \<and> snd se \<le> length gs \<and> take (snd se - fst se) (drop (fst se) gs) = replicate (snd se - fst se) 0"

lemma zero_run_zeros: "take (zero_run gs i) (drop i gs) = replicate (zero_run gs i) 0"
proof -
  have "take (zero_run gs i) (drop i gs) = takeWhile (\<lambda>g. g = 0) (drop i gs)"
    unfolding zero_run_def by (metis takeWhile_eq_take)
  moreover have "takeWhile (\<lambda>g. g = 0) xs = replicate (length (takeWhile (\<lambda>g. g = 0) xs)) 0" for xs :: "u16 list"
    by (induction xs) simp_all
  ultimately show ?thesis by (simp only: zero_run_def)
qed

lemma zero_span_best: "zero_span gs (best_zero_run gs)"
proof -
  let ?f = "\<lambda>(s, e) i. let l = zero_run gs i in if 2 \<le> l \<and> e - s < l then (i, i + l) else (s, e)"
  have "zero_span gs se \<Longrightarrow> zero_span gs (?f se i)" for se i
  proof -
    assume ok: "zero_span gs se"
    have "length (takeWhile (\<lambda>g. g = 0) (drop i gs)) \<le> length (drop i gs)" by (rule length_takeWhile_le)
    then have "2 \<le> zero_run gs i \<Longrightarrow> i + zero_run gs i \<le> length gs" by (simp add: zero_run_def)
    then show ?thesis using ok zero_run_zeros [of gs i] by (cases se) (auto simp: zero_span_def Let_def)
  qed
  then have "zero_span gs se \<Longrightarrow> zero_span gs (foldl ?f se is)" for se "is"
    by (induction "is" arbitrary: se) simp_all
  moreover have "zero_span gs (255, 255)" by (simp add: zero_span_def)
  ultimately show ?thesis unfolding best_zero_run_def by blast
qed

interpretation groups: exact_codec 2 put16 get16 "\<lambda>_. True"
  by unfold_locales (simp_all add: put_be_get_be)

lemma length_group_bytes [simp]: "length (group_bytes gs) = 2 * length gs"
  using groups.length_concat_enc [of gs] by simp

lemma expand_span:
  assumes "length gs = 8" "s < e" "e \<le> 8" "take (e - s) (drop s gs) = replicate (e - s) 0"
  shows "expand_ip (group_bytes (take s gs) @ group_bytes (drop e gs)) (Some (2 * s)) [] = Some (group_bytes gs)"
proof -
  have zeros: "concat (replicate n (put16 0)) = replicate (2 * n) 0" for n
    by (induction n) (simp_all add: numeral_2_eq_2)
  have "gs = take s gs @ take (e - s) (drop s gs) @ drop (e - s) (drop s gs)" by (simp only: append_take_drop_id)
  then have gs: "gs = take s gs @ replicate (e - s) 0 @ drop e gs" using assms(2,4) by simp
  have len: "length (group_bytes (take s gs)) = 2 * s" using assms(1-3) by simp
  have "16 - length (group_bytes (take s gs) @ group_bytes (drop e gs)) = 2 * (e - s)" using assms(1-3) by simp
  moreover have "length (group_bytes (take s gs) @ group_bytes (drop e gs)) < 16" using assms(1-3) by simp
  ultimately have "expand_ip (group_bytes (take s gs) @ group_bytes (drop e gs)) (Some (2 * s)) [] =
      Some (group_bytes (take s gs) @ replicate (2 * (e - s)) 0 @ group_bytes (drop e gs))"
    unfolding expand_ip_def using len by simp
  also have "\<dots> = Some (group_bytes (take s gs @ replicate (e - s) 0 @ drop e gs))" by (simp add: zeros)
  finally show ?thesis using gs by simp
qed

lemma set_hex_groups: "c \<in> set (hex_groups gs) \<Longrightarrow> is_hex c \<or> c = 58"
  using set_hex_digits by (fastforce dest: set_join_bytes)

lemma parse_ip_of_ipv6:
  assumes "\<forall>c \<in> set s. is_hex c \<or> c = 58" "58 \<in> set s"
  shows "parse_ip s = parse_ipv6 s"
proof -
  have "List.find (\<lambda>c. c = 46 \<or> c = 58 \<or> c = 37) s = Some 58"
    using assms by (induction s) (auto simp: hex_val_def)
  moreover have "37 \<notin> set s" using assms(1) not_hex(3) by fastforce
  ultimately show ?thesis by (simp add: parse_ip_def)
qed

lemma ipv6_parts:
  obtains (whole) "ipv6_string ip = hex_groups (decode_indexed 2 get16 ip)"
  | (span) s e where "s < e" "e \<le> length (decode_indexed 2 get16 ip)"
    "take (e - s) (drop s (decode_indexed 2 get16 ip)) = replicate (e - s) 0"
    "length (decode_indexed 2 get16 ip) = 8 \<Longrightarrow> ipv6_string ip =
      hex_groups (take s (decode_indexed 2 get16 ip)) @ 58 # 58 # hex_groups (drop e (decode_indexed 2 get16 ip))"
proof (cases "best_zero_run (decode_indexed 2 get16 ip)")
  case (Pair s e)
  then have "zero_span (decode_indexed 2 get16 ip) (s, e)" by (metis zero_span_best)
  then have "(s, e) = (255, 255) \<or> s < e \<and> e \<le> length (decode_indexed 2 get16 ip) \<and>
      take (e - s) (drop s (decode_indexed 2 get16 ip)) = replicate (e - s) 0"
    by (simp add: zero_span_def)
  then show thesis
  proof
    assume "(s, e) = (255, 255)"
    then show thesis using Pair by (intro whole) (simp add: ipv6_string_def)
  next
    assume "s < e \<and> e \<le> length (decode_indexed 2 get16 ip) \<and>
      take (e - s) (drop s (decode_indexed 2 get16 ip)) = replicate (e - s) 0"
    then show thesis using Pair by (intro span [of s e]) (auto simp: ipv6_string_def Let_def)
  qed
qed

lemma hex_groups_colon: "1 < length gs \<Longrightarrow> 58 \<in> set (hex_groups gs)"
  by (cases gs; cases "tl gs") auto

lemma parse_ipv6_string:
  assumes "length ip = 16"
  shows "parse_ip (ipv6_string ip) = Some ip"
proof -
  define gs :: "u16 list" where "gs = decode_indexed 2 get16 ip"
  have len: "length gs = 8" using assms by (simp add: gs_def decode_indexed_def)
  have bytes: "group_bytes gs = ip"
    unfolding gs_def decode_indexed_eq_while [of 2, OF zero_less_numeral] by (rule groups.concat_decode_while) (simp add: assms)
  have no_ellipsis: "take 2 (hex_groups xs @ ys) \<noteq> [58, 58]" if "xs \<noteq> []" for xs ys
    using hex_groups_head [OF that] not_hex(1) by (metis append_Cons list.inject take_Suc_Cons numeral_2_eq_2)
  show ?thesis
  proof (cases ip rule: ipv6_parts)
    case whole
    then have printed: "ipv6_string ip = hex_groups gs" by (simp only: gs_def)
    have ne: "gs \<noteq> []" using len by auto
    have "parse_ip (hex_groups gs) = parse_ipv6 (hex_groups gs)"
      using set_hex_groups hex_groups_colon [of gs] len by (intro parse_ip_of_ipv6) auto
    also have "\<dots> = parse_groups [] None (hex_groups gs)"
      using no_ellipsis [OF ne, of "[]"] by (simp add: parse_ipv6_def)
    also have "\<dots> = Some ip" using len bytes by (subst parse_groups_row) (auto simp: expand_ip_def assms)
    finally show ?thesis by (simp only: printed)
  next
    case (span s e)
    have printed: "ipv6_string ip = hex_groups (take s gs) @ 58 # 58 # hex_groups (drop e gs)"
      using span(4) len by (simp only: gs_def)
    have full: "expand_ip (group_bytes (take s gs) @ group_bytes (drop e gs)) (Some (2 * s)) [] = Some ip"
      using expand_span [OF len span(1)] span(2,3) len bytes by (simp add: gs_def)
    have e: "e \<le> 8" using span(2) len by (simp add: gs_def)
    have "parse_ip (ipv6_string ip) = parse_ipv6 (ipv6_string ip)"
      unfolding printed using set_hex_groups by (intro parse_ip_of_ipv6) auto
    also have "\<dots> = Some ip"
    proof (cases "s = 0")
      case True
      show ?thesis
      proof (cases "drop e gs = []")
        case True
        then have "ip = replicate 16 0" using full \<open>s = 0\<close> by (simp add: expand_ip_def)
        then show ?thesis unfolding printed using \<open>s = 0\<close> True by (simp add: parse_ipv6_def)
      next
        case False
        then have "hex_groups (drop e gs) \<noteq> []" using hex_groups_head by (metis list.distinct(1))
        then show ?thesis using full False len span(1)
          by (simp add: printed parse_ipv6_def \<open>s = 0\<close> parse_groups_row)
      qed
    next
      case False
      then have ne: "take s gs \<noteq> []" using len by auto
      have "parse_ipv6 (ipv6_string ip) = parse_groups [] None (hex_groups (take s gs) @ 58 # 58 # hex_groups (drop e gs))"
        unfolding printed using no_ellipsis [OF ne] by (simp add: parse_ipv6_def)
      also have "\<dots> = expand_ip (group_bytes (take s gs) @ group_bytes (drop e gs)) (Some (2 * length (take s gs))) []"
        using len e span(1) by (subst parse_groups_split [OF ne]) auto
      finally show ?thesis using full len e span(1) by simp
    qed
    finally show ?thesis .
  qed
qed

text \<open>\<open>net.ParseIP\<close> reads back what \<open>IP.String\<close> prints, in the 16-byte form.\<close>

lemma dotted_dot: "length q = 4 \<Longrightarrow> List.find (\<lambda>c. c = 46 \<or> c = 58 \<or> c = 37) (dotted q) = Some 46"
proof -
  assume "length q = 4"
  then obtain a b c where q: "q = a # b # c" by (cases q; cases "tl q") auto
  then obtain t where t: "dotted q = itoa (uint a) @ 46 # t" by (simp add: dotted_def)
  have "List.find P (xs @ 46 # ys) = Some (46 :: u8)" if "\<forall>x \<in> set xs. \<not> P x" "P 46" for P and xs ys :: bytes
    using that by (induction xs) auto
  moreover have "\<forall>x \<in> set (itoa (uint a)). \<not> (x = 46 \<or> x = 58 \<or> x = 37)"
    using itoa_digits [of "uint a"] not_digit by auto
  ultimately show ?thesis by (simp only: t) simp
qed

lemma parse_ip_string:
  assumes "length ip = 4 \<or> length ip = 16"
  shows "parse_ip (ip_string ip) = to16 ip"
proof (cases "to4 ip")
  case (Some q)
  then have "length q = 4" "to16 ip = Some (ipv4 q)"
    using assms length_to4 [of ip q] by (auto simp: to4_def to16_def ipv4_def split: if_splits) (metis append_take_drop_id)
  moreover have "ip_string ip = dotted q" using Some assms by (auto simp: ip_string_def)
  ultimately show ?thesis using dotted_dot [of q] by (simp add: parse_ip_def parse_dotted)
next
  case None
  then have "length ip = 16" using assms by (auto simp: to4_def)
  moreover from this None have "ip_string ip = ipv6_string ip" by (auto simp: ip_string_def)
  ultimately show ?thesis by (simp add: parse_ipv6_string)
qed

section \<open>Hosts, ports and numbers read back\<close>

lemma last_index_byte_last: "c \<notin> set ys \<Longrightarrow> last_index_byte c (xs @ c # ys) = Some (length xs)"
  using index_byte_first [of c "rev ys" "rev xs"] by (simp add: last_index_byte_def)

lemma split_join_host_port:
  assumes "91 \<notin> set host" "93 \<notin> set host" "58 \<notin> set port" "91 \<notin> set port" "93 \<notin> set port"
  shows "split_host_port (join_host_port host port) = Inr (host, port)"
proof (cases "58 \<in> set host")
  case True
  let ?hp = "91 # host @ [93, 58] @ port"
  have colon: "last_index_byte 58 ?hp = Some (length host + 2)"
    using last_index_byte_last [OF assms(3), of "91 # host @ [93]"] by simp
  have bracket: "index_byte 93 ?hp = Some (length host + 1)"
    using index_byte_first [of 93 "91 # host" "58 # port"] assms(2) by simp
  have "slice ?hp 1 (length host + 1) = host" by (simp add: slice_def)
  then show ?thesis using True colon bracket assms
    by (simp add: split_host_port_def join_host_port_def)
next
  case False
  have "hd (host @ [58] @ port) \<noteq> 91" using assms(1) by (cases host) auto
  then show ?thesis using False last_index_byte_last [OF assms(3), of host] assms
    by (simp add: split_host_port_def join_host_port_def)
qed

lemma scan_int_itoa:
  assumes "0 \<le> i" "i < 2 ^ 63"
  shows "scan_int (itoa i) = i"
proof -
  define ds where "ds = dec_digits (nat i)"
  have ds: "itoa i = ds" using assms(1) by (simp add: itoa_def ds_def)
  obtain c cs where c: "ds = c # cs" by (cases ds) (simp_all add: ds_def)
  have digits: "\<forall>c \<in> set ds. is_digit c" using set_dec_digits by (simp add: ds_def)
  then have "is_digit c" by (simp add: c)
  then have pr: "strip_one space_runes ds = None" using strip_one_printable [of c cs] printable_digit by (simp add: c)
  have "strip_one (remove1 [10] space_runes) ds = None"
    using pr set_remove1_subset [of "[10]" space_runes] by (auto simp: strip_one_def find_None_iff)
  then have "trim_with (remove1 [10] space_runes) ds = ds" by (simp add: trim_with.simps)
  moreover have "takeWhile is_digit ds = ds" using digits by simp
  moreover have "c \<noteq> 43" "c \<noteq> 45" using \<open>is_digit c\<close> by simp_all
  moreover have "parse_int64 ds = Inr i" using parse_int64_itoa [of i] assms by (simp add: in_int64_def ds)
  ultimately show ?thesis by (simp add: scan_int_def ds starts_with_def c)
qed

end
