(* ===== verification/DhtNode.thy ===== *)
theory DhtNode
  imports DhtTable DhtKrpc GoNet
begin

text \<open>
  The DHT node (\<open>dht/node.go\<close>): compact node, peer and sample lists, sorting by distance,
  random targets inside a bucket, and the iterative lookups behind \<open>FindNode\<close> and
  \<open>GetPeers\<close>, with \<open>Ping\<close>, \<open>AnnouncePeer\<close>, \<open>Bootstrap\<close>, \<open>Maintain\<close> and
  \<open>SampleInfohashes\<close>. The network is a parameter: for each round it says which of the
  queried nodes answer, in which order their answers arrive, and with which messages. The
  lookups end whatever it does, because every round queries identifiers never queried before.
\<close>

section \<open>Compact lists\<close>

definition compact_node :: "node \<Rightarrow> bytes" where
  "compact_node n = nd_id n @
     (case to4 (ua_ip (nd_addr n)) of Some q \<Rightarrow> q | None \<Rightarrow> replicate 4 0) @
     put16 (word_of_int (ua_port (nd_addr n)))"

definition encode_compact_nodes :: "node list \<Rightarrow> bytes" where
  "encode_compact_nodes ns = concat (map compact_node ns)"

definition parse_compact_node :: "bytes \<Rightarrow> node" where
  "parse_compact_node d = \<lparr>nd_id = take 20 d,
     nd_addr = \<lparr>ua_ip = ipv4 (slice d 20 24), ua_port = uint (get16 (slice d 24 26))\<rparr>\<rparr>"

definition decode_compact_nodes :: "bytes \<Rightarrow> node list" where
  "decode_compact_nodes data = decode_while 26 parse_compact_node data"

definition compact_node6 :: "node \<Rightarrow> bytes" where
  "compact_node6 n = nd_id n @
     (case to16 (ua_ip (nd_addr n)) of Some q \<Rightarrow> q | None \<Rightarrow> replicate 16 0) @
     put16 (word_of_int (ua_port (nd_addr n)))"

definition encode_compact_nodes6 :: "node list \<Rightarrow> bytes" where
  "encode_compact_nodes6 ns = concat (map compact_node6 ns)"

definition parse_compact_node6 :: "bytes \<Rightarrow> node" where
  "parse_compact_node6 d = \<lparr>nd_id = take 20 d,
     nd_addr = \<lparr>ua_ip = slice d 20 36, ua_port = uint (get16 (slice d 36 38))\<rparr>\<rparr>"

definition decode_compact_nodes6 :: "bytes \<Rightarrow> node list" where
  "decode_compact_nodes6 data = decode_while 38 parse_compact_node6 data"

definition decode_compact_peers :: "bytes \<Rightarrow> bytes list" where
  "decode_compact_peers data =
     decode_while 6 (\<lambda>d. ip_string (ipv4 (take 4 d)) @ [58] @ itoa (uint (get16 (slice d 4 6)))) data"

text \<open>\<open>EncodeCompactPeers\<close>: addresses that do not split, or are not IPv4, are skipped.\<close>

definition compact_peer :: "bytes \<Rightarrow> bytes" where
  "compact_peer addr =
     (case split_host_port addr of
        Inl _ \<Rightarrow> []
      | Inr (host, port_str) \<Rightarrow>
          (case Option.bind (parse_ip host) to4 of
             None \<Rightarrow> []
           | Some q \<Rightarrow> q @ put16 (word_of_int (scan_int port_str))))"

definition encode_compact_peers :: "bytes list \<Rightarrow> bytes" where
  "encode_compact_peers addrs = concat (map compact_peer addrs)"

definition decode_compact_peers6 :: "bytes \<Rightarrow> bytes list" where
  "decode_compact_peers6 data =
     decode_while 18 (\<lambda>d. join_host_port (ip_string (take 16 d)) (itoa (uint (get16 (slice d 16 18))))) data"

definition decode_samples :: "bytes \<Rightarrow> bytes list" where
  "decode_samples data = decode_while 20 (\<lambda>d. copy_array 20 (take 20 d)) data"

definition encode_samples :: "bytes list \<Rightarrow> bytes" where
  "encode_samples hashes = foldl (@) [] hashes"

text \<open>A node whose address is IPv4 (in the 16-byte form that \<open>net.IPv4\<close> makes) or IPv6.\<close>

definition node4_ok :: "node \<Rightarrow> bool" where
  "node4_ok n \<longleftrightarrow> id_ok (nd_id n) \<and> length (ua_ip (nd_addr n)) = 16 \<and>
     take 12 (ua_ip (nd_addr n)) = v4in6 \<and> 0 \<le> ua_port (nd_addr n) \<and> ua_port (nd_addr n) < 65536"

definition node6_ok :: "node \<Rightarrow> bool" where
  "node6_ok n \<longleftrightarrow> id_ok (nd_id n) \<and> length (ua_ip (nd_addr n)) = 16 \<and>
     0 \<le> ua_port (nd_addr n) \<and> ua_port (nd_addr n) < 65536"

lemma uint_u16_bounds: "0 \<le> uint (w :: u16)" "uint (w :: u16) < 65536"
  using uint_lt2p [of w] by simp_all

lemma uint_word_of_int_u16: "0 \<le> p \<Longrightarrow> p < 65536 \<Longrightarrow> uint (word_of_int p :: u16) = p"
  by (simp add: uint_word_of_int)

lemma ipv4_drop: "length ip = 16 \<Longrightarrow> take 12 ip = v4in6 \<Longrightarrow> ipv4 (drop 12 ip) = ip"
  unfolding ipv4_def by (metis append_take_drop_id)

lemma split3:
  assumes "length d = i + j + k"
  shows "d = take i d @ slice d i (i + j) @ slice d (i + j) (i + j + k)"
proof -
  have "drop i d = take j (drop i d) @ drop (i + j) d"
    using append_take_drop_id [of j "drop i d"] by (simp add: add.commute)
  moreover have "take k (drop (i + j) d) = drop (i + j) d" using assms by simp
  ultimately have "drop i d = slice d i (i + j) @ slice d (i + j) (i + j + k)"
    by (simp add: slice_def)
  then show ?thesis by (metis append_take_drop_id)
qed

interpretation compact4: exact_codec 26 compact_node parse_compact_node node4_ok
proof unfold_locales
  fix n assume n: "node4_ok n"
  then have q: "to4 (ua_ip (nd_addr n)) = Some (drop 12 (ua_ip (nd_addr n)))"
    by (simp add: node4_ok_def to4_def)
  show "length (compact_node n) = 26" using n q by (simp add: compact_node_def node4_ok_def id_ok_def)
  show "parse_compact_node (compact_node n) = n"
    using n q by (simp add: compact_node_def parse_compact_node_def node4_ok_def id_ok_def
        slice_def ipv4_drop uint_word_of_int_u16)
next
  fix d :: bytes assume d: "length d = 26"
  then show "node4_ok (parse_compact_node d)"
    by (simp add: node4_ok_def parse_compact_node_def id_ok_def ipv4_def uint_u16_bounds)
  show "compact_node (parse_compact_node d) = d"
    using d split3 [of d 20 4 2] by (simp add: compact_node_def parse_compact_node_def put_be_get_be)
qed simp

interpretation compact6: exact_codec 38 compact_node6 parse_compact_node6 node6_ok
proof unfold_locales
  fix n assume n: "node6_ok n"
  then show "length (compact_node6 n) = 38" by (simp add: compact_node6_def node6_ok_def id_ok_def)
  show "parse_compact_node6 (compact_node6 n) = n"
    using n by (simp add: compact_node6_def parse_compact_node6_def node6_ok_def id_ok_def
        slice_def uint_word_of_int_u16)
next
  fix d :: bytes assume d: "length d = 38"
  then show "node6_ok (parse_compact_node6 d)"
    by (simp add: node6_ok_def parse_compact_node6_def id_ok_def uint_u16_bounds)
  show "compact_node6 (parse_compact_node6 d) = d"
    using d split3 [of d 20 16 2] by (simp add: compact_node6_def parse_compact_node6_def put_be_get_be)
qed simp

text \<open>Compact peer lists read back: the text of each peer parses to its six bytes.\<close>

abbreviation peer4_text :: "bytes \<Rightarrow> bytes" where
  "peer4_text d \<equiv> ip_string (ipv4 (take 4 d)) @ [58] @ itoa (uint (get16 (slice d 4 6)))"

lemma compact_peer_text:
  assumes "length d = 6"
  shows "compact_peer (peer4_text d) = d"
proof -
  define q p where "q = take 4 d" and "p = (get16 (slice d 4 6) :: u16)"
  have q: "length q = 4" using assms by (simp add: q_def)
  have text4: "ip_string (ipv4 q) = dotted q" using q by (auto simp: ip_string_def ipv4_def to4_def)
  have dots: "c \<notin> set (dotted q)" if "c \<noteq> 46" "\<not> is_digit c" for c using set_dotted that by blast
  have port: "\<forall>c \<in> set (itoa (uint p)). is_digit c" using itoa_digits [of "uint p"] by auto
  have sep: "58 \<notin> set (dotted q)" "91 \<notin> set (dotted q)" "93 \<notin> set (dotted q)"
    "58 \<notin> set (itoa (uint p))" "91 \<notin> set (itoa (uint p))" "93 \<notin> set (itoa (uint p))"
    using dots port not_digit by auto
  then have "split_host_port (dotted q @ [58] @ itoa (uint p)) = Inr (dotted q, itoa (uint p))"
    using split_join_host_port [of "dotted q" "itoa (uint p)"] by (simp add: join_host_port_def)
  moreover have "parse_ip (dotted q) = Some (ipv4 q)"
    using parse_ip_string [of "ipv4 q"] q unfolding text4 by simp
  moreover have "scan_int (itoa (uint p)) = uint p"
    using uint_u16_bounds [of p] by (intro scan_int_itoa) simp_all
  moreover have d: "d = q @ put16 p"
  proof -
    have "slice d 4 6 = drop 4 d" using assms by (simp add: slice_def)
    then have "put16 p = drop 4 d" using assms put_be_get_be [where 'a = 16, of "drop 4 d" 2] by (simp add: p_def)
    then show ?thesis by (simp add: q_def)
  qed
  ultimately have "compact_peer (dotted q @ [58] @ itoa (uint p)) = d" using q by (simp add: compact_peer_def)
  then show ?thesis unfolding q_def [symmetric] p_def [symmetric] text4 .
qed

theorem compact_peers_roundtrip:
  assumes "6 dvd length data"
  shows "encode_compact_peers (decode_compact_peers data) = data"
proof -
  from assms obtain k where "length data = 6 * k" ..
  then show ?thesis
  proof (induction k arbitrary: data)
    case 0
    then show ?case by (simp add: encode_compact_peers_def decode_compact_peers_def)
  next
    case (Suc k)
    have d: "data = take 6 data @ drop 6 data" by simp
    have "decode_compact_peers data = peer4_text (take 6 data) # decode_compact_peers (drop 6 data)"
      unfolding decode_compact_peers_def by (subst d, subst decode_while_step) (use Suc.prems in simp_all)
    then have "encode_compact_peers (decode_compact_peers data) =
        compact_peer (peer4_text (take 6 data)) @ encode_compact_peers (decode_compact_peers (drop 6 data))"
      by (simp only: encode_compact_peers_def list.map concat.simps)
    moreover have "length (take 6 data) = 6" using Suc.prems by simp
    moreover have "length (drop 6 data) = 6 * k" using Suc.prems by simp
    ultimately show ?case using Suc.IH by (simp only: compact_peer_text append_take_drop_id)
  qed
qed

interpretation samples: exact_codec 20 "\<lambda>h. h" "\<lambda>d. copy_array 20 (take 20 d)" id_ok
  by unfold_locales (simp_all add: id_ok_def)

lemma encode_samples_eq: "encode_samples hs = concat hs"
proof -
  have "foldl (@) acc hs = acc @ concat hs" for acc by (induction hs arbitrary: acc) simp_all
  then show ?thesis by (simp add: encode_samples_def)
qed

lemma id_ok_decode_compact_nodes:
  "n \<in> set (decode_compact_nodes data) \<Longrightarrow> id_ok (nd_id n)"
  "n \<in> set (decode_compact_nodes6 data) \<Longrightarrow> id_ok (nd_id n)"
  using compact4.ok_decode_while [of data] compact6.ok_decode_while [of data]
  by (auto simp: decode_compact_nodes_def decode_compact_nodes6_def node4_ok_def node6_ok_def)

section \<open>Sorting by distance\<close>

text \<open>
  \<open>sortByDistance\<close> moves each node left past the nodes that are farther. The sorted part of
  the slice is kept in reverse, so that the inner loop starts at its head.
\<close>

fun sift :: "bytes \<Rightarrow> node \<Rightarrow> node list \<Rightarrow> node list" where
  "sift target x [] = [x]"
| "sift target x (y # ys) =
     (if compare_dist (xor_id (nd_id x) target) (xor_id (nd_id y) target) < 0
      then y # sift target x ys else x # y # ys)"

definition sort_by_distance :: "node list \<Rightarrow> bytes \<Rightarrow> node list" where
  "sort_by_distance ns target = rev (foldl (\<lambda>acc x. sift target x acc) [] ns)"

lemma mset_sift: "mset (sift target x ys) = add_mset x (mset ys)"
  by (induction ys) auto

lemma mset_foldl_sift: "mset (foldl (\<lambda>acc x. sift target x acc) acc ns) = mset acc + mset ns"
  by (induction ns arbitrary: acc) (simp_all add: mset_sift)

lemma set_sift: "set (sift target x ys) = insert x (set ys)"
  using mset_sift [of target x ys] by (metis set_mset_add_mset_insert set_mset_mset)

lemma sorted_sift:
  assumes "\<forall>n \<in> set (x # ys). id_ok (nd_id n)" "id_ok target"
    and "sorted (rev (map (dist_key target) ys))"
  shows "sorted (rev (map (dist_key target) (sift target x ys)))"
  using assms
proof (induction ys)
  case (Cons y ys)
  have c: "compare_dist (xor_id (nd_id x) target) (xor_id (nd_id y) target) < 0 \<longleftrightarrow>
      dist_key target x < dist_key target y"
    using Cons.prems by (simp add: compare_dist_less dist_key_def id_ok_def)
  show ?case
    using Cons by (auto simp: c sorted_append set_sift not_less)
qed simp

lemma sort_by_distance_sorted:
  assumes "\<forall>n \<in> set ns. id_ok (nd_id n)" "id_ok target"
  shows "sorted (map (dist_key target) (sort_by_distance ns target))"
proof -
  have "\<forall>n \<in> set acc \<union> set ns. id_ok (nd_id n) \<Longrightarrow> sorted (rev (map (dist_key target) acc)) \<Longrightarrow>
    sorted (rev (map (dist_key target) (foldl (\<lambda>acc x. sift target x acc) acc ns)))" for acc
    using assms(2)
    by (induction ns arbitrary: acc) (simp_all add: sorted_sift set_sift)
  from this [of "[]"] show ?thesis using assms by (simp add: sort_by_distance_def rev_map)
qed

lemma mset_sort_by_distance [simp]: "mset (sort_by_distance ns target) = mset ns"
  by (simp add: sort_by_distance_def mset_foldl_sift)

lemma set_sort_by_distance [simp]: "set (sort_by_distance ns target) = set ns"
  by (metis mset_sort_by_distance set_mset_mset)

lemma length_sort_by_distance [simp]: "length (sort_by_distance ns target) = length ns"
  by (metis mset_sort_by_distance size_mset)

lemma sort_by_distance_eq:
  "nodes_ok ns \<Longrightarrow> id_ok target \<Longrightarrow> sort_by_distance ns target = sort_key (dist_key target) ns"
  by (rule sorted_by_distance_unique) (auto simp: nodes_ok_def intro: sort_by_distance_sorted)

text \<open>The order in which Go iterates over the shortlist map does not matter.\<close>

lemma sort_by_distance_perm:
  assumes "nodes_ok ns" "id_ok target" "mset ms = mset ns"
  shows "sort_by_distance ms target = sort_by_distance ns target"
proof -
  have "set ms = set ns" using assms(3) by (metis set_mset_mset)
  then have "sort_by_distance ms target = sort_key (dist_key target) ns"
    using assms by (intro sorted_by_distance_unique) (auto simp: nodes_ok_def intro: sort_by_distance_sorted)
  then show ?thesis using assms by (simp add: sort_by_distance_eq)
qed

section \<open>Random targets\<close>

text \<open>\<open>randomIDInBucket\<close>; \<open>rnd\<close> is what \<open>rand.Read\<close> wrote into the target.\<close>

definition random_id_in_bucket :: "bytes \<Rightarrow> bytes \<Rightarrow> nat \<Rightarrow> bytes" where
  "random_id_in_bucket rnd own bucket_idx =
     (let dist = xor_id own rnd;
          byte_idx = (159 - bucket_idx) div 8;
          bit_idx = 7 - (159 - bucket_idx) mod 8;
          dist = replicate byte_idx 0 @ drop byte_idx dist;
          dist = dist[byte_idx := dist ! byte_idx AND (push_bit (bit_idx + 1) 1 - 1)];
          dist = dist[byte_idx := dist ! byte_idx OR push_bit bit_idx 1]
      in xor_id own dist)"

lemma bucket_index_from_zeros:
  "bucket_index_from i (replicate k 0 @ d) = bucket_index_from (i + k) d"
  by (induction k arbitrary: i) simp_all

lemma bit_len_unique: "2 ^ k \<le> n \<Longrightarrow> n < 2 ^ Suc k \<Longrightarrow> bit_len n = Suc k"
proof -
  assume n: "2 ^ k \<le> n" "n < 2 ^ Suc k"
  then have "n \<noteq> 0" by auto
  note b = bit_len_bounds [OF this]
  have "(2 :: nat) ^ k < 2 ^ bit_len n" using n b by linarith
  moreover have "(2 :: nat) ^ (bit_len n - 1) < 2 ^ Suc k" using n b by linarith
  ultimately have "k < bit_len n" "bit_len n - 1 < Suc k"
    by (simp_all only: power_strict_increasing_iff one_less_numeral_iff semiring_norm)
  then show ?thesis by linarith
qed

lemma masked_byte:
  assumes "s < 8"
  shows "unat (((x :: u8) AND (push_bit (s + 1) 1 - 1)) OR push_bit s 1) < 2 ^ Suc s"
    and "2 ^ s \<le> unat ((x AND (push_bit (s + 1) 1 - 1)) OR push_bit s 1)"
proof -
  define b where "b = (x AND (push_bit (s + 1) 1 - 1)) OR push_bit s 1"
  have m: "push_bit (s + 1) 1 - 1 = (mask (Suc s) :: u8)" by (simp add: mask_eq_exp_minus_1 push_bit_eq_mult)
  have "b = take_bit (Suc s) b"
    unfolding b_def m by (intro bit_word_eqI) (auto simp: bit_simps)
  then have "unat b = take_bit (Suc s) (unat b)" by (metis unsigned_take_bit_eq)
  then show "unat b < 2 ^ Suc s" by (metis take_bit_nat_less_exp)
  have "bit b s" unfolding b_def using assms by (simp add: bit_simps)
  then have "bit (unat b) s" by (simp add: bit_unsigned_iff)
  then have "odd (unat b div 2 ^ s)" by (simp add: bit_iff_odd)
  then show "2 ^ s \<le> unat b" by (metis div_less even_zero not_le)
qed

text \<open>The target lies in the bucket asked for, and every identifier of the bucket can come out.\<close>

lemma random_id_in_bucket_index:
  assumes own: "id_ok own" and rnd: "id_ok rnd" and idx: "idx < 160"
  shows "id_ok (random_id_in_bucket rnd own idx) \<and>
    bucket_index (xor_id own (random_id_in_bucket rnd own idx)) = int idx"
proof -
  define k where "k = (159 - idx) div 8"
  define s where "s = 7 - (159 - idx) mod 8"
  have k: "k < 20" and s: "s < 8" "159 - (int k * 8 + (7 - int s)) = int idx"
  proof -
    have m: "(159 - idx) div 8 * 8 + (159 - idx) mod 8 = 159 - idx" "(159 - idx) mod 8 < 8"
      by (rule div_mult_mod_eq) simp
    then have "int k * 8 + (7 - int s) = 159 - int idx"
      using idx unfolding k_def s_def by linarith
    then show "159 - (int k * 8 + (7 - int s)) = int idx" by simp
    show "k < 20" "s < 8" using m idx unfolding k_def s_def by linarith+
  qed
  define x where "x = (replicate k 0 @ drop k (xor_id own rnd)) ! k"
  define b where "b = (x AND (push_bit (s + 1) 1 - 1)) OR push_bit s 1"
  have len: "length (xor_id own rnd) = 20" using own rnd by (simp add: id_ok_def)
  define dist where "dist = replicate k 0 @ b # drop (Suc k) (xor_id own rnd)"
  have dist: "random_id_in_bucket rnd own idx = xor_id own dist"
  proof -
    obtain y ys where y: "drop k (xor_id own rnd) = y # ys" "ys = drop (Suc k) (xor_id own rnd)"
      using k len Cons_nth_drop_Suc [of k "xor_id own rnd"] by (metis (no_types))
    then have "x = y" by (simp add: x_def nth_append)
    have "random_id_in_bucket rnd own idx =
        xor_id own ((replicate k 0 @ y # ys)[k := x AND (push_bit (s + 1) 1 - 1),
          k := (replicate k 0 @ y # ys)[k := x AND (push_bit (s + 1) 1 - 1)] ! k OR push_bit s 1])"
      unfolding random_id_in_bucket_def Let_def x_def y(1) [unfolded k_def] k_def s_def by (rule refl)
    also have "\<dots> = xor_id own dist"
      by (simp add: dist_def b_def list_update_append nth_append y(2))
    finally show ?thesis .
  qed
  have len_d: "length dist = 20" using k len by (simp add: dist_def)
  have b: "unat b < 2 ^ Suc s" "2 ^ s \<le> unat b" using masked_byte [OF s(1)] by (simp_all add: b_def)
  then have "b \<noteq> 0" by (auto simp: unat_eq_0 [symmetric] simp del: unat_eq_0)
  moreover have "bit_len (unat b) = Suc s" using b by (intro bit_len_unique)
  ultimately have "bucket_index dist = int idx"
    using s by (simp add: bucket_index_def dist_def bucket_index_from_zeros leading_zeros8_def)
  moreover have "xor_id own (xor_id own dist) = dist"
    using own len_d by (intro xor_id_cancel) (simp add: id_ok_def)
  ultimately show ?thesis using own len_d by (simp add: dist id_ok_def)
qed

section \<open>Queries and replies\<close>

definition alpha :: nat where
  "alpha = 3"

record dht =
  dh_id :: bytes
  dh_table :: routing_table
  dh_read_only :: bool
  dh_tokens :: "bytes \<rightharpoonup> bytes"

definition new_dht :: "bytes \<Rightarrow> dht" where
  "new_dht i = \<lparr>dh_id = i, dh_table = new_routing_table i, dh_read_only = False,
     dh_tokens = (\<lambda>_. None)\<rparr>"

definition new_query :: "dht \<Rightarrow> string \<Rightarrow> bdict \<Rightarrow> message" where
  "new_query d method args = empty_message\<lparr>m_type := str ''q'', m_method := str method,
     m_args := args, m_read_only := dh_read_only d\<rparr>"

definition dht_insert :: "node \<Rightarrow> dht \<Rightarrow> dht" where
  "dht_insert n d = d\<lparr>dh_table := fst (insert_node (dh_table d) n)\<rparr>"

text \<open>
  \<open>Ping\<close>: the query, and what is done with the reply (\<open>Inl\<close> for a failed \<open>Send\<close>).
\<close>

definition ping_query :: "dht \<Rightarrow> message" where
  "ping_query d = new_query d ''ping'' [(str ''id'', BString (dh_id d))]"

definition ping :: "dht \<Rightarrow> udp_addr \<Rightarrow> message res \<Rightarrow> dht \<times> bytes res" where
  "ping d addr reply =
     (case reply of
        Inl e \<Rightarrow> (d, Inl e)
      | Inr resp \<Rightarrow>
          if m_type resp = str ''e'' then (d, Inl (Fail ''ping error''))
          else
            (case get_string (m_reply resp) ''id'' of
               Some i \<Rightarrow>
                 if length i \<noteq> 20 then (d, Inl (Fail ''invalid id''))
                 else (dht_insert \<lparr>nd_id = copy_array 20 i, nd_addr = addr\<rparr> d, Inr (copy_array 20 i))
             | None \<Rightarrow> (d, Inl (Fail ''invalid id''))))"

text \<open>The \<open>nodes\<close> and \<open>nodes6\<close> keys of a reply.\<close>

definition reply_nodes :: "bdict \<Rightarrow> node list" where
  "reply_nodes r =
     (case get_string r ''nodes'' of Some s \<Rightarrow> decode_compact_nodes s | None \<Rightarrow> []) @
     (case get_string r ''nodes6'' of Some s \<Rightarrow> decode_compact_nodes6 s | None \<Rightarrow> [])"

definition find_node_query :: "dht \<Rightarrow> bytes \<Rightarrow> message" where
  "find_node_query d target = new_query d ''find_node''
     [(str ''id'', BString (dh_id d)), (str ''target'', BString target)]"

definition find_node_reply :: "message \<Rightarrow> node list res" where
  "find_node_reply resp =
     (if m_type resp = str ''e'' then Inl (Fail ''find_node error'')
      else let nodes = reply_nodes (m_reply resp)
           in if nodes = [] then Inl (Fail ''no nodes in response'') else Inr nodes)"

record peers_reply =
  pr_nodes :: "node list"
  pr_peers :: "bytes list"
  pr_token :: bytes

definition get_peers_query :: "dht \<Rightarrow> bytes \<Rightarrow> message" where
  "get_peers_query d info_hash = new_query d ''get_peers''
     [(str ''id'', BString (dh_id d)), (str ''info_hash'', BString info_hash)]"

definition list_strings :: "bdict \<Rightarrow> string \<Rightarrow> bytes list" where
  "list_strings r k =
     (case get_list r k of
        None \<Rightarrow> []
      | Some vs \<Rightarrow> List.map_filter (\<lambda>v. case v of BString s \<Rightarrow> Some s | _ \<Rightarrow> None) vs)"

definition get_peers_reply :: "message \<Rightarrow> peers_reply res" where
  "get_peers_reply resp =
     (if m_type resp = str ''e'' then Inl (Fail ''get_peers error'')
      else let r = m_reply resp in
        Inr \<lparr>pr_nodes = reply_nodes r,
          pr_peers = concat (map decode_compact_peers (list_strings r ''values'')) @
            concat (map decode_compact_peers6 (list_strings r ''values6'')),
          pr_token = string_or_empty r ''token''\<rparr>)"

lemma id_ok_reply_nodes: "n \<in> set (reply_nodes r) \<Longrightarrow> id_ok (nd_id n)"
  by (auto simp: reply_nodes_def id_ok_decode_compact_nodes split: option.splits)

section \<open>The iterative lookup\<close>

text \<open>
  The state of a lookup. The shortlist map is a list of nodes with distinct identifiers;
  \<open>lk_peers\<close> is the list of peers that \<open>GetPeers\<close> has collected (its map \<open>seen\<close> is the set
  of its elements).
\<close>

record lookup =
  lk_dht :: dht
  lk_queried :: "bytes list"
  lk_short :: "node list"
  lk_peers :: "bytes list"

definition start_lookup :: "dht \<Rightarrow> node list \<Rightarrow> lookup" where
  "start_lookup d seeds = \<lparr>lk_dht = d, lk_queried = [dh_id d], lk_short = seeds, lk_peers = []\<rparr>"

definition candidates :: "bytes \<Rightarrow> lookup \<Rightarrow> node list" where
  "candidates target lk =
     take alpha (sort_by_distance (filter (\<lambda>n. nd_id n \<notin> set (lk_queried lk)) (lk_short lk)) target)"

definition mark_queried :: "node list \<Rightarrow> lookup \<Rightarrow> lookup" where
  "mark_queried cs lk = lk\<lparr>lk_queried := lk_queried lk @ map nd_id cs\<rparr>"

definition lookup_insert :: "node \<Rightarrow> lookup \<Rightarrow> lookup" where
  "lookup_insert n lk = lk\<lparr>lk_dht := dht_insert n (lk_dht lk)\<rparr>"

text \<open>A node named by a reply joins the shortlist unless its identifier is known.\<close>

definition absorb_node :: "lookup \<times> bool \<Rightarrow> node \<Rightarrow> lookup \<times> bool" where
  "absorb_node st n =
     (if nd_id n \<in> nd_id ` set (lk_short (fst st)) then st
      else (lookup_insert n ((fst st)\<lparr>lk_short := lk_short (fst st) @ [n]\<rparr>), True))"

definition find_result :: "lookup \<times> bool \<Rightarrow> node \<times> message \<Rightarrow> lookup \<times> bool" where
  "find_result st r =
     (case find_node_reply (snd r) of
        Inl _ \<Rightarrow> st
      | Inr nodes \<Rightarrow> foldl absorb_node (lookup_insert (fst r) (fst st), snd st) nodes)"

definition add_peer :: "bytes list \<Rightarrow> bytes \<Rightarrow> bytes list" where
  "add_peer ps p = (if p \<in> set ps then ps else ps @ [p])"

definition save_token :: "node \<Rightarrow> bytes \<Rightarrow> dht \<Rightarrow> dht" where
  "save_token n tok d =
     (if tok = [] then d else d\<lparr>dh_tokens := (dh_tokens d)(nd_id n \<mapsto> tok)\<rparr>)"

definition peers_result :: "lookup \<times> bool \<Rightarrow> node \<times> message \<Rightarrow> lookup \<times> bool" where
  "peers_result st r =
     (case get_peers_reply (snd r) of
        Inl _ \<Rightarrow> st
      | Inr p \<Rightarrow>
          let lk = lookup_insert (fst r) (fst st);
              lk = lk\<lparr>lk_dht := save_token (fst r) (pr_token p) (lk_dht lk),
                      lk_peers := foldl add_peer (lk_peers lk) (pr_peers p)\<rparr>
          in foldl absorb_node (lk, snd st) (pr_nodes p))"

text \<open>
  The loop: pick the nearest nodes that were not queried, query them, absorb the answers in
  their order of arrival, and go on while some answer named an unknown node. \<open>ask k cs\<close> are the
  answers of round \<open>k\<close> to the queries sent to \<open>cs\<close>. \<open>GetPeers\<close> and \<open>iterativeLookup\<close>
  have the same loop with different result handlers.
\<close>

definition lookup_round ::
  "(lookup \<times> bool \<Rightarrow> node \<times> message \<Rightarrow> lookup \<times> bool) \<Rightarrow>
   (nat \<Rightarrow> node list \<Rightarrow> (node \<times> message) list) \<Rightarrow> bytes \<Rightarrow> nat \<Rightarrow> lookup \<Rightarrow> lookup \<times> bool" where
  "lookup_round handle ask target k lk =
     (let cs = candidates target lk in foldl handle (mark_queried cs lk, False) (ask k cs))"

partial_function (option) lookup_loop ::
  "(lookup \<times> bool \<Rightarrow> node \<times> message \<Rightarrow> lookup \<times> bool) \<Rightarrow>
   (nat \<Rightarrow> node list \<Rightarrow> (node \<times> message) list) \<Rightarrow> bytes \<Rightarrow> nat \<Rightarrow> lookup \<Rightarrow> lookup option" where
  "lookup_loop handle ask target k lk =
     (if candidates target lk = [] then Some lk
      else
        let st = lookup_round handle ask target k lk
        in if snd st then lookup_loop handle ask target (Suc k) (fst st) else Some (fst st))"

text \<open>The network: the answers to a query in round \<open>k\<close>, from some of the nodes it was sent to.\<close>

type_synonym network = "message \<Rightarrow> nat \<Rightarrow> node list \<Rightarrow> (node \<times> message) list"

definition find_node :: "network \<Rightarrow> dht \<Rightarrow> bytes \<Rightarrow> (dht \<times> node list) option" where
  "find_node net d target =
     (let seeds = closest (dh_table d) target alpha
      in if seeds = [] then Some (d, [])
         else
           map_option (\<lambda>lk. (lk_dht lk, take bucket_size (sort_by_distance (lk_short lk) target)))
             (lookup_loop find_result (net (find_node_query d target)) target 0 (start_lookup d seeds)))"

definition get_peers :: "network \<Rightarrow> dht \<Rightarrow> bytes \<Rightarrow> (dht \<times> bytes list) option" where
  "get_peers net d info_hash =
     (let seeds = closest (dh_table d) info_hash alpha
      in if seeds = [] then Some (d, [])
         else
           map_option (\<lambda>lk. (lk_dht lk, lk_peers lk))
             (lookup_loop peers_result (net (get_peers_query d info_hash)) info_hash 0
               (start_lookup d seeds)))"

section \<open>The lookups end\<close>

definition lk_ok :: "lookup \<Rightarrow> bool" where
  "lk_ok lk \<longleftrightarrow> table_ok (dh_table (lk_dht lk)) \<and> nodes_ok (lk_short lk) \<and>
     distinct (lk_queried lk) \<and> distinct (lk_peers lk)"

text \<open>Answers come from the nodes that were asked.\<close>

definition answers_ok :: "(nat \<Rightarrow> node list \<Rightarrow> (node \<times> message) list) \<Rightarrow> bool" where
  "answers_ok ask \<longleftrightarrow> (\<forall>k cs r. r \<in> set (ask k cs) \<longrightarrow> fst r \<in> set cs)"

text \<open>What a lookup expects of the code that handles one answer.\<close>

locale lookup_handler =
  fixes handle :: "lookup \<times> bool \<Rightarrow> node \<times> message \<Rightarrow> lookup \<times> bool"
  assumes handle_ok: "lk_ok (fst st) \<Longrightarrow> id_ok (nd_id (fst r)) \<Longrightarrow> lk_ok (fst (handle st r))"
    and handle_queried: "lk_queried (fst (handle st r)) = lk_queried (fst st)"
    and handle_id: "dh_id (lk_dht (fst (handle st r))) = dh_id (lk_dht (fst st))"
    and handle_short: "set (lk_short (fst st)) \<subseteq> set (lk_short (fst (handle st r)))"
begin

lemma handle_all:
  assumes "lk_ok (fst st)" "\<forall>r \<in> set rs. id_ok (nd_id (fst r))"
  shows "lk_ok (fst (foldl handle st rs)) \<and>
    lk_queried (fst (foldl handle st rs)) = lk_queried (fst st) \<and>
    dh_id (lk_dht (fst (foldl handle st rs))) = dh_id (lk_dht (fst st)) \<and>
    set (lk_short (fst st)) \<subseteq> set (lk_short (fst (foldl handle st rs)))"
  using assms
proof (induction rs arbitrary: st)
  case (Cons r rs)
  have "lk_ok (fst (handle st r))" using Cons.prems by (simp add: handle_ok)
  with Cons.IH [of "handle st r"] Cons.prems show ?case
    using handle_short [of st r] by (auto simp: handle_queried handle_id)
qed simp

end

lemma candidates_sub: "c \<in> set (candidates target lk) \<Longrightarrow>
    c \<in> set (lk_short lk) \<and> nd_id c \<notin> set (lk_queried lk)"
  by (auto simp: candidates_def dest!: in_set_takeD)

lemma candidates_distinct:
  assumes "lk_ok lk"
  shows "distinct (map nd_id (candidates target lk))"
proof -
  let ?f = "filter (\<lambda>n. nd_id n \<notin> set (lk_queried lk)) (lk_short lk)"
  have "distinct (map nd_id ?f)" using assms by (simp add: lk_ok_def nodes_ok_def distinct_map_filter)
  then have "distinct (map nd_id (sort_by_distance ?f target))"
    by (metis mset_sort_by_distance mset_map mset_eq_imp_distinct_iff)
  then show ?thesis unfolding candidates_def by (simp add: take_map [symmetric])
qed

lemma mark_queried_ok:
  assumes "lk_ok lk"
  shows "lk_ok (mark_queried (candidates target lk) lk)"
  using assms candidates_distinct [OF assms] candidates_sub [of _ target lk]
  by (auto simp: lk_ok_def mark_queried_def)

lemma card_queried_less:
  assumes "set qs \<subset> set ps" "\<exists>i. id_ok i \<and> i \<in> set ps - set qs"
  shows "card ({i. id_ok i} - set ps) < card ({i :: bytes. id_ok i} - set qs)"
proof (rule psubset_card_mono)
  have "finite {i :: bytes. set i \<subseteq> UNIV \<and> length i = 20}" by (rule finite_lists_length_eq) simp
  then show "finite ({i. id_ok i} - set qs)" by (simp add: id_ok_def)
qed (use assms in auto)

context lookup_handler begin

lemma round_ok:
  assumes "lk_ok lk" "answers_ok ask" "candidates target lk \<noteq> []"
  shows "lk_ok (fst (lookup_round handle ask target k lk)) \<and>
    dh_id (lk_dht (fst (lookup_round handle ask target k lk))) = dh_id (lk_dht lk) \<and>
    set (lk_short lk) \<subseteq> set (lk_short (fst (lookup_round handle ask target k lk))) \<and>
    card ({i. id_ok i} - set (lk_queried (fst (lookup_round handle ask target k lk))))
      < card ({i. id_ok i} - set (lk_queried lk))"
proof -
  let ?cs = "candidates target lk"
  have ids: "\<forall>c \<in> set ?cs. id_ok (nd_id c) \<and> nd_id c \<notin> set (lk_queried lk)"
    using candidates_sub [of _ target lk] assms(1) by (auto simp: lk_ok_def nodes_ok_def)
  then have "\<forall>r \<in> set (ask k ?cs). id_ok (nd_id (fst r))"
    using assms(2) unfolding answers_ok_def by blast
  note r = handle_all [OF _ this, of "(mark_queried ?cs lk, False)", simplified fst_conv,
      OF mark_queried_ok [OF assms(1)], folded lookup_round_def]
  obtain c where "c \<in> set ?cs" using assms(3) by (cases ?cs) auto
  then have "card ({i. id_ok i} - set (lk_queried lk @ map nd_id ?cs)) <
      card ({i. id_ok i} - set (lk_queried lk))"
    using ids by (intro card_queried_less) auto
  with r show ?thesis by (simp add: lookup_round_def Let_def mark_queried_def)
qed

lemma loop_returns:
  assumes "lk_ok lk" "answers_ok ask"
  shows "\<exists>lk'. lookup_loop handle ask target k lk = Some lk' \<and> lk_ok lk' \<and>
    dh_id (lk_dht lk') = dh_id (lk_dht lk) \<and> set (lk_short lk) \<subseteq> set (lk_short lk')"
  using assms(1)
proof (induction "card ({i. id_ok i} - set (lk_queried lk))" arbitrary: k lk rule: less_induct)
  case less
  show ?case
  proof (cases "candidates target lk = []")
    case True
    then show ?thesis using less.prems by (simp add: lookup_loop.simps [of handle ask target k lk])
  next
    case False
    let ?st = "lookup_round handle ask target k lk"
    note r = round_ok [OF less.prems assms(2) False, of k]
    then have "\<exists>lk'. lookup_loop handle ask target (Suc k) (fst ?st) = Some lk' \<and> lk_ok lk' \<and>
        dh_id (lk_dht lk') = dh_id (lk_dht (fst ?st)) \<and> set (lk_short (fst ?st)) \<subseteq> set (lk_short lk')"
      by (intro less.hyps) auto
    with r show ?thesis using False
      by (cases "snd ?st") (auto simp: lookup_loop.simps [of handle ask target k lk])
  qed
qed

end

text \<open>Both result handlers keep the contract.\<close>

lemma lookup_insert_facts [simp]:
  "lk_queried (lookup_insert n lk) = lk_queried lk" "lk_short (lookup_insert n lk) = lk_short lk"
  "lk_peers (lookup_insert n lk) = lk_peers lk" "dh_id (lk_dht (lookup_insert n lk)) = dh_id (lk_dht lk)"
  by (simp_all add: lookup_insert_def dht_insert_def)

lemma lookup_insert_ok: "lk_ok lk \<Longrightarrow> id_ok (nd_id n) \<Longrightarrow> lk_ok (lookup_insert n lk)"
  by (simp add: lk_ok_def) (simp add: lookup_insert_def dht_insert_def table.ins_ok)

lemma absorb_nodes_keep:
  "lk_queried (fst (foldl absorb_node st ns)) = lk_queried (fst st) \<and>
    dh_id (lk_dht (fst (foldl absorb_node st ns))) = dh_id (lk_dht (fst st)) \<and>
    set (lk_short (fst st)) \<subseteq> set (lk_short (fst (foldl absorb_node st ns)))"
proof (induction ns arbitrary: st)
  case (Cons n ns)
  show ?case using Cons.IH [of "absorb_node st n"] by (auto simp: absorb_node_def split: if_splits)
qed simp

lemma absorb_nodes_ok:
  "lk_ok (fst st) \<Longrightarrow> \<forall>n \<in> set ns. id_ok (nd_id n) \<Longrightarrow> lk_ok (fst (foldl absorb_node st ns))"
proof (induction ns arbitrary: st)
  case (Cons n ns)
  have "lk_ok (fst (absorb_node st n))"
  proof (cases "nd_id n \<in> nd_id ` set (lk_short (fst st))")
    case False
    then have "lk_ok ((fst st)\<lparr>lk_short := lk_short (fst st) @ [n]\<rparr>)"
      using Cons.prems by (auto simp: lk_ok_def nodes_ok_def)
    with False Cons.prems show ?thesis by (simp add: absorb_node_def lookup_insert_ok)
  qed (use Cons.prems in \<open>simp add: absorb_node_def\<close>)
  with Cons show ?case by simp
qed simp

lemma distinct_add_peers: "distinct ps \<Longrightarrow> distinct (foldl add_peer ps xs)"
  by (induction xs arbitrary: ps) (simp_all add: add_peer_def)

lemma find_reply_ids: "find_node_reply m = Inr ns \<Longrightarrow> \<forall>n \<in> set ns. id_ok (nd_id n)"
  by (auto simp: find_node_reply_def Let_def id_ok_reply_nodes split: if_splits)

lemma peers_reply_ids: "get_peers_reply m = Inr p \<Longrightarrow> \<forall>n \<in> set (pr_nodes p). id_ok (nd_id n)"
  by (auto simp: get_peers_reply_def Let_def id_ok_reply_nodes split: if_splits)

lemma find_result_ok:
  "lk_ok (fst st) \<Longrightarrow> id_ok (nd_id (fst r)) \<Longrightarrow> lk_ok (fst (find_result st r))"
  by (auto simp: find_result_def lookup_insert_ok find_reply_ids split: sum.split
      intro!: absorb_nodes_ok)

lemma save_token_facts [simp]:
  "dh_id (save_token n tok d) = dh_id d" "dh_table (save_token n tok d) = dh_table d"
  by (simp_all add: save_token_def)

lemma peers_result_ok:
  assumes "lk_ok (fst st)" "id_ok (nd_id (fst r))"
  shows "lk_ok (fst (peers_result st r))"
proof (cases "get_peers_reply (snd r)")
  case (Inr p)
  let ?lk = "lookup_insert (fst r) (fst st)"
  have "lk_ok ?lk" using assms by (rule lookup_insert_ok)
  then have "lk_ok (?lk\<lparr>lk_dht := save_token (fst r) (pr_token p) (lk_dht ?lk),
      lk_peers := foldl add_peer (lk_peers ?lk) (pr_peers p)\<rparr>)"
    unfolding lk_ok_def by (simp add: distinct_add_peers)
  then show ?thesis
    using peers_reply_ids [OF Inr]
    by (simp add: peers_result_def Inr Let_def absorb_nodes_ok del: lookup_insert_facts)
qed (use assms in \<open>simp add: peers_result_def\<close>)

interpretation find: lookup_handler find_result
proof unfold_locales
  fix st :: "lookup \<times> bool" and r :: "node \<times> message"
  show "lk_ok (fst st) \<Longrightarrow> id_ok (nd_id (fst r)) \<Longrightarrow> lk_ok (fst (find_result st r))"
    by (rule find_result_ok)
qed (simp_all add: find_result_def absorb_nodes_keep order.trans [OF _ absorb_nodes_keep [THEN conjunct2, THEN conjunct2]]
    split: sum.split)

interpretation peers: lookup_handler peers_result
proof unfold_locales
  fix st :: "lookup \<times> bool" and r :: "node \<times> message"
  show "lk_ok (fst st) \<Longrightarrow> id_ok (nd_id (fst r)) \<Longrightarrow> lk_ok (fst (peers_result st r))"
    by (rule peers_result_ok)
qed (simp_all add: peers_result_def Let_def absorb_nodes_keep
    order.trans [OF _ absorb_nodes_keep [THEN conjunct2, THEN conjunct2]] split: sum.split)

lemma closest_nodes_ok: "table_ok rt \<Longrightarrow> nodes_ok (closest rt target n)"
  using table_nodes_ok [of rt] unfolding closest_eq nodes_ok_def
  by (auto dest: in_set_takeD simp: take_map [symmetric] distinct_map distinct_sort inj_on_def)

lemma start_lookup_ok: "table_ok (dh_table d) \<Longrightarrow> lk_ok (start_lookup d (closest (dh_table d) target n))"
  by (simp add: lk_ok_def start_lookup_def closest_nodes_ok)

definition network_ok :: "network \<Rightarrow> bool" where
  "network_ok net \<longleftrightarrow> (\<forall>q. answers_ok (net q))"

lemma find_node_result:
  assumes "table_ok (dh_table d)" "network_ok net" "id_ok target"
  shows "\<exists>d' ns. find_node net d target = Some (d', ns) \<and> table_ok (dh_table d') \<and>
    dh_id d' = dh_id d \<and> nodes_ok ns \<and> length ns \<le> bucket_size \<and>
    sorted_wrt (\<lambda>a b. dist_key target a < dist_key target b) ns \<and>
    (\<forall>s \<in> set (closest (dh_table d) target alpha). s \<in> set ns \<or>
       length ns = bucket_size \<and> (\<forall>n \<in> set ns. dist_key target n < dist_key target s))"
proof (cases "closest (dh_table d) target alpha = []")
  case True
  then show ?thesis using assms by (simp add: find_node_def nodes_ok_def)
next
  case False
  let ?seeds = "closest (dh_table d) target alpha"
  have "answers_ok (net (find_node_query d target))" using assms(2) by (simp add: network_ok_def)
  from find.loop_returns [OF start_lookup_ok [OF assms(1)] this, of target 0 target alpha]
  obtain lk where lk: "lookup_loop find_result (net (find_node_query d target)) target 0
      (start_lookup d ?seeds) = Some lk" "lk_ok lk" "dh_id (lk_dht lk) = dh_id d"
    "set ?seeds \<subseteq> set (lk_short lk)"
    by (auto simp: start_lookup_def)
  let ?ns = "take bucket_size (sort_by_distance (lk_short lk) target)"
  have short: "nodes_ok (lk_short lk)" using lk(2) by (simp add: lk_ok_def)
  then have srt: "sort_by_distance (lk_short lk) target = sort_key (dist_key target) (lk_short lk)"
    using assms(3) by (rule sort_by_distance_eq)
  have strict: "sorted_wrt (\<lambda>a b. dist_key target a < dist_key target b)
      (sort_by_distance (lk_short lk) target)"
    unfolding srt using short assms(3) by (rule strict_sort_by_distance)
  have "s \<in> set ?ns \<or> length ?ns = bucket_size \<and> (\<forall>n \<in> set ?ns. dist_key target n < dist_key target s)"
    if "s \<in> set ?seeds" for s
  proof (cases "s \<in> set ?ns")
    case False
    then have "bucket_size < length (lk_short lk)"
      using that lk(4) by (cases "length (lk_short lk) \<le> bucket_size") auto
    then show ?thesis
      using take_nearest [OF strict, of _ bucket_size s] False that lk(4) by auto
  qed simp
  moreover have "distinct (map nd_id ?ns)"
  proof -
    have "distinct (map nd_id (sort_by_distance (lk_short lk) target))"
      using short mset_sort_by_distance [of "lk_short lk" target]
      by (metis mset_map mset_eq_imp_distinct_iff nodes_ok_def)
    then show ?thesis by (simp add: take_map [symmetric])
  qed
  ultimately show ?thesis
    using lk False short strict
    by (auto simp: find_node_def Let_def nodes_ok_def lk_ok_def dest!: in_set_takeD intro!: sorted_wrt_take)
qed

lemma get_peers_result:
  assumes "table_ok (dh_table d)" "network_ok net"
  shows "\<exists>d' ps. get_peers net d info_hash = Some (d', ps) \<and> table_ok (dh_table d') \<and>
    dh_id d' = dh_id d \<and> distinct ps"
proof (cases "closest (dh_table d) info_hash alpha = []")
  case False
  have "answers_ok (net (get_peers_query d info_hash))" using assms(2) by (simp add: network_ok_def)
  from peers.loop_returns [OF start_lookup_ok [OF assms(1)] this, of info_hash 0 info_hash alpha]
  show ?thesis using False by (auto simp: get_peers_def Let_def start_lookup_def lk_ok_def)
qed (use assms in \<open>simp add: get_peers_def\<close>)

section \<open>The other operations\<close>

text \<open>
  \<open>AnnouncePeer\<close> sends to the nearest nodes that gave us a token; \<open>send i n q\<close> says whether the
  \<open>i\<close>-th of these exchanges succeeds. The result has the queries that were sent.
\<close>

definition announce_query :: "dht \<Rightarrow> bytes \<Rightarrow> int \<Rightarrow> bytes \<Rightarrow> message" where
  "announce_query d info_hash port token = new_query d ''announce_peer''
     [(str ''id'', BString (dh_id d)), (str ''info_hash'', BString info_hash),
      (str ''port'', BInt (word_of_int port)), (str ''token'', BString token)]"

primrec announce_to ::
  "(nat \<Rightarrow> node \<Rightarrow> message \<Rightarrow> bool) \<Rightarrow> dht \<Rightarrow> bytes \<Rightarrow> int \<Rightarrow> nat \<Rightarrow> node list \<Rightarrow> (node \<times> message) list \<times> nat" where
  "announce_to send d info_hash port i [] = ([], 0)"
| "announce_to send d info_hash port i (n # ns) =
     (case dh_tokens d (nd_id n) of
        None \<Rightarrow> announce_to send d info_hash port i ns
      | Some token \<Rightarrow>
          let q = announce_query d info_hash port token;
              (sent, announced) = announce_to send d info_hash port (Suc i) ns
          in ((n, q) # sent, if send i n q then Suc announced else announced))"

definition announce_peer ::
  "(nat \<Rightarrow> node \<Rightarrow> message \<Rightarrow> bool) \<Rightarrow> dht \<Rightarrow> bytes \<Rightarrow> int \<Rightarrow> (node \<times> message) list \<times> unit res" where
  "announce_peer send d info_hash port =
     (let ns = closest (dh_table d) info_hash bucket_size;
          (sent, announced) = announce_to send d info_hash port 0 ns
      in (sent, if announced = 0 \<and> 0 < length ns then Inl (Fail ''no nodes accepted'') else Inr ()))"

text \<open>
  \<open>Bootstrap\<close>: the pings run concurrently; \<open>replies\<close> has the resolved addresses with their
  replies in order of arrival. Each successful one inserts its node (twice, with the same
  effect), then the node looks itself up.
\<close>

definition bootstrap_ping :: "dht \<times> nat \<Rightarrow> udp_addr \<times> message res \<Rightarrow> dht \<times> nat" where
  "bootstrap_ping st r =
     (case ping (fst st) (fst r) (snd r) of
        (d, Inl _) \<Rightarrow> (d, snd st)
      | (d, Inr i) \<Rightarrow> (dht_insert \<lparr>nd_id = i, nd_addr = fst r\<rparr> d, Suc (snd st)))"

definition bootstrap ::
  "network \<Rightarrow> dht \<Rightarrow> (udp_addr \<times> message res) list \<Rightarrow> (dht \<times> unit res) option" where
  "bootstrap net d replies =
     (let (d', count) = foldl bootstrap_ping (d, 0) replies
      in if count = 0 then Some (d', Inl (Fail ''all nodes unreachable''))
         else map_option (\<lambda>r. (fst r, Inr ())) (find_node net d' (dh_id d')))"

text \<open>\<open>refreshBuckets\<close>; \<open>rnd k\<close> are the random bytes of the \<open>k\<close>-th target.\<close>

definition stale_buckets :: "dht \<Rightarrow> nat list" where
  "stale_buckets d = filter (\<lambda>i. rt_buckets (dh_table d) ! i \<noteq> []) [0..<length (rt_buckets (dh_table d))]"

primrec refresh_loop :: "network \<Rightarrow> (nat \<Rightarrow> bytes) \<Rightarrow> nat list \<Rightarrow> dht \<Rightarrow> dht option" where
  "refresh_loop net rnd [] d = Some d"
| "refresh_loop net rnd (i # is) d =
     (case find_node net d (random_id_in_bucket (rnd i) (rt_own (dh_table d)) i) of
        None \<Rightarrow> None
      | Some (d', _) \<Rightarrow> refresh_loop net rnd is d')"

definition refresh_buckets :: "network \<Rightarrow> (nat \<Rightarrow> bytes) \<Rightarrow> dht \<Rightarrow> dht option" where
  "refresh_buckets net rnd d = refresh_loop net rnd (stale_buckets d) d"

text \<open>
  \<open>Maintain\<close>: what its \<open>select\<close> receives, in order; a tick with the network and the random bytes of its
  refresh, or the end of the context. The result is the node and whether the loop has returned.
\<close>

datatype maintain_event = Tick network "nat \<Rightarrow> bytes" | Context_Done

fun maintain :: "maintain_event list \<Rightarrow> dht \<Rightarrow> (dht \<times> bool) option" where
  "maintain [] d = Some (d, False)"
| "maintain (Context_Done # es) d = Some (d, True)"
| "maintain (Tick net rnd # es) d = (case refresh_buckets net rnd d of None \<Rightarrow> None | Some d' \<Rightarrow> maintain es d')"

record sample_result =
  sr_samples :: "bytes list"
  sr_num :: int
  sr_interval :: int
  sr_nodes :: "node list"

definition sample_query :: "dht \<Rightarrow> bytes \<Rightarrow> message" where
  "sample_query d target = new_query d ''sample_infohashes''
     [(str ''id'', BString (dh_id d)), (str ''target'', BString target)]"

definition sample_infohashes :: "message res \<Rightarrow> sample_result res" where
  "sample_infohashes reply =
     (case reply of
        Inl e \<Rightarrow> Inl e
      | Inr resp \<Rightarrow>
          if m_type resp = str ''e'' then Inl (Fail ''sample_infohashes error'')
          else let r = m_reply resp in
            Inr \<lparr>sr_samples = decode_samples (string_or_empty r ''samples''),
              sr_num = int_or_zero r ''num'', sr_interval = int_or_zero r ''interval'',
              sr_nodes = reply_nodes r\<rparr>)"

lemma ping_ok:
  "table_ok (dh_table d) \<Longrightarrow> table_ok (dh_table (fst (ping d addr reply))) \<and>
    dh_id (fst (ping d addr reply)) = dh_id d \<and> (\<forall>i. snd (ping d addr reply) = Inr i \<longrightarrow> id_ok i)"
  by (auto simp: ping_def dht_insert_def id_ok_def intro!: table.ins_ok split: sum.split option.split)

lemma bootstrap_pings_ok:
  "table_ok (dh_table (fst st)) \<Longrightarrow> table_ok (dh_table (fst (foldl bootstrap_ping st rs))) \<and>
    dh_id (fst (foldl bootstrap_ping st rs)) = dh_id (fst st)"
proof (induction rs arbitrary: st)
  case (Cons r rs)
  have "table_ok (dh_table (fst (bootstrap_ping st r))) \<and>
      dh_id (fst (bootstrap_ping st r)) = dh_id (fst st)"
    using ping_ok [OF Cons.prems, of "fst r" "snd r"]
    by (auto simp: bootstrap_ping_def dht_insert_def intro!: table.ins_ok split: prod.split sum.split)
  with Cons.IH [of "bootstrap_ping st r"] show ?case by simp
qed simp

lemma refresh_loop_returns:
  assumes "network_ok net" "\<forall>i. id_ok (rnd i)"
  shows "table_ok (dh_table d) \<Longrightarrow> \<forall>i \<in> set is. i < 160 \<Longrightarrow>
    \<exists>d'. refresh_loop net rnd is d = Some d' \<and> table_ok (dh_table d')"
proof (induction "is" arbitrary: d)
  case (Cons i "is")
  have "id_ok (random_id_in_bucket (rnd i) (rt_own (dh_table d)) i)"
    using random_id_in_bucket_index [of "rt_own (dh_table d)" "rnd i" i] assms Cons.prems
    by (auto simp: table_ok_def)
  then obtain d' ns where "find_node net d (random_id_in_bucket (rnd i) (rt_own (dh_table d)) i) =
      Some (d', ns)" "table_ok (dh_table d')"
    using find_node_result [OF Cons.prems(1) assms(1)] by blast
  then show ?case using Cons.IH [of d'] Cons.prems(2) by simp
qed simp

lemma refresh_buckets_returns:
  assumes "network_ok net" "\<forall>i. id_ok (rnd i)" "table_ok (dh_table d)"
  shows "\<exists>d'. refresh_buckets net rnd d = Some d' \<and> table_ok (dh_table d')"
  using refresh_loop_returns [OF assms(1,2,3), of "stale_buckets d"] assms(3)
  by (auto simp: refresh_buckets_def stale_buckets_def table_ok_def)

definition event_ok :: "maintain_event \<Rightarrow> bool" where
  "event_ok e \<longleftrightarrow> (case e of Tick net rnd \<Rightarrow> network_ok net \<and> (\<forall>i. id_ok (rnd i)) | Context_Done \<Rightarrow> True)"

lemma maintain_returns:
  "\<forall>e \<in> set es. event_ok e \<Longrightarrow> table_ok (dh_table d) \<Longrightarrow>
    \<exists>d'. maintain es d = Some (d', Context_Done \<in> set es) \<and> table_ok (dh_table d')"
proof (induction es d rule: maintain.induct)
  case (3 net rnd es d)
  then obtain d' where "refresh_buckets net rnd d = Some d'" "table_ok (dh_table d')"
    using refresh_buckets_returns [of net rnd d] by (auto simp: event_ok_def)
  with 3 show ?case by simp
qed simp_all

section \<open>Properties\<close>

text \<open>
  C16. An iterative node lookup ends whatever the network answers, in whatever order and
  however often it names new nodes: it returns at most eight nodes with different
  identifiers, in strictly increasing distance from the target, keeps the routing table well
  formed, and each node it started from is among the result unless eight nearer ones are.
\<close>

theorem find_node_spec:
  assumes "table_ok (dh_table d)" "network_ok net" "id_ok target"
  shows "\<exists>d' ns. find_node net d target = Some (d', ns) \<and> table_ok (dh_table d') \<and>
    dh_id d' = dh_id d \<and> nodes_ok ns \<and> length ns \<le> bucket_size \<and>
    sorted_wrt (\<lambda>a b. dist_key target a < dist_key target b) ns \<and>
    (\<forall>s \<in> set (closest (dh_table d) target alpha). s \<in> set ns \<or>
       length ns = bucket_size \<and> (\<forall>n \<in> set ns. dist_key target n < dist_key target s))"
  using assms by (rule find_node_result)

definition ex_dht :: dht where
  "ex_dht = (new_dht (replicate 20 0))\<lparr>dh_table := ex_table\<rparr>"

text \<open>A network in which every node names the node \<open>9\<close>.\<close>

definition ex_net :: network where
  "ex_net q k cs = map (\<lambda>c. (c, empty_message\<lparr>m_type := str ''r'',
     m_reply := [(str ''nodes'', BString (compact_node (ex_node 9)))]\<rparr>)) cs"

lemma ex_net_ok: "network_ok ex_net" "table_ok (dh_table ex_dht)"
  by (auto simp: network_ok_def answers_ok_def ex_net_def ex_dht_def ex_table_ok)

theorem find_node_spec_witness:
  "\<exists>d' ns. find_node ex_net ex_dht (replicate 20 1) = Some (d', ns) \<and> length ns \<le> 8"
  using find_node_spec [OF ex_net_ok(2,1), of "replicate 20 1"]
  by (auto simp: id_ok_def bucket_size_def)

text \<open>
  C17. \<open>GetPeers\<close> ends for every network as well, returns no peer twice, and keeps the
  routing table well formed; so does \<open>Maintain\<close>, whatever refreshes of the non-empty buckets its ticks
  bring: each one ends, and the loop returns once its context is done.
\<close>

theorem get_peers_spec:
  assumes "table_ok (dh_table d)" "network_ok net"
  shows "(\<exists>d' ps. get_peers net d info_hash = Some (d', ps) \<and> table_ok (dh_table d') \<and>
      dh_id d' = dh_id d \<and> distinct ps) \<and>
    ((\<forall>e \<in> set es. event_ok e) \<longrightarrow>
      (\<exists>d'. maintain es d = Some (d', Context_Done \<in> set es) \<and> table_ok (dh_table d')))"
  using get_peers_result [OF assms, of info_hash] maintain_returns [OF _ assms(1), of es] by blast

theorem get_peers_spec_witness:
  "\<exists>d' ps. get_peers ex_net ex_dht (replicate 20 1) = Some (d', ps) \<and> distinct ps"
  using get_peers_spec [OF ex_net_ok(2,1), of "replicate 20 1"] by blast

text \<open>
  The target that \<open>refreshBuckets\<close> looks up lies in the bucket it refreshes, for every
  outcome of the random generator.
\<close>

theorem random_target_in_bucket:
  assumes "id_ok own" "id_ok rnd" "idx < 160"
  shows "id_ok (random_id_in_bucket rnd own idx) \<and>
    bucket_index (xor_id own (random_id_in_bucket rnd own idx)) = int idx"
  using assms by (rule random_id_in_bucket_index)

theorem random_target_in_bucket_witness:
  "bucket_index (xor_id (replicate 20 5) (random_id_in_bucket (replicate 20 200) (replicate 20 5) 77)) = 77"
  using random_target_in_bucket [of "replicate 20 5" "replicate 20 200" 77] by (simp add: id_ok_def)

text \<open>
  The compact formats (26 bytes for an IPv4 node, 38 for an IPv6 node, 20 for a sampled
  info-hash) are lossless both ways: decoding an encoded list gives the list back, trailing
  bytes of an incomplete entry are dropped, and every byte string of a whole number of
  entries is the encoding of what it decodes to.
\<close>

theorem compact_formats_roundtrip:
  shows "((\<forall>n \<in> set ns. node4_ok n) \<and> length junk < 26 \<longrightarrow>
      decode_compact_nodes (encode_compact_nodes ns @ junk) = ns) \<and>
    ((\<forall>n \<in> set ns. node6_ok n) \<and> length junk < 38 \<longrightarrow>
      decode_compact_nodes6 (encode_compact_nodes6 ns @ junk) = ns) \<and>
    ((\<forall>h \<in> set hs. id_ok h) \<and> length junk < 20 \<longrightarrow> decode_samples (encode_samples hs @ junk) = hs) \<and>
    (26 dvd length data \<longrightarrow> encode_compact_nodes (decode_compact_nodes data) = data) \<and>
    (38 dvd length data \<longrightarrow> encode_compact_nodes6 (decode_compact_nodes6 data) = data) \<and>
    (20 dvd length data \<longrightarrow> encode_samples (decode_samples data) = data)"
  using compact4.decode_while_concat [of ns junk] compact6.decode_while_concat [of ns junk]
    samples.decode_while_concat [of hs junk] compact4.concat_decode_while [of data]
    compact6.concat_decode_while [of data] samples.concat_decode_while [of data]
  by (simp add: decode_compact_nodes_def encode_compact_nodes_def decode_compact_nodes6_def
      encode_compact_nodes6_def decode_samples_def encode_samples_eq)

theorem compact_formats_roundtrip_witness:
  "decode_samples (encode_samples [replicate 20 1, replicate 20 2] @ [3]) = [replicate 20 1, replicate 20 2]"
  using compact_formats_roundtrip [of "[]" "[3]" "[replicate 20 1, replicate 20 2]" "[]"]
  by (simp add: id_ok_def)

end
