(* ===== verification/DhtStore.thy ===== *)
theory DhtStore
  imports Bencode "HOL-Library.AList"
begin

text \<open>
  The data store of the DHT (\<open>dht/store.go\<close>, BEP 44): immutable items under the hash of
  their value, mutable items under the hash of a public key and a salt, with signatures,
  sequence numbers and compare-and-swap. SHA-1, Ed25519 and the clock are parameters. The
  invariant says that everything stored is authentic; the signed buffer determines salt,
  sequence number and value.
\<close>

section \<open>Items and the store\<close>

definition max_value_size :: nat where
  "max_value_size = 1000"

definition max_salt_size :: nat where
  "max_salt_size = 64"

record item =
  it_value :: bvalue
  it_key :: bytes
  it_sig :: bytes
  it_seq :: int
  it_salt :: bytes
  it_mutable :: bool
  it_stored :: int

text \<open>The map of items, as an association list with distinct targets.\<close>

type_synonym store = "(bytes \<times> item) list"

definition new_store :: store where
  "new_store = []"

definition immutable_target :: "(bytes \<Rightarrow> bytes) \<Rightarrow> bvalue \<Rightarrow> bytes" where
  "immutable_target sha1 v = sha1 (encode v)"

definition mutable_target :: "(bytes \<Rightarrow> bytes) \<Rightarrow> bytes \<Rightarrow> bytes \<Rightarrow> bytes" where
  "mutable_target sha1 public_key salt = copy_array 20 (sha1 (public_key @ salt))"

definition store_get :: "store \<Rightarrow> bytes \<Rightarrow> item option" where
  "store_get s target = map_of s target"

definition put_immutable ::
  "(bytes \<Rightarrow> bytes) \<Rightarrow> int \<Rightarrow> store \<Rightarrow> bytes \<Rightarrow> bvalue \<Rightarrow> store \<times> unit res" where
  "put_immutable sha1 now s target v =
     (let encoded = encode v
      in if max_value_size < length encoded then (s, Inl (Fail ''value too big''))
         else if sha1 encoded \<noteq> target then (s, Inl (Fail ''hash mismatch''))
         else (AList.update target \<lparr>it_value = v, it_key = replicate 32 0, it_sig = replicate 64 0,
                 it_seq = 0, it_salt = [], it_mutable = False, it_stored = now\<rparr> s, Inr ()))"

definition mutable_sign_buffer :: "bytes \<Rightarrow> int \<Rightarrow> bytes \<Rightarrow> bytes" where
  "mutable_sign_buffer salt seq encoded_value =
     (if salt \<noteq> [] then str ''4:salt'' @ encode (BString salt) else []) @
     str ''3:seq'' @ encode (BInt (word_of_int seq)) @ str ''1:v'' @ encoded_value"

definition put_mutable ::
  "(bytes \<Rightarrow> bytes) \<Rightarrow> (bytes \<Rightarrow> bytes \<Rightarrow> bytes \<Rightarrow> bool) \<Rightarrow> int \<Rightarrow> store \<Rightarrow>
   bytes \<Rightarrow> bytes \<Rightarrow> int \<Rightarrow> bytes \<Rightarrow> bvalue \<Rightarrow> int option \<Rightarrow> store \<times> unit res" where
  "put_mutable sha1 verify now s key salt seq sig v cas =
     (if max_salt_size < length salt then (s, Inl (Fail ''salt too big''))
      else
        let encoded = encode v
        in if max_value_size < length encoded then (s, Inl (Fail ''value too big''))
           else if \<not> verify key (mutable_sign_buffer salt seq encoded) sig
           then (s, Inl (Fail ''invalid signature''))
           else
             let target = mutable_target sha1 key salt;
                 item = \<lparr>it_value = v, it_key = key, it_sig = sig, it_seq = seq, it_salt = salt,
                   it_mutable = True, it_stored = now\<rparr>
             in case store_get s target of
                  Some existing \<Rightarrow>
                    if cas \<noteq> None \<and> the cas \<noteq> it_seq existing then (s, Inl (Fail ''CAS mismatch''))
                    else if seq < it_seq existing then (s, Inl (Fail ''sequence number''))
                    else if seq = it_seq existing
                    then (AList.update target (existing\<lparr>it_stored := now\<rparr>) s, Inr ())
                    else (AList.update target item s, Inr ())
                | None \<Rightarrow> (AList.update target item s, Inr ()))"

text \<open>\<open>SignMutable\<close>; \<open>sign\<close> stands for \<open>ed25519.Sign\<close>.\<close>

definition sign_mutable :: "(bytes \<Rightarrow> bytes \<Rightarrow> bytes) \<Rightarrow> bytes \<Rightarrow> bytes \<Rightarrow> int \<Rightarrow> bvalue \<Rightarrow> bytes" where
  "sign_mutable sign private_key salt seq v =
     copy_array 64 (sign private_key (mutable_sign_buffer salt seq (encode v)))"

definition prune :: "int \<Rightarrow> store \<Rightarrow> int \<Rightarrow> store \<times> nat" where
  "prune now s max_age =
     (let cutoff = now - max_age
      in (filter (\<lambda>p. \<not> it_stored (snd p) < cutoff) s,
          length (filter (\<lambda>p. it_stored (snd p) < cutoff) s)))"

section \<open>Everything stored is authentic\<close>

definition item_ok :: "(bytes \<Rightarrow> bytes) \<Rightarrow> (bytes \<Rightarrow> bytes \<Rightarrow> bytes \<Rightarrow> bool) \<Rightarrow> bytes \<Rightarrow> item \<Rightarrow> bool" where
  "item_ok sha1 verify target it \<longleftrightarrow> length (encode (it_value it)) \<le> max_value_size \<and>
     (if it_mutable it then
        target = mutable_target sha1 (it_key it) (it_salt it) \<and> length (it_salt it) \<le> max_salt_size \<and>
        verify (it_key it) (mutable_sign_buffer (it_salt it) (it_seq it) (encode (it_value it))) (it_sig it)
      else target = immutable_target sha1 (it_value it))"

definition store_ok :: "(bytes \<Rightarrow> bytes) \<Rightarrow> (bytes \<Rightarrow> bytes \<Rightarrow> bytes \<Rightarrow> bool) \<Rightarrow> store \<Rightarrow> bool" where
  "store_ok sha1 verify s \<longleftrightarrow> distinct (map fst s) \<and> (\<forall>(t, it) \<in> set s. item_ok sha1 verify t it)"

text \<open>The operations as a remote party can order them.\<close>

datatype store_op =
    PutImmutable int bytes bvalue
  | PutMutable int bytes bytes int bytes bvalue "int option"
  | Prune int int

fun apply_op ::
  "(bytes \<Rightarrow> bytes) \<Rightarrow> (bytes \<Rightarrow> bytes \<Rightarrow> bytes \<Rightarrow> bool) \<Rightarrow> store \<Rightarrow> store_op \<Rightarrow> store" where
  "apply_op sha1 verify s (PutImmutable now t v) = fst (put_immutable sha1 now s t v)"
| "apply_op sha1 verify s (PutMutable now key salt seq sig v cas) =
     fst (put_mutable sha1 verify now s key salt seq sig v cas)"
| "apply_op sha1 verify s (Prune now age) = fst (prune now s age)"

lemma store_get_update [simp]:
  "store_get (AList.update t it s) u = (if u = t then Some it else store_get s u)"
  by (simp add: store_get_def update_conv')

lemma store_ok_update:
  assumes "store_ok sha1 verify s" "item_ok sha1 verify t it"
  shows "store_ok sha1 verify (AList.update t it s)"
proof -
  have "distinct (map fst (AList.update t it s))"
    using assms(1) by (simp add: store_ok_def distinct_update)
  moreover have "item_ok sha1 verify u jt" if "(u, jt) \<in> set (AList.update t it s)" for u jt
  proof -
    have "map_of (AList.update t it s) u = Some jt"
      using that \<open>distinct _\<close> by simp
    then have "u = t \<and> jt = it \<or> map_of s u = Some jt"
      by (simp add: update_conv' split: if_splits)
    then show ?thesis using assms by (auto simp: store_ok_def dest: map_of_SomeD)
  qed
  ultimately show ?thesis by (auto simp: store_ok_def)
qed

lemma store_ok_get: "store_ok sha1 verify s \<Longrightarrow> store_get s t = Some it \<Longrightarrow> item_ok sha1 verify t it"
  by (auto simp: store_ok_def store_get_def dest: map_of_SomeD)

lemma put_immutable_ok [inv_intros]:
  "store_ok sha1 verify s \<Longrightarrow> store_ok sha1 verify (fst (put_immutable sha1 now s t v))"
  by (auto simp: put_immutable_def Let_def item_ok_def immutable_target_def intro!: store_ok_update)

lemma put_mutable_ok [inv_intros]:
  assumes "store_ok sha1 verify s"
  shows "store_ok sha1 verify (fst (put_mutable sha1 verify now s key salt seq sig v cas))"
  using assms store_ok_get [OF assms, of "mutable_target sha1 key salt"]
  by (auto simp: put_mutable_def Let_def split: option.split
      intro!: store_ok_update) (auto simp: item_ok_def)

lemma prune_ok [inv_intros]: "store_ok sha1 verify s \<Longrightarrow> store_ok sha1 verify (fst (prune now s age))"
  by (auto simp: prune_def Let_def store_ok_def distinct_map_filter)

lemma apply_op_ok: "store_ok sha1 verify s \<Longrightarrow> store_ok sha1 verify (apply_op sha1 verify s oper)"
  by (cases oper) (simp_all add: inv_intros)

lemma apply_ops_ok:
  "store_ok sha1 verify s \<Longrightarrow> store_ok sha1 verify (foldl (apply_op sha1 verify) s ops)"
  by (induction ops arbitrary: s) (simp_all add: apply_op_ok)

lemma prune_get:
  "store_ok sha1 verify s \<Longrightarrow> store_get (fst (prune now s age)) t =
    (case store_get s t of None \<Rightarrow> None
     | Some it \<Rightarrow> if it_stored it < now - age then None else Some it)"
proof -
  assume "store_ok sha1 verify s"
  then have "distinct (map fst s)" by (simp add: store_ok_def)
  then show ?thesis
    unfolding store_get_def prune_def Let_def fst_conv
    by (induction s) (auto split: option.splits simp: map_of_eq_None_iff dest: map_of_SomeD)
qed

section \<open>The signed buffer\<close>

lemma BInt_prefix_free:
  assumes "encode (BInt i) @ r = encode (BInt j) @ r'"
  shows "i = j \<and> r = r'"
  using bencode.prefix_free [OF _ _ assms] by simp

lemma BString_prefix_free:
  assumes "small s" "small t" "encode (BString s) @ r = encode (BString t) @ r'"
  shows "s = t \<and> r = r'"
  using bencode.prefix_free [OF _ _ assms(3)] assms(1,2) by simp

lemma in_int64_word_inj:
  "in_int64 i \<Longrightarrow> in_int64 j \<Longrightarrow> (word_of_int i :: 64 word) = word_of_int j \<Longrightarrow> i = j"
proof -
  have "sint (word_of_int k :: 64 word) = k" if "in_int64 k" for k
    using that by (simp add: in_int64_def int_word_sint)
  then show "in_int64 i \<Longrightarrow> in_int64 j \<Longrightarrow> (word_of_int i :: 64 word) = word_of_int j \<Longrightarrow> i = j"
    by metis
qed

lemma mutable_sign_buffer_inj:
  assumes "mutable_sign_buffer salt seq e = mutable_sign_buffer salt' seq' e'"
    and "small salt" "small salt'" "in_int64 seq" "in_int64 seq'"
  shows "salt = salt' \<and> seq = seq' \<and> e = e'"
proof -
  let ?tail = "\<lambda>q e. str ''3:seq'' @ encode (BInt (word_of_int q)) @ str ''1:v'' @ e"
  have tails: "salt = salt' \<and> ?tail seq e = ?tail seq' e'"
  proof (cases "salt = []"; cases "salt' = []")
    assume "salt \<noteq> []" "salt' \<noteq> []"
    with assms(1) have "encode (BString salt) @ ?tail seq e = encode (BString salt') @ ?tail seq' e'"
      by (simp add: mutable_sign_buffer_def del: encode_simps)
    then show ?thesis using BString_prefix_free assms(2,3) by blast
  qed (use assms(1) in \<open>simp_all add: mutable_sign_buffer_def\<close>)
  then have "encode (BInt (word_of_int seq)) @ str ''1:v'' @ e =
      encode (BInt (word_of_int seq')) @ str ''1:v'' @ e'"
    by (simp del: encode_simps)
  then have "(word_of_int seq :: 64 word) = word_of_int seq'" "e = e'"
    using BInt_prefix_free by fastforce+
  then show ?thesis using tails assms(4,5) by (metis in_int64_word_inj)
qed

section \<open>Properties\<close>

text \<open>
  C18. However puts and prunes are ordered, everything in the store is authentic: an
  immutable item is stored under the hash of its value, a mutable one under the hash of its
  key and salt and with a signature that verifies for its salt, sequence number and value,
  within the size limits.
\<close>

theorem store_authentic:
  assumes "store_get (foldl (apply_op sha1 verify) new_store ops) t = Some it"
  shows "item_ok sha1 verify t it"
proof (rule store_ok_get)
  show "store_ok sha1 verify (foldl (apply_op sha1 verify) new_store ops)"
    by (rule apply_ops_ok) (simp add: store_ok_def new_store_def)
qed (rule assms)

theorem store_authentic_witness:
  "item_ok (take 20) (\<lambda>_ _ _. True) (str ''i7e'')
     \<lparr>it_value = BInt 7, it_key = replicate 32 0, it_sig = replicate 64 0, it_seq = 0, it_salt = [],
      it_mutable = False, it_stored = 5\<rparr>"
  by (rule store_authentic [where ops = "[PutImmutable 5 (str ''i7e'') (BInt 7)]"])
    (simp add: new_store_def put_immutable_def max_value_size_def itoa_def dec_digits.simps digit_def
      store_get_def)

text \<open>
  A put under the stored sequence number is reported as success, whatever its value, and changes only the time of
  the stored item. The document on BEP 44 has such a put refused with error 302.
\<close>

lemma equal_sequence_accepted:
  assumes "store_get s (mutable_target sha1 key salt) = Some e" "it_seq e = seq" "cas = None \<or> cas = Some seq"
    and "length salt \<le> max_salt_size" "length (encode v) \<le> max_value_size"
    and "verify key (mutable_sign_buffer salt seq (encode v)) sig"
  shows "\<exists>s'. put_mutable sha1 verify now s key salt seq sig v cas = (s', Inr ()) \<and>
    store_get s' (mutable_target sha1 key salt) = Some (e\<lparr>it_stored := now\<rparr>)"
  using assms unfolding put_mutable_def by (auto simp: Let_def)

text \<open>
  C19. \<open>PutMutable\<close> succeeds exactly if the sizes are within their limits, the signature
  verifies, and, where an item is stored, the compare-and-swap number (if given) is the
  stored one and the sequence number is not below it. A failed put changes nothing; a
  successful one changes only its own target, never lowers a sequence number, and replaces
  the value only under a higher one (an equal one is accepted and its value dropped,
  \<open>equal_sequence_accepted\<close>, where the document on BEP 44 demands a higher one).
\<close>

theorem put_mutable_spec:
  assumes "put_mutable sha1 verify now s key salt seq sig v cas = (s', r)"
  shows "(r = Inr () \<longleftrightarrow> length salt \<le> max_salt_size \<and> length (encode v) \<le> max_value_size \<and>
       verify key (mutable_sign_buffer salt seq (encode v)) sig \<and>
       (\<forall>e. store_get s (mutable_target sha1 key salt) = Some e \<longrightarrow>
          (cas = None \<or> cas = Some (it_seq e)) \<and> it_seq e \<le> seq)) \<and>
    (r \<noteq> Inr () \<longrightarrow> s' = s) \<and>
    (\<forall>t. t \<noteq> mutable_target sha1 key salt \<longrightarrow> store_get s' t = store_get s t) \<and>
    (\<forall>e. store_get s (mutable_target sha1 key salt) = Some e \<longrightarrow>
       (\<exists>e'. store_get s' (mutable_target sha1 key salt) = Some e' \<and> it_seq e \<le> it_seq e' \<and>
          (it_seq e' = it_seq e \<longrightarrow> it_value e' = it_value e))) \<and>
    (r = Inr () \<and> (\<forall>e. store_get s (mutable_target sha1 key salt) = Some e \<longrightarrow> it_seq e < seq) \<longrightarrow>
       (\<exists>e'. store_get s' (mutable_target sha1 key salt) = Some e' \<and> it_value e' = v \<and> it_seq e' = seq))"
  using assms unfolding put_mutable_def
  by (cases cas) (auto simp: Let_def split: if_splits option.splits)

theorem put_mutable_spec_witness:
  "store_get (fst (put_mutable (take 20) (\<lambda>_ _ _. True) 9 [] [1] [2] 3 [] (BInt 4) None)) (copy_array 20 [1, 2])
    \<noteq> None"
proof -
  have "snd (put_mutable (take 20) (\<lambda>_ _ _. True) 9 [] [1] [2] 3 [] (BInt 4) None) = Inr ()"
    by (simp add: put_mutable_def store_get_def max_salt_size_def max_value_size_def itoa_def
        dec_digits.simps)
  then show ?thesis
    using put_mutable_spec [of "take 20" "\<lambda>_ _ _. True" 9 "[]" "[1]" "[2]" 3 "[]" "BInt 4" None
        "fst (put_mutable (take 20) (\<lambda>_ _ _. True) 9 [] [1] [2] 3 [] (BInt 4) None)" "Inr ()"]
    by (auto simp: store_get_def mutable_target_def prod_eq_iff)
qed

text \<open>
  A signature for a mutable item covers exactly its salt, sequence number and value:
  equal signed buffers come from equal ones, so no signature can be replayed for another
  salt, another sequence number or another value.
\<close>

theorem mutable_sign_buffer_binds:
  assumes "mutable_sign_buffer salt seq (encode v) = mutable_sign_buffer salt' seq' (encode v')"
    and "length salt \<le> max_salt_size" "length salt' \<le> max_salt_size" "in_int64 seq" "in_int64 seq'"
    and "canonical v" "canonical v'"
  shows "salt = salt' \<and> seq = seq' \<and> v = v'"
  using mutable_sign_buffer_inj [OF assms(1)] bencode.stream_enc_inj [OF assms(6,7)] assms(2-5)
  by (simp add: small_def max_salt_size_def)

theorem mutable_sign_buffer_binds_witness:
  "mutable_sign_buffer [] 1 (encode (BInt 2)) \<noteq> mutable_sign_buffer [] 2 (encode (BInt 2))"
  using mutable_sign_buffer_binds [of "[]" 1 "BInt 2" "[]" 2 "BInt 2"]
  by (auto simp: in_int64_def max_salt_size_def)

end
