(* ===== verification/DhtSecurity.thy ===== *)
theory DhtSecurity
  imports GoNet "HOL-Library.AList"
begin

text \<open>
  Node identifiers bound to IP addresses (\<open>dht/security.go\<close>, BEP 42): the derivation of an
  identifier's first 21 bits from the masked address by CRC-32C, its validation, the exempt
  local addresses, the \<open>ip\<close> field of responses, and the vote on one's external address.
\<close>

definition v4_mask :: bytes where
  "v4_mask = [0x03, 0x0f, 0x3f, 0xff]"

definition v6_mask :: bytes where
  "v6_mask = [0x01, 0x03, 0x07, 0x0f, 0x1f, 0x3f, 0x7f, 0xff]"

text \<open>The masked address with the three random bits, and its checksum.\<close>

definition bep42_crc :: "u8 \<Rightarrow> bytes \<Rightarrow> bytes \<Rightarrow> u32" where
  "bep42_crc r ip_bytes msk =
     (let buf = map (\<lambda>i. (ip_bytes ! i) AND (msk ! i)) [0..<length msk];
          buf = buf[0 := (buf ! 0) OR push_bit 5 r]
      in crc32c buf)"

definition apply_bep42 :: "bytes \<Rightarrow> bytes \<Rightarrow> bytes \<Rightarrow> bytes" where
  "apply_bep42 i ip_bytes msk =
     (let r = (i ! 19) AND 0x07;
          crc = bep42_crc r ip_bytes msk;
          i = i[0 := ucast (drop_bit 24 crc)];
          i = i[1 := ucast (drop_bit 16 crc)];
          i = i[2 := (ucast (drop_bit 8 crc) AND 0xf8) OR ((i ! 2) AND 0x07)]
      in i[19 := r OR ((i ! 19) AND 0xf8)])"

text \<open>\<open>rnd\<close> is what \<open>rand.Read\<close> wrote into the identifier.\<close>

definition generate_secure_node_id :: "bytes \<Rightarrow> bytes \<Rightarrow> bytes" where
  "generate_secure_node_id rnd ip =
     (case to4 ip of
        Some ip4 \<Rightarrow> apply_bep42 rnd ip4 v4_mask
      | None \<Rightarrow>
          (case to16 ip of Some ip6 \<Rightarrow> apply_bep42 rnd (take 8 ip6) v6_mask | None \<Rightarrow> rnd))"

definition validate_bep42 :: "bytes \<Rightarrow> bytes \<Rightarrow> bytes \<Rightarrow> bool" where
  "validate_bep42 i ip_bytes msk =
     (let r = (i ! 19) AND 0x07;
          crc = bep42_crc r ip_bytes msk
      in if i ! 0 \<noteq> ucast (drop_bit 24 crc) then False
         else if i ! 1 \<noteq> ucast (drop_bit 16 crc) then False
         else if (i ! 2) AND 0xf8 \<noteq> ucast (drop_bit 8 crc) AND 0xf8 then False
         else True)"

definition ipv6_loopback :: bytes where
  "ipv6_loopback = replicate 15 0 @ [1]"

definition is_local_ip :: "bytes \<Rightarrow> bool" where
  "is_local_ip ip =
     (case to4 ip of
        None \<Rightarrow> ip_equal ip ipv6_loopback
      | Some q \<Rightarrow>
          if q ! 0 = 10 then True
          else if q ! 0 = 172 \<and> 16 \<le> q ! 1 \<and> q ! 1 \<le> 31 then True
          else if q ! 0 = 192 \<and> q ! 1 = 168 then True
          else if q ! 0 = 169 \<and> q ! 1 = 254 then True
          else if q ! 0 = 127 then True
          else False)"

definition validate_node_id :: "bytes \<Rightarrow> bytes \<Rightarrow> bool" where
  "validate_node_id i ip =
     (if is_local_ip ip then True
      else case to4 ip of
        Some ip4 \<Rightarrow> validate_bep42 i ip4 v4_mask
      | None \<Rightarrow>
          (case to16 ip of Some ip6 \<Rightarrow> validate_bep42 i (take 8 ip6) v6_mask | None \<Rightarrow> False))"

text \<open>The \<open>ip\<close> field; a \<open>nil\<close> address is the empty list.\<close>

definition parse_ip_field :: "bytes \<Rightarrow> bytes" where
  "parse_ip_field data =
     (if length data = 6 then take 4 data
      else if length data = 18 then take 16 data
      else [])"

definition encode_ip_field :: "bytes \<Rightarrow> u16 \<Rightarrow> bytes" where
  "encode_ip_field ip port =
     (case to4 ip of
        Some ip4 \<Rightarrow> ip4 @ put16 port
      | None \<Rightarrow> (case to16 ip of Some ip6 \<Rightarrow> ip6 @ put16 port | None \<Rightarrow> []))"

text \<open>
  The vote: counts per printed address. Go iterates over the map in any order; the order is
  the order of the list, and the laws below hold for all of them. \<open>vote_winner\<close> is the
  winning string, which \<open>Winner\<close> parses again; an empty address is \<open>nil\<close>.
\<close>

type_synonym votes = "(bytes \<times> nat) list"

definition vote_count :: "votes \<Rightarrow> bytes \<Rightarrow> nat" where
  "vote_count v s = (case map_of v s of Some n \<Rightarrow> n | None \<Rightarrow> 0)"

definition vote_add :: "votes \<Rightarrow> bytes \<Rightarrow> votes" where
  "vote_add v ip =
     (if ip = [] then v else AList.update (ip_string ip) (Suc (vote_count v (ip_string ip))) v)"

definition vote_winner :: "votes \<Rightarrow> bytes" where
  "vote_winner v =
     fst (foldl (\<lambda>(best, best_count) (ip, count).
            if best_count < count then (ip, count) else (best, best_count)) ([], 0) v)"

definition winner :: "votes \<Rightarrow> bytes" where
  "winner v =
     (let best = vote_winner v
      in if best = [] then [] else (case parse_ip best of None \<Rightarrow> [] | Some ip \<Rightarrow> ip))"

definition vote_total :: "votes \<Rightarrow> nat" where
  "vote_total v = sum_list (map snd v)"

section \<open>Generated identifiers validate\<close>

lemma low_bits_kept: "((r :: u8) AND 0x07) OR (x AND 0xf8) = y \<Longrightarrow> y AND 0x07 = r AND 0x07"
proof -
  assume y: "(r AND 0x07) OR (x AND 0xf8) = y"
  have "(x AND 0xf8) AND 0x07 = 0" by (simp add: and.assoc)
  then show ?thesis unfolding y [symmetric] by (simp add: bit.conj_disj_distrib2 and.assoc)
qed

lemma high_bits_kept: "((c AND 0xf8) OR ((x :: u8) AND 0x07)) AND 0xf8 = c AND 0xf8"
proof -
  have "(x AND 0x07) AND 0xf8 = 0" by (simp add: and.assoc)
  then show ?thesis by (simp add: bit.conj_disj_distrib2 and.assoc)
qed

lemma validate_apply_bep42:
  assumes "length i = 20"
  shows "validate_bep42 (apply_bep42 i ip_bytes msk) ip_bytes msk"
proof -
  let ?j = "apply_bep42 i ip_bytes msk"
  define crc where "crc = bep42_crc ((i ! 19) AND 7) ip_bytes msk"
  have j: "?j ! 0 = ucast (drop_bit 24 crc)" "?j ! 1 = ucast (drop_bit 16 crc)"
    "?j ! 2 = (ucast (drop_bit 8 crc) AND 0xf8) OR ((i ! 2) AND 0x07)"
    "?j ! 19 = ((i ! 19) AND 0x07) OR ((i ! 19) AND 0xf8)"
    using assms by (simp_all add: apply_bep42_def Let_def crc_def)
  have r: "(?j ! 19) AND 7 = (i ! 19) AND 7" by (rule low_bits_kept) (rule j(4) [symmetric])
  have c: "bep42_crc ((?j ! 19) AND 7) ip_bytes msk = crc" by (simp only: r crc_def)
  show ?thesis
    unfolding validate_bep42_def Let_def c by (simp only: j(1-3) high_bits_kept) simp
qed

text \<open>The identifier keeps its random bits outside the first 21.\<close>

lemma apply_bep42_random:
  assumes "length i = 20" "3 \<le> k" "k < 20"
  shows "apply_bep42 i ip_bytes msk ! k = i ! k"
proof (cases "k = 19")
  case True
  have "((i ! 19) AND 0x07) OR ((i ! 19) AND 0xf8) = (i ! 19) AND (0x07 OR 0xf8)"
    by (simp only: bit.conj_disj_distrib)
  also have "\<dots> = i ! 19"
  proof -
    have "(0x07 OR 0xf8 :: u8) = - 1" by simp
    then show ?thesis by (simp only: bit.conj_one_right)
  qed
  finally show ?thesis using assms True by (simp add: apply_bep42_def Let_def)
next
  case False
  then show ?thesis using assms by (simp add: apply_bep42_def Let_def)
qed

lemma validate_bep42_prefix:
  assumes "validate_bep42 i ip_bytes msk" "validate_bep42 j ip_bytes msk"
    and "(i ! 19) AND 7 = (j ! 19) AND 7"
  shows "i ! 0 = j ! 0 \<and> i ! 1 = j ! 1 \<and> (i ! 2) AND 0xf8 = (j ! 2) AND 0xf8"
  using assms unfolding validate_bep42_def Let_def by (simp split: if_splits)

lemma validate_bep42_all:
  assumes "length rnd = 20"
  shows "validate_bep42 (apply_bep42 rnd ip_bytes msk) ip_bytes msk \<and>
    (\<forall>k. 3 \<le> k \<and> k < 20 \<longrightarrow> apply_bep42 rnd ip_bytes msk ! k = rnd ! k) \<and>
    (\<forall>i j. validate_bep42 i ip_bytes msk \<longrightarrow> validate_bep42 j ip_bytes msk \<longrightarrow>
       (i ! 19) AND 7 = (j ! 19) AND 7 \<longrightarrow>
       i ! 0 = j ! 0 \<and> i ! 1 = j ! 1 \<and> (i ! 2) AND 0xf8 = (j ! 2) AND 0xf8)"
  using validate_apply_bep42 [OF assms] apply_bep42_random [OF assms] validate_bep42_prefix
  by (intro conjI allI impI) (fast | simp)+

section \<open>The vote\<close>

definition votes_ok :: "votes \<Rightarrow> bool" where
  "votes_ok v \<longleftrightarrow> distinct (map fst v) \<and> (\<forall>(s, n) \<in> set v. 0 < n \<and> s \<noteq> [])"

lemma vote_fold_max:
  fixes n :: nat
  shows "foldl (\<lambda>(best, best_count) (ip, count).
      if best_count < count then (ip, count) else (best, best_count)) (b, n) v = (b', n') \<Longrightarrow>
    n \<le> n' \<and> (\<forall>(s, m) \<in> set v. m \<le> n') \<and> ((b', n') = (b, n) \<or> (b', n') \<in> set v)"
proof (induction v arbitrary: b n)
  case (Cons p v)
  obtain s m where p: "p = (s, m)" by (cases p)
  show ?case
  proof (cases "n < m")
    case True
    with Cons.IH [of s m] Cons.prems p show ?thesis by auto
  next
    case False
    with Cons.IH [of b n] Cons.prems p show ?thesis by auto
  qed
qed simp

lemma vote_winner_max:
  assumes "votes_ok v" "v \<noteq> []"
  shows "vote_winner v \<in> fst ` set v \<and> (\<forall>s. vote_count v s \<le> vote_count v (vote_winner v))"
proof -
  obtain b n where f: "foldl (\<lambda>(best, best_count) (ip, count).
      if best_count < count then (ip, count) else (best, best_count)) ([], 0) v = (b, n)"
    by (rule prod.exhaust)
  note m = vote_fold_max [OF f]
  obtain s k where "(s, k) \<in> set v" using assms(2) by (cases v) auto
  then have "0 < k" "k \<le> n" using assms(1) m unfolding votes_ok_def by blast+
  then have "0 < n" by simp
  then have mem: "(b, n) \<in> set v" using m by auto
  then have "map_of v b = Some n" using assms(1) by (intro map_of_is_SomeI) (simp_all add: votes_ok_def)
  then have "vote_count v b = n" by (simp add: vote_count_def)
  moreover have "vote_count v s \<le> n" for s
  proof (cases "map_of v s")
    case (Some k)
    then have "(s, k) \<in> set v" by (rule map_of_SomeD)
    then have "k \<le> n" using m by blast
    then show ?thesis by (simp add: vote_count_def Some)
  qed (simp add: vote_count_def)
  moreover have "vote_winner v = b" by (simp add: vote_winner_def f)
  moreover have "b \<in> fst ` set v" using mem by force
  ultimately show ?thesis by simp
qed

lemma dec_digits_join: "join_bytes sep (itoa i # xs) \<noteq> []"
  by (cases xs) simp_all

lemma ip_string_not_Nil: "ip_string ip \<noteq> []"
proof (cases "to4 ip")
  case (Some q)
  then obtain b bs where "q = b # bs" using length_to4 [of ip q] by (cases q) simp_all
  with Some show ?thesis by (simp add: ip_string_def dotted_def dec_digits_join)
next
  case None
  have "ipv6_string ip \<noteq> []" if "length ip = 16"
  proof -
    have "length (decode_indexed 2 get16 ip) = 8" using that by (simp add: decode_indexed_def)
    then obtain g gs where g: "decode_indexed 2 get16 ip = g # gs"
      by (cases "decode_indexed 2 get16 ip") auto
    have "hex_digits n \<noteq> []" for n by (subst hex_digits.simps) simp
    then have "join_bytes [58] (map (\<lambda>g. hex_digits (unat g)) (g # gs)) \<noteq> []" by (cases gs) simp_all
    then show ?thesis by (simp add: ipv6_string_def Let_def g split: prod.split)
  qed
  moreover have "length ip \<noteq> 4" using None by (auto simp: to4_def)
  ultimately show ?thesis using None by (simp add: ip_string_def)
qed

lemma vote_add_ok [inv_intros]: "votes_ok v \<Longrightarrow> votes_ok (vote_add v ip)"
proof (cases "ip = []")
  case False
  assume ok: "votes_ok v"
  let ?u = "AList.update (ip_string ip) (Suc (vote_count v (ip_string ip))) v"
  have d: "distinct (map fst ?u)" using ok by (simp add: votes_ok_def distinct_update)
  have "0 < n \<and> s \<noteq> []" if "(s, n) \<in> set ?u" for s n
  proof -
    have "map_of ?u s = Some n" using that d by simp
    then have "s = ip_string ip \<and> 0 < n \<or> map_of v s = Some n"
      by (auto simp: update_conv' split: if_splits)
    then show ?thesis
      using ok by (auto simp: votes_ok_def ip_string_not_Nil dest: map_of_SomeD)
  qed
  with d False show ?thesis by (auto simp: vote_add_def votes_ok_def)
qed (simp add: vote_add_def)

lemma vote_count_add: "ip \<noteq> [] \<Longrightarrow> vote_count (vote_add v ip) s =
    vote_count v s + (if s = ip_string ip then 1 else 0)"
  by (simp add: vote_add_def vote_count_def update_conv')

lemma sum_update:
  "distinct (map fst v) \<Longrightarrow> sum_list (map snd (AList.update k (Suc (vote_count v k)) v)) =
    Suc (sum_list (map snd v))"
proof (induction v)
  case (Cons p v)
  obtain s n where p: "p = (s, n)" by (cases p)
  with Cons show ?case by (auto simp: vote_count_def)
qed (simp add: vote_count_def)

lemma vote_total_add: "votes_ok v \<Longrightarrow> vote_total (vote_add v ip) = vote_total v + (if ip = [] then 0 else 1)"
  by (simp add: vote_total_def vote_add_def sum_update votes_ok_def)

lemma votes_of_list:
  "votes_ok (foldl vote_add v0 ips) \<and>
   vote_count (foldl vote_add v0 ips) s =
     vote_count v0 s + length (filter (\<lambda>ip. ip \<noteq> [] \<and> ip_string ip = s) ips) \<and>
   vote_total (foldl vote_add v0 ips) = vote_total v0 + length (filter (\<lambda>ip. ip \<noteq> []) ips)"
  if "votes_ok v0"
  using that
proof (induction ips arbitrary: v0)
  case (Cons ip ips)
  have "votes_ok (vote_add v0 ip)" using Cons.prems by (rule vote_add_ok)
  from Cons.IH [OF this] show ?case
    using vote_total_add [OF Cons.prems, of ip]
    by (cases "ip = []") (auto simp: vote_add_def [of _ "[]"] vote_count_add)
qed simp

section \<open>Properties\<close>

text \<open>
  A generated identifier validates for its IP address, IPv4 or IPv6, whatever the random
  bytes are, and keeps all of them outside the first 21 bits; conversely two identifiers that
  validate for the same non-local address with the same three random bits agree on their
  first 21 bits.
\<close>

theorem secure_node_id_valid:
  assumes "length rnd = 20" "to16 ip \<noteq> None"
  shows "validate_node_id (generate_secure_node_id rnd ip) ip \<and>
    (\<forall>k. 3 \<le> k \<and> k < 20 \<longrightarrow> generate_secure_node_id rnd ip ! k = rnd ! k) \<and>
    (\<forall>i j. \<not> is_local_ip ip \<longrightarrow> validate_node_id i ip \<longrightarrow> validate_node_id j ip \<longrightarrow>
       (i ! 19) AND 7 = (j ! 19) AND 7 \<longrightarrow>
       i ! 0 = j ! 0 \<and> i ! 1 = j ! 1 \<and> (i ! 2) AND 0xf8 = (j ! 2) AND 0xf8)"
proof (cases "to4 ip")
  case None
  with assms(2) obtain ip6 where ip6: "to16 ip = Some ip6" by blast
  have gen: "generate_secure_node_id rnd ip = apply_bep42 rnd (take 8 ip6) v6_mask"
    by (simp add: generate_secure_node_id_def None ip6)
  have val: "validate_node_id i ip \<longleftrightarrow> is_local_ip ip \<or> validate_bep42 i (take 8 ip6) v6_mask" for i
    by (simp add: validate_node_id_def None ip6)
  show ?thesis unfolding gen val
    using validate_bep42_all [OF assms(1), of "take 8 ip6" v6_mask] by fast
next
  case (Some q)
  have gen: "generate_secure_node_id rnd ip = apply_bep42 rnd q v4_mask"
    by (simp add: generate_secure_node_id_def Some)
  have val: "validate_node_id i ip \<longleftrightarrow> is_local_ip ip \<or> validate_bep42 i q v4_mask" for i
    by (simp add: validate_node_id_def Some)
  show ?thesis unfolding gen val
    using validate_bep42_all [OF assms(1), of "q" v4_mask] by fast
qed

theorem secure_node_id_valid_witness:
  "validate_node_id (generate_secure_node_id (replicate 20 9) [124, 31, 75, 21]) [124, 31, 75, 21]"
  using secure_node_id_valid [of "replicate 20 9" "[124, 31, 75, 21]"] by (simp add: to16_def)

text \<open>
  After any sequence of votes each address has exactly the votes cast for it, and the
  winner has the most votes of all, in whatever order the map of votes is traversed.
\<close>

theorem vote_winner_spec:
  assumes "mset v = mset (foldl vote_add [] ips)" "\<exists>ip \<in> set ips. ip \<noteq> []"
  shows "(\<forall>s. length (filter (\<lambda>ip. ip \<noteq> [] \<and> ip_string ip = s) ips) \<le>
        length (filter (\<lambda>ip. ip \<noteq> [] \<and> ip_string ip = vote_winner v) ips)) \<and>
    (\<exists>ip \<in> set ips. ip \<noteq> [] \<and> ip_string ip = vote_winner v) \<and>
    vote_total v = length (filter (\<lambda>ip. ip \<noteq> []) ips)"
proof -
  let ?w = "foldl vote_add [] ips"
  have w: "votes_ok ?w" "\<And>s. vote_count ?w s = length (filter (\<lambda>ip. ip \<noteq> [] \<and> ip_string ip = s) ips)"
    "vote_total ?w = length (filter (\<lambda>ip. ip \<noteq> []) ips)"
    using votes_of_list [of "[]"] by (simp_all add: votes_ok_def vote_count_def vote_total_def)
  have "distinct (map fst v)"
    using w(1) mset_eq_imp_distinct_iff [of "map fst v" "map fst ?w"] assms(1)
    by (simp add: votes_ok_def)
  moreover have s: "set v = set ?w" using assms(1) by (metis set_mset_mset)
  ultimately have ok: "votes_ok v" using w(1) by (simp add: votes_ok_def)
  have "map_of v = map_of ?w"
    using ok w(1) s by (subst map_of_inject_set) (simp_all add: votes_ok_def)
  then have count: "vote_count v s = length (filter (\<lambda>ip. ip \<noteq> [] \<and> ip_string ip = s) ips)" for s
    using w(2) by (simp add: vote_count_def)
  have total: "vote_total v = vote_total ?w"
    unfolding vote_total_def sum_mset_sum_list [symmetric] mset_map assms(1) by (rule refl)
  obtain ip where ip: "ip \<in> set ips" "ip \<noteq> []" using assms(2) by blast
  then have "0 < vote_count v (ip_string ip)"
    unfolding count by (auto simp: length_greater_0_conv filter_empty_conv)
  then have "v \<noteq> []" by (auto simp: vote_count_def)
  note m = vote_winner_max [OF ok this]
  then have "0 < vote_count v (vote_winner v)"
    using \<open>0 < vote_count v (ip_string ip)\<close> by (metis less_le_trans)
  then have "filter (\<lambda>ip. ip \<noteq> [] \<and> ip_string ip = vote_winner v) ips \<noteq> []" unfolding count by simp
  then have "\<exists>ip \<in> set ips. ip \<noteq> [] \<and> ip_string ip = vote_winner v"
    by (auto simp: filter_empty_conv)
  with m total w(3) show ?thesis by (simp add: count)
qed

theorem vote_winner_spec_witness:
  "vote_total (foldl vote_add [] [[1, 2, 3, 4], []]) = 1"
proof -
  have "\<exists>ip \<in> set [[1, 2, 3, 4], [] :: bytes]. ip \<noteq> []" by simp
  from vote_winner_spec [OF refl this, THEN conjunct2, THEN conjunct2] show ?thesis by simp
qed

text \<open>The winner as an address: two addresses print the same exactly when they are the same.\<close>

definition voter_ip :: "bytes \<Rightarrow> bool" where
  "voter_ip ip \<longleftrightarrow> length ip = 4 \<or> length ip = 16"

lemma ip_string_eq_iff: "voter_ip a \<Longrightarrow> voter_ip b \<Longrightarrow> ip_string a = ip_string b \<longleftrightarrow> to16 a = to16 b"
proof
  assume "voter_ip a" "voter_ip b" "ip_string a = ip_string b"
  then show "to16 a = to16 b" by (metis parse_ip_string voter_ip_def)
next
  assume "voter_ip a" "voter_ip b" "to16 a = to16 b"
  then have "to4 a = to4 b" "a = b \<or> to4 a \<noteq> None"
    by (auto simp: voter_ip_def to16_def to4_def)
  with \<open>voter_ip a\<close> \<open>voter_ip b\<close> show "ip_string a = ip_string b"
    by (auto simp: ip_string_def voter_ip_def split: option.split)
qed

theorem winner_spec:
  assumes "mset v = mset (foldl vote_add [] ips)" "ips \<noteq> []" "\<forall>ip \<in> set ips. voter_ip ip"
  shows "(\<exists>ip \<in> set ips. to16 ip = Some (winner v)) \<and>
    (\<forall>ip \<in> set ips. length (filter (\<lambda>x. to16 x = to16 ip) ips) \<le>
       length (filter (\<lambda>x. to16 x = Some (winner v)) ips))"
proof -
  have ne: "ip \<noteq> []" if "ip \<in> set ips" for ip using that assms(3) by (auto simp: voter_ip_def)
  then have "\<exists>ip \<in> set ips. ip \<noteq> []" using assms(2) by (meson last_in_set)
  from vote_winner_spec [OF assms(1) this]
  obtain w where w: "w \<in> set ips" "ip_string w = vote_winner v"
    and best: "\<And>s. length (filter (\<lambda>ip. ip \<noteq> [] \<and> ip_string ip = s) ips) \<le>
      length (filter (\<lambda>ip. ip \<noteq> [] \<and> ip_string ip = vote_winner v) ips)" by blast
  have "vote_winner v \<noteq> []" using w(2) ip_string_not_Nil by metis
  moreover have t: "to16 w = parse_ip (vote_winner v)" "to16 w \<noteq> None"
    using parse_ip_string [of w] w assms(3) by (auto simp: voter_ip_def to16_def)
  ultimately have win: "to16 w = Some (winner v)" by (auto simp: winner_def)
  have votes: "filter (\<lambda>x. x \<noteq> [] \<and> ip_string x = ip_string ip) ips = filter (\<lambda>x. to16 x = to16 ip) ips"
    if "ip \<in> set ips" for ip
    using that assms(3) ne ip_string_eq_iff by (intro filter_cong) auto
  have "length (filter (\<lambda>x. to16 x = to16 ip) ips) \<le> length (filter (\<lambda>x. to16 x = Some (winner v)) ips)"
    if "ip \<in> set ips" for ip
    using best [of "ip_string ip"] unfolding w(2) [symmetric] votes [OF w(1)] votes [OF that] win .
  with w(1) win show ?thesis by blast
qed

theorem winner_spec_witness: "winner (foldl vote_add [] [[1, 2, 3, 4], [1, 2, 3, 4], [9, 9, 9, 9]]) = ipv4 [1, 2, 3, 4]"
proof -
  let ?ips = "[[1, 2, 3, 4], [1, 2, 3, 4], [9, 9, 9, 9]] :: bytes list" and ?w = "winner (foldl vote_add [] [[1, 2, 3, 4], [1, 2, 3, 4], [9, 9, 9, 9]])"
  have "(\<exists>ip \<in> set ?ips. to16 ip = Some ?w) \<and>
      (\<forall>ip \<in> set ?ips. length (filter (\<lambda>x. to16 x = to16 ip) ?ips) \<le> length (filter (\<lambda>x. to16 x = Some ?w) ?ips))"
    by (rule winner_spec [OF refl]) (simp_all add: voter_ip_def)
  then show ?thesis by (auto simp: to16_def ipv4_def split: if_splits)
qed

end
