(* ===== verification/PeerWire.thy ===== *)
theory PeerWire
  imports GoStd
begin

text \<open>
  The peer wire protocol (\<open>peer/message.go\<close>) and the handshake of a connection
  (\<open>peer/conn.go\<close>): the 68-byte handshake, length-prefixed messages on a byte stream, the
  constructor and the payload parser of each message, and what both ends of a connection
  learn from the exchange of handshakes. A reader is the list of bytes it still holds.
\<close>

section \<open>The handshake\<close>

definition protocol_str :: bytes where
  "protocol_str = str ''BitTorrent protocol''"

record handshake =
  hs_info_hash :: bytes
  hs_peer_id :: bytes
  hs_reserved :: bytes

definition supports_extensions :: "bytes \<Rightarrow> bool" where
  "supports_extensions reserved \<longleftrightarrow> (reserved ! 5) AND 0x10 \<noteq> 0"

definition supports_fast :: "bytes \<Rightarrow> bool" where
  "supports_fast reserved \<longleftrightarrow> (reserved ! 7) AND 0x04 \<noteq> 0"

definition advertise :: "bytes \<Rightarrow> bytes" where
  "advertise reserved =
     (let r = reserved[5 := (reserved ! 5) OR 0x10] in r[7 := (r ! 7) OR 0x04])"

definition write_handshake :: "handshake \<Rightarrow> bytes" where
  "write_handshake h =
     [of_nat (length protocol_str)] @ protocol_str @ advertise (hs_reserved h) @
     hs_info_hash h @ hs_peer_id h"

definition read_handshake :: "bytes \<Rightarrow> (handshake \<times> bytes) res" where
  "read_handshake r =
     (if length r < 68 then Inl UnexpectedEnd
      else
        let buf = take 68 r
        in if unat (buf ! 0) \<noteq> length protocol_str then Inl (Fail ''protocol string length'')
           else if slice buf 1 20 \<noteq> protocol_str then Inl (Fail ''protocol string'')
           else Inr (\<lparr>hs_info_hash = slice buf 28 48, hs_peer_id = slice buf 48 68,
                      hs_reserved = slice buf 20 28\<rparr>, drop 68 r))"

text \<open>Go's array types fix the lengths.\<close>

definition handshake_ok :: "handshake \<Rightarrow> bool" where
  "handshake_ok h \<longleftrightarrow> length (hs_info_hash h) = 20 \<and> length (hs_peer_id h) = 20 \<and>
     length (hs_reserved h) = 8"

section \<open>Messages\<close>

record wire_msg =
  wm_id :: u8
  wm_payload :: bytes

text \<open>\<open>None\<close> is the \<open>nil\<close> message, a keep-alive.\<close>

definition max_message_len :: nat where
  "max_message_len = 2 ^ 24"

definition write_message :: "wire_msg option \<Rightarrow> bytes" where
  "write_message m =
     (case m of
        None \<Rightarrow> [0, 0, 0, 0]
      | Some m \<Rightarrow> put32 (of_nat (1 + length (wm_payload m))) @ [wm_id m] @ wm_payload m)"

definition read_message :: "bytes \<Rightarrow> (wire_msg option \<times> bytes) res" where
  "read_message r =
     (if length r < 4 then Inl UnexpectedEnd
      else
        let len = unat (get32 (take 4 r)); r = drop 4 r
        in if len = 0 then Inr (None, r)
           else if max_message_len < len then Inl (Fail ''message too large'')
           else if length r < len then Inl UnexpectedEnd
           else Inr (Some \<lparr>wm_id = hd (take len r), wm_payload = tl (take len r)\<rparr>, drop len r))"

definition msg_id_of :: "string \<Rightarrow> u8" where
  "msg_id_of n =
     (if n = ''choke'' then 0 else if n = ''unchoke'' then 1 else if n = ''interested'' then 2
      else if n = ''not_interested'' then 3 else if n = ''have'' then 4
      else if n = ''bitfield'' then 5 else if n = ''request'' then 6 else if n = ''piece'' then 7
      else if n = ''cancel'' then 8 else if n = ''suggest_piece'' then 13
      else if n = ''have_all'' then 14 else if n = ''have_none'' then 15
      else if n = ''reject_request'' then 16 else if n = ''allowed_fast'' then 17
      else if n = ''extended'' then 20 else if n = ''hash_request'' then 21
      else if n = ''hashes'' then 22 else 23)"

section \<open>Constructors and parsers\<close>

definition msg :: "string \<Rightarrow> bytes \<Rightarrow> wire_msg" where
  "msg n payload = \<lparr>wm_id = msg_id_of n, wm_payload = payload\<rparr>"

definition new_choke :: wire_msg where "new_choke = msg ''choke'' []"
definition new_unchoke :: wire_msg where "new_unchoke = msg ''unchoke'' []"
definition new_interested :: wire_msg where "new_interested = msg ''interested'' []"
definition new_not_interested :: wire_msg where "new_not_interested = msg ''not_interested'' []"

definition new_have :: "u32 \<Rightarrow> wire_msg" where
  "new_have i = msg ''have'' (put32 i)"

definition new_bitfield :: "bytes \<Rightarrow> wire_msg" where
  "new_bitfield bf = msg ''bitfield'' bf"

definition new_request :: "u32 \<Rightarrow> u32 \<Rightarrow> u32 \<Rightarrow> wire_msg" where
  "new_request i b l = msg ''request'' (put32 i @ put32 b @ put32 l)"

definition new_piece :: "u32 \<Rightarrow> u32 \<Rightarrow> bytes \<Rightarrow> wire_msg" where
  "new_piece i b block = msg ''piece'' (put32 i @ put32 b @ block)"

definition new_cancel :: "u32 \<Rightarrow> u32 \<Rightarrow> u32 \<Rightarrow> wire_msg" where
  "new_cancel i b l = msg ''cancel'' (put32 i @ put32 b @ put32 l)"

definition new_suggest_piece :: "u32 \<Rightarrow> wire_msg" where
  "new_suggest_piece i = msg ''suggest_piece'' (put32 i)"

definition new_have_all :: wire_msg where "new_have_all = msg ''have_all'' []"
definition new_have_none :: wire_msg where "new_have_none = msg ''have_none'' []"

definition new_reject_request :: "u32 \<Rightarrow> u32 \<Rightarrow> u32 \<Rightarrow> wire_msg" where
  "new_reject_request i b l = msg ''reject_request'' (put32 i @ put32 b @ put32 l)"

definition new_allowed_fast :: "u32 \<Rightarrow> wire_msg" where
  "new_allowed_fast i = msg ''allowed_fast'' (put32 i)"

definition parse_have :: "bytes \<Rightarrow> u32 res" where
  "parse_have p = (if length p \<noteq> 4 then Inl (Fail ''have payload'') else Inr (get32 p))"

record request_payload =
  rq_index :: u32
  rq_begin :: u32
  rq_length :: u32

definition parse_request :: "bytes \<Rightarrow> request_payload res" where
  "parse_request p =
     (if length p \<noteq> 12 then Inl (Fail ''request payload'')
      else Inr \<lparr>rq_index = get32 (slice p 0 4), rq_begin = get32 (slice p 4 8),
                rq_length = get32 (slice p 8 12)\<rparr>)"

record piece_payload =
  pp_index :: u32
  pp_begin :: u32
  pp_block :: bytes

definition parse_piece :: "bytes \<Rightarrow> piece_payload res" where
  "parse_piece p =
     (if length p < 8 then Inl (Fail ''piece payload'')
      else Inr \<lparr>pp_index = get32 (slice p 0 4), pp_begin = get32 (slice p 4 8), pp_block = drop 8 p\<rparr>)"

section \<open>Opening a connection\<close>

text \<open>What a \<open>Conn\<close> keeps of the peer's handshake, and the stream it goes on reading.\<close>

record conn =
  cn_peer_id :: bytes
  cn_info_hash :: bytes
  cn_reserved :: bytes
  cn_input :: bytes

text \<open>
  \<open>Dial\<close> and \<open>FromConn\<close>: the local handshake is written while the peer's is read. The
  result is what was sent and the connection or the error, after which it is closed.
\<close>

definition do_handshake :: "bytes \<Rightarrow> bytes \<Rightarrow> bytes \<Rightarrow> bytes \<times> conn res" where
  "do_handshake info_hash peer_id input =
     (write_handshake \<lparr>hs_info_hash = info_hash, hs_peer_id = peer_id, hs_reserved = replicate 8 0\<rparr>,
      case read_handshake input of
        Inl e \<Rightarrow> Inl e
      | Inr (peer_hs, rest) \<Rightarrow>
          if hs_info_hash peer_hs \<noteq> info_hash then Inl (Fail ''info hash mismatch'')
          else Inr \<lparr>cn_peer_id = hs_peer_id peer_hs, cn_info_hash = hs_info_hash peer_hs,
                    cn_reserved = hs_reserved peer_hs, cn_input = rest\<rparr>)"

text \<open>\<open>Accept\<close> reads first and answers only for a known info-hash.\<close>

definition accept :: "bytes \<Rightarrow> (bytes \<Rightarrow> bool) \<Rightarrow> bytes \<Rightarrow> bytes \<times> conn res" where
  "accept peer_id lookup_hash input =
     (case read_handshake input of
        Inl e \<Rightarrow> ([], Inl e)
      | Inr (peer_hs, rest) \<Rightarrow>
          if \<not> lookup_hash (hs_info_hash peer_hs) then ([], Inl (Fail ''unknown infohash''))
          else (write_handshake \<lparr>hs_info_hash = hs_info_hash peer_hs, hs_peer_id = peer_id,
                  hs_reserved = replicate 8 0\<rparr>,
                Inr \<lparr>cn_peer_id = hs_peer_id peer_hs, cn_info_hash = hs_info_hash peer_hs,
                     cn_reserved = hs_reserved peer_hs, cn_input = rest\<rparr>))"

section \<open>The codecs\<close>

definition msg_ok :: "wire_msg option \<Rightarrow> bool" where
  "msg_ok m \<longleftrightarrow> (case m of None \<Rightarrow> True | Some m \<Rightarrow> length (wm_payload m) < max_message_len)"

lemma read_write_message: "msg_ok m \<Longrightarrow> read_message (write_message m @ rest) = Inr (m, rest)"
proof (cases m)
  case None
  have "get32 [0, 0, 0, 0] = 0" by (simp add: get_be_def)
  then show ?thesis by (simp add: None write_message_def read_message_def)
next
  case (Some w)
  assume "msg_ok m"
  with Some have len: "length (wm_payload w) < max_message_len" by (simp add: msg_ok_def)
  then have u: "unat (of_nat (Suc (length (wm_payload w))) :: u32) = Suc (length (wm_payload w))"
    by (simp only: unat_of_nat) (simp add: max_message_len_def)
  show ?thesis
    using len by (simp add: Some write_message_def read_message_def Let_def u del: of_nat_Suc)
qed

interpretation wire: stream_codec write_message read_message msg_ok
  by unfold_locales (rule read_write_message)

lemma get32_zero: "get32 bs = 0 \<Longrightarrow> length bs = 4 \<Longrightarrow> bs = [0, 0, 0, 0]"
  using put_be_get_be [of bs 4, where 'a = 32] by (simp add: eval_nat_numeral)

lemma read_message_reads: "read_message r = Inr (m, rest) \<Longrightarrow> reads read_message r m rest"
proof -
  assume a: "read_message r = Inr (m, rest)"
  then have r4: "4 \<le> length r" by (auto simp: read_message_def split: if_splits)
  define len where "len = unat (get32 (take 4 r))"
  show ?thesis
  proof (cases "len = 0")
    case True
    with a r4 have "m = None" "rest = drop 4 r"
      by (auto simp: read_message_def Let_def len_def split: if_splits)
    with r4 True show ?thesis
      by (intro readsI [of "take 4 r"]) (auto simp: read_message_def len_def min_absorb2)
  next
    case False
    with a r4 have c: "len \<le> max_message_len" "len \<le> length r - 4" "rest = drop (4 + len) r"
      "m = Some \<lparr>wm_id = hd (take len (drop 4 r)), wm_payload = tl (take len (drop 4 r))\<rparr>"
      by (auto simp: read_message_def Let_def len_def add.commute split: if_splits)
    have t: "take 4 (take (4 + len) r) = take 4 r" by simp
    have "read_message (take (4 + len) r @ s) = Inr (m, s)" for s
    proof -
      have "take 4 (take (4 + len) r @ s) = take 4 r" using r4 by simp
      moreover have "drop 4 (take (4 + len) r @ s) = take len (drop 4 r) @ s"
        using r4 c(2) by (simp add: drop_take)
      moreover have "length (take len (drop 4 r)) = len" using c(2) by simp
      ultimately show ?thesis
        using False c r4 by (simp add: read_message_def Let_def len_def [symmetric])
    qed
    with r4 c show ?thesis by (intro readsI [of "take (4 + len) r"]) auto
  qed
qed

interpretation wire_reader: prefix_decoder read_message
  by unfold_locales (rule read_message_reads)

lemma read_message_bound: "read_message r = Inr (Some m, rest) \<Longrightarrow> length (wm_payload m) < max_message_len"
  by (auto simp: read_message_def Let_def max_message_len_def split: if_splits)

text \<open>A message that is read was written with the bytes that it was read from.\<close>

lemma read_message_canonical:
  assumes a: "read_message input = Inr (m, rest')"
  shows "msg_ok m \<and> length rest' < length input \<and> write_message m @ rest' = input"
proof -
  have ok: "msg_ok m" using read_message_bound a by (cases m) (auto simp: msg_ok_def)
  have r4: "4 \<le> length input" using a by (auto simp: read_message_def split: if_splits)
  define len where "len = unat (get32 (take 4 input))"
  have put: "put32 (get32 (take 4 input)) = take 4 input" using r4 by (intro put_be_get_be) simp_all
  have "write_message m @ rest' = input"
  proof (cases "len = 0")
    case True
    then have "get32 (take 4 input) = 0" by (simp add: len_def unat_eq_0)
    then have "take 4 input = [0, 0, 0, 0]" using r4 by (intro get32_zero) simp_all
    moreover from a True have "m = None" "rest' = drop 4 input"
      by (auto simp: read_message_def Let_def len_def split: if_splits)
    ultimately show ?thesis using append_take_drop_id [of 4 input] by (simp add: write_message_def)
  next
    case False
    let ?b = "take len (drop 4 input)"
    from a False have c: "m = Some \<lparr>wm_id = hd ?b, wm_payload = tl ?b\<rparr>" "rest' = drop len (drop 4 input)"
      "len \<le> length (drop 4 input)"
      by (auto simp: read_message_def Let_def len_def split: if_splits)
    then have b: "?b \<noteq> []" "1 + length (tl ?b) = len" using False by auto
    have "(of_nat len :: u32) = get32 (take 4 input)" by (simp add: len_def)
    then have "put32 (of_nat (1 + length (tl ?b))) = take 4 input" by (simp only: b(2) put)
    then have "write_message m @ rest' = take 4 input @ (hd ?b # tl ?b) @ drop len (drop 4 input)"
      by (simp add: write_message_def c del: of_nat_Suc)
    also have "\<dots> = input" using b(1) by (metis append_take_drop_id list.collapse)
    finally show ?thesis .
  qed
  then show ?thesis using ok wire_reader.dec_shorter [OF a] by simp
qed

lemma length_advertise [simp]: "length (advertise r) = length r"
  by (simp add: advertise_def)

lemma read_write_handshake:
  assumes "handshake_ok h"
  shows "read_handshake (write_handshake h @ rest) = Inr (h\<lparr>hs_reserved := advertise (hs_reserved h)\<rparr>, rest)"
  using assms
  by (simp add: handshake_ok_def write_handshake_def read_handshake_def protocol_str_def slice_def
      unat_of_nat del: str_Cons)

lemma supports_advertise:
  assumes "length r = 8"
  shows "supports_extensions (advertise r)" "supports_fast (advertise r)"
proof -
  have "(x OR 0x10) AND 0x10 = (0x10 :: u8)" "(x OR 0x04) AND 0x04 = (0x04 :: u8)" for x
    by (simp_all add: bit.conj_disj_distrib2 or.commute)
  then show "supports_extensions (advertise r)" "supports_fast (advertise r)"
    using assms by (simp_all add: supports_extensions_def supports_fast_def advertise_def)
qed

lemma parse_new:
  "parse_have (wm_payload (new_have i)) = Inr i"
  "parse_request (wm_payload (new_request i b l)) = Inr \<lparr>rq_index = i, rq_begin = b, rq_length = l\<rparr>"
  "parse_request (wm_payload (new_cancel i b l)) = Inr \<lparr>rq_index = i, rq_begin = b, rq_length = l\<rparr>"
  "parse_request (wm_payload (new_reject_request i b l)) = Inr \<lparr>rq_index = i, rq_begin = b, rq_length = l\<rparr>"
  "parse_piece (wm_payload (new_piece i b block)) = Inr \<lparr>pp_index = i, pp_begin = b, pp_block = block\<rparr>"
  "parse_have (wm_payload (new_suggest_piece i)) = Inr i"
  "parse_have (wm_payload (new_allowed_fast i)) = Inr i"
  by (simp_all add: parse_have_def parse_request_def parse_piece_def new_have_def new_request_def
      new_cancel_def new_reject_request_def new_piece_def new_suggest_piece_def
      new_allowed_fast_def msg_def slice_def)

section \<open>Properties\<close>

text \<open>
  C12. A sequence of messages, keep-alives included, that is written to a stream is read back
  message by message, whatever follows; and whatever bytes arrive, a message that is read
  has a payload below 16 MiB and was a non-empty prefix of the input.
\<close>

theorem message_stream_roundtrip:
  assumes "\<forall>m \<in> set ms. msg_ok m"
  shows "decode_n read_message (length ms) (concat (map write_message ms) @ rest) = Inr (ms, rest) \<and>
    (\<forall>input m rest'. read_message input = Inr (m, rest') \<longrightarrow>
       msg_ok m \<and> length rest' < length input \<and> write_message m @ rest' = input)"
proof -
  show ?thesis using wire.decode_n_concat [OF assms, of rest] read_message_canonical by blast
qed

theorem message_stream_roundtrip_witness:
  "decode_n read_message 2 (concat (map write_message [None, Some (new_have 7)]) @ [1]) =
    Inr ([None, Some (new_have 7)], [1])"
proof -
  have "\<forall>m \<in> set [None, Some (new_have 7)]. msg_ok m"
    by (simp add: msg_ok_def new_have_def msg_def max_message_len_def)
  from message_stream_roundtrip [OF this, THEN conjunct1, of "[1]"] show ?thesis
    by (simp only: length_Cons list.size add_0 add_Suc) (simp add: numeral_2_eq_2)
qed

text \<open>
  Every request, cancel, reject, have and piece message that is sent is understood by the
  receiver: reading the stream and parsing the payload gives the fields it was built from,
  under the message identifier of BEP 3 or BEP 6.
\<close>

theorem constructors_parse:
  assumes "length block < 2 ^ 20"
  shows "(\<exists>m. read_message (write_message (Some (new_request i b l)) @ rest) = Inr (Some m, rest) \<and>
      wm_id m = 6 \<and> parse_request (wm_payload m) = Inr \<lparr>rq_index = i, rq_begin = b, rq_length = l\<rparr>) \<and>
    (\<exists>m. read_message (write_message (Some (new_cancel i b l)) @ rest) = Inr (Some m, rest) \<and>
      wm_id m = 8 \<and> parse_request (wm_payload m) = Inr \<lparr>rq_index = i, rq_begin = b, rq_length = l\<rparr>) \<and>
    (\<exists>m. read_message (write_message (Some (new_reject_request i b l)) @ rest) = Inr (Some m, rest) \<and>
      wm_id m = 16 \<and> parse_request (wm_payload m) = Inr \<lparr>rq_index = i, rq_begin = b, rq_length = l\<rparr>) \<and>
    (\<exists>m. read_message (write_message (Some (new_have i)) @ rest) = Inr (Some m, rest) \<and>
      wm_id m = 4 \<and> parse_have (wm_payload m) = Inr i) \<and>
    (\<exists>m. read_message (write_message (Some (new_piece i b block)) @ rest) = Inr (Some m, rest) \<and>
      wm_id m = 7 \<and> parse_piece (wm_payload m) = Inr \<lparr>pp_index = i, pp_begin = b, pp_block = block\<rparr>)"
proof -
  have "msg_ok (Some (new_request i b l))" "msg_ok (Some (new_cancel i b l))"
    "msg_ok (Some (new_reject_request i b l))" "msg_ok (Some (new_have i))"
    "msg_ok (Some (new_piece i b block))"
    using assms by (simp_all add: msg_ok_def new_request_def new_cancel_def new_reject_request_def
        new_have_def new_piece_def msg_def max_message_len_def)
  then show ?thesis
    by (simp add: wire.dec_enc_append parse_new)
      (simp add: new_request_def new_cancel_def new_reject_request_def new_have_def new_piece_def
        msg_def msg_id_of_def)
qed

theorem constructors_parse_witness:
  "\<exists>m. read_message (write_message (Some (new_request 1 2 3)) @ []) = Inr (Some m, []) \<and>
    wm_id m = 6 \<and> parse_request (wm_payload m) = Inr \<lparr>rq_index = 1, rq_begin = 2, rq_length = 3\<rparr>"
  using constructors_parse [of "[]" 1 2 3 "[]"] by simp

text \<open>
  When both ends run the handshake, each reads what the other wrote, even if more data
  follows it: the connection is set up on both sides exactly if the info-hashes agree (or
  the accepting side knows the hash), each side then has the other's peer identifier and
  finds the extension and fast bits set.
\<close>

theorem handshake_exchange:
  assumes "length ih = 20" "length ih' = 20" "length ida = 20" "length idb = 20"
  shows "(\<exists>reserved. supports_extensions reserved \<and> supports_fast reserved \<and>
      snd (do_handshake ih ida (fst (do_handshake ih' idb other) @ rest)) =
        (if ih = ih' then Inr \<lparr>cn_peer_id = idb, cn_info_hash = ih, cn_reserved = reserved, cn_input = rest\<rparr>
         else Inl (Fail ''info hash mismatch''))) \<and>
    (\<exists>reserved. accept idb known (fst (do_handshake ih ida other) @ rest) =
        (if known ih then (fst (do_handshake ih idb other),
           Inr \<lparr>cn_peer_id = ida, cn_info_hash = ih, cn_reserved = reserved, cn_input = rest\<rparr>)
         else ([], Inl (Fail ''unknown infohash''))))"
proof -
  let ?r = "advertise (replicate 8 0)"
  have r: "supports_extensions ?r" "supports_fast ?r" by (rule supports_advertise, simp)+
  have h: "handshake_ok \<lparr>hs_info_hash = x, hs_peer_id = y, hs_reserved = replicate 8 0\<rparr>"
    if "length x = 20" "length y = 20" for x y using that by (simp add: handshake_ok_def)
  have "snd (do_handshake ih ida (fst (do_handshake ih' idb other) @ rest)) =
        (if ih = ih' then Inr \<lparr>cn_peer_id = idb, cn_info_hash = ih, cn_reserved = ?r, cn_input = rest\<rparr>
         else Inl (Fail ''info hash mismatch''))"
    using read_write_handshake [OF h [OF assms(2,4)], of rest] by (simp add: do_handshake_def)
  moreover have "accept idb known (fst (do_handshake ih ida other) @ rest) =
        (if known ih then (fst (do_handshake ih idb other),
           Inr \<lparr>cn_peer_id = ida, cn_info_hash = ih, cn_reserved = ?r, cn_input = rest\<rparr>)
         else ([], Inl (Fail ''unknown infohash'')))"
    using read_write_handshake [OF h [OF assms(1,3)], of rest] by (simp add: do_handshake_def accept_def)
  ultimately show ?thesis using r by blast
qed

theorem handshake_exchange_witness:
  "snd (do_handshake (replicate 20 1) (replicate 20 2) (fst (do_handshake (replicate 20 3) (replicate 20 4) []) @ [9]))
    = Inl (Fail ''info hash mismatch'')"
proof -
  have "replicate 20 (1 :: u8) \<noteq> replicate 20 3" by (simp add: eval_nat_numeral)
  then show ?thesis
    using handshake_exchange [of "replicate 20 1" "replicate 20 3" "replicate 20 2" "replicate 20 4" "[]" "[9]"
        "\<lambda>_. True"]
    by auto
qed

end
