(* ===== verification/PeerExt.thy ===== *)
theory PeerExt
  imports PeerWire Bencode
begin

text \<open>
  Extensions of the peer protocol: the extension handshake (\<open>peer/extension.go\<close>) and its
  exchange (\<open>peer/conn.go\<close>), \<open>upload_only\<close> (\<open>peer/partialseed.go\<close>), the holepunch
  messages (\<open>peer/holepunch.go\<close>), the hash messages of BEP 52 (\<open>peer/v2messages.go\<close>),
  the allowed fast set (\<open>peer/fast.go\<close>) and the canonical peer priority
  (\<open>peer/priority.go\<close>).
\<close>

section \<open>The extension handshake\<close>

text \<open>\<open>M\<close> is a map from extension names to message identifiers.\<close>

record ext_handshake =
  eh_m :: "(bytes \<times> int) list"
  eh_metadata_size :: int
  eh_v :: bytes
  eh_upload_only :: bool

definition new_ext_message :: "u8 \<Rightarrow> bytes \<Rightarrow> wire_msg" where
  "new_ext_message sub_id data = msg ''extended'' (sub_id # data)"

definition ext_dict :: "(bytes \<times> int) list \<Rightarrow> int \<Rightarrow> bytes \<Rightarrow> bdict" where
  "ext_dict exts metadata_size client_version =
     (let m = map (\<lambda>p. (fst p, BInt (word_of_int (snd p)))) exts;
          d = [(str ''m'', BDict m), (str ''v'', BString client_version)]
      in if 0 < metadata_size then dict_set (str ''metadata_size'') (BInt (word_of_int metadata_size)) d else d)"

definition new_ext_handshake :: "(bytes \<times> int) list \<Rightarrow> int \<Rightarrow> bytes \<Rightarrow> wire_msg" where
  "new_ext_handshake exts metadata_size client_version =
     new_ext_message 0 (encode (BDict (ext_dict exts metadata_size client_version)))"

text \<open>The entries of a dictionary that are integers.\<close>

definition int_entries :: "bdict \<Rightarrow> (bytes \<times> int) list" where
  "int_entries d =
     List.map_filter (\<lambda>p. case snd p of BInt i \<Rightarrow> Some (fst p, sint i) | _ \<Rightarrow> None) d"

definition dict_ext :: "bdict \<Rightarrow> ext_handshake" where
  "dict_ext d =
     \<lparr>eh_m = (case get_dict d ''m'' of Some m \<Rightarrow> int_entries m | None \<Rightarrow> []),
      eh_metadata_size = (case get_int d ''metadata_size'' of Some i \<Rightarrow> sint i | None \<Rightarrow> 0),
      eh_v = (case get_string d ''v'' of Some v \<Rightarrow> v | None \<Rightarrow> []),
      eh_upload_only = (case get_int d ''upload_only'' of Some i \<Rightarrow> i \<noteq> 0 | None \<Rightarrow> False)\<rparr>"

definition parse_ext_handshake :: "bytes \<Rightarrow> ext_handshake res" where
  "parse_ext_handshake payload =
     (if length payload < 2 then Inl (Fail ''too short'')
      else if payload ! 0 \<noteq> 0 then Inl (Fail ''expected sub-ID 0'')
      else case decode (drop 1 payload) of
        Inl e \<Rightarrow> Inl e
      | Inr (BDict d) \<Rightarrow> Inr (dict_ext d)
      | Inr _ \<Rightarrow> Inl (Fail ''expected dict''))"

text \<open>
  The reading side of \<open>ExchangeExtHandshake\<close>: messages are skipped until an extension
  handshake comes. The messages that were skipped are lost to the caller.
\<close>

function read_ext_handshake :: "bytes \<Rightarrow> (ext_handshake \<times> bytes) res" where
  "read_ext_handshake input =
     (case read_message input of
        Inl e \<Rightarrow> Inl e
      | Inr (None, rest) \<Rightarrow> read_ext_handshake rest
      | Inr (Some m, rest) \<Rightarrow>
          if wm_id m \<noteq> msg_id_of ''extended'' \<or> wm_payload m = [] \<or> wm_payload m ! 0 \<noteq> 0
          then read_ext_handshake rest
          else (case parse_ext_handshake (wm_payload m) of
                  Inl e \<Rightarrow> Inl e
                | Inr ext \<Rightarrow> Inr (ext, rest)))"
  by pat_completeness auto

termination
  by (relation "measure length") (auto dest: wire_reader.dec_shorter)

declare read_ext_handshake.simps [simp del]

definition skipped :: "wire_msg option \<Rightarrow> bool" where
  "skipped m \<longleftrightarrow> (case m of None \<Rightarrow> True
     | Some m \<Rightarrow> wm_id m \<noteq> 20 \<or> wm_payload m = [] \<or> wm_payload m ! 0 \<noteq> 0)"

definition exts_ok :: "(bytes \<times> int) list \<Rightarrow> bool" where
  "exts_ok exts \<longleftrightarrow> distinct (map fst exts) \<and> (\<forall>p \<in> set exts. small (fst p) \<and> in_int64 (snd p))"

lemma distinct_map_sort_key: "distinct (map f (sort_key g xs)) \<longleftrightarrow> distinct (map f xs)"
  by (rule mset_eq_imp_distinct_iff) simp

lemma int_entries_norm:
  assumes "exts_ok exts"
  shows "int_entries (norm_dict (map (\<lambda>p. (fst p, BInt (word_of_int (snd p)))) exts)) = sort_key fst exts"
proof -
  let ?f = "\<lambda>p :: bytes \<times> int. (fst p, BInt (word_of_int (snd p)))"
  have srt: "sort_key fst (map ?f exts) = map ?f (sort_key fst exts)"
  proof (rule map_sorted_distinct_set_unique [where f = fst])
    show "inj_on fst (set (sort_key fst (map ?f exts)) \<union> set (map ?f (sort_key fst exts)))"
      using assms unfolding exts_ok_def distinct_map by (force simp: inj_on_def)
    show "distinct (map fst (sort_key fst (map ?f exts)))"
      "distinct (map fst (map ?f (sort_key fst exts)))"
      using assms distinct_map_sort_key [of fst fst exts]
      by (simp_all add: exts_ok_def distinct_map_sort_key comp_def)
    show "sorted (map fst (map ?f (sort_key fst exts)))" by (simp add: comp_def)
  qed simp_all
  have "int_entries (map ?f ps) = ps" if "\<forall>p \<in> set ps. in_int64 (snd p)" for ps
    using that unfolding int_entries_def by (induction ps) (simp_all add: map_filter_simps)
  moreover have "norm_dict (map ?f exts) = map ?f (sort_key fst exts)"
    by (simp add: norm_dict_def srt comp_def)
  ultimately show ?thesis using assms by (simp add: exts_ok_def)
qed

lemma ext_dict_eq: "ext_dict exts ms v =
    [(str ''m'', BDict (map (\<lambda>p. (fst p, BInt (word_of_int (snd p)))) exts)), (str ''v'', BString v)] @
    (if 0 < ms then [(str ''metadata_size'', BInt (word_of_int ms))] else [])"
  by (simp add: ext_dict_def Let_def)

lemma ext_dict_ok: "exts_ok exts \<Longrightarrow> small v \<Longrightarrow> wf_value (BDict (ext_dict exts ms v))"
  by (auto simp: ext_dict_eq exts_ok_def small_def comp_def)

lemma parse_new_ext_handshake:
  assumes "exts_ok exts" "small v" "in_int64 ms"
  shows "parse_ext_handshake (wm_payload (new_ext_handshake exts ms v)) =
    Inr \<lparr>eh_m = sort_key fst exts, eh_metadata_size = max ms 0, eh_v = v, eh_upload_only = False\<rparr>"
proof -
  have d: "distinct (map fst (ext_dict exts ms v))" by (simp add: ext_dict_eq)
  obtain b bs where b: "encode (BDict (ext_dict exts ms v)) = b # bs" using encode_Cons by blast
  have "dict_ext (norm_dict (ext_dict exts ms v)) =
      \<lparr>eh_m = sort_key fst exts, eh_metadata_size = max ms 0, eh_v = v, eh_upload_only = False\<rparr>"
    unfolding dict_ext_def get_norm [OF d]
    using assms by (simp add: ext_dict_eq get_dict_def get_int_def get_string_def dict_get_def
        int_entries_norm max_def)
  then show ?thesis
    using decode_encode_dict [OF ext_dict_ok [OF assms(1,2), of ms]] b
    by (simp add: new_ext_handshake_def new_ext_message_def msg_def parse_ext_handshake_def
        del: encode_simps)
qed

lemma read_ext_handshake_skip:
  assumes "\<forall>m \<in> set ms. msg_ok m \<and> skipped m"
  shows "read_ext_handshake (concat (map write_message ms) @ rest) = read_ext_handshake rest"
  using assms
proof (induction ms)
  case (Cons m ms)
  then have "read_message (write_message m @ concat (map write_message ms) @ rest) =
      Inr (m, concat (map write_message ms) @ rest)"
    by (intro wire.dec_enc_append) simp
  moreover have "skipped m" using Cons.prems by simp
  ultimately have "read_ext_handshake (write_message m @ concat (map write_message ms) @ rest) =
      read_ext_handshake (concat (map write_message ms) @ rest)"
    by (subst read_ext_handshake.simps) (auto simp: skipped_def msg_id_of_def split: option.splits)
  with Cons show ?case by simp
qed simp

section \<open>Upload-only\<close>

definition encode_upload_only :: "bool \<Rightarrow> bytes" where
  "encode_upload_only upload_only =
     encode (BDict [(str ''upload_only'', BInt (if upload_only then 1 else 0))])"

definition decode_upload_only :: "bytes \<Rightarrow> bool res" where
  "decode_upload_only payload =
     (if payload = [] then Inl (Fail ''empty'')
      else case decode payload of
        Inl e \<Rightarrow> Inl e
      | Inr (BDict d) \<Rightarrow> Inr (case get_int d ''upload_only'' of Some n \<Rightarrow> n \<noteq> 0 | None \<Rightarrow> False)
      | Inr (BInt n) \<Rightarrow> Inr (n \<noteq> 0)
      | Inr _ \<Rightarrow> Inl (Fail ''unexpected type''))"

definition new_upload_only_msg :: "u8 \<Rightarrow> bool \<Rightarrow> wire_msg" where
  "new_upload_only_msg sub_id upload_only = new_ext_message sub_id (encode_upload_only upload_only)"

lemma decode_encode_upload_only: "decode_upload_only (encode_upload_only u) = Inr u"
proof -
  let ?d = "[(str ''upload_only'', BInt (if u then 1 else 0))]"
  have "decode (encode (BDict ?d)) = Inr (BDict (norm_dict ?d))"
    by (rule decode_encode_dict) (simp add: small_def)
  moreover obtain b bs where "encode (BDict ?d) = b # bs" using encode_Cons by blast
  ultimately show ?thesis
    by (simp add: decode_upload_only_def encode_upload_only_def norm_dict_def get_int_def dict_get_def
        del: encode_simps)
qed

section \<open>Holepunch\<close>

record holepunch =
  hp_msg_type :: u8
  hp_addr_type :: u8
  hp_ip :: bytes
  hp_port :: u16
  hp_err_code :: u32

definition encode_holepunch :: "holepunch \<Rightarrow> bytes" where
  "encode_holepunch m =
     (let (addr_len, addr) =
        (if hp_addr_type m = 1 then (16, to16 (hp_ip m)) else (4, to4 (hp_ip m)));
          addr_bytes = (case addr of Some a \<Rightarrow> a | None \<Rightarrow> replicate addr_len 0)
      in [hp_msg_type m, hp_addr_type m] @ addr_bytes @ put16 (hp_port m) @ put32 (hp_err_code m))"

definition decode_holepunch :: "bytes \<Rightarrow> holepunch res" where
  "decode_holepunch data =
     (if length data < 2 then Inl (Fail ''too short'')
      else if data ! 1 \<noteq> 0 \<and> data ! 1 \<noteq> 1 then Inl (Fail ''unknown addr_type'')
      else
        let addr_len = (if data ! 1 = 0 then 4 else 16)
        in if length data < 2 + addr_len + 2 + 4 then Inl (Fail ''too short'')
           else Inr \<lparr>hp_msg_type = data ! 0, hp_addr_type = data ! 1,
                     hp_ip = slice data 2 (2 + addr_len),
                     hp_port = get16 (slice data (2 + addr_len) (2 + addr_len + 2)),
                     hp_err_code = get32 (slice data (2 + addr_len + 2) (2 + addr_len + 6))\<rparr>)"

definition holepunch_error_string :: "u32 \<Rightarrow> string option" where
  "holepunch_error_string code =
     (if code = 1 then Some ''no such peer''
      else if code = 2 then Some ''not connected to target''
      else if code = 3 then Some ''target does not support holepunch''
      else if code = 4 then Some ''target is the relaying peer''
      else None)"

definition holepunch_ok :: "holepunch \<Rightarrow> bool" where
  "holepunch_ok m \<longleftrightarrow> hp_addr_type m = 0 \<and> length (hp_ip m) = 4 \<or>
     hp_addr_type m = 1 \<and> length (hp_ip m) = 16"

lemma decode_encode_holepunch:
  assumes "holepunch_ok m"
  shows "decode_holepunch (encode_holepunch m @ rest) = Inr m"
  using assms
  by (cases m) (auto simp: holepunch_ok_def encode_holepunch_def decode_holepunch_def slice_def)

section \<open>Hash messages of version 2\<close>

record hash_request =
  hr_pieces_root :: bytes
  hr_base_layer :: u32
  hr_index :: u32
  hr_length :: u32
  hr_proof_layers :: u32

definition encode_hash_request :: "hash_request \<Rightarrow> bytes" where
  "encode_hash_request r = hr_pieces_root r @ put32 (hr_base_layer r) @ put32 (hr_index r) @
     put32 (hr_length r) @ put32 (hr_proof_layers r)"

definition decode_hash_request :: "bytes \<Rightarrow> hash_request res" where
  "decode_hash_request data =
     (if length data < 48 then Inl (Fail ''too short'')
      else Inr \<lparr>hr_pieces_root = take 32 data, hr_base_layer = get32 (slice data 32 36),
        hr_index = get32 (slice data 36 40), hr_length = get32 (slice data 40 44),
        hr_proof_layers = get32 (slice data 44 48)\<rparr>)"

record hashes = hash_request +
  ha_hash_data :: bytes

definition encode_hashes :: "hashes \<Rightarrow> bytes" where
  "encode_hashes h = hr_pieces_root h @ put32 (hr_base_layer h) @ put32 (hr_index h) @
     put32 (hr_length h) @ put32 (hr_proof_layers h) @ ha_hash_data h"

definition decode_hashes :: "bytes \<Rightarrow> hashes res" where
  "decode_hashes data =
     (if length data < 48 then Inl (Fail ''too short'')
      else Inr \<lparr>hr_pieces_root = take 32 data, hr_base_layer = get32 (slice data 32 36),
        hr_index = get32 (slice data 36 40), hr_length = get32 (slice data 40 44),
        hr_proof_layers = get32 (slice data 44 48), ha_hash_data = drop 48 data\<rparr>)"

definition extract_hashes :: "bytes \<Rightarrow> bytes list res" where
  "extract_hashes data =
     (if length data mod 32 \<noteq> 0 then Inl (Fail ''not a multiple of 32'')
      else Inr (decode_indexed 32 (copy_array 32) data))"

interpretation hash32: exact_codec 32 "\<lambda>h. h" "copy_array 32" "\<lambda>h. length h = 32"
  by unfold_locales simp_all

lemma decode_encode_hashes:
  "length (hr_pieces_root r) = 32 \<Longrightarrow> decode_hash_request (encode_hash_request r @ rest) = Inr r"
  "length (hr_pieces_root h) = 32 \<Longrightarrow> decode_hashes (encode_hashes h) = Inr h"
  by (cases r) (simp add: decode_hash_request_def encode_hash_request_def slice_def,
    cases h, simp add: decode_hashes_def encode_hashes_def slice_def)

lemma extract_hashes_iff: "extract_hashes data = Inr hs \<longleftrightarrow> data = concat hs \<and> (\<forall>h \<in> set hs. length h = 32)"
proof
  assume "extract_hashes data = Inr hs"
  then have "32 dvd length data" "hs = decode_while 32 (copy_array 32) data"
    by (auto simp: extract_hashes_def decode_indexed_eq_while split: if_splits)
  then show "data = concat hs \<and> (\<forall>h \<in> set hs. length h = 32)"
    using hash32.concat_decode_while [of data] hash32.ok_decode_while [of data] by simp
next
  assume a: "data = concat hs \<and> (\<forall>h \<in> set hs. length h = 32)"
  then have "length data = length hs * 32" "decode_indexed 32 (copy_array 32) data = hs"
    using hash32.length_concat_enc [of hs] hash32.decode_indexed_all [of hs] by simp_all
  then show "extract_hashes data = Inr hs" by (simp add: extract_hashes_def)
qed

section \<open>The allowed fast set\<close>

definition fast_index :: "int \<Rightarrow> bytes \<Rightarrow> nat \<Rightarrow> u32" where
  "fast_index num_pieces x j = get32 (slice x (j * 4) (j * 4 + 4)) mod word_of_int num_pieces"

text \<open>The inner loop; the map \<open>seen\<close> is the set of the elements of the result.\<close>

definition fast_step :: "int \<Rightarrow> int \<Rightarrow> bytes \<Rightarrow> u32 list \<Rightarrow> nat \<Rightarrow> u32 list" where
  "fast_step num_pieces k x result j =
     (if int (length result) < k then
        let idx = fast_index num_pieces x j
        in if idx \<in> set result then result else result @ [idx]
      else result)"

definition fast_round :: "int \<Rightarrow> int \<Rightarrow> bytes \<Rightarrow> u32 list \<Rightarrow> u32 list" where
  "fast_round num_pieces k x result = foldl (fast_step num_pieces k x) result [0..<5]"

text \<open>The outer loop ends only if the chain of hashes yields enough different indices.\<close>

partial_function (option) fast_loop ::
  "(bytes \<Rightarrow> bytes) \<Rightarrow> int \<Rightarrow> int \<Rightarrow> bytes \<Rightarrow> u32 list \<Rightarrow> u32 list option" where
  "fast_loop sha1 num_pieces k x result =
     (if int (length result) < k
      then fast_loop sha1 num_pieces k (sha1 x) (fast_round num_pieces k x result)
      else Some result)"

definition fast_seed :: "(bytes \<Rightarrow> bytes) \<Rightarrow> bytes \<Rightarrow> bytes \<Rightarrow> bytes" where
  "fast_seed sha1 ip4 info_hash = sha1 (ip4[3 := 0] @ info_hash)"

definition allowed_fast_set ::
  "(bytes \<Rightarrow> bytes) \<Rightarrow> bytes \<Rightarrow> bytes \<Rightarrow> int \<Rightarrow> int \<Rightarrow> u32 list res option" where
  "allowed_fast_set sha1 peer_ip info_hash num_pieces k =
     (case to4 peer_ip of
        None \<Rightarrow> Some (Inr [])
      | Some ip4 \<Rightarrow>
          let k = (if num_pieces < k then num_pieces else k)
          in if 0 < k \<and> (word_of_int num_pieces :: u32) = 0 then Some (Inl Panic)
             else map_option Inr (fast_loop sha1 num_pieces k (fast_seed sha1 ip4 info_hash) []))"

definition fast_ok :: "int \<Rightarrow> int \<Rightarrow> u32 list \<Rightarrow> bool" where
  "fast_ok num_pieces k r \<longleftrightarrow> distinct r \<and> (\<forall>i \<in> set r. uint i < num_pieces) \<and>
     int (length r) \<le> max 0 k"

lemma fast_index_less:
  assumes "0 < np" "np < 2 ^ 32"
  shows "uint (fast_index np x j) < np"
proof -
  have "uint (word_of_int np :: u32) = np" using assms by (simp add: uint_word_of_int)
  moreover have "0 < (word_of_int np :: u32)" using calculation assms by (simp add: word_less_def)
  then have "fast_index np x j < word_of_int np"
    unfolding fast_index_def by (rule word_mod_less_divisor)
  ultimately show ?thesis by (simp add: word_less_def)
qed

lemma fast_step_ok: "0 < np \<Longrightarrow> np < 2 ^ 32 \<Longrightarrow> fast_ok np k r \<Longrightarrow> fast_ok np k (fast_step np k x r j)"
  by (auto simp: fast_ok_def fast_step_def Let_def fast_index_less)

lemma fast_round_ok: "0 < np \<Longrightarrow> np < 2 ^ 32 \<Longrightarrow> fast_ok np k r \<Longrightarrow> fast_ok np k (fast_round np k x r)"
proof -
  have "0 < np \<Longrightarrow> np < 2 ^ 32 \<Longrightarrow> fast_ok np k r \<Longrightarrow> fast_ok np k (foldl (fast_step np k x) r js)" for js
    by (induction js arbitrary: r) (simp_all add: fast_step_ok)
  then show "0 < np \<Longrightarrow> np < 2 ^ 32 \<Longrightarrow> fast_ok np k r \<Longrightarrow> ?thesis" by (simp add: fast_round_def)
qed

text \<open>The indices of one hash; a round that does not finish adds all of them.\<close>

definition fast_ids :: "int \<Rightarrow> bytes \<Rightarrow> u32 set" where
  "fast_ids np x = fast_index np x ` {0..<5}"

lemma fast_fold_unfinished:
  "int (length (foldl (fast_step np k x) r js)) < k \<Longrightarrow>
    set (foldl (fast_step np k x) r js) = set r \<union> fast_index np x ` set js"
proof (induction js arbitrary: r)
  case (Cons j js)
  have mono: "length r \<le> length (foldl (fast_step np k x) r js)" for r js
  proof (induction js arbitrary: r)
    case (Cons j js)
    have "length r \<le> length (fast_step np k x r j)" by (simp add: fast_step_def Let_def)
    with Cons [of "fast_step np k x r j"] show ?case by simp
  qed simp
  have "int (length r) < k"
    using mono [of r "j # js"] Cons.prems by simp
  then have "set (fast_step np k x r j) = insert (fast_index np x j) (set r)"
    by (auto simp: fast_step_def Let_def)
  with Cons show ?case by auto
qed simp

lemma fast_round_unfinished:
  "int (length (fast_round np k x r)) < k \<Longrightarrow> set (fast_round np k x r) = set r \<union> fast_ids np x"
  using fast_fold_unfinished [of np k x r "[0..<5]"] by (simp add: fast_round_def fast_ids_def)

lemma fast_loop_returns:
  assumes "0 < np" "np < 2 ^ 32" "0 \<le> k" "k \<le> int (card (set r \<union> (\<Union>i<n. fast_ids np ((sha1 ^^ i) x))))"
    and "fast_ok np k r"
  shows "\<exists>r'. fast_loop sha1 np k x r = Some r' \<and> fast_ok np k r' \<and> int (length r') = k"
  using assms(4,5)
proof (induction n arbitrary: x r)
  case 0
  then have "k \<le> int (length r)" by (simp add: fast_ok_def distinct_card)
  then show ?case using 0 assms(3)
    by (intro exI [of _ r]) (simp add: fast_loop.simps [of sha1 np k x r] fast_ok_def)
next
  case (Suc n)
  show ?case
  proof (cases "int (length r) < k")
    case False
    then show ?thesis using Suc.prems assms(3)
      by (intro exI [of _ r]) (simp add: fast_loop.simps [of sha1 np k x r] fast_ok_def)
  next
    case True
    let ?r = "fast_round np k x r"
    have ok: "fast_ok np k ?r" using assms(1,2) Suc.prems(2) by (rule fast_round_ok)
    have "k \<le> int (card (set ?r \<union> (\<Union>i<n. fast_ids np ((sha1 ^^ i) (sha1 x)))))"
    proof (cases "int (length ?r) < k")
      case True
      have "set r \<union> (\<Union>i<Suc n. fast_ids np ((sha1 ^^ i) x)) =
          set ?r \<union> (\<Union>i<n. fast_ids np ((sha1 ^^ i) (sha1 x)))"
        unfolding lessThan_Suc_eq_insert_0 fast_round_unfinished [OF True]
        by (simp add: funpow_swap1 Un_assoc image_image)
      then show ?thesis using Suc.prems(1) by simp
    next
      case False
      then have "k \<le> int (card (set ?r))" using ok by (simp add: fast_ok_def distinct_card)
      also have "\<dots> \<le> int (card (set ?r \<union> (\<Union>i<n. fast_ids np ((sha1 ^^ i) (sha1 x)))))"
        by (simp add: card_mono fast_ids_def)
      finally show ?thesis .
    qed
    from Suc.IH [OF this ok] show ?thesis using True
      by (simp add: fast_loop.simps [of sha1 np k x r])
  qed
qed

section \<open>Canonical peer priority\<close>

definition mask_ipv4 :: "bytes \<Rightarrow> bytes \<Rightarrow> bytes \<times> bytes" where
  "mask_ipv4 a b =
     (if a ! 0 = b ! 0 \<and> a ! 1 = b ! 1 \<and> a ! 2 = b ! 2 then (copy_array 4 a, copy_array 4 b)
      else
        let m = (if a ! 0 = b ! 0 \<and> a ! 1 = b ! 1 then [0xFF, 0xFF, 0xFF, 0x55]
                 else [0xFF, 0xFF, 0x55, 0x55])
        in (map (\<lambda>i. (a ! i) AND (m ! i)) [0..<4], map (\<lambda>i. (b ! i) AND (m ! i)) [0..<4]))"

definition prefix_bytes :: "bytes \<Rightarrow> bytes \<Rightarrow> nat" where
  "prefix_bytes a b = 6 + length (takeWhile (\<lambda>i. a ! i = b ! i) [6..<16])"

definition mask_ipv6 :: "bytes \<Rightarrow> bytes \<Rightarrow> bytes \<times> bytes" where
  "mask_ipv6 a b =
     (let p = prefix_bytes a b
      in if 16 \<le> p then (copy_array 16 a, copy_array 16 b)
         else (map (\<lambda>i. if i < p then a ! i else (a ! i) AND 0x55) [0..<16],
               map (\<lambda>i. if i < p then b ! i else (b ! i) AND 0x55) [0..<16]))"

definition priority_crc :: "bytes \<times> bytes \<Rightarrow> u32" where
  "priority_crc p =
     (let (a, b) = (if snd p < fst p then (snd p, fst p) else p) in crc32c (a @ b))"

definition priority :: "bytes \<Rightarrow> bytes \<Rightarrow> u32" where
  "priority self_ip peer_ip =
     (case (to4 self_ip, to4 peer_ip) of
        (Some a, Some b) \<Rightarrow> priority_crc (mask_ipv4 a b)
      | _ \<Rightarrow>
          (case (to16 self_ip, to16 peer_ip) of
             (Some a, Some b) \<Rightarrow> priority_crc (mask_ipv6 a b)
           | _ \<Rightarrow> 0))"

lemma mask_ipv4_swap: "mask_ipv4 b a = (snd (mask_ipv4 a b), fst (mask_ipv4 a b))"
  by (auto simp: mask_ipv4_def Let_def)

lemma mask_ipv6_swap: "mask_ipv6 b a = (snd (mask_ipv6 a b), fst (mask_ipv6 a b))"
proof -
  have "(\<lambda>i. b ! i = a ! i) = (\<lambda>i. a ! i = b ! i)" by auto
  then have "prefix_bytes b a = prefix_bytes a b" by (simp add: prefix_bytes_def)
  then show ?thesis by (simp add: mask_ipv6_def Let_def)
qed

lemma priority_crc_swap: "priority_crc (snd p, fst p) = priority_crc p"
  by (cases p) (auto simp: priority_crc_def)

lemma priority_crc_mask_swap:
  "priority_crc (mask_ipv4 b a) = priority_crc (mask_ipv4 a b)"
  "priority_crc (mask_ipv6 b a) = priority_crc (mask_ipv6 a b)"
  unfolding mask_ipv4_swap [of b a] mask_ipv6_swap [of b a] by (rule priority_crc_swap)+

lemma priority_commute: "priority a b = priority b a"
  by (cases "to4 a"; cases "to4 b"; cases "to16 a"; cases "to16 b")
    (simp_all add: priority_def priority_crc_mask_swap)

text \<open>The code compares only the last ten bytes when it looks for the common prefix.\<close>

lemma mask_ipv6_suffix:
  assumes "length a = 16" "length b = 16" "drop 6 a = drop 6 b"
  shows "mask_ipv6 a b = (a, b)"
proof -
  have "a ! i = b ! i" if "i \<in> set [6..<16]" for i
  proof -
    from that have "6 \<le> i" by (simp only: set_upt atLeastLessThan_iff)
    then have "6 + (i - 6) = i" by simp
    then show ?thesis
      using arg_cong [OF assms(3), of "\<lambda>xs. xs ! (i - 6)"] assms(1,2) by (simp only: nth_drop)
  qed
  then have "takeWhile (\<lambda>i. a ! i = b ! i) [6..<16] = [6..<16]" by (simp add: takeWhile_eq_all_conv)
  then show ?thesis using assms(1,2) by (simp add: mask_ipv6_def prefix_bytes_def)
qed

section \<open>Properties\<close>

lemma read_exchanged:
  assumes "\<forall>m \<in> set ms. msg_ok m \<and> skipped m" "exts_ok exts" "small v" "in_int64 sz"
    and "msg_ok (Some (new_ext_handshake exts sz v))"
  shows "read_ext_handshake (concat (map write_message ms) @
      write_message (Some (new_ext_handshake exts sz v)) @ rest) =
    Inr (\<lparr>eh_m = sort_key fst exts, eh_metadata_size = max sz 0, eh_v = v, eh_upload_only = False\<rparr>, rest)"
proof -
  have "read_message (write_message (Some (new_ext_handshake exts sz v)) @ rest) =
      Inr (Some (new_ext_handshake exts sz v), rest)"
    using assms(5) by (rule wire.dec_enc_append)
  moreover have "wm_id (new_ext_handshake exts sz v) = msg_id_of ''extended''"
    "wm_payload (new_ext_handshake exts sz v) \<noteq> []" "wm_payload (new_ext_handshake exts sz v) ! 0 = 0"
    by (simp_all add: new_ext_handshake_def new_ext_message_def msg_def)
  ultimately show ?thesis
    unfolding read_ext_handshake_skip [OF assms(1)]
    by (subst read_ext_handshake.simps) (simp add: parse_new_ext_handshake [OF assms(2-4)])
qed

text \<open>
  The exchange of extension handshakes: whatever messages and keep-alives the peer sends
  first, the reader ends up with the names and identifiers of the peer's extensions, its
  version and its metadata size (zero where none was announced), and the stream goes on
  right after the handshake.
\<close>

theorem ext_handshake_exchange:
  assumes "\<forall>m \<in> set ms. msg_ok m \<and> skipped m" "exts_ok exts" "small v" "in_int64 sz"
    and "msg_ok (Some (new_ext_handshake exts sz v))"
  shows "read_ext_handshake (concat (map write_message ms) @
      write_message (Some (new_ext_handshake exts sz v)) @ rest) =
    Inr (\<lparr>eh_m = sort_key fst exts, eh_metadata_size = max sz 0, eh_v = v, eh_upload_only = False\<rparr>, rest)"
  by (rule read_exchanged [OF assms])

theorem ext_handshake_exchange_witness:
  "read_ext_handshake (concat (map write_message [None, Some (new_have 3)]) @
      write_message (Some (new_ext_handshake [(str ''ut_pex'', 2)] 0 [])) @ [5]) =
    Inr (\<lparr>eh_m = [(str ''ut_pex'', 2)], eh_metadata_size = 0, eh_v = [], eh_upload_only = False\<rparr>, [5])"
proof -
  have "\<forall>m \<in> set [None, Some (new_have 3)]. msg_ok m \<and> skipped m"
    by (simp add: msg_ok_def skipped_def new_have_def msg_def msg_id_of_def max_message_len_def)
  moreover have "exts_ok [(str ''ut_pex'', 2)]" by (simp add: exts_ok_def small_def in_int64_def)
  moreover have "msg_ok (Some (new_ext_handshake [(str ''ut_pex'', 2)] 0 []))"
    by (simp add: msg_ok_def new_ext_handshake_def new_ext_message_def msg_def ext_dict_eq
        max_message_len_def enc_entry_def enc_string_def append_string_def itoa_def dec_digits.simps)
  ultimately show ?thesis
    using ext_handshake_exchange [of "[None, Some (new_have 3)]" "[(str ''ut_pex'', 2)]" "[]" 0 "[5]"]
    by (simp add: small_def in_int64_def)
qed

text \<open>
  Holepunch, upload-only and hash messages survive the wire: decoding an encoded message
  gives it back (trailing bytes are ignored), and a list of 32-byte hashes is extracted from
  its concatenation and from nothing else.
\<close>

theorem extension_messages_roundtrip:
  shows "(holepunch_ok m \<longrightarrow> decode_holepunch (encode_holepunch m @ junk) = Inr m) \<and>
    decode_upload_only (encode_upload_only u) = Inr u \<and>
    (length (hr_pieces_root r) = 32 \<longrightarrow> decode_hash_request (encode_hash_request r @ junk) = Inr r) \<and>
    (length (hr_pieces_root h) = 32 \<longrightarrow> decode_hashes (encode_hashes h) = Inr h) \<and>
    (extract_hashes data = Inr hs \<longleftrightarrow> data = concat hs \<and> (\<forall>x \<in> set hs. length x = 32))"
  by (simp add: decode_encode_holepunch decode_encode_upload_only decode_encode_hashes extract_hashes_iff)

theorem extension_messages_roundtrip_witness:
  "decode_holepunch (encode_holepunch \<lparr>hp_msg_type = 1, hp_addr_type = 0, hp_ip = [1, 2, 3, 4],
     hp_port = 6881, hp_err_code = 0\<rparr> @ []) =
   Inr \<lparr>hp_msg_type = 1, hp_addr_type = 0, hp_ip = [1, 2, 3, 4], hp_port = 6881, hp_err_code = 0\<rparr>"
  by (rule extension_messages_roundtrip [THEN conjunct1, rule_format]) (simp add: holepunch_ok_def)

text \<open>
  If the chain of hashes yields enough different indices, the allowed fast set is
  computed: \<open>k\<close> different indices (or as many as there are pieces), all of them valid.
\<close>

theorem allowed_fast_set_spec:
  assumes "0 < num_pieces" "num_pieces < 2 ^ 32" "0 \<le> k" "to4 peer_ip = Some ip4"
    and "min k num_pieces \<le> int (card (\<Union>i<n. fast_ids num_pieces ((sha1 ^^ i) (fast_seed sha1 ip4 info_hash))))"
  shows "\<exists>r. allowed_fast_set sha1 peer_ip info_hash num_pieces k = Some (Inr r) \<and> distinct r \<and>
    (\<forall>i \<in> set r. uint i < num_pieces) \<and> int (length r) = min k num_pieces"
proof -
  have m: "(if num_pieces < k then num_pieces else k) = min k num_pieces" by auto
  have "uint (word_of_int num_pieces :: u32) = num_pieces" using assms(1,2) by (simp add: uint_word_of_int)
  then have nz: "(word_of_int num_pieces :: u32) \<noteq> 0" using assms(1) by auto
  obtain r where "fast_loop sha1 num_pieces (min k num_pieces) (fast_seed sha1 ip4 info_hash) [] = Some r"
    "fast_ok num_pieces (min k num_pieces) r" "int (length r) = min k num_pieces"
    using fast_loop_returns [where np = num_pieces and k = "min k num_pieces" and r = "[]" and n = n
        and x = "fast_seed sha1 ip4 info_hash" and ?sha1.0 = sha1] assms
    by (auto simp: fast_ok_def)
  then show ?thesis
    using assms(4) nz by (simp add: allowed_fast_set_def Let_def m fast_ok_def)
qed

definition ex_sha1 :: "bytes \<Rightarrow> bytes" where
  "ex_sha1 x = [0, 0, 0, 3, 0, 0, 0, 4] @ replicate 12 0"

theorem allowed_fast_set_spec_witness:
  "\<exists>r. allowed_fast_set ex_sha1 [1, 2, 3, 4] [] 10 2 = Some (Inr r) \<and> length r = 2"
proof -
  let ?x = "fast_seed ex_sha1 [1, 2, 3, 4] []"
  have "fast_index 10 ?x 0 = 3" "fast_index 10 ?x 1 = 4"
    by (simp_all add: fast_index_def fast_seed_def ex_sha1_def slice_def get_be_def)
  then have ids: "{3, 4} \<subseteq> fast_ids 10 ?x"
    unfolding fast_ids_def by (auto simp: image_iff intro: bexI [of _ 0] bexI [of _ 1])
  have "card {3, 4 :: u32} \<le> card (fast_ids 10 ?x)"
    by (rule card_mono) (use ids in \<open>simp_all add: fast_ids_def\<close>)
  moreover have "(\<Union>i<1. fast_ids 10 ((ex_sha1 ^^ i) ?x)) = fast_ids 10 ?x"
    by (simp add: lessThan_Suc)
  ultimately have "int (card {3, 4 :: u32}) \<le> int (card (\<Union>i<1. fast_ids 10 ((ex_sha1 ^^ i) ?x)))"
    by simp
  then show ?thesis
    using allowed_fast_set_spec [where num_pieces = 10 and k = 2 and peer_ip = "[1, 2, 3, 4]"
        and n = 1 and ?sha1.0 = ex_sha1 and info_hash = "[]"] by auto
qed

text \<open>
  The peer priority is symmetric, so both ends of a connection compute the same value.
  For IPv6 it does not follow the prefix rule its comment states: the search for the common
  prefix starts at the seventh byte without looking at the first six, so two addresses of
  different networks with the same last ten bytes are not masked at all.
\<close>

theorem priority_symmetric:
  shows "priority a b = priority b a \<and>
    (length a = 16 \<and> length b = 16 \<and> drop 6 a = drop 6 b \<longrightarrow> mask_ipv6 a b = (a, b))"
  using priority_commute mask_ipv6_suffix by blast

theorem priority_symmetric_witness:
  "mask_ipv6 (0x20 # replicate 15 1) (0x30 # replicate 15 1) = (0x20 # replicate 15 1, 0x30 # replicate 15 1)"
  by (rule priority_symmetric [THEN conjunct2, rule_format])
    simp

end
