(* ===== verification/GoIO.thy ===== *)
theory GoIO
  imports GoStd
begin

text \<open>
  Output in Go: the contract of \<open>io.Writer\<close> as a locale, a network connection (\<open>net.Conn\<close>) that may stop
  taking bytes at any moment, and \<open>bufio.Writer\<close> over it. A writer is a function from its state and the
  bytes to the new state, the number of bytes taken and the error.
\<close>

section \<open>Writers\<close>

type_synonym 's writer = "'s \<Rightarrow> bytes \<Rightarrow> 's \<times> nat \<times> goerr option"

text \<open>Several writes in a row, up to the first error.\<close>

primrec write_parts :: "'s writer \<Rightarrow> 's \<Rightarrow> bytes list \<Rightarrow> 's \<times> goerr option" where
  "write_parts w s [] = (s, None)"
| "write_parts w s (p # ps) =
     (case w s p of (s', n, Some e) \<Rightarrow> (s', Some e) | (s', n, None) \<Rightarrow> write_parts w s' ps)"

text \<open>An invariant of the single write is one of several.\<close>

lemma write_parts_invar:
  assumes "\<And>s p s' n err. w s p = (s', n, err) \<Longrightarrow> I s \<Longrightarrow> I s' \<and> (always_ok \<longrightarrow> err = None)"
  shows "write_parts w s ps = (s', err) \<Longrightarrow> I s \<Longrightarrow> I s' \<and> (always_ok \<longrightarrow> err = None)"
proof (induction ps arbitrary: s)
  case (Cons p ps)
  obtain s1 n err1 where w: "w s p = (s1, n, err1)" by (cases "w s p")
  from assms [OF w Cons.prems(2)] Cons.prems(1) w Cons.IH [of s1] show ?case by (cases err1) auto
qed simp

text \<open>
  The contract: \<open>Write\<close> takes a prefix of the bytes, reports its length, and reports an error unless it
  took them all. \<open>content\<close> is what the writer has taken so far.
\<close>

locale io_writer =
  fixes write_to :: "'s writer" and content :: "'s \<Rightarrow> bytes"
  assumes write_taken: "write_to s p = (s', n, err) \<Longrightarrow> content s' = content s @ take n p \<and> n \<le> length p"
    and write_complete: "write_to s p = (s', n, None) \<Longrightarrow> n = length p"
begin

lemma write_parts_content:
  "write_parts write_to s ps = (s', err) \<Longrightarrow>
    \<exists>k \<le> length (concat ps). content s' = content s @ take k (concat ps) \<and> (err = None \<longrightarrow> k = length (concat ps))"
proof (induction ps arbitrary: s)
  case (Cons p ps)
  obtain s1 n err1 where w: "write_to s p = (s1, n, err1)" by (cases "write_to s p")
  note taken = write_taken [OF w]
  show ?case
  proof (cases err1)
    case None
    then have n: "n = length p" using w write_complete by blast
    have "write_parts write_to s1 ps = (s', err)" using Cons.prems w None by simp
    from Cons.IH [OF this] obtain k where
      "k \<le> length (concat ps)" "content s' = content s1 @ take k (concat ps)" "err = None \<longrightarrow> k = length (concat ps)" by blast
    with taken n show ?thesis by (intro exI [of _ "length p + k"]) simp
  next
    case (Some e)
    with Cons.prems w taken show ?thesis by (intro exI [of _ n]) auto
  qed
qed simp

lemma write_parts_all: "write_parts write_to s ps = (s', None) \<Longrightarrow> content s' = content s @ concat ps"
  using write_parts_content by fastforce

lemma write_parts_prefix:
  assumes "write_parts write_to s ps = (s', err)"
  shows "prefix (content s') (content s @ concat ps)"
proof -
  obtain k where "content s' = content s @ take k (concat ps)" using write_parts_content [OF assms] by blast
  then show ?thesis by (simp add: take_is_prefix)
qed

end

section \<open>Connections\<close>

text \<open>
  A connection with the bytes it has taken. It stops taking bytes once it is closed, or at the point
  \<open>nc_room\<close> gives, where the peer resets it or a deadline passes.
\<close>

record net_conn =
  nc_sent :: bytes
  nc_room :: "nat option"
  nc_closed :: bool

definition new_net_conn :: "nat option \<Rightarrow> net_conn" where
  "new_net_conn room = \<lparr>nc_sent = [], nc_room = room, nc_closed = False\<rparr>"

definition net_write :: "net_conn writer" where
  "net_write c p =
     (if nc_closed c then (c, 0, Some (Fail ''closed''))
      else case nc_room c of
        None \<Rightarrow> (c\<lparr>nc_sent := nc_sent c @ p\<rparr>, length p, None)
      | Some r \<Rightarrow>
          if length p \<le> r then (c\<lparr>nc_sent := nc_sent c @ p, nc_room := Some (r - length p)\<rparr>, length p, None)
          else (c\<lparr>nc_sent := nc_sent c @ take r p, nc_room := Some 0\<rparr>, r, Some (Fail ''write'')))"

definition net_close :: "net_conn \<Rightarrow> net_conn" where
  "net_close c = c\<lparr>nc_closed := True\<rparr>"

interpretation net_writer: io_writer net_write nc_sent
  by unfold_locales (auto simp: net_write_def split: if_splits option.splits)

lemma net_write_room:
  "net_write c p = (c', n, err) \<Longrightarrow> nc_room c = None \<Longrightarrow> nc_room c' = None \<and> nc_closed c' = nc_closed c \<and>
    (err = None \<longleftrightarrow> \<not> nc_closed c)"
  by (auto simp: net_write_def split: if_splits)

section \<open>Buffered writers\<close>

text \<open>\<open>bufio.Writer\<close>: the bytes held back and the first error, after which nothing is written any more.\<close>

record buffered =
  bd_conn :: net_conn
  bd_size :: nat
  bd_buf :: bytes
  bd_err :: "goerr option"

definition new_buffered :: "net_conn \<Rightarrow> nat \<Rightarrow> buffered" where
  "new_buffered c n = \<lparr>bd_conn = c, bd_size = n, bd_buf = [], bd_err = None\<rparr>"

definition available :: "buffered \<Rightarrow> nat" where
  "available b = bd_size b - length (bd_buf b)"

definition flush :: "buffered \<Rightarrow> buffered \<times> goerr option" where
  "flush b =
     (if bd_err b \<noteq> None then (b, bd_err b)
      else if bd_buf b = [] then (b, None)
      else
        let (c, n, err) = net_write (bd_conn b) (bd_buf b);
            err = (if n < length (bd_buf b) \<and> err = None then Some (Fail ''short write'') else err)
        in if err \<noteq> None then (b\<lparr>bd_conn := c, bd_buf := drop n (bd_buf b), bd_err := err\<rparr>, err)
           else (b\<lparr>bd_conn := c, bd_buf := []\<rparr>, None))"

lemma flush_done: "bd_err (fst (flush b)) = None \<Longrightarrow> bd_buf (fst (flush b)) = []"
  by (auto simp: flush_def Let_def split: prod.splits if_splits)

text \<open>\<open>Write\<close>: bytes that do not fit are written through, an empty buffer being bypassed.\<close>

function buf_write :: "buffered writer" where
  "buf_write b p =
     (if available b < length p \<and> bd_err b = None then
        if bd_buf b = [] then
          let (c, n, err) = net_write (bd_conn b) p;
              (b', m, e) = buf_write (b\<lparr>bd_conn := c, bd_err := err\<rparr>) (drop n p)
          in (b', n + m, e)
        else
          let n = available b;
              (b', m, e) = buf_write (fst (flush (b\<lparr>bd_buf := bd_buf b @ take n p\<rparr>))) (drop n p)
          in (b', n + m, e)
      else if bd_err b \<noteq> None then (b, 0, bd_err b)
      else (b\<lparr>bd_buf := bd_buf b @ p\<rparr>, length p, None))"
  by pat_completeness auto

termination
proof (relation "measure (\<lambda>(b, p). if bd_err b \<noteq> None then 0 else 2 * length p + (if bd_buf b = [] then 0 else 1))", goal_cases)
  case (2 b p x c y n err)
  then show ?case by (auto simp: net_write_def split: if_splits option.splits)
next
  case (3 b p n)
  then show ?case using flush_done [of "b\<lparr>bd_buf := bd_buf b @ take n p\<rparr>"] by auto
qed simp

declare buf_write.simps [simp del]

definition buf_content :: "buffered \<Rightarrow> bytes" where
  "buf_content b = nc_sent (bd_conn b) @ bd_buf b"

lemma flush_content: "flush b = (b', err) \<Longrightarrow> buf_content b' = buf_content b"
proof -
  assume f: "flush b = (b', err)"
  obtain c n e where w: "net_write (bd_conn b) (bd_buf b) = (c, n, e)" by (cases "net_write (bd_conn b) (bd_buf b)")
  from net_writer.write_taken [OF w] net_writer.write_complete [of "bd_conn b" "bd_buf b" c n] w f
  show ?thesis by (auto simp: flush_def buf_content_def split: if_splits)
qed

lemma flush_empty: "flush b = (b', None) \<Longrightarrow> bd_buf b' = [] \<and> nc_sent (bd_conn b') = buf_content b"
  using flush_content [of b b' None] by (auto simp: flush_def buf_content_def Let_def split: if_splits prod.splits)

text \<open>The three ways of a write, as an induction rule over its result.\<close>

lemma buf_write_induct [consumes 1, case_names direct part last]:
  assumes "buf_write b p = (b', n, err)"
    and "\<And>b p c k e b' m err. \<lbrakk>bd_err b = None; bd_buf b = []; net_write (bd_conn b) p = (c, k, e);
        buf_write (b\<lparr>bd_conn := c, bd_err := e\<rparr>) (drop k p) = (b', m, err);
        P (b\<lparr>bd_conn := c, bd_err := e\<rparr>) (drop k p) b' m err\<rbrakk> \<Longrightarrow> P b p b' (k + m) err"
    and "\<And>b p b1 b' m err. \<lbrakk>bd_err b = None; bd_buf b \<noteq> []; available b < length p;
        b1 = b\<lparr>bd_buf := bd_buf b @ take (available b) p\<rparr>;
        buf_write (fst (flush b1)) (drop (available b) p) = (b', m, err);
        P (fst (flush b1)) (drop (available b) p) b' m err\<rbrakk> \<Longrightarrow> P b p b' (available b + m) err"
    and "\<And>b p. bd_err b \<noteq> None \<or> length p \<le> available b \<Longrightarrow>
        P b p (if bd_err b \<noteq> None then b else b\<lparr>bd_buf := bd_buf b @ p\<rparr>) (if bd_err b \<noteq> None then 0 else length p) (bd_err b)"
  shows "P b p b' n err"
  using assms(1)
proof (induction b p arbitrary: b' n err rule: buf_write.induct)
  case (1 b p)
  let ?full = "available b < length p \<and> bd_err b = None"
  consider (direct) "?full" "bd_buf b = []" | (part) "?full" "bd_buf b \<noteq> []" | (last) "\<not> ?full" by blast
  then show ?case
  proof cases
    case direct
    obtain c k e where w: "net_write (bd_conn b) p = (c, k, e)" by (cases "net_write (bd_conn b) p")
    then obtain m where r: "buf_write (b\<lparr>bd_conn := c, bd_err := e\<rparr>) (drop k p) = (b', m, err)" "n = k + m"
      using "1.prems" direct by (auto simp: buf_write.simps [of b p] split: prod.splits)
    from assms(2) [OF _ direct(2) w r(1) "1.IH"(1) [OF direct w [symmetric] refl refl r(1)]] direct(1) r(2)
    show ?thesis by simp
  next
    case part
    obtain m where r: "buf_write (fst (flush (b\<lparr>bd_buf := bd_buf b @ take (available b) p\<rparr>))) (drop (available b) p) = (b', m, err)"
      "n = available b + m"
      using "1.prems" part by (auto simp: buf_write.simps [of b p] Let_def split: prod.splits)
    from assms(3) [OF _ part(2) _ refl r(1) "1.IH"(2) [OF part refl r(1)]] part(1) r(2) show ?thesis by simp
  next
    case last
    with "1.prems" assms(4) [of b p] show ?thesis by (auto simp: buf_write.simps [of b p] split: if_splits)
  qed
qed

lemma buf_write_content:
  "buf_write b p = (b', n, err) \<Longrightarrow> buf_content b' = buf_content b @ take n p \<and> n \<le> length p \<and> (err = None \<longrightarrow> n = length p)"
proof (induction rule: buf_write_induct)
  case (direct b p c k e b' m err)
  with net_writer.write_taken [OF direct(3)] show ?case by (auto simp: buf_content_def take_add)
next
  case (part b p b1 b' m err)
  then have "buf_content (fst (flush b1)) = buf_content b @ take (available b) p"
    using flush_content [of b1 "fst (flush b1)"] by (simp add: buf_content_def prod_eq_iff)
  with part show ?case by (auto simp: take_add)
qed (simp add: buf_content_def)

interpretation buf_writer: io_writer buf_write buf_content
  by unfold_locales (use buf_write_content in \<open>blast+\<close>)

text \<open>The buffer never holds more than its size.\<close>

lemma flush_bound: "length (bd_buf (fst (flush b))) \<le> length (bd_buf b)"
  by (auto simp: flush_def Let_def split: prod.splits)

lemma bd_size_flush [simp]: "bd_size (fst (flush b)) = bd_size b"
  by (auto simp: flush_def Let_def split: prod.splits)

lemma buf_write_bound:
  "buf_write b p = (b', n, err) \<Longrightarrow> length (bd_buf b) \<le> bd_size b \<Longrightarrow> length (bd_buf b') \<le> bd_size b' \<and> bd_size b' = bd_size b"
proof (induction rule: buf_write_induct)
  case (part b p b1 b' m err)
  then have "length (bd_buf b1) \<le> bd_size b" by (auto simp: available_def)
  then have "length (bd_buf (fst (flush b1))) \<le> bd_size (fst (flush b1))" using flush_bound [of b1] part(4) by simp
  with part show ?case by simp
qed (auto simp: available_def)

text \<open>After an error nothing is written.\<close>

lemma buf_write_failed: "bd_err b = Some e \<Longrightarrow> buf_write b p = (b, 0, Some e)"
  by (simp add: buf_write.simps)

lemma flush_failed: "bd_err b = Some e \<Longrightarrow> flush b = (b, Some e)"
  by (simp add: flush_def)

lemma buf_write_error: "buf_write b p = (b', n, err) \<Longrightarrow> bd_err b' = err \<and> (bd_err b \<noteq> None \<longrightarrow> err = bd_err b)"
  by (induction rule: buf_write_induct) auto

lemma flush_error: "flush b = (b', err) \<Longrightarrow> bd_err b' = err"
  by (auto simp: flush_def Let_def split: if_splits prod.splits)

text \<open>An open connection that takes everything gives no error.\<close>

definition healthy :: "buffered \<Rightarrow> bool" where
  "healthy b \<longleftrightarrow> nc_room (bd_conn b) = None \<and> \<not> nc_closed (bd_conn b) \<and> bd_err b = None"

lemma flush_healthy: "healthy b \<Longrightarrow> healthy (fst (flush b)) \<and> snd (flush b) = None"
  by (auto simp: healthy_def flush_def net_write_def)

lemma buf_write_healthy: "buf_write b p = (b', n, err) \<Longrightarrow> healthy b \<Longrightarrow> healthy b' \<and> err = None"
proof (induction rule: buf_write_induct)
  case (direct b p c k e b' m err)
  then have "healthy (b\<lparr>bd_conn := c, bd_err := e\<rparr>)" by (auto simp: healthy_def net_write_def)
  with direct show ?case by simp
next
  case (part b p b1 b' m err)
  then show ?case using flush_healthy [of b1] by (simp add: healthy_def)
qed (auto simp: healthy_def)

end
