(* ===== verification/PeerConn.thy ===== *)
theory PeerConn
  imports PeerExt GoIO
begin

text \<open>
  A connection to a peer (\<open>peer/conn.go\<close>): opening it in the three ways, writing messages through a
  buffer, flushing, reading, the exchange of extension handshakes and closing. The bytes that the peer
  sends are the input of the connection; a deadline that passes ends the input or the room for output.
\<close>

section \<open>Messages to a writer\<close>

text \<open>The writes of \<open>WriteMessage\<close>, and of \<open>WriteHandshake\<close>.\<close>

definition message_parts :: "wire_msg option \<Rightarrow> bytes list" where
  "message_parts m =
     (case m of
        None \<Rightarrow> [[0, 0, 0, 0]]
      | Some m \<Rightarrow> [put32 (of_nat (1 + length (wm_payload m))), [wm_id m]] @
          (if wm_payload m = [] then [] else [wm_payload m]))"

definition send_message :: "'s writer \<Rightarrow> 's \<Rightarrow> wire_msg option \<Rightarrow> 's \<times> goerr option" where
  "send_message w s m = write_parts w s (message_parts m)"

definition send_handshake :: "'s writer \<Rightarrow> 's \<Rightarrow> handshake \<Rightarrow> 's \<times> goerr option" where
  "send_handshake w s h = write_parts w s [write_handshake h]"

lemma concat_message_parts: "concat (message_parts m) = write_message m"
  by (simp add: message_parts_def write_message_def split: option.splits)

section \<open>Connections\<close>

record peer_conn =
  pc_out :: buffered
  pc_info :: conn
  pc_exts :: "ext_handshake option"

definition write_buffer_size :: nat where
  "write_buffer_size = 128 * 1024"

definition peer_conn_of :: "net_conn \<Rightarrow> handshake \<Rightarrow> bytes \<Rightarrow> peer_conn" where
  "peer_conn_of c hs rest =
     \<lparr>pc_out = new_buffered c write_buffer_size,
      pc_info = \<lparr>cn_peer_id = hs_peer_id hs, cn_info_hash = hs_info_hash hs, cn_reserved = hs_reserved hs, cn_input = rest\<rparr>,
      pc_exts = None\<rparr>"

text \<open>
  \<open>FromConn\<close>, and \<open>Dial\<close> once it is connected: the local handshake is written while the peer's is read;
  on an error the connection is closed. (A closing that cuts the writing short is a connection with less
  room.)
\<close>

definition from_conn :: "bytes \<Rightarrow> bytes \<Rightarrow> net_conn \<Rightarrow> bytes \<Rightarrow> net_conn \<times> peer_conn res" where
  "from_conn info_hash peer_id c input =
     (let (c, werr) = send_handshake net_write c \<lparr>hs_info_hash = info_hash, hs_peer_id = peer_id, hs_reserved = replicate 8 0\<rparr>
      in case read_handshake input of
           Inl e \<Rightarrow> (net_close c, Inl e)
         | Inr (hs, rest) \<Rightarrow>
             (case werr of
                Some e \<Rightarrow> (net_close c, Inl e)
              | None \<Rightarrow>
                  if hs_info_hash hs \<noteq> info_hash then (net_close c, Inl (Fail ''info hash mismatch''))
                  else (c, Inr (peer_conn_of c hs rest))))"

definition dial_peer :: "bytes \<Rightarrow> bytes \<Rightarrow> (net_conn \<times> bytes) res \<Rightarrow> peer_conn res" where
  "dial_peer info_hash peer_id connected =
     (case connected of Inl e \<Rightarrow> Inl e | Inr (c, input) \<Rightarrow> snd (from_conn info_hash peer_id c input))"

definition accept_conn :: "bytes \<Rightarrow> (bytes \<Rightarrow> bool) \<Rightarrow> net_conn \<Rightarrow> bytes \<Rightarrow> net_conn \<times> peer_conn res" where
  "accept_conn peer_id lookup_hash c input =
     (case read_handshake input of
        Inl e \<Rightarrow> (net_close c, Inl e)
      | Inr (hs, rest) \<Rightarrow>
          if \<not> lookup_hash (hs_info_hash hs) then (net_close c, Inl (Fail ''unknown infohash''))
          else
            (case send_handshake net_write c \<lparr>hs_info_hash = hs_info_hash hs, hs_peer_id = peer_id, hs_reserved = replicate 8 0\<rparr> of
               (c, Some e) \<Rightarrow> (net_close c, Inl e)
             | (c, None) \<Rightarrow> (c, Inr (peer_conn_of c hs rest))))"

definition conn_read :: "peer_conn \<Rightarrow> (wire_msg option \<times> peer_conn) res" where
  "conn_read pc =
     (case read_message (cn_input (pc_info pc)) of
        Inl e \<Rightarrow> Inl e
      | Inr (m, rest) \<Rightarrow> Inr (m, pc\<lparr>pc_info := (pc_info pc)\<lparr>cn_input := rest\<rparr>\<rparr>))"

definition conn_write :: "peer_conn \<Rightarrow> wire_msg option \<Rightarrow> peer_conn \<times> goerr option" where
  "conn_write pc m = (case send_message buf_write (pc_out pc) m of (b, err) \<Rightarrow> (pc\<lparr>pc_out := b\<rparr>, err))"

definition conn_flush :: "peer_conn \<Rightarrow> peer_conn \<times> goerr option" where
  "conn_flush pc = (case flush (pc_out pc) of (b, err) \<Rightarrow> (pc\<lparr>pc_out := b\<rparr>, err))"

definition conn_close :: "peer_conn \<Rightarrow> peer_conn" where
  "conn_close pc = pc\<lparr>pc_out := (pc_out pc)\<lparr>bd_conn := net_close (bd_conn (pc_out pc))\<rparr>\<rparr>"

definition conn_supports_extensions :: "peer_conn \<Rightarrow> bool" where
  "conn_supports_extensions pc = supports_extensions (cn_reserved (pc_info pc))"

text \<open>
  \<open>ExchangeExtHandshake\<close>: the own handshake is written and flushed while messages are read and skipped
  until the peer's comes; only then is the error of the writing looked at, and only then is the payload
  parsed.
\<close>

function next_ext_payload :: "bytes \<Rightarrow> (bytes \<times> bytes) res" where
  "next_ext_payload input =
     (case read_message input of
        Inl e \<Rightarrow> Inl e
      | Inr (None, rest) \<Rightarrow> next_ext_payload rest
      | Inr (Some m, rest) \<Rightarrow>
          if wm_id m \<noteq> msg_id_of ''extended'' \<or> wm_payload m = [] \<or> wm_payload m ! 0 \<noteq> 0 then next_ext_payload rest
          else Inr (wm_payload m, rest))"
  by pat_completeness auto

termination
  by (relation "measure length") (auto dest: wire_reader.dec_shorter)

declare next_ext_payload.simps [simp del]

definition exchange_ext_handshake ::
    "(bytes \<times> int) list \<Rightarrow> int \<Rightarrow> bytes \<Rightarrow> peer_conn \<Rightarrow> peer_conn \<times> goerr option" where
  "exchange_ext_handshake exts metadata_size client_version pc =
     (let (pc, werr) = conn_write pc (Some (new_ext_handshake exts metadata_size client_version));
          (pc, werr) = (if werr = None then conn_flush pc else (pc, werr))
      in case next_ext_payload (cn_input (pc_info pc)) of
           Inl e \<Rightarrow> (pc, Some e)
         | Inr (payload, rest) \<Rightarrow>
             let pc = pc\<lparr>pc_info := (pc_info pc)\<lparr>cn_input := rest\<rparr>\<rparr>
             in case werr of
                  Some e \<Rightarrow> (pc, Some e)
                | None \<Rightarrow>
                    (case parse_ext_handshake payload of
                       Inl e \<Rightarrow> (pc, Some e)
                     | Inr ext \<Rightarrow> (pc\<lparr>pc_exts := Some ext\<rparr>, None)))"

text \<open>A batch: messages written up to the first error, then a flush.\<close>

primrec conn_write_all :: "peer_conn \<Rightarrow> wire_msg option list \<Rightarrow> peer_conn \<times> goerr option" where
  "conn_write_all pc [] = (pc, None)"
| "conn_write_all pc (m # ms) =
     (case conn_write pc m of (pc, Some e) \<Rightarrow> (pc, Some e) | (pc, None) \<Rightarrow> conn_write_all pc ms)"

definition conn_send :: "peer_conn \<Rightarrow> wire_msg option list \<Rightarrow> peer_conn \<times> goerr option" where
  "conn_send pc ms = (case conn_write_all pc ms of (pc, Some e) \<Rightarrow> (pc, Some e) | (pc, None) \<Rightarrow> conn_flush pc)"

section \<open>Opening\<close>

context io_writer
begin

lemma send_message_content:
  assumes "send_message write_to s m = (s', err)"
  shows "prefix (content s) (content s') \<and> prefix (content s') (content s @ write_message m) \<and>
    (err = None \<longrightarrow> content s' = content s @ write_message m)"
  using write_parts_content [of s "message_parts m" s' err] assms
  by (auto simp: send_message_def concat_message_parts take_is_prefix)

lemma send_handshake_content:
  assumes "send_handshake write_to s h = (s', err)"
  shows "prefix (content s) (content s') \<and> prefix (content s') (content s @ write_handshake h) \<and>
    (err = None \<longrightarrow> content s' = content s @ write_handshake h)"
  using write_parts_content [of s "[write_handshake h]" s' err] assms
  by (auto simp: send_handshake_def take_is_prefix)

end

text \<open>With room for the handshake, opening is the exchange of handshakes of the protocol.\<close>

lemma send_handshake_open:
  assumes "nc_room c = None" "\<not> nc_closed c"
  shows "send_handshake net_write c h = (c\<lparr>nc_sent := nc_sent c @ write_handshake h\<rparr>, None)"
  using assms by (simp add: send_handshake_def net_write_def)

lemma from_conn_handshake:
  assumes "nc_room c = None" "\<not> nc_closed c"
  shows "map_sum id pc_info (snd (from_conn ih pid c input)) = snd (do_handshake ih pid input) \<and>
    nc_sent (fst (from_conn ih pid c input)) = nc_sent c @ fst (do_handshake ih pid input) \<and>
    nc_closed (fst (from_conn ih pid c input)) = isl (snd (do_handshake ih pid input))"
  using assms
  by (simp add: from_conn_def do_handshake_def send_handshake_open peer_conn_of_def net_close_def split: sum.splits)

lemma accept_conn_handshake:
  assumes "nc_room c = None" "\<not> nc_closed c"
  shows "map_sum id pc_info (snd (accept_conn pid known c input)) = snd (accept pid known input) \<and>
    nc_sent (fst (accept_conn pid known c input)) = nc_sent c @ fst (accept pid known input) \<and>
    nc_closed (fst (accept_conn pid known c input)) = isl (snd (accept pid known input))"
  using assms
  by (simp add: accept_conn_def accept_def send_handshake_open peer_conn_of_def net_close_def split: sum.splits)

text \<open>A connection that was opened starts with an empty buffer, and one that was not is closed.\<close>

lemma from_conn_open:
  assumes "from_conn ih pid c input = (c', Inr pc)"
  shows "pc_out pc = new_buffered c' write_buffer_size" "cn_info_hash (pc_info pc) = ih"
  using assms by (auto simp: from_conn_def peer_conn_of_def split: sum.splits option.splits prod.splits if_splits)

lemma from_conn_closed: "from_conn ih pid c input = (c', Inl e) \<Longrightarrow> nc_closed c'"
  by (auto simp: from_conn_def net_close_def split: sum.splits option.splits prod.splits if_splits)

section \<open>Sending\<close>

lemma conn_write_content:
  assumes "conn_write pc m = (pc', err)"
  shows "prefix (buf_content (pc_out pc)) (buf_content (pc_out pc')) \<and>
    prefix (buf_content (pc_out pc')) (buf_content (pc_out pc) @ write_message m) \<and>
    (err = None \<longrightarrow> buf_content (pc_out pc') = buf_content (pc_out pc) @ write_message m) \<and> pc_info pc' = pc_info pc"
proof -
  obtain b where b: "send_message buf_write (pc_out pc) m = (b, err)" "pc' = pc\<lparr>pc_out := b\<rparr>"
    using assms by (auto simp: conn_write_def split: prod.splits)
  then have "pc_out pc' = b" "pc_info pc' = pc_info pc" by simp_all
  with buf_writer.send_message_content [OF b(1)] show ?thesis by blast
qed

lemma conn_write_all_content:
  "conn_write_all pc ms = (pc', err) \<Longrightarrow>
    prefix (buf_content (pc_out pc)) (buf_content (pc_out pc')) \<and>
    prefix (buf_content (pc_out pc')) (buf_content (pc_out pc) @ concat (map write_message ms)) \<and>
    (err = None \<longrightarrow> buf_content (pc_out pc') = buf_content (pc_out pc) @ concat (map write_message ms)) \<and> pc_info pc' = pc_info pc"
proof (induction ms arbitrary: pc)
  case (Cons m ms)
  obtain pc1 err1 where w: "conn_write pc m = (pc1, err1)" by (cases "conn_write pc m")
  note c = conn_write_content [OF w]
  show ?case
  proof (cases err1)
    case None
    with Cons.prems w have "conn_write_all pc1 ms = (pc', err)" by simp
    moreover have "buf_content (pc_out pc1) = buf_content (pc_out pc) @ write_message m" using c None by blast
    ultimately show ?thesis using Cons.IH [of pc1] c by (auto dest: append_prefixD)
  next
    case (Some e)
    with Cons.prems w have r: "pc' = pc1" "err = Some e" by simp_all
    have "prefix (buf_content (pc_out pc) @ write_message m) (buf_content (pc_out pc) @ concat (map write_message (m # ms)))"
      by simp
    with c show ?thesis unfolding r by (blast intro: prefix_order.trans)
  qed
qed simp

lemma sent_prefix: "prefix (nc_sent (bd_conn b)) (buf_content b)"
  by (simp add: buf_content_def)

lemma conn_send_content:
  assumes "conn_send pc ms = (pc', err)"
  shows "prefix (nc_sent (bd_conn (pc_out pc'))) (buf_content (pc_out pc) @ concat (map write_message ms))"
    and "err = None \<Longrightarrow> nc_sent (bd_conn (pc_out pc')) = buf_content (pc_out pc) @ concat (map write_message ms) \<and> bd_buf (pc_out pc') = []"
proof -
  obtain pc1 err1 where w: "conn_write_all pc ms = (pc1, err1)" by (cases "conn_write_all pc ms")
  note c = conn_write_all_content [OF w]
  obtain b e where f: "flush (pc_out pc1) = (b, e)" by (cases "flush (pc_out pc1)")
  have out: "pc_out pc' = (if err1 = None then b else pc_out pc1)" "err = (if err1 = None then e else err1)"
    using assms w f by (auto simp: conn_send_def conn_flush_def split: option.splits)
  have "buf_content (pc_out pc') = buf_content (pc_out pc1)" using out(1) flush_content [OF f] by simp
  then show "prefix (nc_sent (bd_conn (pc_out pc'))) (buf_content (pc_out pc) @ concat (map write_message ms))"
    using c sent_prefix [of "pc_out pc'"] by (metis prefix_order.trans)
  assume "err = None"
  then have "err1 = None" "e = None" using out(2) by (auto split: if_splits)
  with c out flush_empty f show "nc_sent (bd_conn (pc_out pc')) = buf_content (pc_out pc) @ concat (map write_message ms) \<and> bd_buf (pc_out pc') = []"
    by simp
qed

lemma conn_write_healthy:
  "conn_write pc m = (pc', err) \<Longrightarrow> healthy (pc_out pc) \<Longrightarrow> healthy (pc_out pc') \<and> err = None"
proof -
  assume w: "conn_write pc m = (pc', err)" and h: "healthy (pc_out pc)"
  obtain b where b: "write_parts buf_write (pc_out pc) (message_parts m) = (b, err)" "pc' = pc\<lparr>pc_out := b\<rparr>"
    using w by (auto simp: conn_write_def send_message_def split: prod.splits)
  have "healthy b \<and> (True \<longrightarrow> err = None)"
    by (rule write_parts_invar [where I = healthy, OF _ b(1) h]) (use buf_write_healthy in blast)
  then show "healthy (pc_out pc') \<and> err = None" by (simp add: b(2))
qed

lemma conn_write_all_healthy:
  "conn_write_all pc ms = (pc', err) \<Longrightarrow> healthy (pc_out pc) \<Longrightarrow> healthy (pc_out pc') \<and> err = None"
proof (induction ms arbitrary: pc)
  case (Cons m ms)
  obtain pc1 err1 where w: "conn_write pc m = (pc1, err1)" by (cases "conn_write pc m")
  with conn_write_healthy [OF w Cons.prems(2)] Cons.prems(1) Cons.IH [of pc1] show ?case by simp
qed simp

text \<open>On an open connection with room, sending succeeds.\<close>

lemma conn_send_healthy: "healthy (pc_out pc) \<Longrightarrow> \<exists>pc'. conn_send pc ms = (pc', None)"
proof -
  assume h: "healthy (pc_out pc)"
  obtain pc1 err where w: "conn_write_all pc ms = (pc1, err)" by (cases "conn_write_all pc ms")
  obtain b e where f: "flush (pc_out pc1) = (b, e)" by (cases "flush (pc_out pc1)")
  from conn_write_all_healthy [OF w h] flush_healthy [of "pc_out pc1"] w f show ?thesis
    by (simp add: conn_send_def conn_flush_def)
qed

text \<open>A message that was written and not flushed is held back by at most the size of the buffer.\<close>

lemma conn_write_bound:
  assumes "conn_write pc m = (pc', err)" "length (bd_buf (pc_out pc)) \<le> bd_size (pc_out pc)"
  shows "length (bd_buf (pc_out pc')) \<le> bd_size (pc_out pc') \<and> bd_size (pc_out pc') = bd_size (pc_out pc)"
proof -
  let ?I = "\<lambda>b. length (bd_buf b) \<le> bd_size b \<and> bd_size b = bd_size (pc_out pc)"
  obtain b where b: "write_parts buf_write (pc_out pc) (message_parts m) = (b, err)" "pc' = pc\<lparr>pc_out := b\<rparr>"
    using assms(1) by (auto simp: conn_write_def send_message_def split: prod.splits)
  have "?I b \<and> (False \<longrightarrow> err = None)"
  proof (rule write_parts_invar [where I = ?I, OF _ b(1)])
    show "?I s' \<and> (False \<longrightarrow> e = None)" if "buf_write s p = (s', n, e)" "?I s" for s p s' n e
      using buf_write_bound [OF that(1)] that(2) by simp
  qed (use assms(2) in simp)
  then show ?thesis by (simp add: b(2))
qed

text \<open>After the first error every write fails and leaves the connection as it is.\<close>

lemma conn_write_failed:
  "bd_err (pc_out pc) = Some e \<Longrightarrow> conn_write pc m = (pc, Some e) \<and> conn_flush pc = (pc, Some e)"
  by (simp add: conn_write_def conn_flush_def send_message_def message_parts_def buf_write_failed flush_failed split: option.splits)

section \<open>Reading\<close>

primrec conn_reads :: "nat \<Rightarrow> peer_conn \<Rightarrow> (wire_msg option list \<times> peer_conn) res" where
  "conn_reads 0 pc = Inr ([], pc)"
| "conn_reads (Suc k) pc =
     (case conn_read pc of
        Inl e \<Rightarrow> Inl e
      | Inr (m, pc) \<Rightarrow> (case conn_reads k pc of Inl e \<Rightarrow> Inl e | Inr (ms, pc) \<Rightarrow> Inr (m # ms, pc)))"

lemma conn_reads_decode:
  "conn_reads k pc =
     (case decode_n read_message k (cn_input (pc_info pc)) of
        Inl e \<Rightarrow> Inl e
      | Inr (ms, rest) \<Rightarrow> Inr (ms, pc\<lparr>pc_info := (pc_info pc)\<lparr>cn_input := rest\<rparr>\<rparr>))"
  by (induction k arbitrary: pc) (simp_all add: conn_read_def split: sum.splits prod.splits)

text \<open>What is read of a stream that was cut off is what is read of the whole stream, up to the cut.\<close>

lemma decode_n_more:
  "decode_n read_message k r = Inr (ms, rest) \<Longrightarrow> decode_n read_message k (r @ r') = Inr (ms, rest @ r')"
  by (induction k arbitrary: r ms rest) (auto simp: wire_reader.dec_append split: sum.splits prod.splits)

lemma decode_n_length: "decode_n dec k r = Inr (ms, rest) \<Longrightarrow> length ms = k"
  by (induction k arbitrary: r ms rest) (auto split: sum.splits prod.splits)

lemma decode_n_prefix:
  assumes "\<forall>m \<in> set ms. msg_ok m" "decode_n read_message k (concat (map write_message ms)) = Inr (ms', rest)"
  shows "prefix ms' ms"
  using assms
proof (induction k arbitrary: ms ms')
  case (Suc k)
  show ?case
  proof (cases ms)
    case Nil
    with Suc.prems show ?thesis by (simp add: read_message_def)
  next
    case (Cons m ns)
    with Suc.prems have "read_message (concat (map write_message ms)) = Inr (m, concat (map write_message ns))"
      by (simp add: read_write_message)
    with Suc.prems(2) obtain ns' where "decode_n read_message k (concat (map write_message ns)) = Inr (ns', rest)" "ms' = m # ns'"
      by (auto split: sum.splits)
    with Suc.IH [of ns ns'] Suc.prems(1) Cons show ?thesis by simp
  qed
qed simp

lemma truncated_stream:
  assumes "\<forall>m \<in> set ms. msg_ok m" "prefix r (concat (map write_message ms))" "decode_n read_message k r = Inr (ms', rest)"
  shows "prefix ms' ms"
proof -
  obtain r' where "concat (map write_message ms) = r @ r'" using assms(2) by (auto simp: prefix_def)
  with decode_n_prefix [OF assms(1)] decode_n_more [OF assms(3)] show ?thesis by metis
qed

section \<open>The exchange of extension handshakes\<close>

lemma next_ext_payload_parse:
  "read_ext_handshake input =
     (case next_ext_payload input of
        Inl e \<Rightarrow> Inl e
      | Inr (payload, rest) \<Rightarrow> (case parse_ext_handshake payload of Inl e \<Rightarrow> Inl e | Inr ext \<Rightarrow> Inr (ext, rest)))"
proof (induction input rule: next_ext_payload.induct)
  case (1 input)
  then show ?case
    by (subst read_ext_handshake.simps, subst next_ext_payload.simps) (auto split: sum.splits option.splits prod.splits)
qed

lemma exchange_ext_healthy:
  assumes "healthy (pc_out pc)" "exchange_ext_handshake exts sz v pc = (pc', err)"
  shows "case read_ext_handshake (cn_input (pc_info pc)) of
      Inl e \<Rightarrow> err = Some e
    | Inr (ext, rest) \<Rightarrow> err = None \<and> pc_exts pc' = Some ext \<and> cn_input (pc_info pc') = rest \<and>
        nc_sent (bd_conn (pc_out pc')) = buf_content (pc_out pc) @ write_message (Some (new_ext_handshake exts sz v))"
proof -
  let ?m = "Some (new_ext_handshake exts sz v)"
  obtain pc1 e1 where w: "conn_write pc ?m = (pc1, e1)" by (cases "conn_write pc ?m")
  obtain b e2 where f: "flush (pc_out pc1) = (b, e2)" by (cases "flush (pc_out pc1)")
  have h: "healthy (pc_out pc1)" "e1 = None" using conn_write_healthy [OF w assms(1)] by simp_all
  then have "e2 = None" using flush_healthy [of "pc_out pc1"] f by simp
  moreover have c: "buf_content (pc_out pc1) = buf_content (pc_out pc) @ write_message ?m" "pc_info pc1 = pc_info pc"
    using conn_write_content [OF w] h(2) by simp_all
  ultimately show ?thesis
    using assms(2) w f h(2) flush_empty [of "pc_out pc1" b]
    by (auto simp: exchange_ext_handshake_def conn_flush_def next_ext_payload_parse Let_def split: sum.splits prod.splits)
qed

section \<open>Properties\<close>

lemma from_conn_sends:
  assumes "from_conn ih pid c input = (c', Inr pc)"
  shows "nc_sent c' = nc_sent c @ write_handshake \<lparr>hs_info_hash = ih, hs_peer_id = pid, hs_reserved = replicate 8 0\<rparr>"
  using assms net_writer.send_handshake_content [of c _ c' None]
  by (auto simp: from_conn_def split: sum.splits option.splits prod.splits if_splits)

lemma from_conn_reads:
  assumes "from_conn ih pid c input = (c', Inr pc)"
  shows "\<exists>hs rest. read_handshake input = Inr (hs, rest) \<and> hs_info_hash hs = ih \<and>
    pc_info pc = \<lparr>cn_peer_id = hs_peer_id hs, cn_info_hash = ih, cn_reserved = hs_reserved hs, cn_input = rest\<rparr>"
  using assms
  by (auto simp: from_conn_def peer_conn_of_def split: sum.splits option.splits prod.splits if_splits)

text \<open>C13. Two ends of a connection. If one end opens it and sends a batch of messages, and the
  other end, reading what was sent, can open its side, then the info hashes agree and each knows the other's
  identifier; a batch that is sent without an error is read in full, message by message, with
  nothing left over; and wherever the sending breaks off (a reset, a deadline, a closed
  connection, with bytes still in the buffer), whatever the other end manages to read is a prefix of the batch.
\<close>

theorem conn_exchange:
  assumes "length ih = 20" "length ida = 20" "nc_sent ca = []" "from_conn ih ida ca input = (ca', Inr a)"
    and "\<forall>m \<in> set ms. msg_ok m" "conn_send a ms = (a', err)"
    and "from_conn ih' idb cb (nc_sent (bd_conn (pc_out a'))) = (cb', Inr b)"
  shows "ih' = ih \<and> cn_peer_id (pc_info b) = ida \<and> conn_supports_extensions b \<and>
    (err = None \<longrightarrow> (\<exists>b'. conn_reads (length ms) b = Inr (ms, b') \<and> cn_input (pc_info b') = [])) \<and>
    (\<forall>k ms' b'. conn_reads k b = Inr (ms', b') \<longrightarrow> prefix ms' ms)"
proof -
  let ?h = "\<lparr>hs_info_hash = ih, hs_peer_id = ida, hs_reserved = replicate 8 0\<rparr>"
  let ?sent = "nc_sent (bd_conn (pc_out a'))"
  let ?stream = "concat (map write_message ms)"
  have start: "buf_content (pc_out a) = write_handshake ?h"
    using from_conn_open(1) [OF assms(4)] from_conn_sends [OF assms(4)] assms(3) by (simp add: buf_content_def new_buffered_def)
  have ok: "handshake_ok ?h" using assms(1,2) by (simp add: handshake_ok_def)
  have len: "length (write_handshake ?h) = 68"
    using assms(1,2) by (simp add: write_handshake_def protocol_str_def)
  note sent = conn_send_content [OF assms(6), unfolded start]
  obtain hs rest where b: "read_handshake ?sent = Inr (hs, rest)" "hs_info_hash hs = ih'"
    "pc_info b = \<lparr>cn_peer_id = hs_peer_id hs, cn_info_hash = ih', cn_reserved = hs_reserved hs, cn_input = rest\<rparr>"
    using from_conn_reads [OF assms(7)] by blast
  then have "68 \<le> length ?sent" by (auto simp: read_handshake_def split: if_splits)
  then have "prefix (write_handshake ?h) ?sent"
    by (intro prefix_length_prefix [OF _ sent(1)]) (simp_all add: len)
  then obtain q where q: "?sent = write_handshake ?h @ q" "prefix q ?stream"
    using sent(1) by (auto simp: prefix_def)
  then have r: "hs = ?h\<lparr>hs_reserved := advertise (replicate 8 0)\<rparr>" "rest = q"
    using b(1) read_write_handshake [OF ok, of q] by simp_all
  have "\<exists>b'. conn_reads (length ms) b = Inr (ms, b') \<and> cn_input (pc_info b') = []" if "err = None"
  proof -
    have "q = ?stream" using sent(2) [OF that] q(1) by simp
    then show ?thesis using wire.decode_n_concat [OF assms(5), of "[]"] by (simp add: conn_reads_decode b(3) r)
  qed
  moreover have "prefix ms' ms" if "conn_reads k b = Inr (ms', b')" for k ms' b'
    using that truncated_stream [OF assms(5) q(2)] by (auto simp: conn_reads_decode b(3) r split: sum.splits prod.splits)
  ultimately show ?thesis
    using b(2,3) r supports_advertise [of "replicate 8 0"] by (simp add: conn_supports_extensions_def)
qed

lemma from_conn_new:
  assumes "length ih = 20" "length idb = 20"
  shows "\<exists>c' pc. from_conn ih ida (new_net_conn None) (write_handshake \<lparr>hs_info_hash = ih, hs_peer_id = idb, hs_reserved = replicate 8 0\<rparr> @ rest) =
    (c', Inr pc) \<and> healthy (pc_out pc)"
proof -
  let ?h = "\<lparr>hs_info_hash = ih, hs_peer_id = idb, hs_reserved = replicate 8 0\<rparr>"
  have "handshake_ok ?h" using assms by (simp add: handshake_ok_def)
  from read_write_handshake [OF this, of rest] show ?thesis
    by (simp add: from_conn_def send_handshake_open new_net_conn_def peer_conn_of_def healthy_def new_buffered_def)
qed

theorem conn_exchange_witness:
  "\<exists>a a' b. conn_send a [None, Some (new_have 7)] = (a', None) \<and>
    snd (from_conn (replicate 20 1) (replicate 20 3) (new_net_conn None) (nc_sent (bd_conn (pc_out a')))) = Inr b \<and>
    (\<exists>b'. conn_reads 2 b = Inr ([None, Some (new_have 7)], b'))"
proof -
  let ?ih = "replicate 20 (1 :: u8)" and ?ida = "replicate 20 (2 :: u8)" and ?idb = "replicate 20 (3 :: u8)"
  let ?ms = "[None, Some (new_have 7)]"
  let ?hs = "\<lambda>i. \<lparr>hs_info_hash = ?ih, hs_peer_id = i, hs_reserved = replicate 8 0\<rparr>"
  obtain ca a where a: "from_conn ?ih ?ida (new_net_conn None) (write_handshake (?hs ?idb) @ []) = (ca, Inr a)" "healthy (pc_out a)"
    using from_conn_new [of ?ih ?idb ?ida "[]"] by auto
  obtain a' where s: "conn_send a ?ms = (a', None)" using conn_send_healthy [OF a(2)] by blast
  have "buf_content (pc_out a) = write_handshake (?hs ?ida)"
    using from_conn_open(1) [OF a(1)] from_conn_sends [OF a(1)] by (simp add: buf_content_def new_buffered_def new_net_conn_def)
  then have "nc_sent (bd_conn (pc_out a')) = write_handshake (?hs ?ida) @ concat (map write_message ?ms)"
    using conn_send_content(2) [OF s] by simp
  then obtain cb b where b: "from_conn ?ih ?idb (new_net_conn None) (nc_sent (bd_conn (pc_out a'))) = (cb, Inr b)"
    using from_conn_new [of ?ih ?ida ?idb "concat (map write_message ?ms)"] by auto
  have ok: "\<forall>m \<in> set ?ms. msg_ok m" by (simp add: msg_ok_def new_have_def msg_def max_message_len_def)
  have "nc_sent (new_net_conn None) = []" by (simp add: new_net_conn_def)
  from conn_exchange [OF _ _ this a(1) ok s b] have "\<exists>b'. conn_reads (length ?ms) b = Inr (?ms, b')" by auto
  moreover have "length ?ms = 2" by simp
  ultimately have "\<exists>b'. conn_reads 2 b = Inr (?ms, b')" by (simp only:)
  then show ?thesis using s b by (metis snd_conv)
qed

section \<open>Where the documentation departs from the code\<close>

text \<open>\<open>FromConn\<close> sends the own handshake without waiting for the peer's: it is on the wire even if nothing, or
  the handshake of another torrent, is ever read.\<close>

lemma from_conn_sends_first:
  assumes "nc_room c = None" "\<not> nc_closed c"
  shows "nc_sent (fst (from_conn ih pid c input)) =
    nc_sent c @ write_handshake \<lparr>hs_info_hash = ih, hs_peer_id = pid, hs_reserved = replicate 8 0\<rparr>"
  using from_conn_handshake [OF assms] by (simp add: do_handshake_def)

end
