(* ===== verification/Picker.thy ===== *)
theory Picker
  imports Prelude
begin

text \<open>
  Rarest-first piece selection (\<open>download/picker.go\<close>): bitfields, the picker's state and
  operations, and the concurrent use of a picker by the workers of a swarm as a step
  relation. Its invariant shows that, outside of endgame, no piece is downloaded twice at the
  same time and none is lost, and that the frequencies count the connected peers.
\<close>

section \<open>Bitfields\<close>

definition has_piece :: "bytes \<Rightarrow> nat \<Rightarrow> bool" where
  "has_piece bf i =
     (if length bf \<le> i div 8 then False
      else (bf ! (i div 8)) AND push_bit (7 - i mod 8) 1 \<noteq> 0)"

text \<open>The loop of \<open>MakeBitfield\<close>: an index beyond the last byte panics.\<close>

primrec set_pieces :: "bytes \<Rightarrow> nat list \<Rightarrow> bytes res" where
  "set_pieces bf [] = Inr bf"
| "set_pieces bf (i # is) =
     (if length bf \<le> i div 8 then Inl Panic
      else set_pieces (bf[i div 8 := (bf ! (i div 8)) OR push_bit (7 - i mod 8) 1]) is)"

definition make_bitfield :: "nat \<Rightarrow> nat list \<Rightarrow> bytes res" where
  "make_bitfield num_pieces pieces = set_pieces (replicate ((num_pieces + 7) div 8) 0) pieces"

lemma has_piece_bit: "has_piece bf i \<longleftrightarrow> i div 8 < length bf \<and> bit (bf ! (i div 8)) (7 - i mod 8)"
  by (auto simp: has_piece_def bit_iff_and_push_bit_not_eq_0)

lemma piece_position_inj:
  assumes "i div 8 = j div 8" "7 - i mod 8 = 7 - j mod 8"
  shows "i = (j :: nat)"
proof -
  have "i mod 8 < 8" "j mod 8 < 8" by simp_all
  with assms(2) have "i mod 8 = j mod 8" by linarith
  with assms(1) show ?thesis by (metis div_mult_mod_eq)
qed

lemma has_piece_set:
  assumes "i div 8 < length bf"
  shows "has_piece (bf[i div 8 := (bf ! (i div 8)) OR push_bit (7 - i mod 8) 1]) j \<longleftrightarrow> has_piece bf j \<or> j = i"
proof (cases "j div 8 = i div 8")
  case True
  have "7 - j mod 8 < 8" by simp
  then have "bit ((bf ! (i div 8)) OR push_bit (7 - i mod 8) 1) (7 - j mod 8) \<longleftrightarrow>
      bit (bf ! (i div 8)) (7 - j mod 8) \<or> 7 - j mod 8 = 7 - i mod 8"
    by (auto simp: bit_simps)
  moreover have "7 - j mod 8 = 7 - i mod 8 \<longleftrightarrow> j = i" using True piece_position_inj by blast
  ultimately show ?thesis using True assms by (simp add: has_piece_bit)
next
  case False
  then show ?thesis using assms by (auto simp: has_piece_bit)
qed

lemma set_pieces_result:
  "\<forall>i \<in> set is. i div 8 < length bf \<Longrightarrow>
    \<exists>bf'. set_pieces bf is = Inr bf' \<and> length bf' = length bf \<and>
      (\<forall>j. has_piece bf' j \<longleftrightarrow> has_piece bf j \<or> j \<in> set is)"
proof (induction "is" arbitrary: bf)
  case (Cons i "is")
  let ?bf = "bf[i div 8 := (bf ! (i div 8)) OR push_bit (7 - i mod 8) 1]"
  have "\<forall>i \<in> set is. i div 8 < length ?bf" using Cons.prems by simp
  from Cons.IH [OF this] obtain bf' where "set_pieces ?bf is = Inr bf'" "length bf' = length bf"
    "\<forall>j. has_piece bf' j \<longleftrightarrow> has_piece ?bf j \<or> j \<in> set is" by auto
  then show ?case using Cons.prems has_piece_set [of i bf] by auto
qed simp

lemma has_piece_zeros: "\<not> has_piece (replicate n 0) j"
  by (simp add: has_piece_bit)

section \<open>The picker\<close>

record picker =
  pk_num :: nat
  pk_freq :: "int list"
  pk_done :: "bool list"
  pk_inflight :: "bool list"
  pk_endgame :: bool

definition new_picker :: "nat \<Rightarrow> picker" where
  "new_picker n = \<lparr>pk_num = n, pk_freq = replicate n 0, pk_done = replicate n False,
     pk_inflight = replicate n False, pk_endgame = False\<rparr>"

definition add_peer_bits :: "picker \<Rightarrow> bytes \<Rightarrow> picker" where
  "add_peer_bits p bf = p\<lparr>pk_freq :=
     map (\<lambda>i. if has_piece bf i then pk_freq p ! i + 1 else pk_freq p ! i) [0..<pk_num p]\<rparr>"

definition remove_peer_bits :: "picker \<Rightarrow> bytes \<Rightarrow> picker" where
  "remove_peer_bits p bf = p\<lparr>pk_freq :=
     map (\<lambda>i. if has_piece bf i then pk_freq p ! i - 1 else pk_freq p ! i) [0..<pk_num p]\<rparr>"

text \<open>The scan of \<open>Pick\<close>: the best frequency so far and the pieces that have it.\<close>

definition max_int :: int where
  "max_int = 2 ^ 63 - 1"

definition scan_step :: "picker \<Rightarrow> bytes \<Rightarrow> int \<times> nat list \<Rightarrow> nat \<Rightarrow> int \<times> nat list" where
  "scan_step p bf s i =
     (if pk_done p ! i then s
      else if pk_inflight p ! i \<and> \<not> pk_endgame p then s
      else if \<not> has_piece bf i then s
      else
        let f = pk_freq p ! i
        in if f < fst s then (f, [i])
           else if f = fst s then (f, snd s @ [i])
           else s)"

definition pick_candidates :: "picker \<Rightarrow> bytes \<Rightarrow> nat list" where
  "pick_candidates p bf = snd (foldl (scan_step p bf) (max_int, []) [0..<pk_num p])"

definition endgame_candidates :: "picker \<Rightarrow> bytes \<Rightarrow> nat list" where
  "endgame_candidates p bf =
     filter (\<lambda>i. \<not> (pk_done p ! i \<or> \<not> pk_inflight p ! i) \<and> has_piece bf i) [0..<pk_num p]"

definition should_enter_endgame :: "picker \<Rightarrow> bool" where
  "should_enter_endgame p \<longleftrightarrow>
     (\<forall>i \<in> set [0..<pk_num p]. \<not> (\<not> pk_done p ! i \<and> \<not> pk_inflight p ! i)) \<and>
     (\<exists>d \<in> set (pk_done p). \<not> d)"

text \<open>\<open>rnd\<close> is the random number of \<open>rand.IntN\<close>, taken modulo its argument here.\<close>

definition pick_endgame :: "nat \<Rightarrow> picker \<Rightarrow> bytes \<Rightarrow> nat option" where
  "pick_endgame rnd p bf =
     (let cs = endgame_candidates p bf in if cs = [] then None else Some (cs ! (rnd mod length cs)))"

definition pick :: "nat \<Rightarrow> picker \<Rightarrow> bytes \<Rightarrow> picker \<times> nat option" where
  "pick rnd p bf =
     (let cs = pick_candidates p bf
      in if cs = [] then
           (if \<not> pk_endgame p \<and> should_enter_endgame p then
              let p = p\<lparr>pk_endgame := True\<rparr> in (p, pick_endgame rnd p bf)
            else (p, None))
         else
           let c = cs ! (rnd mod length cs)
           in (p\<lparr>pk_inflight := (pk_inflight p)[c := True]\<rparr>, Some c))"

definition finish :: "picker \<Rightarrow> nat \<Rightarrow> picker" where
  "finish p i = p\<lparr>pk_done := (pk_done p)[i := True], pk_inflight := (pk_inflight p)[i := False]\<rparr>"

definition abort :: "picker \<Rightarrow> nat \<Rightarrow> picker" where
  "abort p i = p\<lparr>pk_inflight := (pk_inflight p)[i := False]\<rparr>"

definition is_done :: "picker \<Rightarrow> nat \<Rightarrow> bool" where
  "is_done p i \<longleftrightarrow> pk_done p ! i"

definition all_done :: "picker \<Rightarrow> bool" where
  "all_done p \<longleftrightarrow> (\<forall>d \<in> set (pk_done p). d)"

definition remaining :: "picker \<Rightarrow> nat" where
  "remaining p = length (filter (\<lambda>d. \<not> d) (pk_done p))"

definition picker_ok :: "picker \<Rightarrow> bool" where
  "picker_ok p \<longleftrightarrow> length (pk_freq p) = pk_num p \<and> length (pk_done p) = pk_num p \<and>
     length (pk_inflight p) = pk_num p \<and> (\<forall>i < pk_num p. \<not> (pk_done p ! i \<and> pk_inflight p ! i))"

section \<open>What a pick returns\<close>

text \<open>The pieces that a normal pick may return to a peer.\<close>

definition eligible :: "picker \<Rightarrow> bytes \<Rightarrow> nat \<Rightarrow> bool" where
  "eligible p bf i \<longleftrightarrow> i < pk_num p \<and> \<not> pk_done p ! i \<and> (pk_inflight p ! i \<longrightarrow> pk_endgame p) \<and> has_piece bf i"

definition best_freq :: "picker \<Rightarrow> bytes \<Rightarrow> nat list \<Rightarrow> int" where
  "best_freq p bf is = Min (insert max_int ((\<lambda>i. pk_freq p ! i) ` set (filter (eligible p bf) is)))"

lemma best_freq_le: "i \<in> set is \<Longrightarrow> eligible p bf i \<Longrightarrow> best_freq p bf is \<le> pk_freq p ! i"
  by (auto simp: best_freq_def)

lemma best_freq_snoc:
  "best_freq p bf (is @ [k]) =
    (if eligible p bf k then min (pk_freq p ! k) (best_freq p bf is) else best_freq p bf is)"
proof (cases "eligible p bf k")
  case True
  then have "insert max_int ((\<lambda>i. pk_freq p ! i) ` set (filter (eligible p bf) (is @ [k]))) =
      insert (pk_freq p ! k) (insert max_int ((\<lambda>i. pk_freq p ! i) ` set (filter (eligible p bf) is)))"
    by auto
  with True show ?thesis unfolding best_freq_def by (simp only: if_True) (subst Min_insert; simp)
qed (simp add: best_freq_def)

lemma scan_result:
  assumes "\<forall>i \<in> set is. i < pk_num p"
  shows "foldl (scan_step p bf) (max_int, []) is =
    (best_freq p bf is, filter (\<lambda>i. eligible p bf i \<and> pk_freq p ! i = best_freq p bf is) is)"
  using assms
proof (induction "is" rule: rev_induct)
  case Nil
  then show ?case by (simp add: best_freq_def)
next
  case (snoc k "is")
  show ?case
  proof (cases "eligible p bf k")
    case False
    then have "scan_step p bf s k = s" for s
      using snoc.prems by (auto simp: eligible_def scan_step_def)
    with snoc False show ?thesis by (simp add: best_freq_snoc)
  next
    case True
    then have step: "scan_step p bf s k = (let f = pk_freq p ! k in if f < fst s then (f, [k])
        else if f = fst s then (f, snd s @ [k]) else s)" for s
      by (auto simp: eligible_def scan_step_def)
    have none: "filter (\<lambda>i. eligible p bf i \<and> pk_freq p ! i = pk_freq p ! k) is = []"
      if "pk_freq p ! k < best_freq p bf is"
      using that best_freq_le [of _ "is" p bf] by (fastforce simp: filter_empty_conv)
    show ?thesis
      using snoc True none by (auto simp: step best_freq_snoc Let_def min_def)
  qed
qed

lemma set_pick_candidates:
  assumes "\<forall>i < pk_num p. pk_freq p ! i \<le> max_int"
  shows "i \<in> set (pick_candidates p bf) \<longleftrightarrow> eligible p bf i \<and>
    (\<forall>j. eligible p bf j \<longrightarrow> pk_freq p ! i \<le> pk_freq p ! j)"
proof -
  let ?is = "[0..<pk_num p]" and ?m = "best_freq p bf [0..<pk_num p]"
  have c: "pick_candidates p bf = filter (\<lambda>i. eligible p bf i \<and> pk_freq p ! i = ?m) ?is"
    by (simp add: pick_candidates_def scan_result)
  have el: "eligible p bf j \<Longrightarrow> j \<in> set ?is" for j by (simp add: eligible_def)
  show ?thesis
  proof
    assume "i \<in> set (pick_candidates p bf)"
    then show "eligible p bf i \<and> (\<forall>j. eligible p bf j \<longrightarrow> pk_freq p ! i \<le> pk_freq p ! j)"
      using best_freq_le [OF el] by (auto simp: c)
  next
    assume i: "eligible p bf i \<and> (\<forall>j. eligible p bf j \<longrightarrow> pk_freq p ! i \<le> pk_freq p ! j)"
    then have "pk_freq p ! i \<le> max_int" using assms by (simp add: eligible_def)
    then have "pk_freq p ! i \<le> ?m" using i by (auto simp: best_freq_def)
    then have "pk_freq p ! i = ?m" using i el best_freq_le [of i ?is p bf] by force
    then show "i \<in> set (pick_candidates p bf)" using i el by (simp add: c)
  qed
qed

lemma pick_candidates_Nil:
  assumes "\<forall>i < pk_num p. pk_freq p ! i \<le> max_int"
  shows "pick_candidates p bf = [] \<longleftrightarrow> (\<forall>i. \<not> eligible p bf i)"
proof
  assume none: "pick_candidates p bf = []"
  show "\<forall>i. \<not> eligible p bf i"
  proof (rule ccontr)
    assume "\<not> ?thesis"
    then obtain i where "eligible p bf i" by blast
    moreover have fin: "finite {i. eligible p bf i}"
      by (rule finite_subset [of _ "{..<pk_num p}"]) (auto simp: eligible_def)
    ultimately have "Min ((\<lambda>i. pk_freq p ! i) ` {i. eligible p bf i}) \<in>
        (\<lambda>i. pk_freq p ! i) ` {i. eligible p bf i}"
      by (intro Min_in) auto
    then obtain j where "eligible p bf j"
      "pk_freq p ! j = Min ((\<lambda>i. pk_freq p ! i) ` {i. eligible p bf i})" by auto
    with fin have "eligible p bf j \<and> (\<forall>k. eligible p bf k \<longrightarrow> pk_freq p ! j \<le> pk_freq p ! k)"
      by simp
    with none set_pick_candidates [OF assms, of j bf] show False by simp
  qed
next
  assume "\<forall>i. \<not> eligible p bf i"
  then show "pick_candidates p bf = []"
    using set_pick_candidates [OF assms, of _ bf] by (metis list.set_intros(1) neq_Nil_conv)
qed

lemma set_endgame_candidates:
  "i \<in> set (endgame_candidates p bf) \<longleftrightarrow>
    i < pk_num p \<and> \<not> pk_done p ! i \<and> pk_inflight p ! i \<and> has_piece bf i"
  by (auto simp: endgame_candidates_def)

lemma nth_mod_mem: "xs \<noteq> [] \<Longrightarrow> xs ! (n mod length xs) \<in> set xs"
  by simp

text \<open>The outcomes of a pick.\<close>

lemma pick_cases:
  assumes "\<forall>i < pk_num p. pk_freq p ! i \<le> max_int"
  obtains (normal) i where "pick rnd p bf = (p\<lparr>pk_inflight := (pk_inflight p)[i := True]\<rparr>, Some i)"
      "eligible p bf i" "\<forall>j. eligible p bf j \<longrightarrow> pk_freq p ! i \<le> pk_freq p ! j"
  | (duplicate) i where "pick rnd p bf = (p\<lparr>pk_endgame := True\<rparr>, Some i)" "\<forall>j. \<not> eligible p bf j"
      "should_enter_endgame p" "\<not> pk_endgame p" "i \<in> set (endgame_candidates p bf)"
  | (no_piece) e where "pick rnd p bf = (p\<lparr>pk_endgame := e\<rparr>, None)" "\<forall>j. \<not> eligible p bf j"
      "e \<longleftrightarrow> pk_endgame p \<or> should_enter_endgame p" "pk_endgame p \<or> e \<longrightarrow> endgame_candidates p bf = []"
proof (cases "pick_candidates p bf = []")
  case False
  let ?i = "pick_candidates p bf ! (rnd mod length (pick_candidates p bf))"
  have "?i \<in> set (pick_candidates p bf)" using False by (rule nth_mod_mem)
  then have "eligible p bf ?i" "\<forall>j. eligible p bf j \<longrightarrow> pk_freq p ! ?i \<le> pk_freq p ! j"
    using set_pick_candidates [OF assms] by blast+
  moreover have "pick rnd p bf = (p\<lparr>pk_inflight := (pk_inflight p)[?i := True]\<rparr>, Some ?i)"
    using False by (simp add: pick_def Let_def)
  ultimately show thesis using normal by blast
next
  case True
  then have none: "\<forall>j. \<not> eligible p bf j" using pick_candidates_Nil [OF assms] by blast
  show thesis
  proof (cases "\<not> pk_endgame p \<and> should_enter_endgame p")
    case False
    have r: "pick rnd p bf = (p\<lparr>pk_endgame := pk_endgame p\<rparr>, None)" using True False by (auto simp: pick_def)
    have c: "endgame_candidates p bf = []" if "pk_endgame p"
      using none that set_endgame_candidates [of _ p bf]
      by (metis eligible_def list.set_intros(1) neq_Nil_conv)
    have d: "pk_endgame p \<longleftrightarrow> pk_endgame p \<or> should_enter_endgame p" using False by blast
    have e: "pk_endgame p \<or> pk_endgame p \<longrightarrow> endgame_candidates p bf = []" using c by blast
    show thesis by (rule no_piece) (rule r none d e)+
  next
    case e: True
    let ?p = "p\<lparr>pk_endgame := True\<rparr>"
    have cs: "endgame_candidates ?p bf = endgame_candidates p bf" by (simp add: endgame_candidates_def)
    show thesis
    proof (cases "endgame_candidates p bf = []")
      case c: True
      then have r: "pick rnd p bf = (?p, None)" using True e by (simp add: pick_def pick_endgame_def Let_def cs)
      have d: "True \<longleftrightarrow> pk_endgame p \<or> should_enter_endgame p" using e by blast
      have n: "pk_endgame p \<or> True \<longrightarrow> endgame_candidates p bf = []" using c by blast
      show thesis by (rule no_piece) (rule r none d n)+
    next
      case c: False
      let ?i = "endgame_candidates p bf ! (rnd mod length (endgame_candidates p bf))"
      have "pick rnd p bf = (?p, Some ?i)" using True e c by (simp add: pick_def pick_endgame_def Let_def cs)
      then show thesis using duplicate none e nth_mod_mem [OF c] by blast
    qed
  qed
qed

lemma nth_update_if: "xs[i := x] ! j = (if i = j \<and> i < length xs then x else xs ! j)"
  by (cases "i < length xs") (simp_all add: nth_list_update list_update_beyond)

lemma picker_ok_inflight:
  "picker_ok p \<Longrightarrow> \<not> pk_done p ! i \<Longrightarrow> picker_ok (p\<lparr>pk_inflight := (pk_inflight p)[i := True]\<rparr>)"
  by (auto simp: picker_ok_def nth_update_if)

lemma pick_ok [inv_intros]:
  assumes "picker_ok p" "\<forall>i < pk_num p. pk_freq p ! i \<le> max_int"
  shows "picker_ok (fst (pick rnd p bf))"
  using assms(2)
proof (cases rule: pick_cases [of p rnd bf])
  case (normal i)
  then show ?thesis using assms(1) picker_ok_inflight by (simp add: eligible_def)
qed (use assms(1) in \<open>simp_all add: picker_ok_def\<close>)

lemma finish_ok [inv_intros]: "picker_ok p \<Longrightarrow> picker_ok (finish p i)"
  by (auto simp: picker_ok_def finish_def nth_update_if)

lemma abort_ok [inv_intros]: "picker_ok p \<Longrightarrow> picker_ok (abort p i)"
  by (auto simp: picker_ok_def abort_def nth_update_if)

section \<open>A swarm of workers\<close>

text \<open>
  The bitfields of the connected peers, and the piece that each worker downloads. The steps
  are the atomic operations of the picker as the workers of a session call them.
\<close>

record swarm =
  sw_picker :: picker
  sw_peers :: "bytes multiset"
  sw_jobs :: "nat \<rightharpoonup> nat"

inductive swarm_step :: "swarm \<Rightarrow> swarm \<Rightarrow> bool" where
  join: "swarm_step s (s\<lparr>sw_picker := add_peer_bits (sw_picker s) bf, sw_peers := add_mset bf (sw_peers s)\<rparr>)"
| leave: "bf \<in># sw_peers s \<Longrightarrow>
    swarm_step s (s\<lparr>sw_picker := remove_peer_bits (sw_picker s) bf, sw_peers := sw_peers s - {#bf#}\<rparr>)"
| pick: "sw_jobs s w = None \<Longrightarrow> pick rnd (sw_picker s) bf = (p, r) \<Longrightarrow>
    swarm_step s (s\<lparr>sw_picker := p, sw_jobs := (sw_jobs s)(w := r)\<rparr>)"
| finish: "sw_jobs s w = Some i \<Longrightarrow>
    swarm_step s (s\<lparr>sw_picker := finish (sw_picker s) i, sw_jobs := (sw_jobs s)(w := None)\<rparr>)"
| abort: "sw_jobs s w = Some i \<Longrightarrow>
    swarm_step s (s\<lparr>sw_picker := abort (sw_picker s) i, sw_jobs := (sw_jobs s)(w := None)\<rparr>)"

inductive_cases swarm_stepE: "swarm_step s s'"

inductive swarm_reach :: "nat \<Rightarrow> swarm \<Rightarrow> bool" for n where
  start: "swarm_reach n \<lparr>sw_picker = new_picker n, sw_peers = {#}, sw_jobs = (\<lambda>_. None)\<rparr>"
| step: "swarm_reach n s \<Longrightarrow> swarm_step s s' \<Longrightarrow> size (sw_peers s') < 2 ^ 62 \<Longrightarrow> swarm_reach n s'"

definition peer_count :: "bytes multiset \<Rightarrow> nat \<Rightarrow> nat" where
  "peer_count peers i = size (filter_mset (\<lambda>bf. has_piece bf i) peers)"

definition swarm_ok :: "nat \<Rightarrow> swarm \<Rightarrow> bool" where
  "swarm_ok n s \<longleftrightarrow> picker_ok (sw_picker s) \<and> pk_num (sw_picker s) = n \<and> size (sw_peers s) < 2 ^ 62 \<and>
     (\<forall>i < n. pk_freq (sw_picker s) ! i = int (peer_count (sw_peers s) i)) \<and>
     (\<forall>w i. sw_jobs s w = Some i \<longrightarrow> i < n) \<and>
     (\<forall>i < n. pk_inflight (sw_picker s) ! i \<longrightarrow> (\<exists>w. sw_jobs s w = Some i)) \<and>
     (\<not> pk_endgame (sw_picker s) \<longrightarrow>
        (\<forall>w i. sw_jobs s w = Some i \<longrightarrow> pk_inflight (sw_picker s) ! i) \<and>
        (\<forall>v w i. sw_jobs s v = Some i \<longrightarrow> sw_jobs s w = Some i \<longrightarrow> v = w))"

lemma peer_count_add: "peer_count (add_mset bf M) i = peer_count M i + (if has_piece bf i then 1 else 0)"
  by (simp add: peer_count_def)

lemma peer_count_remove:
  assumes "bf \<in># M"
  shows "int (peer_count (M - {#bf#}) i) = int (peer_count M i) - (if has_piece bf i then 1 else 0)"
proof -
  obtain N where "M = add_mset bf N" using assms by (metis insert_DiffM)
  then show ?thesis by (simp add: peer_count_add)
qed

lemma swarm_freq_small:
  assumes "swarm_ok n s"
  shows "\<forall>i < pk_num (sw_picker s). pk_freq (sw_picker s) ! i \<le> max_int"
proof (intro allI impI)
  fix i assume "i < pk_num (sw_picker s)"
  then have "pk_freq (sw_picker s) ! i = int (peer_count (sw_peers s) i)"
    using assms by (simp add: swarm_ok_def)
  also have "\<dots> \<le> int (size (sw_peers s))" by (simp add: peer_count_def size_filter_mset_lesseq)
  also have "\<dots> \<le> max_int" using assms by (simp add: swarm_ok_def max_int_def)
  finally show "pk_freq (sw_picker s) ! i \<le> max_int" .
qed

lemma swarm_ok_step:
  assumes "swarm_step s s'" "swarm_ok n s" "size (sw_peers s') < 2 ^ 62"
  shows "swarm_ok n s'"
  using assms
proof (induction rule: swarm_step.induct)
  case (join s bf)
  then show ?case
    by (simp add: swarm_ok_def add_peer_bits_def picker_ok_def peer_count_add)
next
  case (leave bf s)
  then show ?case
    by (simp add: swarm_ok_def remove_peer_bits_def picker_ok_def peer_count_remove size_Diff_singleton)
next
  case (pick s w rnd bf p r)
  let ?p = "sw_picker s"
  have ok: "picker_ok p"
    using pick_ok [of ?p rnd bf] pick.hyps(2) pick.prems(1) swarm_freq_small [OF pick.prems(1)]
    by (simp add: swarm_ok_def)
  have len: "length (pk_inflight ?p) = n" using pick.prems(1) by (simp add: swarm_ok_def picker_ok_def)
  have keep: "\<exists>v. ((sw_jobs s)(w := r)) v = Some i" if "\<exists>v. sw_jobs s v = Some i" for i
    using that pick.hyps(1) by (metis fun_upd_other option.distinct(1))
  show ?case
    using swarm_freq_small [OF pick.prems(1)]
  proof (cases rule: pick_cases [of ?p rnd bf])
    case (normal i)
    then have p: "p = ?p\<lparr>pk_inflight := (pk_inflight ?p)[i := True]\<rparr>" "r = Some i"
      using pick.hyps(2) by simp_all
    have i: "i < n" "pk_inflight ?p ! i \<longrightarrow> pk_endgame ?p"
      using normal(2) pick.prems(1) by (simp_all add: eligible_def swarm_ok_def)
    have fresh: "sw_jobs s v \<noteq> Some i" if "\<not> pk_endgame ?p" for v
      using that i(2) pick.prems(1) by (auto simp: swarm_ok_def)
    show ?thesis
      using pick.prems ok pick.hyps(1) keep i(1) fresh len unfolding swarm_ok_def p
      by (auto simp: nth_list_update split: if_splits)
  next
    case (duplicate i)
    then have "p = ?p\<lparr>pk_endgame := True\<rparr>" "r = Some i" "i < n"
      using pick.hyps(2) pick.prems(1) by (simp_all add: set_endgame_candidates swarm_ok_def)
    then show ?thesis using pick.prems ok keep by (auto simp: swarm_ok_def split: if_splits)
  next
    case (no_piece e)
    then have "p = ?p\<lparr>pk_endgame := e\<rparr>" "r = None" "pk_endgame ?p \<longrightarrow> e"
      using pick.hyps(2) by simp_all
    then show ?thesis using pick.prems ok keep pick.hyps(1) by (auto simp: swarm_ok_def split: if_splits)
  qed
next
  case (finish s w i)
  have keep: "\<exists>v. v \<noteq> w \<and> (v \<noteq> w \<longrightarrow> sw_jobs s v = Some j)"
    if j: "pk_inflight (sw_picker s) ! j" "j < n" "i \<noteq> j" for j
  proof -
    obtain v where "sw_jobs s v = Some j" using j finish.prems(1) unfolding swarm_ok_def by blast
    then show ?thesis using j(3) finish.hyps by (intro exI [of _ v]) auto
  qed
  have "swarm_ok n s" by (rule finish.prems)
  then show ?case
    using finish_ok [of "sw_picker s" i] finish.hyps
    unfolding swarm_ok_def
    by (auto simp: finish_def nth_update_if picker_ok_def intro!: keep split: if_splits)
next
  case (abort s w i)
  have keep: "\<exists>v. v \<noteq> w \<and> (v \<noteq> w \<longrightarrow> sw_jobs s v = Some j)"
    if j: "pk_inflight (sw_picker s) ! j" "j < n" "i \<noteq> j" for j
  proof -
    obtain v where "sw_jobs s v = Some j" using j abort.prems(1) unfolding swarm_ok_def by blast
    then show ?thesis using j(3) abort.hyps by (intro exI [of _ v]) auto
  qed
  have "swarm_ok n s" by (rule abort.prems)
  then show ?case
    using abort_ok [of "sw_picker s" i] abort.hyps
    unfolding swarm_ok_def
    by (auto simp: abort_def nth_update_if picker_ok_def intro!: keep split: if_splits)
qed

lemma swarm_reach_ok: "swarm_reach n s \<Longrightarrow> swarm_ok n s"
proof (induction rule: swarm_reach.induct)
  case start
  then show ?case by (simp add: swarm_ok_def new_picker_def picker_ok_def peer_count_def)
next
  case (step s s')
  show ?case by (rule swarm_ok_step [OF step.hyps(2) step.IH step.hyps(3)])
qed

section \<open>Properties\<close>

text \<open>
  C8. Under any interleaving of peers that join and leave and workers that pick, finish and
  abort pieces: the frequency of a piece is the number of connected peers that have it; a
  piece in flight is neither done nor without a worker; and until endgame starts, every job
  is in flight and no two workers download the same piece.
\<close>

theorem swarm_safe:
  assumes "swarm_reach n s"
  shows "(\<forall>i < n. pk_freq (sw_picker s) ! i = int (peer_count (sw_peers s) i)) \<and>
    (\<forall>i < n. pk_inflight (sw_picker s) ! i \<longrightarrow>
       \<not> pk_done (sw_picker s) ! i \<and> (\<exists>w. sw_jobs s w = Some i)) \<and>
    (\<not> pk_endgame (sw_picker s) \<longrightarrow>
       (\<forall>w i. sw_jobs s w = Some i \<longrightarrow> pk_inflight (sw_picker s) ! i) \<and>
       (\<forall>v w i. sw_jobs s v = Some i \<longrightarrow> sw_jobs s w = Some i \<longrightarrow> v = w))"
  using swarm_reach_ok [OF assms] unfolding swarm_ok_def picker_ok_def by blast

definition ex_swarm :: swarm where
  "ex_swarm = \<lparr>sw_picker = add_peer_bits (new_picker 3) [0xA0], sw_peers = {#[0xA0]#}, sw_jobs = (\<lambda>_. None)\<rparr>"

theorem swarm_safe_witness: "pk_freq (sw_picker ex_swarm) ! 2 = int (peer_count (sw_peers ex_swarm) 2)"
proof -
  have "swarm_reach 3 ex_swarm"
    using swarm_reach.step [OF swarm_reach.start swarm_step.join, of "[0xA0]"]
    by (simp add: ex_swarm_def)
  then show ?thesis using swarm_safe by fastforce
qed

text \<open>
  C22. \<open>Pick\<close> returns a missing piece that the peer has: the rarest one among the eligible
  ones or, when none is left and all missing pieces are in flight, a piece in flight on
  entering endgame. It returns nothing only if every missing piece of the peer is in flight
  and the picker is not in endgame.
\<close>

theorem pick_spec:
  assumes "picker_ok p" "\<forall>i < pk_num p. pk_freq p ! i \<le> max_int" "pick rnd p bf = (p', r)"
  shows "picker_ok p' \<and>
    (\<forall>i. r = Some i \<longrightarrow> i < pk_num p \<and> \<not> pk_done p ! i \<and> has_piece bf i \<and> pk_inflight p' ! i \<and>
       (eligible p bf i \<and> (\<forall>j. eligible p bf j \<longrightarrow> pk_freq p ! i \<le> pk_freq p ! j) \<or>
        (\<forall>j. \<not> eligible p bf j) \<and> pk_inflight p ! i \<and> should_enter_endgame p \<and> pk_endgame p')) \<and>
    (r = None \<longrightarrow> (\<forall>i < pk_num p. has_piece bf i \<longrightarrow> pk_done p ! i \<or>
       pk_inflight p ! i \<and> \<not> pk_endgame p'))"
  using assms(2)
proof (cases rule: pick_cases [of p rnd bf])
  case (normal i)
  then show ?thesis
    using assms(1,3) picker_ok_inflight [of p i] by (auto simp: eligible_def nth_update_if picker_ok_def)
next
  case (duplicate i)
  then show ?thesis using assms(1,3) by (auto simp: set_endgame_candidates picker_ok_def)
next
  case (no_piece e)
  then have "r = None" "p' = p\<lparr>pk_endgame := e\<rparr>" using assms(3) by simp_all
  moreover have "pk_done p ! i \<or> pk_inflight p ! i \<and> \<not> e" if "i < pk_num p" "has_piece bf i" for i
    using no_piece(2,4) that set_endgame_candidates [of i p bf] by (auto simp: eligible_def)
  ultimately show ?thesis using assms(1) by (auto simp: picker_ok_def)
qed

theorem pick_spec_witness: "picker_ok (fst (pick 5 (new_picker 3) [0xA0]))"
proof -
  have "picker_ok (new_picker 3)" "\<forall>i < pk_num (new_picker 3). pk_freq (new_picker 3) ! i \<le> max_int"
    by (simp_all add: picker_ok_def new_picker_def max_int_def)
  from pick_spec [OF this prod.collapse [symmetric]] show ?thesis by blast
qed

text \<open>
  \<open>MakeBitfield\<close> sets the bits of the given pieces and no others, in the order that
  \<open>hasPiece\<close> reads, and panics on a piece beyond the last byte.
\<close>

theorem make_bitfield_spec:
  shows "(if \<forall>i \<in> set pieces. i div 8 < (num_pieces + 7) div 8
     then \<exists>bf. make_bitfield num_pieces pieces = Inr bf \<and> length bf = (num_pieces + 7) div 8 \<and>
       (\<forall>i. has_piece bf i \<longleftrightarrow> i \<in> set pieces)
     else make_bitfield num_pieces pieces = Inl Panic)"
proof -
  have panic: "\<exists>i \<in> set is. length bf \<le> i div 8 \<Longrightarrow> set_pieces bf is = Inl Panic" for bf "is"
  proof (induction "is" arbitrary: bf)
    case (Cons i "is")
    show ?case
    proof (cases "length bf \<le> i div 8")
      case False
      with Cons.prems have "\<exists>j \<in> set is. length bf \<le> j div 8" by auto
      then have "set_pieces (bf[i div 8 := x]) is = Inl Panic" for x by (intro Cons.IH) simp
      with False show ?thesis by simp
    qed simp
  qed simp
  show ?thesis
    using set_pieces_result [of pieces "replicate ((num_pieces + 7) div 8) 0"]
      panic [of pieces "replicate ((num_pieces + 7) div 8) 0"]
    by (auto simp: make_bitfield_def has_piece_zeros not_less)
qed

end
