(* ===== verification/Piece.thy ===== *)
theory Piece
  imports PeerWire Picker
begin

text \<open>
  Download of one piece over a connection (\<open>download/piece.go\<close>): the plan of block requests,
  the negotiation of the unchoke, and the loop that collects blocks and checks the hash. The
  plan tiles the piece; blocks that arrive in any order, between any other messages, give the
  piece back; and nothing is returned whose hash is not the expected one.
\<close>

section \<open>The plan of requests\<close>

definition block_size :: nat where
  "block_size = 16384"

definition block_count :: "nat \<Rightarrow> nat" where
  "block_count piece_length =
     (let n = piece_length div block_size in if piece_length mod block_size \<noteq> 0 then n + 1 else n)"

text \<open>Begin and length of the \<open>i\<close>-th request.\<close>

definition block_at :: "nat \<Rightarrow> nat \<Rightarrow> nat \<times> nat" where
  "block_at piece_length i =
     (let b = i * block_size
      in (b, if piece_length < b + block_size then piece_length - b else block_size))"

definition block_plan :: "nat \<Rightarrow> (nat \<times> nat) list" where
  "block_plan piece_length = map (block_at piece_length) [0..<block_count piece_length]"

definition block_requests :: "nat \<Rightarrow> nat \<Rightarrow> wire_msg list" where
  "block_requests index piece_length =
     map (\<lambda>(b, l). new_request (of_nat index) (of_nat b) (of_nat l)) (block_plan piece_length)"

section \<open>Full bitfields and the unchoke\<close>

text \<open>A \<open>nil\<close> bitfield is \<open>None\<close>.\<close>

definition make_full_bitfield :: "nat \<Rightarrow> bytes option" where
  "make_full_bitfield num_pieces =
     (if num_pieces = 0 then None
      else
        let num_bytes = (num_pieces + 7) div 8;
            bf = replicate num_bytes 0xFF;
            spare = num_bytes * 8 - num_pieces
        in Some (if 0 < spare then bf[num_bytes - 1 := push_bit spare 0xFF] else bf))"

function negotiate_unchoke :: "nat \<Rightarrow> bytes option \<Rightarrow> bytes \<Rightarrow> (bytes option \<times> bytes) res" where
  "negotiate_unchoke num_pieces bitfield input =
     (case read_message input of
        Inl e \<Rightarrow> Inl e
      | Inr (None, rest) \<Rightarrow> negotiate_unchoke num_pieces bitfield rest
      | Inr (Some m, rest) \<Rightarrow>
          if wm_id m = msg_id_of ''unchoke'' then
            Inr (if bitfield = None then make_full_bitfield num_pieces else bitfield, rest)
          else if wm_id m = msg_id_of ''bitfield'' then
            negotiate_unchoke num_pieces (Some (wm_payload m)) rest
          else if wm_id m = msg_id_of ''have_all'' then
            negotiate_unchoke num_pieces (make_full_bitfield num_pieces) rest
          else if wm_id m = msg_id_of ''have_none'' then negotiate_unchoke num_pieces None rest
          else if wm_id m = msg_id_of ''choke'' then Inl (Fail ''peer choked us'')
          else negotiate_unchoke num_pieces bitfield rest)"
  by pat_completeness auto

termination
  by (relation "measure (\<lambda>(n, b, input). length input)") (auto dest: wire_reader.dec_shorter)

declare negotiate_unchoke.simps [simp del]

section \<open>Collecting the blocks\<close>

text \<open>\<open>copy(buf[off:], block)\<close> for a block that fits.\<close>

definition copy_at :: "bytes \<Rightarrow> nat \<Rightarrow> bytes \<Rightarrow> bytes" where
  "copy_at buf off block = take off buf @ block @ drop (off + length block) buf"

text \<open>One \<open>Piece\<close> message: the checks of \<open>downloadBlocks\<close>, then the copy.\<close>

definition store_block :: "nat \<Rightarrow> nat \<Rightarrow> bytes \<Rightarrow> bytes \<Rightarrow> bytes res" where
  "store_block index piece_length buf payload =
     (case parse_piece payload of
        Inl e \<Rightarrow> Inl e
      | Inr pp \<Rightarrow>
          if unat (pp_index pp) \<noteq> index then Inl (Fail ''wrong piece index'')
          else if piece_length < unat (pp_begin pp) + length (pp_block pp)
          then Inl (Fail ''block overflows piece'')
          else Inr (copy_at buf (unat (pp_begin pp)) (pp_block pp)))"

function collect_blocks ::
  "nat \<Rightarrow> nat \<Rightarrow> nat \<Rightarrow> bytes \<Rightarrow> bytes \<Rightarrow> (bytes \<times> bytes) res" where
  "collect_blocks index piece_length missing buf input =
     (if missing = 0 then Inr (buf, input)
      else case read_message input of
        Inl e \<Rightarrow> Inl e
      | Inr (None, rest) \<Rightarrow> collect_blocks index piece_length missing buf rest
      | Inr (Some m, rest) \<Rightarrow>
          if wm_id m = msg_id_of ''piece'' then
            (case store_block index piece_length buf (wm_payload m) of
               Inl e \<Rightarrow> Inl e
             | Inr buf' \<Rightarrow> collect_blocks index piece_length (missing - 1) buf' rest)
          else if wm_id m = msg_id_of ''choke'' then Inl (Fail ''peer choked us'')
          else collect_blocks index piece_length missing buf rest)"
  by pat_completeness auto

termination
  by (relation "measure (\<lambda>(i, p, m, b, input). length input)") (auto dest: wire_reader.dec_shorter)

declare collect_blocks.simps [simp del]

definition download_blocks :: "nat \<Rightarrow> nat \<Rightarrow> bytes \<Rightarrow> (bytes \<times> bytes) res" where
  "download_blocks index piece_length input =
     collect_blocks index piece_length (block_count piece_length) (replicate piece_length 0) input"

definition download_and_verify ::
  "(bytes \<Rightarrow> bytes) \<Rightarrow> nat \<Rightarrow> nat \<Rightarrow> bytes \<Rightarrow> bytes \<Rightarrow> (bytes \<times> bytes) res" where
  "download_and_verify sha1 index piece_length expected_hash input =
     (case download_blocks index piece_length input of
        Inl e \<Rightarrow> Inl e
      | Inr (buf, rest) \<Rightarrow>
          if sha1 buf \<noteq> expected_hash then Inl (Fail ''hash mismatch'') else Inr (buf, rest))"

text \<open>\<open>Piece\<close>: what is written to the peer, and the result.\<close>

definition piece :: "(bytes \<Rightarrow> bytes) \<Rightarrow> nat \<Rightarrow> nat \<Rightarrow> bytes \<Rightarrow> bytes \<Rightarrow> (bytes \<times> bytes) res" where
  "piece sha1 index piece_length expected_hash input =
     (case negotiate_unchoke 0 None input of
        Inl e \<Rightarrow> Inl e
      | Inr (_, rest) \<Rightarrow> download_and_verify sha1 index piece_length expected_hash rest)"

section \<open>The plan tiles the piece\<close>

lemma block_count_bounds:
  "block_count pl * block_size < pl + block_size" "pl \<le> block_count pl * block_size"
proof -
  define q r where "q = pl div block_size" and "r = pl mod block_size"
  have pl: "pl = q * block_size + r" "r < block_size" by (simp_all add: q_def r_def block_size_def)
  have "block_count pl = (if r \<noteq> 0 then q + 1 else q)"
    by (simp add: block_count_def Let_def q_def r_def)
  with pl show "block_count pl * block_size < pl + block_size" "pl \<le> block_count pl * block_size"
    by auto
qed

lemma block_at_bounds:
  assumes "i < block_count pl"
  shows "fst (block_at pl i) = i * block_size" "0 < snd (block_at pl i)" "snd (block_at pl i) \<le> block_size"
    "i * block_size + snd (block_at pl i) = min pl (Suc i * block_size)" "i * block_size < pl"
proof -
  have "Suc i * block_size \<le> block_count pl * block_size" using assms by (intro mult_le_mono1) simp
  then have "Suc i * block_size < pl + block_size" using block_count_bounds(1) [of pl] by linarith
  then have "i * block_size < pl" by simp
  then show "fst (block_at pl i) = i * block_size" "0 < snd (block_at pl i)" "snd (block_at pl i) \<le> block_size"
    "i * block_size + snd (block_at pl i) = min pl (Suc i * block_size)" "i * block_size < pl"
    by (auto simp: block_at_def Let_def block_size_def)
qed

text \<open>Every byte of the piece is in exactly one block.\<close>

lemma plan_covers:
  assumes "k < pl"
  shows "\<exists>i < block_count pl. fst (block_at pl i) \<le> k \<and> k < fst (block_at pl i) + snd (block_at pl i)"
proof (intro exI conjI)
  let ?i = "k div block_size"
  have k: "?i * block_size \<le> k" "k < Suc ?i * block_size"
    using dividend_less_div_times [of block_size k] by (simp_all add: block_size_def)
  then have "?i * block_size < block_count pl * block_size"
    using assms block_count_bounds(2) [of pl] by linarith
  then show i: "?i < block_count pl" by simp
  show "fst (block_at pl ?i) \<le> k" using block_at_bounds(1) [OF i] k by simp
  show "k < fst (block_at pl ?i) + snd (block_at pl ?i)"
    using block_at_bounds(1,4) [OF i] k assms by simp
qed

lemma plan_disjoint:
  assumes "i < block_count pl" "j < block_count pl"
    and "fst (block_at pl i) \<le> k" "k < fst (block_at pl i) + snd (block_at pl i)"
    and "fst (block_at pl j) \<le> k" "k < fst (block_at pl j) + snd (block_at pl j)"
  shows "i = j"
proof -
  have "k div block_size = i" if "i < block_count pl" "fst (block_at pl i) \<le> k"
    "k < fst (block_at pl i) + snd (block_at pl i)" for i
    using that block_at_bounds [OF that(1)]
    by (intro div_nat_eqI) (simp_all add: mult.commute)
  then show ?thesis using assms by blast
qed

lemma distinct_block_plan: "distinct (block_plan pl)"
  by (auto simp: block_plan_def distinct_map inj_on_def block_at_def Let_def block_size_def)

section \<open>Assembling the piece\<close>

lemma length_copy_at [simp]: "off + length block \<le> length buf \<Longrightarrow> length (copy_at buf off block) = length buf"
  by (simp add: copy_at_def)

lemma nth_copy_at:
  "off + length block \<le> length buf \<Longrightarrow> k < length buf \<Longrightarrow>
    copy_at buf off block ! k = (if off \<le> k \<and> k < off + length block then block ! (k - off) else buf ! k)"
  by (auto simp: copy_at_def nth_append)

text \<open>A buffer that agrees with the data on the blocks received so far.\<close>

definition agrees :: "bytes \<Rightarrow> bytes \<Rightarrow> (nat \<times> nat) set \<Rightarrow> bool" where
  "agrees buf data bs \<longleftrightarrow> length buf = length data \<and>
     (\<forall>b l k. (b, l) \<in> bs \<longrightarrow> k < length data \<longrightarrow> b \<le> k \<longrightarrow> k < b + l \<longrightarrow> buf ! k = data ! k)"

definition piece_msg :: "nat \<Rightarrow> bytes \<Rightarrow> nat \<times> nat \<Rightarrow> wire_msg" where
  "piece_msg index data bl =
     new_piece (of_nat index) (of_nat (fst bl)) (slice data (fst bl) (fst bl + snd bl))"

lemma agrees_copy:
  assumes "agrees buf data bs" "b + l \<le> length data"
  shows "agrees (copy_at buf b (slice data b (b + l))) data (insert (b, l) bs)"
proof -
  have len: "length (slice data b (b + l)) = l" "length buf = length data"
    using assms by (simp_all add: agrees_def)
  have "copy_at buf b (slice data b (b + l)) ! k = data ! k"
    if "(b', l') \<in> insert (b, l) bs" "b' \<le> k" "k < b' + l'" "k < length data" for b' l' k
  proof (cases "b \<le> k \<and> k < b + l")
    case True
    then have "k - b < l" "b + (k - b) = k" by linarith+
    with True that len assms(2) show ?thesis by (simp add: nth_copy_at slice_def)
  next
    case False
    with that have "(b', l') \<in> bs" by auto
    with False that len assms show ?thesis by (auto simp: nth_copy_at agrees_def)
  qed
  then show ?thesis using assms len by (auto simp: agrees_def)
qed

lemma store_piece_msg:
  assumes "index < 2 ^ 32" "b + l \<le> length data" "length data < 2 ^ 32"
  shows "store_block index (length data) buf (wm_payload (piece_msg index data (b, l))) =
    Inr (copy_at buf b (slice data b (b + l)))"
proof -
  have "unat (of_nat index :: u32) = index" "unat (of_nat b :: u32) = b"
    using assms by (simp_all add: unat_of_nat)
  then show ?thesis
    using assms(2) by (simp add: store_block_def piece_msg_def parse_new)
qed

text \<open>
  What a peer may send while it answers the requests: the block of a request (\<open>Inl\<close>) or any
  message that is neither a piece nor a choke.
\<close>

definition ignorable :: "wire_msg option \<Rightarrow> bool" where
  "ignorable m \<longleftrightarrow> msg_ok m \<and> (case m of None \<Rightarrow> True | Some m \<Rightarrow> wm_id m \<noteq> 7 \<and> wm_id m \<noteq> 0)"

primrec answer :: "nat \<Rightarrow> bytes \<Rightarrow> (nat \<times> nat) + wire_msg option \<Rightarrow> wire_msg option" where
  "answer index data (Inl bl) = Some (piece_msg index data bl)"
| "answer index data (Inr m) = m"

definition answered :: "((nat \<times> nat) + wire_msg option) list \<Rightarrow> (nat \<times> nat) list" where
  "answered xs = List.map_filter (\<lambda>x. case x of Inl bl \<Rightarrow> Some bl | Inr _ \<Rightarrow> None) xs"

lemma answered_simps [simp]:
  "answered [] = []" "answered (Inl bl # xs) = bl # answered xs" "answered (Inr m # xs) = answered xs"
  by (simp_all add: answered_def map_filter_simps)

lemma collect_blocks_answers:
  assumes "index < 2 ^ 32" "length data < 2 ^ 32"
    and "\<forall>x \<in> set xs. case x of Inl (b, l) \<Rightarrow> b + l \<le> length data \<and> l \<le> block_size | Inr m \<Rightarrow> ignorable m"
    and "agrees buf data bs"
  shows "\<exists>buf' rest'. collect_blocks index (length data) (length (answered xs)) buf
      (concat (map write_message (map (answer index data) xs)) @ rest) = Inr (buf', rest') \<and>
    agrees buf' data (bs \<union> set (answered xs))"
  using assms(3,4)
proof (induction xs arbitrary: buf bs)
  case Nil
  then show ?case by (simp add: collect_blocks.simps [of _ _ 0])
next
  case (Cons x xs)
  let ?in = "concat (map write_message (map (answer index data) xs)) @ rest"
  show ?case
  proof (cases x)
    case (Inl bl)
    obtain b l where bl: "bl = (b, l)" by (cases bl)
    have len: "b + l \<le> length data" "l \<le> block_size" using Cons.prems(1) by (simp_all add: Inl bl)
    have "msg_ok (Some (piece_msg index data bl))"
      using len by (simp add: msg_ok_def piece_msg_def new_piece_def msg_def max_message_len_def
          bl block_size_def)
    then have rd: "read_message (write_message (Some (piece_msg index data bl)) @ ?in) =
        Inr (Some (piece_msg index data bl), ?in)" by (rule wire.dec_enc_append)
    have st: "store_block index (length data) buf (wm_payload (piece_msg index data bl)) =
        Inr (copy_at buf b (slice data b (b + l)))"
      unfolding bl by (rule store_piece_msg) (use assms len in simp_all)
    have ag: "agrees (copy_at buf b (slice data b (b + l))) data (insert bl bs)"
      unfolding bl by (rule agrees_copy) (use Cons.prems len in simp_all)
    have "wm_id (piece_msg index data bl) = msg_id_of ''piece''"
      by (simp add: piece_msg_def new_piece_def msg_def)
    then have "collect_blocks index (length data) (Suc (length (answered xs))) buf
        (write_message (Some (piece_msg index data bl)) @ ?in) =
      collect_blocks index (length data) (length (answered xs)) (copy_at buf b (slice data b (b + l))) ?in"
      by (subst collect_blocks.simps) (simp add: rd st del: map_map)
    with Cons.IH [OF _ ag] Cons.prems(1) show ?thesis by (simp add: Inl del: map_map)
  next
    case (Inr m)
    then have ig: "ignorable m" using Cons.prems(1) by simp
    then have rd: "read_message (write_message m @ ?in) = Inr (m, ?in)"
      by (intro wire.dec_enc_append) (simp add: ignorable_def)
    show ?thesis
    proof (cases "answered xs = []")
      case True
      then show ?thesis using Cons.prems by (simp add: Inr collect_blocks.simps [of _ _ 0])
    next
      case False
      then have "collect_blocks index (length data) (length (answered xs)) buf (write_message m @ ?in) =
          collect_blocks index (length data) (length (answered xs)) buf ?in"
        using ig by (subst collect_blocks.simps)
          (auto simp: rd ignorable_def msg_id_of_def simp del: map_map split: option.splits)
      with Cons.IH [OF _ Cons.prems(2)] Cons.prems(1) show ?thesis by (simp add: Inr del: map_map)
    qed
  qed
qed

lemma agrees_plan:
  assumes "agrees buf data (set (block_plan (length data)))"
  shows "buf = data"
proof (rule nth_equalityI)
  show len: "length buf = length data" using assms by (simp add: agrees_def)
  fix k assume k: "k < length buf"
  then obtain i where i: "i < block_count (length data)" "fst (block_at (length data) i) \<le> k"
    "k < fst (block_at (length data) i) + snd (block_at (length data) i)"
    using plan_covers [of k "length data"] len by auto
  obtain b l where bl: "block_at (length data) i = (b, l)" by (cases "block_at (length data) i")
  have "block_at (length data) i \<in> set (block_plan (length data))" using i(1) by (simp add: block_plan_def)
  then have "(b, l) \<in> set (block_plan (length data))" by (simp only: bl)
  moreover have "b \<le> k" "k < b + l" "k < length data" using i(2,3) k len by (simp_all add: bl)
  ultimately show "buf ! k = data ! k" using assms unfolding agrees_def by blast
qed

lemma block_plan_bounds: "(b, l) \<in> set (block_plan pl) \<Longrightarrow> b + l \<le> pl \<and> l \<le> block_size"
proof -
  assume "(b, l) \<in> set (block_plan pl)"
  then obtain i where i: "i < block_count pl" "block_at pl i = (b, l)" by (auto simp: block_plan_def)
  then show ?thesis using block_at_bounds [OF i(1)] by simp
qed

lemma length_block_plan [simp]: "length (block_plan pl) = block_count pl"
  by (simp add: block_plan_def)

section \<open>Bitfields\<close>

lemma make_full_bitfield_spec:
  assumes "0 < n"
  shows "\<exists>bf. make_full_bitfield n = Some bf \<and> length bf = (n + 7) div 8 \<and> (\<forall>i. has_piece bf i \<longleftrightarrow> i < n)"
proof -
  define m where "m = (n + 7) div 8"
  define spare where "spare = m * 8 - n"
  have m: "n + spare = m * 8" "spare < 8" "0 < m" using assms unfolding m_def spare_def by linarith+
  define bf where "bf = (replicate m (0xFF :: u8))[m - 1 := push_bit spare 0xFF]"
  have "(replicate m (0xFF :: u8))[m - 1 := 0xFF] = replicate m 0xFF"
    using m(3) by (intro nth_equalityI) (auto simp: nth_list_update)
  then have same: "(if 0 < spare then (replicate m 0xFF)[m - 1 := push_bit spare 0xFF] else replicate m 0xFF) = bf"
    by (simp add: bf_def)
  have full: "make_full_bitfield n = Some bf"
    using assms unfolding make_full_bitfield_def Let_def m_def [symmetric] spare_def [symmetric] same by simp
  have "has_piece bf i \<longleftrightarrow> i < n" for i
  proof -
    have ones: "bit (0xFF :: u8) k \<longleftrightarrow> k < 8" for k
    proof -
      have "(0xFF :: u8) = mask 8" by (simp add: mask_eq_exp_minus_1)
      then show ?thesis by (simp only: bit_mask_iff) simp
    qed
    define q r where "q = i div 8" and "r = i mod 8"
    have i: "i = q * 8 + r" "r < 8" by (simp_all add: q_def r_def)
    have "7 - r < 8" "7 - r - spare < 8" by simp_all
    then have "bit (0xFF :: u8) (7 - r)" "bit (push_bit spare (0xFF :: u8)) (7 - r) \<longleftrightarrow> spare \<le> 7 - r"
      unfolding bit_push_bit_iff ones by simp_all
    then have "has_piece bf i \<longleftrightarrow> q < m \<and> (if q = m - 1 then spare \<le> 7 - r else True)"
      using m(3) by (auto simp: has_piece_bit bf_def nth_list_update q_def [symmetric] r_def [symmetric])
    also have "\<dots> \<longleftrightarrow> i < n"
    proof (cases "q = m - 1")
      case True
      then have "q * 8 + 8 = m * 8" using m(3) by (cases m) simp_all
      then have "i < n \<longleftrightarrow> r + spare < 8" using i(1) m(1) by linarith
      moreover have "spare \<le> 7 - r \<longleftrightarrow> r + spare < 8" using i(2) by linarith
      ultimately show ?thesis using True m(3) by simp
    next
      case False
      have "i < n" if "q < m"
      proof -
        have "q + 2 \<le> m" using that False by linarith
        then have "q * 8 + 16 \<le> m * 8" by simp
        then show ?thesis using i m(1,2) by linarith
      qed
      moreover have "\<not> i < n" if "\<not> q < m"
      proof -
        have "m * 8 \<le> q * 8" using that by simp
        then show ?thesis using i(1) m(1) by linarith
      qed
      ultimately show ?thesis using False by auto
    qed
    finally show ?thesis .
  qed
  then show ?thesis using full by (intro exI [of _ bf]) (simp add: bf_def m_def)
qed

section \<open>What a download returns\<close>

lemma in_set_answered: "bl \<in> set (answered xs) \<longleftrightarrow> Inl bl \<in> set xs"
proof (induction xs)
  case (Cons x xs)
  then show ?case by (cases x) auto
qed simp

lemma agrees_zero: "agrees (replicate (length data) 0) data {}"
  by (simp add: agrees_def)

lemma length_collect_blocks:
  "collect_blocks index pl missing buf input = Inr (buf', rest) \<Longrightarrow> length buf = pl \<Longrightarrow> length buf' = pl"
proof (induction index pl missing buf input rule: collect_blocks.induct)
  case (1 index pl missing buf input)
  show ?case
  proof (cases "missing = 0")
    case True
    then show ?thesis using "1.prems" by (simp add: collect_blocks.simps [of _ _ 0])
  next
    case False
    obtain m rest0 where rd: "read_message input = Inr (m, rest0)"
      using "1.prems" False by (subst (asm) collect_blocks.simps) (auto split: sum.splits)
    show ?thesis
    proof (cases m)
      case None
      then show ?thesis using "1.IH"(1) [OF False rd] "1.prems" False rd
        by (subst (asm) collect_blocks.simps [of index pl missing]) simp
    next
      case (Some mm)
      show ?thesis
        using "1.prems" False "1.IH"(2,3) [OF False rd _ Some]
        apply (subst (asm) collect_blocks.simps [of index pl missing])
        apply (simp add: rd Some split: if_splits sum.splits)
        apply (auto simp: store_block_def split: sum.splits if_splits)
        done
    qed
  qed
qed

lemma length_download_blocks: "download_blocks index pl input = Inr (buf, rest) \<Longrightarrow> length buf = pl"
  by (simp add: download_blocks_def length_collect_blocks)

text \<open>Blocks in any order, between other messages, give the piece.\<close>

lemma blocks_any_order:
  assumes "index < 2 ^ 32" "length data < 2 ^ 32" and "\<forall>m. Inr m \<in> set xs \<longrightarrow> ignorable m"
    and "mset (answered xs) = mset (block_plan (length data))"
  shows "\<exists>rest'. download_and_verify sha1 index (length data) (sha1 data)
      (concat (map write_message (map (answer index data) xs)) @ rest) = Inr (data, rest')"
proof -
  have len: "length (answered xs) = block_count (length data)"
    using mset_eq_length [OF assms(4)] by simp
  have set: "set (answered xs) = set (block_plan (length data))" by (rule mset_eq_setD [OF assms(4)])
  have "\<forall>x \<in> set xs. case x of Inl (b, l) \<Rightarrow> b + l \<le> length data \<and> l \<le> block_size | Inr m \<Rightarrow> ignorable m"
  proof
    fix x assume x: "x \<in> set xs"
    show "case x of Inl (b, l) \<Rightarrow> b + l \<le> length data \<and> l \<le> block_size | Inr m \<Rightarrow> ignorable m"
    proof (cases x)
      case (Inl bl)
      obtain b l where bl: "bl = (b, l)" by (cases bl)
      have "bl \<in> set (answered xs)" using x Inl by (simp add: in_set_answered)
      then have "(b, l) \<in> set (block_plan (length data))" by (simp only: set bl)
      then show ?thesis by (auto simp: Inl bl dest: block_plan_bounds)
    qed (use x assms(3) in simp)
  qed
  from collect_blocks_answers [OF assms(1,2) this agrees_zero, of rest] obtain buf rest' where
    "download_blocks index (length data) (concat (map write_message (map (answer index data) xs)) @ rest) =
      Inr (buf, rest')" "agrees buf data (set (block_plan (length data)))"
    by (auto simp: download_blocks_def len set)
  then show ?thesis by (auto simp: download_and_verify_def dest: agrees_plan)
qed

section \<open>The conversation of one piece\<close>

lemma read_ok: "msg_ok m \<Longrightarrow> read_message (write_message m @ rest) = Inr (m, rest)"
  by (rule wire.dec_enc_append)

text \<open>Messages before the unchoke: neither a choke nor an unchoke.\<close>

definition awaiting :: "wire_msg option list \<Rightarrow> bool" where
  "awaiting ms \<longleftrightarrow> (\<forall>m \<in> set ms. msg_ok m) \<and> (\<forall>m. Some m \<in> set ms \<longrightarrow> wm_id m \<noteq> 0 \<and> wm_id m \<noteq> 1)"

lemma awaiting_simps [simp]:
  "awaiting []" "awaiting (None # ms) \<longleftrightarrow> awaiting ms"
  "awaiting (Some m # ms) \<longleftrightarrow> msg_ok (Some m) \<and> wm_id m \<noteq> 0 \<and> wm_id m \<noteq> 1 \<and> awaiting ms"
  by (auto simp: awaiting_def msg_ok_def)

lemma negotiate_awaits:
  assumes "awaiting ms"
  shows "\<exists>bf'. negotiate_unchoke n bf (concat (map write_message ms) @ input) = negotiate_unchoke n bf' input"
  using assms
proof (induction ms arbitrary: bf)
  case (Cons m ms)
  let ?in = "concat (map write_message ms) @ input"
  have rd: "read_message (write_message m @ ?in) = Inr (m, ?in)" using Cons.prems by (intro read_ok) (simp add: awaiting_def)
  have step: "\<exists>bf1. negotiate_unchoke n bf (write_message m @ ?in) = negotiate_unchoke n bf1 ?in"
    unfolding negotiate_unchoke.simps [of n bf "write_message m @ ?in"] rd
    using Cons.prems by (cases m) (auto simp: msg_id_of_def)
  have "awaiting ms" using Cons.prems by (cases m) simp_all
  then show ?case using step Cons.IH by (simp del: map_map) metis
qed auto

lemma negotiate_unchoked:
  "negotiate_unchoke n bf input = Inr (bf', rest) \<Longrightarrow>
    \<exists>ms u. awaiting ms \<and> msg_ok (Some u) \<and> wm_id u = 1 \<and> input = concat (map write_message (ms @ [Some u])) @ rest"
proof (induction n bf input rule: negotiate_unchoke.induct)
  case (1 n bf input)
  obtain m rest0 where rd: "read_message input = Inr (m, rest0)"
    using "1.prems" by (subst (asm) negotiate_unchoke.simps) (auto split: sum.splits)
  then have ok: "msg_ok m" "input = write_message m @ rest0" using read_message_canonical by fastforce+
  note step = "1.prems" [unfolded negotiate_unchoke.simps [of n bf input] rd]
  show ?case
  proof (cases "\<exists>u. m = Some u \<and> wm_id u = 1")
    case True
    then obtain u where "m = Some u" "wm_id u = 1" by blast
    moreover from this have "rest = rest0" using step by (simp add: msg_id_of_def)
    ultimately show ?thesis using ok by (intro exI [of _ "[]"] exI [of _ u]) simp
  next
    case False
    have aw: "awaiting [m]" using step ok(1) False by (cases m) (auto simp: msg_id_of_def split: if_splits)
    have "\<exists>ms u. awaiting ms \<and> msg_ok (Some u) \<and> wm_id u = 1 \<and> rest0 = concat (map write_message (ms @ [Some u])) @ rest"
      using step "1.IH" [OF rd] False by (cases m) (auto simp: msg_id_of_def split: if_splits)
    then obtain ms u where "awaiting ms" "msg_ok (Some u)" "wm_id u = 1"
      "rest0 = concat (map write_message (ms @ [Some u])) @ rest" by blast
    then show ?thesis using ok aw by (intro exI [of _ "m # ms"] exI [of _ u]) (cases m; simp)
  qed
qed

text \<open>
  What the blocks of a conversation come to: the payloads of its piece messages, each for this
  piece and within it, copied in their order of arrival.
\<close>

definition block_payloads :: "wire_msg option list \<Rightarrow> bytes list" where
  "block_payloads ms =
     List.map_filter (\<lambda>m. case m of Some x \<Rightarrow> if wm_id x = 7 then Some (wm_payload x) else None | None \<Rightarrow> None) ms"

definition fits :: "nat \<Rightarrow> nat \<Rightarrow> bytes \<Rightarrow> bool" where
  "fits index piece_length payload \<longleftrightarrow>
     (case parse_piece payload of
        Inl e \<Rightarrow> False
      | Inr pp \<Rightarrow> unat (pp_index pp) = index \<and> unat (pp_begin pp) + length (pp_block pp) \<le> piece_length)"

definition put_block :: "bytes \<Rightarrow> bytes \<Rightarrow> bytes" where
  "put_block payload buf =
     (case parse_piece payload of Inl e \<Rightarrow> buf | Inr pp \<Rightarrow> copy_at buf (unat (pp_begin pp)) (pp_block pp))"

definition sending :: "nat \<Rightarrow> nat \<Rightarrow> wire_msg option list \<Rightarrow> bool" where
  "sending index piece_length ms \<longleftrightarrow> (\<forall>m \<in> set ms. msg_ok m) \<and> (\<forall>m. Some m \<in> set ms \<longrightarrow> wm_id m \<noteq> 0) \<and>
     (\<forall>p \<in> set (block_payloads ms). fits index piece_length p)"

lemma block_payloads_simps [simp]:
  "block_payloads [] = []" "block_payloads (None # ms) = block_payloads ms"
  "block_payloads (Some m # ms) = (if wm_id m = 7 then wm_payload m # block_payloads ms else block_payloads ms)"
  by (simp_all add: block_payloads_def map_filter_simps)

lemma block_payloads_append [simp]: "block_payloads (ms @ ns) = block_payloads ms @ block_payloads ns"
  by (simp add: block_payloads_def map_filter_def)

lemma sending_simps [simp]:
  "sending index pl []" "sending index pl (None # ms) \<longleftrightarrow> sending index pl ms"
  "sending index pl (Some m # ms) \<longleftrightarrow>
     msg_ok (Some m) \<and> wm_id m \<noteq> 0 \<and> (wm_id m = 7 \<longrightarrow> fits index pl (wm_payload m)) \<and> sending index pl ms"
  by (auto simp: sending_def msg_ok_def)

lemma store_fits: "fits index pl p \<Longrightarrow> store_block index pl buf p = Inr (put_block p buf)"
  "store_block index pl buf p = Inr buf' \<Longrightarrow> fits index pl p \<and> buf' = put_block p buf"
  by (auto simp: store_block_def fits_def put_block_def split: sum.splits if_splits)

lemma collect_sending:
  "sending index pl ms \<Longrightarrow> length (block_payloads ms) < missing \<Longrightarrow>
    collect_blocks index pl missing buf (concat (map write_message ms) @ input) =
    collect_blocks index pl (missing - length (block_payloads ms)) (fold put_block (block_payloads ms) buf) input"
proof (induction ms arbitrary: missing buf)
  case (Cons m ms)
  let ?in = "concat (map write_message ms) @ input"
  have "msg_ok m" using Cons.prems(1) by (simp add: sending_def)
  then have rd: "read_message (write_message m @ ?in) = Inr (m, ?in)" by (rule read_ok)
  have ne: "missing \<noteq> 0" using Cons.prems(2) by simp
  show ?case
  proof (cases "\<exists>x. m = Some x \<and> wm_id x = 7")
    case True
    then obtain x where x: "m = Some x" "wm_id x = 7" by blast
    then have "store_block index pl buf (wm_payload x) = Inr (put_block (wm_payload x) buf)"
      using Cons.prems(1) store_fits(1) by simp
    then have "collect_blocks index pl missing buf (write_message m @ ?in) =
        collect_blocks index pl (missing - 1) (put_block (wm_payload x) buf) ?in"
      using ne rd x by (subst collect_blocks.simps) (simp add: msg_id_of_def)
    then show ?thesis using Cons.IH [of "missing - 1"] Cons.prems x by simp
  next
    case False
    then have "collect_blocks index pl missing buf (write_message m @ ?in) = collect_blocks index pl missing buf ?in"
      unfolding collect_blocks.simps [of index pl missing buf "write_message m @ ?in"] rd
      using ne Cons.prems(1) by (cases m) (auto simp: msg_id_of_def)
    moreover have "block_payloads (m # ms) = block_payloads ms" "sending index pl ms"
      using False Cons.prems(1) by (cases m; simp)+
    ultimately show ?thesis using Cons.IH [of missing] Cons.prems by simp
  qed
qed simp

text \<open>The conversation of a successful download ends with the last block.\<close>

definition ends_with_block :: "wire_msg option list \<Rightarrow> bool" where
  "ends_with_block ms \<longleftrightarrow> ms = [] \<or> (\<exists>m. last ms = Some m \<and> wm_id m = 7)"

lemma collect_blocks_reads:
  "collect_blocks index pl missing buf input = Inr (buf', rest) \<Longrightarrow>
    \<exists>ms. sending index pl ms \<and> ends_with_block ms \<and> length (block_payloads ms) = missing \<and>
      input = concat (map write_message ms) @ rest \<and> buf' = fold put_block (block_payloads ms) buf"
proof (induction index pl missing buf input rule: collect_blocks.induct)
  case (1 index pl missing buf input)
  show ?case
  proof (cases "missing = 0")
    case True
    then show ?thesis using "1.prems" by (intro exI [of _ "[]"]) (simp add: collect_blocks.simps [of _ _ 0] ends_with_block_def)
  next
    case False
    obtain m rest0 where rd: "read_message input = Inr (m, rest0)"
      using "1.prems" False by (subst (asm) collect_blocks.simps) (auto split: sum.splits)
    then have ok: "msg_ok m" "input = write_message m @ rest0" using read_message_canonical by fastforce+
    note step = "1.prems" [unfolded collect_blocks.simps [of index pl missing buf input] rd]
    show ?thesis
    proof (cases "\<exists>x. m = Some x \<and> wm_id x = 7")
      case True
      then obtain x where x: "m = Some x" "wm_id x = 7" by blast
      then obtain buf1 where st: "store_block index pl buf (wm_payload x) = Inr buf1"
        using step False by (auto simp: msg_id_of_def split: sum.splits)
      then have "collect_blocks index pl (missing - 1) buf1 rest0 = Inr (buf', rest)"
        using step False x by (simp add: msg_id_of_def)
      then obtain ms where "sending index pl ms" "ends_with_block ms" "length (block_payloads ms) = missing - 1"
        "rest0 = concat (map write_message ms) @ rest" "buf' = fold put_block (block_payloads ms) buf1"
        using "1.IH"(2) [OF False rd _ x(1) _ st] x(2) by (auto simp: msg_id_of_def)
      then show ?thesis using ok x False store_fits(2) [OF st]
        by (intro exI [of _ "m # ms"]) (auto simp: ends_with_block_def)
    next
      case noblock: False
      have nz: "m = Some x \<Longrightarrow> wm_id x \<noteq> 0" for x using step False by (auto simp: msg_id_of_def)
      have "collect_blocks index pl missing buf rest0 = Inr (buf', rest)"
        using step False noblock by (cases m) (auto simp: msg_id_of_def split: if_splits)
      then obtain ms where ms: "sending index pl ms" "ends_with_block ms" "length (block_payloads ms) = missing"
        "rest0 = concat (map write_message ms) @ rest" "buf' = fold put_block (block_payloads ms) buf"
        using "1.IH"(1,3) [OF False rd] noblock nz by (cases m) (auto simp: msg_id_of_def)
      then have "ms \<noteq> []" using False by auto
      then show ?thesis using ms ok nz noblock
        by (intro exI [of _ "m # ms"]) (cases m; auto simp: ends_with_block_def)
    qed
  qed
qed

lemma collect_blocks_sent:
  assumes "sending index pl ms" "ends_with_block ms"
  shows "collect_blocks index pl (length (block_payloads ms)) buf (concat (map write_message ms) @ rest) =
    Inr (fold put_block (block_payloads ms) buf, rest)"
proof (cases "ms = []")
  case False
  then obtain ns x where ms: "ms = ns @ [Some x]" "wm_id x = 7"
    using assms(2) by (metis append_butlast_last_id ends_with_block_def)
  have s: "sending index pl ns" "sending index pl [Some x]" using assms(1) by (auto simp: sending_def ms)
  then have "collect_blocks index pl (length (block_payloads ms)) buf (concat (map write_message ms) @ rest) =
      collect_blocks index pl 1 (fold put_block (block_payloads ns) buf) (write_message (Some x) @ rest)"
    using collect_sending [of index pl ns "length (block_payloads ms)" buf "write_message (Some x) @ rest"] ms by simp
  also have "\<dots> = Inr (put_block (wm_payload x) (fold put_block (block_payloads ns) buf), rest)"
    using s(2) ms(2)
    by (subst collect_blocks.simps) (simp add: read_ok store_fits(1) msg_id_of_def collect_blocks.simps [of _ _ 0])
  finally show ?thesis using ms by simp
qed (simp add: collect_blocks.simps [of _ _ 0])

section \<open>Properties\<close>

text \<open>
  The requests of a piece tile it: every byte lies in exactly one request, no request is
  empty, longer than 16 KiB or beyond the end of the piece, and no request is made twice.
\<close>

theorem block_plan_tiles:
  "distinct (block_plan pl) \<and> (\<forall>bl \<in> set (block_plan pl). 0 < snd bl \<and> snd bl \<le> 16384 \<and> fst bl + snd bl \<le> pl) \<and>
    (\<forall>k. k < pl \<longleftrightarrow> (\<exists>!bl. bl \<in> set (block_plan pl) \<and> fst bl \<le> k \<and> k < fst bl + snd bl))"
proof (intro conjI allI ballI iffI)
  show "distinct (block_plan pl)" by (rule distinct_block_plan)
next
  fix bl assume "bl \<in> set (block_plan pl)"
  then obtain i where i: "i < block_count pl" "bl = block_at pl i" by (auto simp: block_plan_def)
  then show "0 < snd bl" "snd bl \<le> 16384" "fst bl + snd bl \<le> pl"
    using block_at_bounds [OF i(1)] by (simp_all add: block_size_def)
next
  fix k assume "k < pl"
  then obtain i where i: "i < block_count pl" "fst (block_at pl i) \<le> k"
    "k < fst (block_at pl i) + snd (block_at pl i)" using plan_covers by blast
  show "\<exists>!bl. bl \<in> set (block_plan pl) \<and> fst bl \<le> k \<and> k < fst bl + snd bl"
  proof (rule ex1I [of _ "block_at pl i"])
    show "block_at pl i \<in> set (block_plan pl) \<and> fst (block_at pl i) \<le> k \<and>
      k < fst (block_at pl i) + snd (block_at pl i)" using i by (simp add: block_plan_def)
  next
    fix bl assume bl: "bl \<in> set (block_plan pl) \<and> fst bl \<le> k \<and> k < fst bl + snd bl"
    then obtain j where j: "j < block_count pl" "bl = block_at pl j" by (auto simp: block_plan_def)
    then have "i = j" using bl i plan_disjoint [of i pl j k] by blast
    then show "bl = block_at pl i" by (simp add: j)
  qed
next
  fix k assume "\<exists>!bl. bl \<in> set (block_plan pl) \<and> fst bl \<le> k \<and> k < fst bl + snd bl"
  then obtain b l where bl: "(b, l) \<in> set (block_plan pl)" "k < b + l" by auto
  then show "k < pl" using block_plan_bounds [OF bl(1)] by linarith
qed

theorem block_plan_tiles_witness:
  "block_plan 40000 = [(0, 16384), (16384, 16384), (32768, 7232)] \<and>
   (\<exists>!bl. bl \<in> set (block_plan 40000) \<and> fst bl \<le> 33000 \<and> 33000 < fst bl + snd bl)"
proof -
  have "block_plan 40000 = [(0, 16384), (16384, 16384), (32768, 7232)]"
    by (simp add: block_plan_def block_count_def block_at_def block_size_def upt_rec)
  moreover have "(33000 :: nat) < 40000 \<longleftrightarrow>
      (\<exists>!bl. bl \<in> set (block_plan 40000) \<and> fst bl \<le> 33000 \<and> 33000 < fst bl + snd bl)"
    using block_plan_tiles [of 40000] by blast
  ultimately show ?thesis by simp
qed

text \<open>
  C9. A peer that answers every request of a piece exactly once, in any order and with any other
  messages (keep-alives, have, bitfield, extensions) in between, gives the piece: the download
  returns exactly the peer's data.
\<close>

theorem download_any_order:
  assumes "index < 2 ^ 32" "length data < 2 ^ 32" and "\<forall>m. Inr m \<in> set xs \<longrightarrow> ignorable m"
    and "mset (answered xs) = mset (block_plan (length data))"
  shows "\<exists>rest'. download_and_verify sha1 index (length data) (sha1 data)
      (concat (map write_message (map (answer index data) xs)) @ rest) = Inr (data, rest')"
  by (rule blocks_any_order [OF assms])

lemma download_any_order_witness:
  "\<exists>rest'. download_and_verify (\<lambda>b. b) 7 3 [1, 2, 3]
      (concat (map write_message (map (answer 7 [1, 2, 3])
        [Inr None, Inl (0, 3), Inr (Some new_interested)]))) = Inr ([1, 2, 3], rest')"
proof -
  let ?xs = "[Inr None, Inl (0, 3), Inr (Some new_interested)] :: ((nat \<times> nat) + wire_msg option) list"
  have "ignorable None" "ignorable (Some new_interested)"
    by (simp_all add: ignorable_def msg_ok_def new_interested_def msg_def max_message_len_def msg_id_of_def)
  then have "\<forall>m. Inr m \<in> set ?xs \<longrightarrow> ignorable m" by auto
  moreover have "block_plan (length [1, 2, 3 :: u8]) = [(0, 3)]"
    by (simp add: block_plan_def block_count_def block_at_def block_size_def)
  ultimately show ?thesis
    using download_any_order [where index = 7 and data = "[1, 2, 3]" and rest = "[]" and ?sha1.0 = "\<lambda>b. b"
        and xs = ?xs] by (simp add: numeral_3_eq_3)
qed

text \<open>
  C10. What \<open>Piece\<close> returns, for every input. It returns data exactly if the input is a conversation in
  which the first choke or unchoke is an unchoke, and then no choke comes before the last of as many blocks as the
  piece has, each of them for this piece and within it; the data are these blocks copied in their
  order of arrival, they have the length of the piece and the expected hash, and the unread rest is
  what follows the last block. A choke that comes before the unchoke, or before the last block, is an error.
\<close>

theorem piece_verified:
  "(piece sha1 index pl expected input = Inr (data, rest) \<longleftrightarrow>
     (\<exists>early u blocks. awaiting early \<and> msg_ok (Some u) \<and> wm_id u = msg_id_of ''unchoke'' \<and>
        sending index pl blocks \<and> ends_with_block blocks \<and> length (block_payloads blocks) = block_count pl \<and>
        input = concat (map write_message (early @ [Some u] @ blocks)) @ rest \<and>
        data = fold put_block (block_payloads blocks) (replicate pl 0) \<and> length data = pl \<and> sha1 data = expected)) \<and>
   (\<forall>early c. awaiting early \<and> msg_ok (Some c) \<and> wm_id c = msg_id_of ''choke'' \<and>
      input = concat (map write_message (early @ [Some c])) @ rest \<longrightarrow>
      piece sha1 index pl expected input = Inl (Fail ''peer choked us'')) \<and>
   (\<forall>early u blocks c. awaiting early \<and> msg_ok (Some u) \<and> wm_id u = msg_id_of ''unchoke'' \<and>
      sending index pl blocks \<and> length (block_payloads blocks) < block_count pl \<and>
      msg_ok (Some c) \<and> wm_id c = msg_id_of ''choke'' \<and>
      input = concat (map write_message (early @ [Some u] @ blocks @ [Some c])) @ rest \<longrightarrow>
      piece sha1 index pl expected input = Inl (Fail ''peer choked us''))"
proof -
  have unchoked: "\<exists>bf. negotiate_unchoke 0 None (concat (map write_message (early @ [Some u])) @ tail) = Inr (bf, tail)"
    if "awaiting early" "msg_ok (Some u)" "wm_id u = 1" for early u tail
  proof -
    have "\<exists>bf'. negotiate_unchoke 0 bf (write_message (Some u) @ tail) = Inr (bf', tail)" for bf
      using that(2,3) by (subst negotiate_unchoke.simps) (simp add: read_ok msg_id_of_def)
    then show ?thesis using negotiate_awaits [OF that(1), of 0 None "write_message (Some u) @ tail"] by auto
  qed
  have then_piece: "piece sha1 index pl expected (concat (map write_message (early @ [Some u])) @ tail) =
      download_and_verify sha1 index pl expected tail"
    if "awaiting early" "msg_ok (Some u)" "wm_id u = 1" for early u tail
    using unchoked [OF that, of tail] unfolding piece_def by (metis (no_types, lifting) old.prod.case sum.case(2))
  show ?thesis
  proof (intro conjI allI impI iffI)
    assume p: "piece sha1 index pl expected input = Inr (data, rest)"
    then obtain bf mid where n: "negotiate_unchoke 0 None input = Inr (bf, mid)"
      and d: "download_blocks index pl mid = Inr (data, rest)" "sha1 data = expected"
      by (auto simp: piece_def download_and_verify_def split: sum.splits if_splits)
    obtain early u where e: "awaiting early" "msg_ok (Some u)" "wm_id u = 1"
      "input = concat (map write_message (early @ [Some u])) @ mid" using negotiate_unchoked [OF n] by blast
    obtain blocks where b: "sending index pl blocks" "ends_with_block blocks" "length (block_payloads blocks) = block_count pl"
      "mid = concat (map write_message blocks) @ rest" "data = fold put_block (block_payloads blocks) (replicate pl 0)"
      using collect_blocks_reads d(1) unfolding download_blocks_def by blast
    have "wm_id u = msg_id_of ''unchoke''" "input = concat (map write_message (early @ [Some u] @ blocks)) @ rest"
      using e(3,4) b(4) by (simp_all add: msg_id_of_def)
    then show "\<exists>early u blocks. awaiting early \<and> msg_ok (Some u) \<and> wm_id u = msg_id_of ''unchoke'' \<and>
        sending index pl blocks \<and> ends_with_block blocks \<and> length (block_payloads blocks) = block_count pl \<and>
        input = concat (map write_message (early @ [Some u] @ blocks)) @ rest \<and>
        data = fold put_block (block_payloads blocks) (replicate pl 0) \<and> length data = pl \<and> sha1 data = expected"
      using e(1,2) b(1-3,5) d(2) length_download_blocks [OF d(1)] by blast
  next
    assume "\<exists>early u blocks. awaiting early \<and> msg_ok (Some u) \<and> wm_id u = msg_id_of ''unchoke'' \<and>
        sending index pl blocks \<and> ends_with_block blocks \<and> length (block_payloads blocks) = block_count pl \<and>
        input = concat (map write_message (early @ [Some u] @ blocks)) @ rest \<and>
        data = fold put_block (block_payloads blocks) (replicate pl 0) \<and> length data = pl \<and> sha1 data = expected"
    then obtain early u blocks where c: "awaiting early" "msg_ok (Some u)" "wm_id u = 1"
      "sending index pl blocks" "ends_with_block blocks" "length (block_payloads blocks) = block_count pl"
      "input = concat (map write_message (early @ [Some u])) @ concat (map write_message blocks) @ rest"
      "data = fold put_block (block_payloads blocks) (replicate pl 0)" "sha1 data = expected"
      by (auto simp: msg_id_of_def)
    have "download_blocks index pl (concat (map write_message blocks) @ rest) = Inr (data, rest)"
      using collect_blocks_sent [OF c(4,5), of "replicate pl 0" rest] by (simp add: download_blocks_def c(6,8))
    then show "piece sha1 index pl expected input = Inr (data, rest)"
      unfolding c(7) then_piece [OF c(1-3)] by (simp add: download_and_verify_def c(9))
  next
    fix early c
    assume h: "awaiting early \<and> msg_ok (Some c) \<and> wm_id c = msg_id_of ''choke'' \<and>
      input = concat (map write_message (early @ [Some c])) @ rest"
    have "negotiate_unchoke 0 bf (write_message (Some c) @ rest) = Inl (Fail ''peer choked us'')" for bf
      using h by (subst negotiate_unchoke.simps) (simp add: read_ok msg_id_of_def)
    moreover have "input = concat (map write_message early) @ write_message (Some c) @ rest" using h by simp
    ultimately have "negotiate_unchoke 0 None input = Inl (Fail ''peer choked us'')"
      using negotiate_awaits [of early 0 None "write_message (Some c) @ rest"] h by auto
    then show "piece sha1 index pl expected input = Inl (Fail ''peer choked us'')" by (simp add: piece_def)
  next
    fix early u blocks c
    assume h: "awaiting early \<and> msg_ok (Some u) \<and> wm_id u = msg_id_of ''unchoke'' \<and>
      sending index pl blocks \<and> length (block_payloads blocks) < block_count pl \<and>
      msg_ok (Some c) \<and> wm_id c = msg_id_of ''choke'' \<and>
      input = concat (map write_message (early @ [Some u] @ blocks @ [Some c])) @ rest"
    let ?tail = "concat (map write_message blocks) @ write_message (Some c) @ rest"
    have "collect_blocks index pl (Suc k) buf (write_message (Some c) @ rest) = Inl (Fail ''peer choked us'')" for k buf
      using h by (subst collect_blocks.simps) (simp add: read_ok msg_id_of_def)
    then have "download_blocks index pl ?tail = Inl (Fail ''peer choked us'')"
      using collect_sending [of index pl blocks "block_count pl" "replicate pl 0" "write_message (Some c) @ rest"] h
      unfolding download_blocks_def by (metis Suc_diff_Suc)
    moreover have "input = concat (map write_message (early @ [Some u])) @ ?tail" "wm_id u = 1"
      using h by (simp_all add: msg_id_of_def)
    ultimately show "piece sha1 index pl expected input = Inl (Fail ''peer choked us'')"
      using then_piece [of early u ?tail] h by (simp add: download_and_verify_def)
  qed
qed

lemma piece_verified_witness:
  "piece (\<lambda>b. b) 0 1 [7] (concat (map write_message [Some new_choke]) @ []) = Inl (Fail ''peer choked us'') \<and>
   piece (\<lambda>b. b) 0 1 [7] (concat (map write_message ([] @ [Some new_unchoke] @ [Some (new_piece 0 0 [7])])) @ []) = Inr ([7], [])"
proof
  have ok: "msg_ok (Some new_choke)" "msg_ok (Some new_unchoke)" "msg_ok (Some (new_piece 0 0 [7]))"
    by (simp_all add: msg_ok_def new_choke_def new_unchoke_def new_piece_def msg_def max_message_len_def)
  have id: "wm_id new_choke = msg_id_of ''choke''" "wm_id new_unchoke = msg_id_of ''unchoke''" "wm_id (new_piece 0 0 [7]) = 7"
    by (simp_all add: new_choke_def new_unchoke_def new_piece_def msg_def msg_id_of_def)
  show "piece (\<lambda>b. b) 0 1 [7] (concat (map write_message [Some new_choke]) @ []) = Inl (Fail ''peer choked us'')"
    using piece_verified [where ?sha1.0 = "\<lambda>b. b" and index = 0 and pl = 1 and expected = "[7]" and rest = "[]"
        and input = "concat (map write_message [Some new_choke]) @ []", THEN conjunct2, THEN conjunct1,
        rule_format, of "[]" new_choke] ok id by simp
  have "sending 0 1 [Some (new_piece 0 0 [7])] \<and> ends_with_block [Some (new_piece 0 0 [7])] \<and>
      length (block_payloads [Some (new_piece 0 0 [7])]) = block_count 1 \<and>
      [7] = fold put_block (block_payloads [Some (new_piece 0 0 [7])]) (replicate 1 0)"
    using ok(3) id(3)
    by (simp add: fits_def put_block_def parse_new ends_with_block_def block_count_def block_size_def copy_at_def)
  then show "piece (\<lambda>b. b) 0 1 [7] (concat (map write_message ([] @ [Some new_unchoke] @ [Some (new_piece 0 0 [7])])) @ []) = Inr ([7], [])"
    using piece_verified [where ?sha1.0 = "\<lambda>b. b" and index = 0 and pl = 1 and expected = "[7]" and rest = "[]" and data = "[7]"
        and input = "concat (map write_message ([] @ [Some new_unchoke] @ [Some (new_piece 0 0 [7])])) @ []",
        THEN conjunct1, THEN iffD2] ok(2) id(2) by (metis awaiting_simps(1) length_Cons list.size(3) One_nat_def)
qed

text \<open>
  The bitfield that stands for a peer with every piece has a bit for each of the \<open>n\<close> pieces,
  no other bit, and the length of a real bitfield.
\<close>

theorem full_bitfield_spec:
  assumes "0 < n"
  shows "\<exists>bf. make_full_bitfield n = Some bf \<and> length bf = (n + 7) div 8 \<and> (\<forall>i. has_piece bf i \<longleftrightarrow> i < n)"
  by (rule make_full_bitfield_spec [OF assms])

lemma full_bitfield_spec_witness:
  "\<exists>bf. make_full_bitfield 10 = Some bf \<and> length bf = 2 \<and> has_piece bf 9 \<and> \<not> has_piece bf 10"
  using full_bitfield_spec [of 10] by auto

end
