(* ===== verification/Merkle.thy ===== *)
theory Merkle
  imports Prelude
begin

text \<open>
  SHA-256 Merkle trees of BEP 52 (\<open>torrent/merkle.go\<close>). The hash function is an argument.
  The bottom-up loops over layers are shown equal to the recursive root of a binary tree; the
  proofs read off the layers verify; and two different data of one length, or two leaves with
  one root, exhibit a clash: at some position the two computations hash different inputs to one
  hash. The inputs are written out as lists, so that the clash is a pair one can read off them.
\<close>

type_synonym sha = "bytes \<Rightarrow> bytes"

section \<open>Leaves, layers and roots\<close>

definition merkle_block_size :: nat where
  "merkle_block_size = 16384"

definition hash_pair :: "sha \<Rightarrow> bytes \<Rightarrow> bytes \<Rightarrow> bytes" where
  "hash_pair sha256 left right = sha256 (copy_array 32 left @ copy_array 32 right)"

text \<open>The loop \<open>for p < n { p *= 2 }\<close>; started with a positive \<open>p\<close> it ends at \<open>n\<close>.\<close>

function double_until :: "nat \<Rightarrow> nat \<Rightarrow> nat" where
  "double_until p n = (if 0 < p \<and> p < n then double_until (p * 2) n else p)"
  by pat_completeness auto

termination
  by (relation "measure (\<lambda>(p, n). n - p)") auto

declare double_until.simps [simp del]

definition next_pow2 :: "nat \<Rightarrow> nat" where
  "next_pow2 n = (if n \<le> 1 then 1 else double_until 1 n)"

definition num_leaves :: "bytes \<Rightarrow> nat" where
  "num_leaves data = (length data + merkle_block_size - 1) div merkle_block_size"

definition leaf_hash :: "sha \<Rightarrow> bytes \<Rightarrow> nat \<Rightarrow> bytes" where
  "leaf_hash sha256 data i =
     (let start = i * merkle_block_size;
          stop = (if length data < start + merkle_block_size then length data else start + merkle_block_size)
      in sha256 (slice data start stop))"

definition merkle_leaves :: "sha \<Rightarrow> bytes \<Rightarrow> bytes list" where
  "merkle_leaves sha256 data =
     (if data = [] then [sha256 []]
      else
        let n = num_leaves data; padded_count = next_pow2 n
        in map (leaf_hash sha256 data) [0..<n] @ replicate (padded_count - n) (replicate 32 0))"

definition next_layer :: "sha \<Rightarrow> bytes list \<Rightarrow> bytes list" where
  "next_layer sha256 layer =
     map (\<lambda>i. hash_pair sha256 (layer ! (i * 2)) (layer ! (i * 2 + 1))) [0..<length layer div 2]"

lemma length_next_layer [simp]: "length (next_layer sha256 layer) = length layer div 2"
  by (simp add: next_layer_def)

function merkle_root :: "sha \<Rightarrow> bytes list \<Rightarrow> bytes" where
  "merkle_root sha256 layer =
     (if 1 < length layer then merkle_root sha256 (next_layer sha256 layer) else layer ! 0)"
  by pat_completeness auto

termination
  by (relation "measure (\<lambda>(s, layer). length layer)") auto

declare merkle_root.simps [simp del]

definition merkle_hash :: "sha \<Rightarrow> bytes \<Rightarrow> bytes" where
  "merkle_hash sha256 data =
     (if data = [] then sha256 [] else merkle_root sha256 (merkle_leaves sha256 data))"

definition merkle_root_from_leaves :: "sha \<Rightarrow> bytes list \<Rightarrow> bytes" where
  "merkle_root_from_leaves sha256 leaves =
     (if leaves = [] then sha256 [] else merkle_root sha256 leaves)"

text \<open>The layers after the first one.\<close>

function upper_layers :: "sha \<Rightarrow> bytes list \<Rightarrow> bytes list list" where
  "upper_layers sha256 layer =
     (if 1 < length layer
      then next_layer sha256 layer # upper_layers sha256 (next_layer sha256 layer)
      else [])"
  by pat_completeness auto

termination
  by (relation "measure (\<lambda>(s, layer). length layer)") auto

declare upper_layers.simps [simp del]

definition merkle_layers :: "sha \<Rightarrow> bytes list \<Rightarrow> bytes list list" where
  "merkle_layers sha256 leaves = (if leaves = [] then [] else leaves # upper_layers sha256 leaves)"

text \<open>\<open>VerifyMerkleProof\<close>: the loop carries the hash so far and the index in its layer.\<close>

primrec climb :: "sha \<Rightarrow> bytes \<Rightarrow> nat \<Rightarrow> bytes list \<Rightarrow> bytes" where
  "climb sha256 current idx [] = current"
| "climb sha256 current idx (uncle # proof) =
     climb sha256
       (if idx mod 2 = 0 then hash_pair sha256 current uncle else hash_pair sha256 uncle current)
       (idx div 2) proof"

definition verify_merkle_proof :: "sha \<Rightarrow> bytes \<Rightarrow> bytes \<Rightarrow> nat \<Rightarrow> bytes list \<Rightarrow> bool" where
  "verify_merkle_proof sha256 root leaf leaf_index proof \<longleftrightarrow> climb sha256 leaf leaf_index proof = root"

definition is_hybrid :: "bool \<Rightarrow> int \<Rightarrow> bool" where
  "is_hybrid has_v1_pieces meta_version \<longleftrightarrow> has_v1_pieces \<and> meta_version = 2"

section \<open>The specification\<close>

text \<open>The root of the complete binary tree of height \<open>k\<close> over its leaves.\<close>

primrec tree_root :: "sha \<Rightarrow> nat \<Rightarrow> bytes list \<Rightarrow> bytes" where
  "tree_root sha256 0 xs = hd xs"
| "tree_root sha256 (Suc k) xs =
     hash_pair sha256 (tree_root sha256 k (take (2 ^ k) xs)) (tree_root sha256 k (drop (2 ^ k) xs))"

text \<open>The proof for the leaf at an index: its sibling in every layer but the last.\<close>

fun proof_of :: "bytes list list \<Rightarrow> nat \<Rightarrow> bytes list" where
  "proof_of (layer # upper # layers) i =
     layer ! (if i mod 2 = 0 then i + 1 else i - 1) # proof_of (upper # layers) (i div 2)"
| "proof_of _ i = []"

text \<open>
  The inputs of the hash function, in the order in which the code hashes them: the two halves of
  every pair of a layer, layer by layer; the blocks of the data before them; and the pairs of the
  climb along a proof.
\<close>

definition layer_inputs :: "bytes list \<Rightarrow> bytes list" where
  "layer_inputs layer =
     map (\<lambda>i. copy_array 32 (layer ! (i * 2)) @ copy_array 32 (layer ! (i * 2 + 1))) [0..<length layer div 2]"

function root_inputs :: "sha \<Rightarrow> bytes list \<Rightarrow> bytes list" where
  "root_inputs sha256 layer =
     (if 1 < length layer then layer_inputs layer @ root_inputs sha256 (next_layer sha256 layer) else [])"
  by pat_completeness auto

termination
  by (relation "measure (\<lambda>(s, layer). length layer)") auto

declare root_inputs.simps [simp del]

definition data_blocks :: "bytes \<Rightarrow> bytes list" where
  "data_blocks data =
     map (\<lambda>i. slice data (i * merkle_block_size)
            (if length data < i * merkle_block_size + merkle_block_size then length data
             else i * merkle_block_size + merkle_block_size))
       [0..<num_leaves data]"

definition merkle_inputs :: "sha \<Rightarrow> bytes \<Rightarrow> bytes list" where
  "merkle_inputs sha256 data = data_blocks data @ root_inputs sha256 (merkle_leaves sha256 data)"

primrec climb_inputs :: "sha \<Rightarrow> bytes \<Rightarrow> nat \<Rightarrow> bytes list \<Rightarrow> bytes list" where
  "climb_inputs sha256 current idx [] = []"
| "climb_inputs sha256 current idx (uncle # proof) =
     (if idx mod 2 = 0 then copy_array 32 current @ copy_array 32 uncle
      else copy_array 32 uncle @ copy_array 32 current) #
     climb_inputs sha256
       (if idx mod 2 = 0 then hash_pair sha256 current uncle else hash_pair sha256 uncle current)
       (idx div 2) proof"

text \<open>Two computations clash if at some position they hash different inputs to one hash.\<close>

definition clash :: "sha \<Rightarrow> bytes list \<Rightarrow> bytes list \<Rightarrow> bool" where
  "clash sha256 xs ys \<longleftrightarrow> list_ex (\<lambda>(x, y). x \<noteq> y \<and> sha256 x = sha256 y) (zip xs ys)"

lemma clash_Cons [simp]:
  "clash sha256 (x # xs) (y # ys) \<longleftrightarrow> x \<noteq> y \<and> sha256 x = sha256 y \<or> clash sha256 xs ys"
  by (simp add: clash_def)

lemma clash_append [simp]:
  "length xs = length ys \<Longrightarrow> clash sha256 (xs @ xs') (ys @ ys') \<longleftrightarrow> clash sha256 xs ys \<or> clash sha256 xs' ys'"
  by (simp add: clash_def)

lemma no_clash_eq:
  "length xs = length ys \<Longrightarrow> \<not> clash sha256 xs ys \<Longrightarrow> map sha256 xs = map sha256 ys \<Longrightarrow> xs = ys"
  by (induction xs ys rule: list_induct2) auto

lemma clash_exhibits:
  "clash sha256 xs ys \<Longrightarrow> \<exists>i < min (length xs) (length ys). xs ! i \<noteq> ys ! i \<and> sha256 (xs ! i) = sha256 (ys ! i)"
  by (fastforce simp: clash_def list_ex_iff in_set_zip)

section \<open>Powers of two\<close>

lemma double_until_pow2:
  "0 < p \<Longrightarrow> p < n \<Longrightarrow> \<exists>j. 0 < j \<and> double_until p n = p * 2 ^ j \<and> n \<le> p * 2 ^ j \<and> p * 2 ^ (j - 1) < n"
proof (induction p n rule: double_until.induct)
  case (1 p n)
  have step: "double_until p n = double_until (p * 2) n" using "1.prems" by (simp add: double_until.simps)
  show ?case
  proof (cases "p * 2 < n")
    case True
    then obtain j where j: "0 < j" "double_until (p * 2) n = p * 2 * 2 ^ j" "n \<le> p * 2 * 2 ^ j"
      "p * 2 * 2 ^ (j - 1) < n" using "1.IH" "1.prems" by auto
    then have "p * 2 ^ (Suc j - 1) < n" by (cases j) (simp_all add: mult.assoc)
    then show ?thesis using j step by (intro exI [of _ "Suc j"]) (simp add: mult.assoc)
  next
    case False
    then show ?thesis using step "1.prems"
      by (intro exI [of _ 1]) (simp add: double_until.simps [of "p * 2"])
  qed
qed

text \<open>The least power of two that is at least \<open>n\<close>.\<close>

lemma next_pow2_cases:
  obtains k where "next_pow2 n = 2 ^ k" "n \<le> 2 ^ k" "k = 0 \<or> 2 ^ (k - 1) < n"
proof (cases "n \<le> 1")
  case True
  then show thesis by (intro that [of 0]) (simp_all add: next_pow2_def)
next
  case False
  then show thesis using double_until_pow2 [of 1 n] that by (auto simp: next_pow2_def)
qed

section \<open>Layers as one level of the tree\<close>

lemma nth_next_layer [simp]:
  "i < length layer div 2 \<Longrightarrow>
    next_layer sha256 layer ! i = hash_pair sha256 (layer ! (i * 2)) (layer ! (i * 2 + 1))"
  by (simp add: next_layer_def)

lemma next_layer_append:
  assumes "length xs = 2 * m"
  shows "next_layer sha256 (xs @ ys) = next_layer sha256 xs @ next_layer sha256 ys"
proof (rule nth_equalityI)
  show "length (next_layer sha256 (xs @ ys)) = length (next_layer sha256 xs @ next_layer sha256 ys)"
    using assms by simp
  fix i assume "i < length (next_layer sha256 (xs @ ys))"
  then have i: "i < m + length ys div 2" using assms by simp
  show "next_layer sha256 (xs @ ys) ! i = (next_layer sha256 xs @ next_layer sha256 ys) ! i"
  proof (cases "i < m")
    case True
    then show ?thesis using assms i by (simp add: nth_append)
  next
    case False
    then obtain j where j: "i = m + j" using le_Suc_ex by (metis not_less)
    have "i * 2 = length xs + j * 2" "i * 2 + 1 = length xs + (j * 2 + 1)" using assms j by simp_all
    then show ?thesis using assms i j
      by (simp only: nth_append_length_plus nth_next_layer length_append length_next_layer
          nth_append) simp
  qed
qed

lemma length_layers_pow: "length ((next_layer sha256 ^^ k) xs) = length xs div 2 ^ k"
  by (induction k) (simp_all add: div_mult2_eq [symmetric] mult.commute)

lemma layers_pow_append:
  "length xs = 2 ^ k * m \<Longrightarrow>
    (next_layer sha256 ^^ k) (xs @ ys) = (next_layer sha256 ^^ k) xs @ (next_layer sha256 ^^ k) ys"
proof (induction k arbitrary: m)
  case (Suc k)
  have len: "length xs = 2 ^ k * (2 * m)" using Suc.prems by (simp add: mult.commute mult.left_commute)
  then have "length ((next_layer sha256 ^^ k) xs) = 2 * m" by (simp add: length_layers_pow)
  then show ?case using Suc.IH [OF len] by (simp add: next_layer_append)
qed simp

lemma merkle_root_pow: "length xs = 2 ^ k \<Longrightarrow> [merkle_root sha256 xs] = (next_layer sha256 ^^ k) xs"
proof (induction k arbitrary: xs)
  case 0
  then show ?case by (cases xs) (simp_all add: merkle_root.simps)
next
  case (Suc k)
  have "length (next_layer sha256 xs) = 2 ^ k" using Suc.prems by simp
  moreover have "1 < length xs" unfolding Suc.prems by (rule one_less_power) simp_all
  ultimately show ?case
    using Suc.IH [of "next_layer sha256 xs"] by (simp add: merkle_root.simps [of _ xs] funpow_swap1)
qed

text \<open>The bottom-up loop computes the root of the tree.\<close>

lemma merkle_root_tree: "length xs = 2 ^ k \<Longrightarrow> merkle_root sha256 xs = tree_root sha256 k xs"
proof (induction k arbitrary: xs)
  case 0
  then show ?case by (cases xs) (simp_all add: merkle_root.simps)
next
  case (Suc k)
  define ys zs where "ys = take (2 ^ k) xs" and "zs = drop (2 ^ k) xs"
  have xs: "xs = ys @ zs" and len: "length ys = 2 ^ k" "length zs = 2 ^ k"
    using Suc.prems by (simp_all add: ys_def zs_def)
  have "[merkle_root sha256 xs] = (next_layer sha256 ^^ Suc k) xs" by (rule merkle_root_pow [OF Suc.prems])
  also have "\<dots> = next_layer sha256 ((next_layer sha256 ^^ k) ys @ (next_layer sha256 ^^ k) zs)"
    using len(1) by (simp add: xs layers_pow_append [where m = 1])
  also have "\<dots> = next_layer sha256 [merkle_root sha256 ys, merkle_root sha256 zs]"
    using len by (simp add: merkle_root_pow [symmetric])
  also have "\<dots> = [hash_pair sha256 (tree_root sha256 k ys) (tree_root sha256 k zs)]"
    using len by (simp add: next_layer_def Suc.IH)
  finally show ?case by (simp add: ys_def zs_def)
qed

section \<open>Shape of the leaves\<close>

definition hash32 :: "sha \<Rightarrow> bool" where
  "hash32 sha256 \<longleftrightarrow> (\<forall>x. length (sha256 x) = 32)"

lemma length_hash_pair [simp]: "hash32 sha256 \<Longrightarrow> length (hash_pair sha256 a b) = 32"
  by (simp add: hash32_def hash_pair_def)

lemma merkle_leaves_pow2:
  obtains k where "length (merkle_leaves sha256 data) = 2 ^ k"
    "k = 0 \<or> 2 ^ (k - 1) < num_leaves data" "num_leaves data \<le> 2 ^ k"
proof (cases "data = []")
  case True
  then show thesis by (intro that [of 0]) (simp_all add: merkle_leaves_def num_leaves_def merkle_block_size_def)
next
  case False
  obtain k where "next_pow2 (num_leaves data) = 2 ^ k" "num_leaves data \<le> 2 ^ k"
    "k = 0 \<or> 2 ^ (k - 1) < num_leaves data" by (rule next_pow2_cases)
  with False show thesis by (intro that [of k]) (simp_all add: merkle_leaves_def Let_def)
qed

lemma merkle_leaves_32: "hash32 sha256 \<Longrightarrow> \<forall>x \<in> set (merkle_leaves sha256 data). length x = 32"
  by (auto simp: merkle_leaves_def Let_def leaf_hash_def hash32_def)

lemma merkle_leaves_not_Nil [simp]: "merkle_leaves sha256 data \<noteq> []"
proof -
  obtain k where "length (merkle_leaves sha256 data) = 2 ^ k"
    using merkle_leaves_pow2 [of sha256 data] by blast
  then show ?thesis by (cases "merkle_leaves sha256 data") simp_all
qed

lemma merkle_hash_leaves: "merkle_hash sha256 data = merkle_root_from_leaves sha256 (merkle_leaves sha256 data)"
proof (cases "data = []")
  case True
  then have "merkle_leaves sha256 data = [sha256 []]" by (simp add: merkle_leaves_def)
  with True show ?thesis
    by (simp add: merkle_hash_def merkle_root_from_leaves_def merkle_root.simps [of _ "[_]"])
qed (simp add: merkle_hash_def merkle_root_from_leaves_def)

section \<open>Proofs\<close>

lemma climb_proof_of:
  "length xs = 2 ^ k \<Longrightarrow> i < 2 ^ k \<Longrightarrow>
    climb sha256 (xs ! i) i (proof_of (xs # upper_layers sha256 xs) i) = merkle_root sha256 xs"
proof (induction k arbitrary: xs i)
  case 0
  then show ?case by (simp add: upper_layers.simps [of _ xs] merkle_root.simps [of _ xs])
next
  case (Suc k)
  let ?next = "next_layer sha256 xs"
  have more: "1 < length xs" unfolding Suc.prems(1) by (rule one_less_power) simp_all
  have half: "i div 2 < 2 ^ k" "length ?next = 2 ^ k" using Suc.prems by (simp_all add: div_less_iff_less_mult)
  have up: "?next ! (i div 2) =
      (if i mod 2 = 0 then hash_pair sha256 (xs ! i) (xs ! (i + 1)) else hash_pair sha256 (xs ! (i - 1)) (xs ! i))"
    using half by (auto elim!: evenE oddE simp: even_iff_mod_2_eq_zero [symmetric] odd_iff_mod_2_eq_one [symmetric] mult.commute)
  let ?proof = "proof_of (?next # upper_layers sha256 ?next) (i div 2)"
  have "climb sha256 (xs ! i) i (proof_of (xs # upper_layers sha256 xs) i) =
      climb sha256 (?next ! (i div 2)) (i div 2) ?proof"
    using more by (simp add: upper_layers.simps [of _ xs] up)
  also have "\<dots> = merkle_root sha256 ?next" by (rule Suc.IH [OF half(2,1)])
  finally show ?case using more by (simp add: merkle_root.simps [of _ xs])
qed

lemma length_proof_of:
  "length xs = 2 ^ k \<Longrightarrow> length (proof_of (xs # upper_layers sha256 xs) i) = k"
proof (induction k arbitrary: xs i)
  case (Suc k)
  have "1 < length xs" unfolding Suc.prems by (rule one_less_power) simp_all
  then show ?case
    using Suc.IH [of "next_layer sha256 xs" "i div 2"] Suc.prems by (simp add: upper_layers.simps [of _ xs])
qed (simp add: upper_layers.simps)

lemma climb_inj:
  assumes "hash32 sha256"
  shows "length a = 32 \<Longrightarrow> length b = 32 \<Longrightarrow> \<forall>x \<in> set ps. length x = 32 \<Longrightarrow> \<forall>x \<in> set qs. length x = 32 \<Longrightarrow>
    length ps = length qs \<Longrightarrow> climb sha256 a i ps = climb sha256 b i qs \<Longrightarrow>
    \<not> clash sha256 (climb_inputs sha256 a i ps) (climb_inputs sha256 b i qs) \<Longrightarrow> a = b \<and> ps = qs"
proof (induction ps arbitrary: a b i qs)
  case (Cons p ps)
  obtain q qs' where qs: "qs = q # qs'" using Cons.prems(5) by (cases qs) simp_all
  let ?a = "if i mod 2 = 0 then hash_pair sha256 a p else hash_pair sha256 p a"
  let ?b = "if i mod 2 = 0 then hash_pair sha256 b q else hash_pair sha256 q b"
  have eq: "?a = ?b \<and> ps = qs'"
  proof (rule Cons.IH)
    show "length ?a = 32" "length ?b = 32" using assms(1) by auto
    show "\<forall>x \<in> set ps. length x = 32" "\<forall>x \<in> set qs'. length x = 32" "length ps = length qs'"
      using Cons.prems(3-5) by (simp_all add: qs)
    show "climb sha256 ?a (i div 2) ps = climb sha256 ?b (i div 2) qs'"
      using Cons.prems(6) by (simp only: qs climb.simps)
    show "\<not> clash sha256 (climb_inputs sha256 ?a (i div 2) ps) (climb_inputs sha256 ?b (i div 2) qs')"
      using Cons.prems(7) by (simp only: qs climb_inputs.simps clash_Cons) blast
  qed
  have len: "length p = 32" "length q = 32" using Cons.prems by (simp_all add: qs)
  then have "(if i mod 2 = 0 then a @ p else p @ a) = (if i mod 2 = 0 then b @ q else q @ b)"
    using Cons.prems(1,2,7) eq by (simp add: qs hash_pair_def split: if_splits)
  then show ?case using Cons.prems(1,2) len eq by (simp add: qs split: if_splits)
qed simp

section \<open>Binding\<close>

lemma next_layer_inputs: "next_layer sha256 layer = map sha256 (layer_inputs layer)"
  by (simp add: next_layer_def layer_inputs_def hash_pair_def)

text \<open>A layer of even length is determined by the inputs of the next one.\<close>

lemma layer_inputs_inj:
  assumes "length xs = length ys" "even (length xs)" "\<forall>x \<in> set xs \<union> set ys. length x = 32"
    "layer_inputs xs = layer_inputs ys"
  shows "xs = ys"
proof (rule nth_equalityI)
  fix k assume k: "k < length xs"
  have half: "k div 2 < length xs div 2" "k div 2 * 2 + 1 < length xs"
    using k assms(2) by presburger+
  have "copy_array 32 (xs ! (k div 2 * 2)) @ copy_array 32 (xs ! (k div 2 * 2 + 1)) =
      copy_array 32 (ys ! (k div 2 * 2)) @ copy_array 32 (ys ! (k div 2 * 2 + 1))"
    using arg_cong [OF assms(4), of "\<lambda>l. l ! (k div 2)"] half assms(1) by (simp add: layer_inputs_def)
  moreover have "length (zs ! j) = 32" if "j < length xs" "zs = xs \<or> zs = ys" for zs j
    using that assms(1,3) by auto
  ultimately have "xs ! (k div 2 * 2) = ys ! (k div 2 * 2) \<and> xs ! (k div 2 * 2 + 1) = ys ! (k div 2 * 2 + 1)"
    using half by simp
  moreover have "k = k div 2 * 2 \<or> k = k div 2 * 2 + 1" by presburger
  ultimately show "xs ! k = ys ! k" by metis
qed (rule assms(1))

lemma merkle_root_inj:
  assumes "hash32 sha256"
  shows "length xs = 2 ^ k \<Longrightarrow> length ys = 2 ^ k \<Longrightarrow> \<forall>x \<in> set xs \<union> set ys. length x = 32 \<Longrightarrow>
    merkle_root sha256 xs = merkle_root sha256 ys \<Longrightarrow>
    \<not> clash sha256 (root_inputs sha256 xs) (root_inputs sha256 ys) \<Longrightarrow> xs = ys"
proof (induction k arbitrary: xs ys)
  case 0
  then show ?case by (cases xs; cases ys) (simp_all add: merkle_root.simps)
next
  case (Suc k)
  have more: "1 < length xs" "1 < length ys" unfolding Suc.prems(1,2) by (rule one_less_power; simp)+
  have len: "length (layer_inputs xs) = length (layer_inputs ys)" using Suc.prems(1,2) by (simp add: layer_inputs_def)
  have nc: "\<not> clash sha256 (layer_inputs xs) (layer_inputs ys)"
    "\<not> clash sha256 (root_inputs sha256 (next_layer sha256 xs)) (root_inputs sha256 (next_layer sha256 ys))"
    using Suc.prems(5) more len by (simp_all add: root_inputs.simps [of _ xs] root_inputs.simps [of _ ys])
  have "next_layer sha256 xs = next_layer sha256 ys"
  proof (rule Suc.IH)
    show "\<forall>x \<in> set (next_layer sha256 xs) \<union> set (next_layer sha256 ys). length x = 32"
      using assms by (auto simp: next_layer_inputs hash32_def)
    show "merkle_root sha256 (next_layer sha256 xs) = merkle_root sha256 (next_layer sha256 ys)"
      using Suc.prems(4) more by (simp add: merkle_root.simps [of _ xs] merkle_root.simps [of _ ys])
    show "length (next_layer sha256 xs) = 2 ^ k" "length (next_layer sha256 ys) = 2 ^ k"
      by (simp_all add: Suc.prems(1,2))
  qed (rule nc(2))
  then have "layer_inputs xs = layer_inputs ys"
    unfolding next_layer_inputs by (rule no_clash_eq [OF len nc(1)])
  moreover have "length xs = length ys" "even (length xs)" by (simp_all add: Suc.prems(1,2))
  ultimately show ?case using layer_inputs_inj Suc.prems(3) by blast
qed

lemma leaf_hash_blocks: "map (leaf_hash sha256 data) [0..<num_leaves data] = map sha256 (data_blocks data)"
  by (simp add: data_blocks_def leaf_hash_def Let_def)

lemma nth_data_blocks:
  "i < num_leaves data \<Longrightarrow> data_blocks data ! i =
    slice data (i * merkle_block_size)
      (if length data < i * merkle_block_size + merkle_block_size then length data
       else i * merkle_block_size + merkle_block_size)"
  by (simp add: data_blocks_def)

lemma data_blocks_inj:
  assumes "length d1 = length d2" "data_blocks d1 = data_blocks d2"
  shows "d1 = d2"
proof (rule nth_equalityI)
  fix k assume k: "k < length d1"
  let ?i = "k div merkle_block_size"
  let ?stop = "if length d2 < ?i * merkle_block_size + merkle_block_size then length d2
    else ?i * merkle_block_size + merkle_block_size"
  have low: "?i * merkle_block_size \<le> k" "k < ?i * merkle_block_size + merkle_block_size"
    using dividend_less_div_times [of merkle_block_size k] by (simp_all add: merkle_block_size_def)
  have "?i < num_leaves d2"
    using k assms(1) unfolding num_leaves_def
    by (simp add: merkle_block_size_def less_eq_div_iff_mult_less_eq Suc_le_eq [symmetric])
  then have "slice d1 (?i * merkle_block_size) ?stop = slice d2 (?i * merkle_block_size) ?stop"
    using arg_cong [OF assms(2), of "\<lambda>l. l ! ?i"] assms(1) nth_data_blocks [of ?i d1] nth_data_blocks [of ?i d2]
    by (simp only: num_leaves_def assms(1))
  then have "slice d1 (?i * merkle_block_size) ?stop ! (k - ?i * merkle_block_size) =
      slice d2 (?i * merkle_block_size) ?stop ! (k - ?i * merkle_block_size)" by simp
  moreover have byte: "slice d (?i * merkle_block_size) ?stop ! (k - ?i * merkle_block_size) = d ! k"
    if "length d = length d2" for d
  proof -
    have "k - ?i * merkle_block_size < ?stop - ?i * merkle_block_size"
      by (rule diff_less_mono) (use low k assms(1) in simp_all)
    moreover have "?i * merkle_block_size \<le> length d" using low(1) k assms(1) that by linarith
    ultimately show ?thesis using low by (simp add: slice_def)
  qed
  ultimately show "d1 ! k = d2 ! k" by (simp only: byte [OF assms(1)] byte [OF refl])
qed (rule assms(1))

lemma merkle_leaves_inj:
  assumes "length d1 = length d2" "merkle_leaves sha256 d1 = merkle_leaves sha256 d2"
    "\<not> clash sha256 (data_blocks d1) (data_blocks d2)"
  shows "d1 = d2"
proof (cases "d1 = []")
  case False
  then have ne: "d2 \<noteq> []" using assms(1) by auto
  have n: "num_leaves d1 = num_leaves d2" by (simp add: num_leaves_def assms(1))
  have "map (leaf_hash sha256 d1) [0..<num_leaves d1] = map (leaf_hash sha256 d2) [0..<num_leaves d2]"
    using assms(2) False ne by (simp add: merkle_leaves_def Let_def n)
  then have "data_blocks d1 = data_blocks d2"
    unfolding leaf_hash_blocks by (intro no_clash_eq [OF _ assms(3)]) (simp add: data_blocks_def n)
  then show ?thesis by (rule data_blocks_inj [OF assms(1)])
qed (use assms(1) in simp)

section \<open>Properties\<close>

text \<open>
  C27. Merkle proofs. With \<open>2 ^ k\<close> leaves, the siblings read off \<open>MerkleLayers\<close> are a proof of
  \<open>k\<close> hashes that \<open>VerifyMerkleProof\<close> accepts for the leaf and the root of \<open>MerkleRootFromLeaves\<close>;
  and two leaves (with proofs of one length) accepted at one index for one root are equal, proofs
  included, or the two verifications clash: at some level they hash different pairs to one hash.
\<close>

theorem merkle_proof_spec:
  assumes "hash32 sha256" "length leaves = 2 ^ k" "i < 2 ^ k"
  shows "verify_merkle_proof sha256 (merkle_root_from_leaves sha256 leaves) (leaves ! i) i
      (proof_of (merkle_layers sha256 leaves) i) \<and>
    length (proof_of (merkle_layers sha256 leaves) i) = k \<and>
    (\<forall>root a b ps qs. length a = 32 \<longrightarrow> length b = 32 \<longrightarrow> (\<forall>x \<in> set ps \<union> set qs. length x = 32) \<longrightarrow>
      length ps = length qs \<longrightarrow> verify_merkle_proof sha256 root a i ps \<longrightarrow>
      verify_merkle_proof sha256 root b i qs \<longrightarrow>
      a = b \<and> ps = qs \<or> clash sha256 (climb_inputs sha256 a i ps) (climb_inputs sha256 b i qs))"
proof (intro conjI allI impI)
  have ne: "leaves \<noteq> []" using assms(2) by auto
  then show "verify_merkle_proof sha256 (merkle_root_from_leaves sha256 leaves) (leaves ! i) i
      (proof_of (merkle_layers sha256 leaves) i)"
    using climb_proof_of [OF assms(2,3), of sha256]
    by (simp add: verify_merkle_proof_def merkle_root_from_leaves_def merkle_layers_def)
  show "length (proof_of (merkle_layers sha256 leaves) i) = k"
    using ne length_proof_of [OF assms(2), of sha256 i] by (simp add: merkle_layers_def)
next
  fix root a b ps qs
  assume "length a = 32" "length b = 32" "\<forall>x \<in> set ps \<union> set qs. length x = 32" "length ps = length qs"
    "verify_merkle_proof sha256 root a i ps" "verify_merkle_proof sha256 root b i qs"
  then show "a = b \<and> ps = qs \<or> clash sha256 (climb_inputs sha256 a i ps) (climb_inputs sha256 b i qs)"
    using climb_inj [OF assms(1), of a b ps qs i] unfolding verify_merkle_proof_def by (simp add: ball_Un) blast
qed

lemma merkle_proof_spec_witness:
  "verify_merkle_proof (\<lambda>x. replicate 32 1) (merkle_root_from_leaves (\<lambda>x. replicate 32 1) [[1], [2]]) [2] 1
     (proof_of (merkle_layers (\<lambda>x. replicate 32 1) [[1], [2]]) 1)"
  using merkle_proof_spec [where ?sha256.0 = "\<lambda>x. replicate 32 1" and leaves = "[[1], [2]]" and k = 1 and i = 1,
      THEN conjunct1] by (simp add: hash32_def)

text \<open>
  C26. The root of a piece is the root of the least complete binary tree whose leaves are the hashes
  of its 16 KiB blocks, padded with zero hashes; and it binds the data: if other data of the same
  length has the same root, then the two computations clash, that is, at some position of the
  sequence of blocks and pairs that they hash stand different inputs with one hash.
\<close>

theorem merkle_hash_spec:
  assumes "hash32 sha256" "data \<noteq> []"
  shows "(\<exists>k. merkle_hash sha256 data = tree_root sha256 k (merkle_leaves sha256 data) \<and>
      length (merkle_leaves sha256 data) = 2 ^ k \<and> num_leaves data \<le> 2 ^ k \<and> (k = 0 \<or> 2 ^ (k - 1) < num_leaves data)) \<and>
    (\<forall>data'. length data' = length data \<longrightarrow> merkle_hash sha256 data' = merkle_hash sha256 data \<longrightarrow>
      data' = data \<or> clash sha256 (merkle_inputs sha256 data') (merkle_inputs sha256 data))"
proof (intro conjI allI impI)
  obtain k where k: "length (merkle_leaves sha256 data) = 2 ^ k"
    "k = 0 \<or> 2 ^ (k - 1) < num_leaves data" "num_leaves data \<le> 2 ^ k"
    by (rule merkle_leaves_pow2)
  have root: "merkle_hash sha256 d = tree_root sha256 k (merkle_leaves sha256 d)"
    "length (merkle_leaves sha256 d) = 2 ^ k" if "length d = length data" for d
  proof -
    have "d \<noteq> []" using that assms(2) by auto
    then show len: "length (merkle_leaves sha256 d) = 2 ^ k"
      using k(1) that assms(2) by (simp add: merkle_leaves_def Let_def num_leaves_def)
    show "merkle_hash sha256 d = tree_root sha256 k (merkle_leaves sha256 d)"
      using \<open>d \<noteq> []\<close> by (simp add: merkle_hash_def merkle_root_tree [OF len])
  qed
  show "\<exists>k. merkle_hash sha256 data = tree_root sha256 k (merkle_leaves sha256 data) \<and>
      length (merkle_leaves sha256 data) = 2 ^ k \<and> num_leaves data \<le> 2 ^ k \<and> (k = 0 \<or> 2 ^ (k - 1) < num_leaves data)"
    using k root [of data] by blast
  fix data' assume d: "length data' = length data" "merkle_hash sha256 data' = merkle_hash sha256 data"
  show "data' = data \<or> clash sha256 (merkle_inputs sha256 data') (merkle_inputs sha256 data)"
  proof (rule disjCI)
    assume "\<not> clash sha256 (merkle_inputs sha256 data') (merkle_inputs sha256 data)"
    then have nc: "\<not> clash sha256 (data_blocks data') (data_blocks data)"
      "\<not> clash sha256 (root_inputs sha256 (merkle_leaves sha256 data')) (root_inputs sha256 (merkle_leaves sha256 data))"
      using d(1) by (simp_all add: merkle_inputs_def data_blocks_def num_leaves_def)
    have "merkle_leaves sha256 data' = merkle_leaves sha256 data"
    proof (rule merkle_root_inj [OF assms(1) _ _ _ _ nc(2)])
      show "length (merkle_leaves sha256 data') = 2 ^ k" "length (merkle_leaves sha256 data) = 2 ^ k"
        using root(2) d(1) by simp_all
      show "\<forall>x \<in> set (merkle_leaves sha256 data') \<union> set (merkle_leaves sha256 data). length x = 32"
        using merkle_leaves_32 [OF assms(1)] by blast
      show "merkle_root sha256 (merkle_leaves sha256 data') = merkle_root sha256 (merkle_leaves sha256 data)"
        using d root(2) merkle_root_tree root(1) by metis
    qed
    then show "data' = data" by (rule merkle_leaves_inj [OF d(1) _ nc(1)])
  qed
qed

lemma merkle_hash_spec_witness:
  "\<exists>k. merkle_hash (\<lambda>x. replicate 32 1) [7] = tree_root (\<lambda>x. replicate 32 1) k (merkle_leaves (\<lambda>x. replicate 32 1) [7])"
  using merkle_hash_spec [where ?sha256.0 = "\<lambda>x. replicate 32 1" and data = "[7]", THEN conjunct1]
  by (auto simp: hash32_def)

text \<open>
  The package comment pairs an odd node with a zero hash in every layer; the code pads the leaves
  only, so with five blocks the third layer pairs with the hash of a pair of zero hashes.
\<close>

lemma padding_at_the_leaves:
  assumes "num_leaves data = 5" "data \<noteq> []"
  shows "\<exists>a b c d e z. length (merkle_leaves sha256 data) = 8 \<and> merkle_leaves sha256 data = [a, b, c, d, e, z, z, z] \<and>
    z = replicate 32 0 \<and>
    merkle_hash sha256 data =
      hash_pair sha256
        (hash_pair sha256 (hash_pair sha256 a b) (hash_pair sha256 c d))
        (hash_pair sha256 (hash_pair sha256 e z) (hash_pair sha256 z z))"
proof -
  have "next_pow2 5 = 8" by (simp add: next_pow2_def double_until.simps)
  then have "merkle_leaves sha256 data =
      map (leaf_hash sha256 data) [0, 1, 2, 3, 4] @ replicate 3 (replicate 32 0)"
    using assms by (simp add: merkle_leaves_def Let_def upt_rec numeral_eq_Suc)
  then have l: "merkle_leaves sha256 data = [leaf_hash sha256 data 0, leaf_hash sha256 data 1, leaf_hash sha256 data 2,
      leaf_hash sha256 data 3, leaf_hash sha256 data 4, replicate 32 0, replicate 32 0, replicate 32 0]"
    by (simp add: numeral_3_eq_3)
  then have len: "length (merkle_leaves sha256 data) = 2 ^ 3" by simp
  have "merkle_hash sha256 data = tree_root sha256 3 (merkle_leaves sha256 data)"
    using assms(2) by (simp add: merkle_hash_def merkle_root_tree [OF len])
  then show ?thesis using l by (simp add: numeral_3_eq_3)
qed

end
