(* ===== verification/Torrent.thy ===== *)
theory Torrent
  imports Bencode
begin

text \<open>
  Metainfo files (\<open>torrent/torrent.go\<close>): the parsed torrent, its trackers, the lengths of its
  pieces and the parser of the bencoded file. SHA-1 is an argument. Go's \<open>int\<close> is \<open>int\<close>
  with \<open>wrap64\<close> after each operation, as the lengths of a file from outside are not bounded.
\<close>

section \<open>The data\<close>

record tfile =
  f_length :: int
  f_path :: "bytes list"
  f_attr :: bytes

record torrent =
  t_announce :: bytes
  t_announce_list :: "bytes list list"
  t_url_list :: "bytes list"
  t_http_seeds :: "bytes list"
  t_info_hash :: bytes
  t_name :: bytes
  t_piece_length :: int
  t_pieces :: "bytes list"
  t_length :: int
  t_files :: "tfile list"
  t_private :: bool

definition hash_len :: nat where
  "hash_len = 20"

definition is_private :: "torrent \<Rightarrow> bool" where
  "is_private t = t_private t"

text \<open>The loop over the runes of \<open>Attr\<close> finds the ASCII letter \<open>p\<close> wherever its byte is.\<close>

definition is_pad :: "tfile \<Rightarrow> bool" where
  "is_pad f \<longleftrightarrow> (\<exists>c \<in> set (f_attr f). c = 112)"

definition is_single_file :: "torrent \<Rightarrow> bool" where
  "is_single_file t \<longleftrightarrow> t_files t = []"

section \<open>Trackers\<close>

text \<open>The closure \<open>add\<close> over the map \<open>seen\<close> and the result.\<close>

definition add_url :: "bytes set \<times> bytes list \<Rightarrow> bytes \<Rightarrow> bytes set \<times> bytes list" where
  "add_url st u =
     (let (seen, result) = st
      in if u \<noteq> [] \<and> u \<notin> seen then (insert u seen, result @ [u]) else st)"

definition trackers :: "torrent \<Rightarrow> bytes list" where
  "trackers t =
     snd (add_url (foldl (\<lambda>st tier. foldl add_url st tier) ({}, []) (t_announce_list t)) (t_announce t))"

section \<open>Lengths\<close>

definition total_length :: "torrent \<Rightarrow> int" where
  "total_length t =
     (if is_single_file t then t_length t
      else foldl (\<lambda>total f. wrap64 (total + f_length f)) 0 (t_files t))"

definition piece_len :: "torrent \<Rightarrow> int \<Rightarrow> int" where
  "piece_len t index =
     (let start = wrap64 (index * t_piece_length t);
          stop = wrap64 (start + t_piece_length t);
          total = total_length t;
          stop' = if total < stop then total else stop
      in wrap64 (stop' - start))"

section \<open>The info dictionary\<close>

definition dict_string :: "bdict \<Rightarrow> string \<Rightarrow> bytes res" where
  "dict_string d key =
     (case dict_get d key of
        None \<Rightarrow> Inl (Fail ''missing key'')
      | Some (BString s) \<Rightarrow> Inr s
      | Some _ \<Rightarrow> Inl (Fail ''not a string''))"

definition dict_int :: "bdict \<Rightarrow> string \<Rightarrow> int res" where
  "dict_int d key =
     (case dict_get d key of
        None \<Rightarrow> Inl (Fail ''missing key'')
      | Some (BInt n) \<Rightarrow> Inr (sint n)
      | Some _ \<Rightarrow> Inl (Fail ''not an integer''))"

primrec parse_path :: "bvalue list \<Rightarrow> bytes list res" where
  "parse_path [] = Inr []"
| "parse_path (pv # pvs) =
     (case pv of
        BString s \<Rightarrow> (case parse_path pvs of Inl e \<Rightarrow> Inl e | Inr ps \<Rightarrow> Inr (s # ps))
      | _ \<Rightarrow> Inl (Fail ''path component is not a string''))"

definition parse_file_entry :: "bvalue \<Rightarrow> tfile res" where
  "parse_file_entry fv =
     (case fv of
        BDict fd \<Rightarrow>
          (case dict_int fd ''length'' of
             Inl e \<Rightarrow> Inl e
           | Inr fl \<Rightarrow>
               (case get_list fd ''path'' of
                  None \<Rightarrow> Inl (Fail ''path is not a list'')
                | Some path_list \<Rightarrow>
                    (case parse_path path_list of
                       Inl e \<Rightarrow> Inl e
                     | Inr path \<Rightarrow>
                         Inr \<lparr>f_length = fl, f_path = path,
                              f_attr = (case get_string fd ''attr'' of Some a \<Rightarrow> a | None \<Rightarrow> [])\<rparr>)))
      | _ \<Rightarrow> Inl (Fail ''file is not a dict''))"

primrec parse_files :: "bvalue list \<Rightarrow> tfile list res" where
  "parse_files [] = Inr []"
| "parse_files (fv # fvs) =
     (case parse_file_entry fv of
        Inl e \<Rightarrow> Inl e
      | Inr f \<Rightarrow> (case parse_files fvs of Inl e \<Rightarrow> Inl e | Inr fs \<Rightarrow> Inr (f # fs)))"

text \<open>The \<open>switch\<close> on single-file or multi-file mode.\<close>

definition parse_layout :: "torrent \<Rightarrow> bdict \<Rightarrow> torrent res" where
  "parse_layout t info =
     (let has_length = dict_get info ''length'' \<noteq> None; has_files = dict_get info ''files'' \<noteq> None
      in if has_length \<and> has_files then Inl (Fail ''both length and files'')
         else if has_length then
           (case dict_int info ''length'' of Inl e \<Rightarrow> Inl e | Inr n \<Rightarrow> Inr (t\<lparr>t_length := n\<rparr>))
         else if has_files then
           (case get_list info ''files'' of
              None \<Rightarrow> Inl (Fail ''files is not a list'')
            | Some files_list \<Rightarrow>
                (case parse_files files_list of Inl e \<Rightarrow> Inl e | Inr fs \<Rightarrow> Inr (t\<lparr>t_files := fs\<rparr>)))
         else Inl (Fail ''missing length and files''))"

definition parse_info :: "torrent \<Rightarrow> bdict \<Rightarrow> torrent res" where
  "parse_info t info =
     (case dict_string info ''name'' of
        Inl e \<Rightarrow> Inl e
      | Inr name \<Rightarrow>
          (case dict_int info ''piece length'' of
             Inl e \<Rightarrow> Inl e
           | Inr pl \<Rightarrow>
               (case dict_get info ''pieces'' of
                  None \<Rightarrow> Inl (Fail ''missing pieces'')
                | Some (BString ps) \<Rightarrow>
                    if length ps mod hash_len \<noteq> 0 then Inl (Fail ''pieces length'')
                    else
                      (case parse_layout
                           (t\<lparr>t_name := name, t_piece_length := pl,
                              t_pieces := decode_indexed hash_len (copy_array hash_len) ps\<rparr>) info of
                         Inl e \<Rightarrow> Inl e
                       | Inr t' \<Rightarrow>
                           Inr (if get_int info ''private'' = Some 1 then t'\<lparr>t_private := True\<rparr> else t'))
                | Some _ \<Rightarrow> Inl (Fail ''pieces is not a string''))))"

section \<open>The metainfo file\<close>

fun strings_of :: "bvalue list \<Rightarrow> bytes list" where
  "strings_of [] = []"
| "strings_of (BString s # vs) = s # strings_of vs"
| "strings_of (_ # vs) = strings_of vs"

fun tiers_of :: "bvalue list \<Rightarrow> bytes list list" where
  "tiers_of [] = []"
| "tiers_of (BList tier # vs) =
     (let urls = strings_of tier in if urls \<noteq> [] then urls # tiers_of vs else tiers_of vs)"
| "tiers_of (_ # vs) = tiers_of vs"

definition raw_val :: "(bytes \<times> raw_value) list \<Rightarrow> string \<Rightarrow> bvalue option" where
  "raw_val entries k = map_option rv_val (map_of entries (str k))"

definition read_announce :: "bvalue option \<Rightarrow> bytes" where
  "read_announce v = (case v of Some (BString s) \<Rightarrow> s | _ \<Rightarrow> [])"

definition read_announce_list :: "bvalue option \<Rightarrow> bytes list list" where
  "read_announce_list v = (case v of Some (BList tiers) \<Rightarrow> tiers_of tiers | _ \<Rightarrow> [])"

definition read_url_list :: "bvalue option \<Rightarrow> bytes list" where
  "read_url_list v =
     (case v of
        Some (BString s) \<Rightarrow> if s \<noteq> [] then [s] else []
      | Some (BList vs) \<Rightarrow> filter (\<lambda>u. u \<noteq> []) (strings_of vs)
      | _ \<Rightarrow> [])"

definition read_http_seeds :: "bvalue option \<Rightarrow> bytes list" where
  "read_http_seeds v =
     (case v of Some (BList vs) \<Rightarrow> filter (\<lambda>u. u \<noteq> []) (strings_of vs) | _ \<Rightarrow> [])"

text \<open>The zero value \<open>Torrent{}\<close> with its announce fields set.\<close>

definition new_torrent :: "bytes \<Rightarrow> bytes list list \<Rightarrow> bytes list \<Rightarrow> bytes list \<Rightarrow> bytes \<Rightarrow> torrent" where
  "new_torrent announce announce_list url_list http_seeds info_hash =
     \<lparr>t_announce = announce, t_announce_list = announce_list, t_url_list = url_list,
      t_http_seeds = http_seeds, t_info_hash = info_hash, t_name = [], t_piece_length = 0,
      t_pieces = [], t_length = 0, t_files = [], t_private = False\<rparr>"

definition parse :: "(bytes \<Rightarrow> bytes) \<Rightarrow> bytes \<Rightarrow> torrent res" where
  "parse sha1 data =
     (case decode_dict_raw data of
        Inl e \<Rightarrow> Inl e
      | Inr entries \<Rightarrow>
          (case map_of entries (str ''info'') of
             None \<Rightarrow> Inl (Fail ''missing info'')
           | Some info_raw \<Rightarrow>
               (case rv_val info_raw of
                  BDict info \<Rightarrow>
                    parse_info
                      (new_torrent
                         (read_announce (raw_val entries ''announce''))
                         (read_announce_list (raw_val entries ''announce-list''))
                         (read_url_list (raw_val entries ''url-list''))
                         (read_http_seeds (raw_val entries ''httpseeds''))
                         (sha1 (rv_raw info_raw)))
                      info
                | _ \<Rightarrow> Inl (Fail ''info is not a dict''))))"

text \<open>\<open>FromInfoDict\<close>, for metadata that came from peers.\<close>

definition from_info_dict :: "bytes \<Rightarrow> bytes \<Rightarrow> bytes list \<Rightarrow> torrent res" where
  "from_info_dict raw_info info_hash urls =
     (case decode raw_info of
        Inl e \<Rightarrow> Inl e
      | Inr (BDict info) \<Rightarrow>
          parse_info
            (new_torrent
               (case urls of [] \<Rightarrow> [] | u # _ \<Rightarrow> u)
               (if 1 < length urls then [urls] else []) [] [] info_hash)
            info
      | Inr _ \<Rightarrow> Inl (Fail ''info dict is not a dict''))"

section \<open>Trackers are distinct\<close>

lemma add_url_cases:
  "add_url (set result, result) u =
     (if u \<noteq> [] \<and> u \<notin> set result then (set (result @ [u]), result @ [u]) else (set result, result))"
  by (simp add: add_url_def)

lemma foldl_add_url:
  "distinct result \<Longrightarrow> [] \<notin> set result \<Longrightarrow>
    \<exists>out. foldl add_url (set result, result) us = (set (result @ out), result @ out) \<and>
      distinct (result @ out) \<and> [] \<notin> set out \<and> set (result @ out) = set result \<union> (set us - {[]}) \<and>
      subseq out us"
proof (induction us arbitrary: result)
  case Nil
  then show ?case by (intro exI [of _ "[]"]) simp
next
  case (Cons u us)
  show ?case
  proof (cases "u \<noteq> [] \<and> u \<notin> set result")
    case True
    from True Cons.prems have "distinct (result @ [u])" "[] \<notin> set (result @ [u])" by auto
    from Cons.IH [OF this] obtain out where "foldl add_url (set (result @ [u]), result @ [u]) us =
        (set ((result @ [u]) @ out), (result @ [u]) @ out)"
      "distinct ((result @ [u]) @ out)" "[] \<notin> set out"
      "set ((result @ [u]) @ out) = set (result @ [u]) \<union> (set us - {[]})" "subseq out us" by blast
    moreover have "u \<noteq> []" "[] \<noteq> u" "u \<notin> set result" using True by auto
    ultimately show ?thesis
      by (intro exI [of _ "u # out"] conjI) (simp_all add: add_url_cases insert_Diff_if)
  next
    case False
    from Cons.IH [OF Cons.prems] obtain out where "foldl add_url (set result, result) us =
        (set (result @ out), result @ out)"
      "distinct (result @ out)" "[] \<notin> set out" "set (result @ out) = set result \<union> (set us - {[]})"
      "subseq out us" by blast
    moreover have "set result \<union> (set (u # us) - {[]}) = set result \<union> (set us - {[]})"
      using False by auto
    moreover have "foldl add_url (set result, result) (u # us) = foldl add_url (set result, result) us"
      using False by (auto simp: add_url_cases)
    moreover have "subseq out us \<Longrightarrow> subseq out (u # us)" by (rule list_emb_Cons)
    ultimately show ?thesis by (intro exI [of _ out]) simp
  qed
qed

lemma foldl_tiers: "foldl (\<lambda>st tier. foldl add_url st tier) st tiers = foldl add_url st (concat tiers)"
  by (induction tiers arbitrary: st) simp_all

lemma trackers_spec:
  "distinct (trackers t) \<and> set (trackers t) = set (t_announce t # concat (t_announce_list t)) - {[]} \<and>
    subseq (trackers t) (concat (t_announce_list t) @ [t_announce t])"
proof -
  let ?us = "concat (t_announce_list t) @ [t_announce t]"
  obtain out where out: "foldl add_url (set [], []) ?us = (set ([] @ out), [] @ out)"
    "distinct ([] @ out)" "set ([] @ out) = set [] \<union> (set ?us - {[]})" "subseq out ?us"
    using foldl_add_url [of "[]" ?us] by auto
  have "trackers t = snd (foldl add_url (set [], []) ?us)"
    by (simp add: trackers_def foldl_tiers)
  then have "trackers t = out" by (simp only: out(1) snd_conv append_Nil)
  moreover have "set out = set (t_announce t # concat (t_announce_list t)) - {[]}" using out(3) by auto
  ultimately show ?thesis using out(2,4) by (simp only: append_Nil)
qed

section \<open>Lengths of the pieces\<close>

text \<open>As many hashes as the total length asks for, within the range of \<open>int\<close>.\<close>

definition well_sized :: "torrent \<Rightarrow> bool" where
  "well_sized t \<longleftrightarrow>
     (let n = int (length (t_pieces t)); pl = t_piece_length t
      in 0 < pl \<and> n * pl < 2 ^ 63 \<and> 0 \<le> total_length t \<and> total_length t \<le> n * pl \<and> (n - 1) * pl < total_length t)"

lemma piece_len_eq:
  assumes "well_sized t" "i < length (t_pieces t)"
  shows "piece_len t (int i) = min (t_piece_length t) (total_length t - int i * t_piece_length t)"
    "0 < piece_len t (int i)"
proof -
  define n pl total where "n = int (length (t_pieces t))" and "pl = t_piece_length t" and "total = total_length t"
  have ws: "0 < pl" "n * pl < 2 ^ 63" "total \<le> n * pl" "(n - 1) * pl < total"
    using assms(1) by (simp_all add: well_sized_def Let_def n_def pl_def total_def)
  have "int i * pl \<le> (n - 1) * pl" using assms(2) ws(1) by (intro mult_right_mono) (simp_all add: n_def)
  then have i: "0 \<le> int i * pl" "int i * pl < total" "int i * pl + pl \<le> n * pl"
    using ws by (simp_all add: algebra_simps)
  have "pl \<le> n * pl" using i by linarith
  with i ws(1-3) have range: "in_int64 (int i * pl)" "in_int64 (int i * pl + pl)"
    "in_int64 (total - int i * pl)" "in_int64 pl"
    unfolding in_int64_def by linarith+
  then show "piece_len t (int i) = min (t_piece_length t) (total_length t - int i * t_piece_length t)"
    by (auto simp: piece_len_def Let_def pl_def [symmetric] total_def [symmetric])
  then show "0 < piece_len t (int i)" using ws(1) i(2) by (simp add: pl_def total_def)
qed

lemma sum_piece_len:
  assumes "well_sized t" "k \<le> length (t_pieces t)"
  shows "(\<Sum>i<k. piece_len t (int i)) = min (int k * t_piece_length t) (total_length t)"
  using assms(2)
proof (induction k)
  case 0
  then show ?case using assms(1) by (simp add: well_sized_def Let_def)
next
  case (Suc k)
  define n pl where "n = int (length (t_pieces t))" and "pl = t_piece_length t"
  have "0 < pl" "(n - 1) * pl < total_length t"
    using assms(1) by (simp_all add: well_sized_def Let_def n_def pl_def)
  moreover have "int k * pl \<le> (n - 1) * pl"
    using Suc.prems \<open>0 < pl\<close> by (intro mult_right_mono) (simp_all add: n_def)
  ultimately show ?case
    using Suc piece_len_eq(1) [OF assms(1), of k] by (simp add: pl_def algebra_simps)
qed

section \<open>Parsing what was encoded\<close>

lemma strings_of_norm [simp]: "strings_of (map norm vs) = strings_of vs"
  by (induction vs rule: strings_of.induct) simp_all

lemma tiers_of_norm [simp]: "tiers_of (map norm vs) = tiers_of vs"
  by (induction vs rule: tiers_of.induct) (simp_all add: Let_def)

lemma read_norm [simp]:
  "read_announce (map_option norm v) = read_announce v"
  "read_announce_list (map_option norm v) = read_announce_list v"
  "read_url_list (map_option norm v) = read_url_list v"
  "read_http_seeds (map_option norm v) = read_http_seeds v"
  by (auto simp: read_announce_def read_announce_list_def read_url_list_def read_http_seeds_def
      split: option.split bvalue.split)

lemma parse_path_norm [simp]: "parse_path (map norm vs) = parse_path vs"
  by (induction vs) (simp_all split: bvalue.split sum.split)

lemma dict_field_norm [simp]:
  assumes "distinct (map fst d)"
  shows "dict_string (norm_dict d) k = dict_string d k" "dict_int (norm_dict d) k = dict_int d k"
  by (auto simp: dict_string_def dict_int_def dict_get_norm [OF assms] split: option.split bvalue.split)

lemma parse_file_entry_norm: "wf_value v \<Longrightarrow> parse_file_entry (norm v) = parse_file_entry v"
proof (cases v)
  case (BDict d)
  moreover assume "wf_value v"
  ultimately have "distinct (map fst d)" by simp
  then show ?thesis
    by (simp add: BDict norm_BDict parse_file_entry_def get_norm del: norm.simps split: sum.split option.split)
qed (simp_all add: parse_file_entry_def)

lemma parse_files_norm: "\<forall>v \<in> set vs. wf_value v \<Longrightarrow> parse_files (map norm vs) = parse_files vs"
  by (induction vs) (simp_all add: parse_file_entry_norm split: sum.split)

lemma wf_dict_get: "wf_value (BDict d) \<Longrightarrow> dict_get d k = Some v \<Longrightarrow> wf_value v"
  unfolding dict_get_def by (auto dest: map_of_SomeD)

lemma parse_info_norm:
  assumes "wf_value (BDict info)"
  shows "parse_info t (norm_dict info) = parse_info t info"
proof -
  have d: "distinct (map fst info)" using assms by simp
  have files: "parse_files (map norm vs) = parse_files vs" if "get_list info ''files'' = Some vs" for vs
  proof -
    have "dict_get info ''files'' = Some (BList vs)"
      using that by (auto simp: get_list_def split: option.splits bvalue.splits)
    then have "wf_value (BList vs)" using wf_dict_get [OF assms] by blast
    then show ?thesis by (intro parse_files_norm) simp
  qed
  have "parse_layout t' (norm_dict info) = parse_layout t' info" for t'
    using files by (auto simp: parse_layout_def Let_def dict_get_norm [OF d] get_norm [OF d] d split: option.split)
  then show ?thesis
    by (auto simp: parse_info_def dict_get_norm [OF d] get_norm [OF d] d split: sum.split option.split bvalue.split)
qed

text \<open>Parsing an encoded dictionary; the info hash is that of the info dictionary's encoding.\<close>

lemma parse_encode:
  assumes "wf_value (BDict meta)" "get_dict meta ''info'' = Some info"
  shows "parse sha1 (encode (BDict meta)) =
    parse_info
      (new_torrent (read_announce (dict_get meta ''announce'')) (read_announce_list (dict_get meta ''announce-list''))
        (read_url_list (dict_get meta ''url-list'')) (read_http_seeds (dict_get meta ''httpseeds''))
        (sha1 (encode (BDict info)))) info"
proof -
  have d: "distinct (map fst meta)" using assms(1) by simp
  have info: "dict_get meta ''info'' = Some (BDict info)"
    using assms(2) by (auto simp: get_dict_def split: option.splits bvalue.splits)
  have wf: "wf_value (BDict info)" by (rule wf_dict_get [OF assms(1) info])
  have vals: "raw_val (map raw_entry (sort_key fst meta)) k = map_option norm (dict_get meta k)" for k
    by (cases "dict_get meta k") (simp_all add: raw_val_def map_of_raw_entries [OF d] dict_get_def)
  have "map_of (map raw_entry (sort_key fst meta)) (str ''info'') =
      Some \<lparr>rv_val = BDict (norm_dict info), rv_raw = encode (BDict info)\<rparr>"
    using info by (simp only: map_of_raw_entries [OF d] dict_get_def option.map norm_BDict)
  then show ?thesis
    unfolding parse_def decode_dict_raw_encode [OF assms(1)]
    by (simp add: vals parse_info_norm [OF wf] del: encode_simps str_Cons)
qed

section \<open>Properties\<close>

text \<open>
  A torrent with as many hashes as its length asks for: every piece is non-empty and at most
  the piece length, the pieces before the \<open>k\<close>-th cover the first \<open>k * PieceLength\<close> bytes (which
  is the offset the downloader writes piece \<open>k\<close> at), and all pieces together are the whole
  content, without overflow of \<open>int\<close>.
\<close>

theorem piece_lengths_partition:
  assumes "well_sized t"
  shows "(\<forall>i < length (t_pieces t). 0 < piece_len t (int i) \<and> piece_len t (int i) \<le> t_piece_length t) \<and>
    (\<forall>k < length (t_pieces t). (\<Sum>i<k. piece_len t (int i)) = int k * t_piece_length t) \<and>
    (\<Sum>i<length (t_pieces t). piece_len t (int i)) = total_length t"
proof (intro conjI allI impI)
  fix i assume "i < length (t_pieces t)"
  then show "0 < piece_len t (int i)" "piece_len t (int i) \<le> t_piece_length t"
    using piece_len_eq [OF assms] by simp_all
next
  fix k assume k: "k < length (t_pieces t)"
  have "0 < piece_len t (int k)" by (rule piece_len_eq(2) [OF assms k])
  then have "int k * t_piece_length t \<le> total_length t" by (simp add: piece_len_eq(1) [OF assms k])
  then show "(\<Sum>i<k. piece_len t (int i)) = int k * t_piece_length t"
    using sum_piece_len [OF assms, of k] k by simp
next
  have "total_length t \<le> int (length (t_pieces t)) * t_piece_length t"
    using assms by (simp add: well_sized_def Let_def)
  then show "(\<Sum>i<length (t_pieces t). piece_len t (int i)) = total_length t"
    using sum_piece_len [OF assms, of "length (t_pieces t)"] by simp
qed

definition sample_torrent :: torrent where
  "sample_torrent =
     (new_torrent [] [] [] [] [])\<lparr>t_piece_length := 4, t_pieces := [[1], [2], [3]], t_length := 10\<rparr>"

lemma piece_lengths_partition_witness: "(\<Sum>i<3. piece_len sample_torrent (int i)) = 10"
proof -
  have "well_sized sample_torrent" "length (t_pieces sample_torrent) = 3" "total_length sample_torrent = 10"
    by (simp_all add: well_sized_def sample_torrent_def new_torrent_def total_length_def is_single_file_def)
  with piece_lengths_partition [of sample_torrent] show ?thesis by simp
qed

text \<open>
  \<open>Parse\<close> does not compare the number of hashes with the length, nor check signs: it accepts a
  metainfo file of one byte with three hashes, whose third piece has a negative length. The
  downloader passes that length to \<open>make\<close>, which panics.
\<close>

lemma parse_accepts_negative_piece:
  "\<exists>t. parse sha1 (encode (BDict [(str ''info'',
      BDict [(str ''length'', BInt 1), (str ''name'', BString []), (str ''piece length'', BInt 1),
        (str ''pieces'', BString (replicate 60 0))])])) = Inr t \<and>
    length (t_pieces t) = 3 \<and> piece_len t 2 = -1"
proof -
  let ?info = "[(str ''length'', BInt 1), (str ''name'', BString []), (str ''piece length'', BInt 1),
    (str ''pieces'', BString (replicate 60 0))]"
  let ?meta = "[(str ''info'', BDict ?info)]"
  have wf: "wf_value (BDict ?meta)" by (simp add: small_def)
  have "get_dict ?meta ''info'' = Some ?info" by (simp add: get_dict_def dict_get_def)
  from parse_encode [OF wf this, of sha1] show ?thesis
    by (auto simp del: encode_simps simp: parse_info_def parse_layout_def dict_string_def dict_int_def dict_get_def
        get_int_def hash_len_def decode_indexed_def new_torrent_def piece_len_def total_length_def
        is_single_file_def in_int64_def)
qed

end
