(* ===== verification/TorrentCreate.thy ===== *)
theory TorrentCreate
  imports Torrent
begin

text \<open>
  Creation of metainfo files (\<open>torrent/create.go\<close>). The file system is an argument: a file is
  its content, a directory its entries, a symbolic link its own size and what it leads to. The streaming loops that hash pieces across reads and
  file boundaries are shown equal to hashing the pieces of the concatenated content, and the
  parser reads back what was created.
\<close>

section \<open>The choice of the piece length\<close>

function double_length :: "nat \<Rightarrow> nat \<Rightarrow> nat" where
  "double_length target result =
     (if 0 < result \<and> result < target \<and> result < 16 * 1024 * 1024
      then double_length target (result * 2) else result)"
  by pat_completeness auto

termination
  by (relation "measure (\<lambda>(target, result). target - result)") auto

declare double_length.simps [simp del]

definition piece_length :: "nat \<Rightarrow> int \<Rightarrow> nat" where
  "piece_length total_size pl =
     (if 0 < pl then nat pl else double_length (total_size div 1500) (16 * 1024))"

section \<open>Hashing\<close>

text \<open>The pieces of a content: all of length \<open>n\<close> but the last.\<close>

fun chunks :: "nat \<Rightarrow> 'a list \<Rightarrow> 'a list list" where
  "chunks n xs = (if n = 0 \<or> xs = [] then [] else take n xs # chunks n (drop n xs))"

declare chunks.simps [simp del]

text \<open>
  \<open>hashFile\<close>: \<open>io.ReadFull\<close> fills the buffer or stops at the end of the file. The piece length
  is positive (\<open>piece_length\<close>), so the first condition never ends the loop early.
\<close>

function hash_file :: "(bytes \<Rightarrow> bytes) \<Rightarrow> nat \<Rightarrow> bytes \<Rightarrow> bytes" where
  "hash_file sha1 plen content =
     (let chunk = take plen content
      in (if chunk \<noteq> [] then sha1 chunk else []) @
         (if plen = 0 \<or> length chunk < plen then [] else hash_file sha1 plen (drop plen content)))"
  by pat_completeness auto

termination
  by (relation "measure (\<lambda>(s, n, content). length content)") auto

declare hash_file.simps [simp del]

text \<open>
  The state of \<open>hashMultiFiles\<close>: the sums so far, the bytes written to the hash since its last
  reset, and the bytes that are missing for a piece.
\<close>

record hash_state =
  h_pieces :: bytes
  h_written :: bytes
  h_remaining :: nat

text \<open>The innermost loop, over the data of one read.\<close>

function feed :: "(bytes \<Rightarrow> bytes) \<Rightarrow> nat \<Rightarrow> bytes \<Rightarrow> hash_state \<Rightarrow> hash_state" where
  "feed sha1 plen data st =
     (if data = [] \<or> h_remaining st = 0 then st
      else
        let n = (if length data < h_remaining st then length data else h_remaining st);
            st1 = st\<lparr>h_written := h_written st @ take n data, h_remaining := h_remaining st - n\<rparr>;
            st2 = (if h_remaining st1 = 0
                   then \<lparr>h_pieces = h_pieces st1 @ sha1 (h_written st1), h_written = [], h_remaining = plen\<rparr>
                   else st1)
        in feed sha1 plen (drop n data) st2)"
  by pat_completeness auto

termination
  by (relation "measure (\<lambda>(s, n, data, st). length data)") auto

declare feed.simps [simp del]

text \<open>\<open>Read\<close> into a buffer of 32 KiB.\<close>

definition read_chunks :: "bytes \<Rightarrow> bytes list" where
  "read_chunks content = chunks (32 * 1024) content"

definition hash_reads :: "(bytes \<Rightarrow> bytes) \<Rightarrow> nat \<Rightarrow> bytes list list \<Rightarrow> bytes" where
  "hash_reads sha1 plen files =
     (let st = foldl (\<lambda>st rds. foldl (\<lambda>st data. feed sha1 plen data st) st rds)
                 \<lparr>h_pieces = [], h_written = [], h_remaining = plen\<rparr> files
      in if h_remaining st < plen then h_pieces st @ sha1 (h_written st) else h_pieces st)"

definition hash_multi_files :: "(bytes \<Rightarrow> bytes) \<Rightarrow> nat \<Rightarrow> bytes list \<Rightarrow> bytes" where
  "hash_multi_files sha1 plen contents = hash_reads sha1 plen (map read_chunks contents)"

section \<open>The files of a directory\<close>

text \<open>
  A symbolic link has the size that \<open>Lstat\<close> gives it (the length of the path it holds) and the node it leads to,
  if any.
\<close>

datatype fs_node =
    FileNode bytes
  | DirNode "(bytes \<times> fs_node) list"
  | LinkNode nat "fs_node option"

text \<open>\<open>os.Stat\<close> follows links; \<open>os.Open\<close> does too, and reading from a directory fails.\<close>

fun stat_node :: "fs_node \<Rightarrow> fs_node option" where
  "stat_node (LinkNode n None) = None"
| "stat_node (LinkNode n (Some node)) = stat_node node"
| "stat_node node = Some node"

definition single_content :: "fs_node \<Rightarrow> bytes option" where
  "single_content node = (case stat_node node of Some (FileNode content) \<Rightarrow> Some content | _ \<Rightarrow> None)"

text \<open>An entry of the list of files, with what opening and reading it gives.\<close>

record file_entry =
  fe_path :: bytes
  fe_size :: nat
  fe_content :: "bytes option"

definition join_path :: "bytes \<Rightarrow> bytes \<Rightarrow> bytes" where
  "join_path dir name = (if dir = [] then name else dir @ 47 # name)"

text \<open>
  The function passed to \<open>filepath.Walk\<close>: hidden entries and entries of size zero are skipped. \<open>Walk\<close> does not
  follow links and gives the size of the link itself.
\<close>

definition listed :: "bytes \<Rightarrow> bytes \<Rightarrow> nat \<Rightarrow> bytes option \<Rightarrow> file_entry list" where
  "listed path name sz content =
     (if starts_with 46 name \<or> sz = 0 then [] else [\<lparr>fe_path = path, fe_size = sz, fe_content = content\<rparr>])"

fun walk :: "bytes \<Rightarrow> (bytes \<times> fs_node) list \<Rightarrow> file_entry list" where
  "walk dir [] = []"
| "walk dir ((name, FileNode content) # es) =
     listed (join_path dir name) name (length content) (Some content) @ walk dir es"
| "walk dir ((name, LinkNode sz target) # es) =
     listed (join_path dir name) name sz (single_content (LinkNode sz target)) @ walk dir es"
| "walk dir ((name, DirNode sub) # es) =
     (if starts_with 46 name then [] else walk (join_path dir name) sub) @ walk dir es"

text \<open>The walk from the path of \<open>Create\<close>: a link to a directory is an entry of its own, which cannot be read.\<close>

definition walk_root :: "bytes \<Rightarrow> fs_node \<Rightarrow> file_entry list" where
  "walk_root name node =
     (case node of
        DirNode entries \<Rightarrow> walk [] entries
      | FileNode content \<Rightarrow> listed (str ''.'') name (length content) (Some content)
      | LinkNode sz target \<Rightarrow> listed (str ''.'') name sz (single_content node))"

section \<open>Building the metainfo\<close>

record create_opts =
  o_tracker :: bytes
  o_trackers :: "bytes list"
  o_piece_length :: int
  o_private :: bool
  o_comment :: bytes
  o_web_seeds :: "bytes list"
  o_created_by :: bytes

definition bint :: "nat \<Rightarrow> bvalue" where
  "bint n = BInt (of_nat n)"

definition private_entry :: "create_opts \<Rightarrow> bdict" where
  "private_entry opts = (if o_private opts then [(str ''private'', BInt 1)] else [])"

definition build_single_file_info :: "(bytes \<Rightarrow> bytes) \<Rightarrow> bytes \<Rightarrow> bytes \<Rightarrow> create_opts \<Rightarrow> bdict" where
  "build_single_file_info sha1 name content opts =
     (let pl = piece_length (length content) (o_piece_length opts)
      in [(str ''name'', BString name), (str ''piece length'', bint pl),
          (str ''pieces'', BString (hash_file sha1 pl content)), (str ''length'', bint (length content))] @
         private_entry opts)"

definition file_dict :: "file_entry \<Rightarrow> bvalue" where
  "file_dict f =
     BDict [(str ''length'', bint (fe_size f)), (str ''path'', BList (map BString (split_on 47 (fe_path f))))]"

definition build_multi_file_info :: "(bytes \<Rightarrow> bytes) \<Rightarrow> bytes \<Rightarrow> fs_node \<Rightarrow> create_opts \<Rightarrow> bdict res" where
  "build_multi_file_info sha1 name node opts =
     (let files = sort_key fe_path (walk_root name node);
          total_size = sum_list (map fe_size files)
      in if files = [] then Inl (Fail ''no files found'')
         else
           let pl = piece_length total_size (o_piece_length opts)
           in case those (map fe_content files) of
                None \<Rightarrow> Inl (Fail ''read'')
              | Some contents \<Rightarrow>
                  Inr ([(str ''name'', BString name), (str ''piece length'', bint pl),
                        (str ''pieces'', BString (hash_multi_files sha1 pl contents)),
                        (str ''files'', BList (map file_dict files))] @ private_entry opts))"

definition build_info :: "(bytes \<Rightarrow> bytes) \<Rightarrow> bytes \<Rightarrow> fs_node \<Rightarrow> create_opts \<Rightarrow> bdict res" where
  "build_info sha1 name node opts =
     (case stat_node node of
        None \<Rightarrow> Inl (Fail ''stat'')
      | Some (FileNode content) \<Rightarrow> Inr (build_single_file_info sha1 name content opts)
      | Some _ \<Rightarrow> build_multi_file_info sha1 name node opts)"

definition create_meta :: "64 word \<Rightarrow> bdict \<Rightarrow> create_opts \<Rightarrow> bdict" where
  "create_meta now info opts =
     [(str ''announce'', BString (o_tracker opts)), (str ''creation date'', BInt now), (str ''info'', BDict info)] @
     (if o_trackers opts \<noteq> []
      then [(str ''announce-list'', BList [BList (map BString (o_tracker opts # o_trackers opts))])] else []) @
     (if o_comment opts \<noteq> [] then [(str ''comment'', BString (o_comment opts))] else []) @
     [(str ''created by'',
       BString (if o_created_by opts = [] then str ''Peer Pressure'' else o_created_by opts))] @
     (if o_web_seeds opts \<noteq> [] then [(str ''url-list'', BList (map BString (o_web_seeds opts)))] else [])"

definition create :: "(bytes \<Rightarrow> bytes) \<Rightarrow> 64 word \<Rightarrow> bytes \<Rightarrow> fs_node \<Rightarrow> create_opts \<Rightarrow> bytes res" where
  "create sha1 now name node opts =
     (if o_tracker opts = [] then Inl (Fail ''tracker URL is required'')
      else case build_info sha1 name node opts of
        Inl e \<Rightarrow> Inl e
      | Inr info \<Rightarrow> Inr (encode (BDict (create_meta now info opts))))"

section \<open>The pieces of a content\<close>

lemma chunks_Nil [simp]: "chunks n [] = []"
  by (simp add: chunks.simps)

lemma concat_chunks: "0 < n \<Longrightarrow> concat (chunks n xs) = xs"
proof (induction n xs rule: chunks.induct)
  case (1 n xs)
  then show ?case by (cases "xs = []") (simp_all add: chunks.simps [of n xs])
qed

lemma chunks_append:
  "\<forall>d \<in> set ds. length d = n \<Longrightarrow> length rest < n \<Longrightarrow>
    chunks n (concat ds @ rest) = ds @ (if rest = [] then [] else [rest])"
proof (induction ds)
  case Nil
  then show ?case by (simp add: chunks.simps [of n rest])
next
  case (Cons d ds)
  then have "0 < n" "d \<noteq> []" "length d = n" by auto
  with Cons show ?case by (simp add: chunks.simps [of n "d @ concat ds @ rest"])
qed

lemma length_chunks:
  "0 < n \<Longrightarrow> length xs \<le> length (chunks n xs) * n \<and> length (chunks n xs) * n < length xs + n"
proof (induction n xs rule: chunks.induct)
  case (1 n xs)
  show ?case
  proof (cases "xs = []")
    case False
    then have eq: "length (chunks n xs) * n = n + length (chunks n (drop n xs)) * n"
      using "1.prems" by (simp add: chunks.simps [of n xs])
    show ?thesis
    proof (cases "n \<le> length xs")
      case True
      with False 1 have "length xs - n \<le> length (chunks n (drop n xs)) * n"
        "length (chunks n (drop n xs)) * n < length xs - n + n" by simp_all
      with True show ?thesis unfolding eq by linarith
    next
      case False
      with \<open>xs \<noteq> []\<close> show ?thesis by (simp add: eq)
    qed
  qed (use 1 in simp)
qed

lemma chunks_split:
  assumes "0 < n"
  obtains ds rest where "xs = concat ds @ rest" "\<forall>d \<in> set ds. length d = n" "length rest < n"
  using assms
proof (induction n xs arbitrary: thesis rule: chunks.induct)
  case (1 n xs)
  show ?case
  proof (cases "length xs < n")
    case True
    then show ?thesis by (intro "1.prems"(1) [of "[]" xs]) simp_all
  next
    case False
    then have "\<not> (n = 0 \<or> xs = [])" using "1.prems" by auto
    with "1.IH" obtain ds rest where "drop n xs = concat ds @ rest" "\<forall>d \<in> set ds. length d = n"
      "length rest < n" using "1.prems"(2) by metis
    moreover have "xs = take n xs @ drop n xs" by simp
    ultimately show ?thesis using False by (intro "1.prems"(1) [of "take n xs # ds" rest]) auto
  qed
qed

section \<open>The streaming loops hash the pieces\<close>

definition chunk_hashes :: "(bytes \<Rightarrow> bytes) \<Rightarrow> nat \<Rightarrow> bytes \<Rightarrow> bytes" where
  "chunk_hashes sha1 n content = concat (map sha1 (chunks n content))"

lemma hash_file_hashes: "0 < n \<Longrightarrow> hash_file sha1 n content = chunk_hashes sha1 n content"
proof (induction sha1 n content rule: hash_file.induct)
  case (1 sha1 n content)
  show ?case
  proof (cases "length content < n")
    case True
    then show ?thesis
      by (cases "content = []") (simp_all add: hash_file.simps [of _ n] chunk_hashes_def chunks.simps [of n content])
  next
    case False
    with "1.prems" have "content \<noteq> []" by auto
    with False 1 show ?thesis
      by (simp add: hash_file.simps [of _ n content] chunk_hashes_def chunks.simps [of n content] Let_def)
  qed
qed

text \<open>The invariant of the loops, over the data fed so far.\<close>

definition fed :: "(bytes \<Rightarrow> bytes) \<Rightarrow> nat \<Rightarrow> bytes \<Rightarrow> hash_state \<Rightarrow> bool" where
  "fed sha1 n sofar st \<longleftrightarrow>
     (\<exists>ds. sofar = concat ds @ h_written st \<and> (\<forall>d \<in> set ds. length d = n) \<and>
        h_pieces st = concat (map sha1 ds) \<and> length (h_written st) < n \<and>
        h_remaining st = n - length (h_written st))"

lemma feed_fed [inv_intros]: "fed sha1 n sofar st \<Longrightarrow> fed sha1 n (sofar @ data) (feed sha1 n data st)"
proof (induction sha1 n data st arbitrary: sofar rule: feed.induct)
  case (1 sha1 n data st)
  obtain ds where ds: "sofar = concat ds @ h_written st" "\<forall>d \<in> set ds. length d = n"
    "h_pieces st = concat (map sha1 ds)" "length (h_written st) < n"
    "h_remaining st = n - length (h_written st)" using "1.prems" by (auto simp: fed_def)
  show ?case
  proof (cases "data = []")
    case True
    then show ?thesis using "1.prems" by (simp add: feed.simps)
  next
    case False
    then have go: "\<not> (data = [] \<or> h_remaining st = 0)" using ds by simp
    define k where "k = (if length data < h_remaining st then length data else h_remaining st)"
    define st1 where "st1 = st\<lparr>h_written := h_written st @ take k data, h_remaining := h_remaining st - k\<rparr>"
    define st2 where "st2 = (if h_remaining st1 = 0
      then \<lparr>h_pieces = h_pieces st1 @ sha1 (h_written st1), h_written = [], h_remaining = n\<rparr> else st1)"
    have k: "k \<le> length data" "k \<le> h_remaining st" by (simp_all add: k_def)
    have "fed sha1 n (sofar @ take k data) st2"
    proof (cases "h_remaining st1 = 0")
      case True
      then have "length (h_written st @ take k data) = n" using ds k by (simp add: st1_def)
      with True ds show ?thesis
        by (auto simp: fed_def st2_def st1_def intro!: exI [of _ "ds @ [h_written st @ take k data]"])
    next
      case False
      then have "length (h_written st @ take k data) < n" using ds k by (simp add: st1_def)
      with False ds k show ?thesis
        by (auto simp: fed_def st2_def st1_def intro!: exI [of _ ds])
    qed
    from "1.IH" [OF go k_def st1_def st2_def this]
    have "fed sha1 n (sofar @ data) (feed sha1 n (drop k data) st2)" by simp
    moreover have "feed sha1 n data st = feed sha1 n (drop k data) st2"
      using go by (subst feed.simps) (simp add: Let_def k_def st1_def st2_def)
    ultimately show ?thesis by simp
  qed
qed

lemma foldl_fed:
  "fed sha1 n sofar st \<Longrightarrow> fed sha1 n (sofar @ concat rds) (foldl (\<lambda>st data. feed sha1 n data st) st rds)"
proof (induction rds arbitrary: sofar st)
  case (Cons data rds)
  from Cons.IH [OF feed_fed [OF Cons.prems]] show ?case by simp
qed simp

lemma foldl_files_fed:
  "fed sha1 n sofar st \<Longrightarrow> fed sha1 n (sofar @ concat (concat files))
     (foldl (\<lambda>st rds. foldl (\<lambda>st data. feed sha1 n data st) st rds) st files)"
proof (induction files arbitrary: sofar st)
  case (Cons rds files)
  from Cons.IH [OF foldl_fed [OF Cons.prems]] show ?case by simp
qed simp

lemma hash_reads_hashes:
  assumes "0 < n"
  shows "hash_reads sha1 n files = chunk_hashes sha1 n (concat (concat files))"
proof -
  define st0 where "st0 = \<lparr>h_pieces = [], h_written = [], h_remaining = n\<rparr>"
  define st where "st = foldl (\<lambda>st rds. foldl (\<lambda>st data. feed sha1 n data st) st rds) st0 files"
  have "fed sha1 n [] st0" using assms by (auto simp: fed_def st0_def intro: exI [of _ "[]"])
  then have "fed sha1 n ([] @ concat (concat files)) st" unfolding st_def by (rule foldl_files_fed)
  then obtain ds where ds: "concat (concat files) = concat ds @ h_written st" "\<forall>d \<in> set ds. length d = n"
    "h_pieces st = concat (map sha1 ds)" "length (h_written st) < n"
    "h_remaining st = n - length (h_written st)" by (auto simp: fed_def)
  have "chunk_hashes sha1 n (concat (concat files)) =
      concat (map sha1 (ds @ (if h_written st = [] then [] else [h_written st])))"
    unfolding chunk_hashes_def ds(1) by (simp only: chunks_append [OF ds(2,4)])
  moreover have "hash_reads sha1 n files =
      (if h_remaining st < n then h_pieces st @ sha1 (h_written st) else h_pieces st)"
    by (simp add: hash_reads_def st_def st0_def Let_def)
  moreover have "h_remaining st < n \<longleftrightarrow> h_written st \<noteq> []" using ds(4,5) by auto
  ultimately show ?thesis by (simp add: ds(3))
qed

lemma hash_multi_files_hashes:
  "0 < n \<Longrightarrow> hash_multi_files sha1 n contents = chunk_hashes sha1 n (concat contents)"
proof -
  have "concat (concat (map read_chunks contents)) = concat contents"
    by (induction contents) (simp_all add: read_chunks_def concat_chunks)
  then show "0 < n \<Longrightarrow> ?thesis" by (simp add: hash_multi_files_def hash_reads_hashes)
qed

section \<open>Reading back what was created\<close>

text \<open>The files that \<open>Create\<close> hashes, in their order.\<close>

definition created_files :: "bytes \<Rightarrow> fs_node \<Rightarrow> file_entry list" where
  "created_files name node =
     (case single_content node of
        Some content \<Rightarrow> [\<lparr>fe_path = name, fe_size = length content, fe_content = Some content\<rparr>]
      | None \<Rightarrow> sort_key fe_path (walk_root name node))"

definition created_content :: "bytes \<Rightarrow> fs_node \<Rightarrow> bytes" where
  "created_content name node =
     concat (map (\<lambda>f. case fe_content f of Some content \<Rightarrow> content | None \<Rightarrow> []) (created_files name node))"

definition created_size :: "bytes \<Rightarrow> fs_node \<Rightarrow> nat" where
  "created_size name node = sum_list (map fe_size (created_files name node))"

definition created_piece_length :: "bytes \<Rightarrow> fs_node \<Rightarrow> create_opts \<Rightarrow> nat" where
  "created_piece_length name node opts = piece_length (created_size name node) (o_piece_length opts)"

text \<open>Sizes that fit: strings below \<open>2 ^ 62\<close> bytes and totals below \<open>2 ^ 56\<close>.\<close>

definition create_ok :: "bytes \<Rightarrow> fs_node \<Rightarrow> create_opts \<Rightarrow> bool" where
  "create_ok name node opts \<longleftrightarrow>
     created_size name node < 2 ^ 56 \<and> length (created_content name node) < 2 ^ 56 \<and> o_piece_length opts < 2 ^ 56 \<and>
     (\<forall>s \<in> set ([name, o_tracker opts, o_comment opts, o_created_by opts] @ o_trackers opts @ o_web_seeds opts @
        map fe_path (created_files name node)). small s)"

text \<open>A tree without symbolic links; every entry of its list of files can be read and has the size of its content.\<close>

fun no_links_in :: "(bytes \<times> fs_node) list \<Rightarrow> bool" where
  "no_links_in [] \<longleftrightarrow> True"
| "no_links_in ((name, FileNode content) # es) \<longleftrightarrow> no_links_in es"
| "no_links_in ((name, LinkNode sz target) # es) \<longleftrightarrow> False"
| "no_links_in ((name, DirNode sub) # es) \<longleftrightarrow> no_links_in sub \<and> no_links_in es"

definition no_links :: "fs_node \<Rightarrow> bool" where
  "no_links node \<longleftrightarrow> no_links_in [([], node)]"

definition true_size :: "file_entry \<Rightarrow> bool" where
  "true_size f \<longleftrightarrow> (\<exists>content. fe_content f = Some content \<and> fe_size f = length content)"

lemma listed_true [simp]: "f \<in> set (listed path name (length content) (Some content)) \<Longrightarrow> true_size f"
  by (simp add: listed_def true_size_def split: if_splits)

lemma walk_true: "no_links_in es \<Longrightarrow> f \<in> set (walk dir es) \<Longrightarrow> true_size f"
  by (induction dir es rule: walk.induct) (auto split: if_splits)

lemma created_true: "no_links node \<Longrightarrow> f \<in> set (created_files name node) \<Longrightarrow> true_size f"
  by (cases node) (auto simp: no_links_def created_files_def single_content_def walk_root_def true_size_def dest: walk_true)

lemma created_size_content:
  assumes "no_links node"
  shows "created_size name node = length (created_content name node)"
proof -
  have "\<forall>f \<in> set fs. true_size f \<Longrightarrow>
      sum_list (map fe_size fs) = length (concat (map (\<lambda>f. case fe_content f of Some c \<Rightarrow> c | None \<Rightarrow> []) fs))" for fs
    by (induction fs) (auto simp: true_size_def)
  then show ?thesis using created_true [OF assms] by (simp add: created_size_def created_content_def)
qed

lemma double_length_spec:
  "\<exists>k. double_length target (16384 * 2 ^ j) = 16384 * 2 ^ (j + k) \<and>
     (target \<le> 16384 * 2 ^ (j + k) \<or> 2 ^ 24 \<le> (16384 :: nat) * 2 ^ (j + k)) \<and>
     (k = 0 \<or> 16384 * 2 ^ (j + k - 1) < target \<and> (16384 :: nat) * 2 ^ (j + k - 1) < 2 ^ 24)"
proof (induction target "16384 * 2 ^ j :: nat" arbitrary: j rule: double_length.induct)
  case (1 target)
  let ?r = "16384 * 2 ^ j :: nat"
  show ?case
  proof (cases "?r < target \<and> ?r < 2 ^ 24")
    case True
    then have go: "0 < ?r \<and> ?r < target \<and> ?r < 16 * 1024 * 1024" by simp
    from "1.hyps" [OF go, of "Suc j"] obtain k where k:
      "double_length target (16384 * 2 ^ Suc j) = 16384 * 2 ^ (Suc j + k)"
      "target \<le> 16384 * 2 ^ (Suc j + k) \<or> 2 ^ 24 \<le> (16384 :: nat) * 2 ^ (Suc j + k)"
      "k = 0 \<or> 16384 * 2 ^ (Suc j + k - 1) < target \<and> (16384 :: nat) * 2 ^ (Suc j + k - 1) < 2 ^ 24"
      by auto
    have "double_length target ?r = double_length target (16384 * 2 ^ Suc j)"
      using go by (subst double_length.simps) (simp add: ac_simps)
    then show ?thesis using k True
      by (intro exI [of _ "Suc k"]) (cases k; simp)
  next
    case False
    then have "double_length target ?r = ?r" by (subst double_length.simps) auto
    then show ?thesis using False by (intro exI [of _ 0]) auto
  qed
qed

lemma piece_length_pos [simp]: "0 < piece_length sz pl"
proof -
  obtain k where "double_length (sz div 1500) (16384 * 2 ^ 0) = 16384 * 2 ^ (0 + k)"
    using double_length_spec [of "sz div 1500" 0] by blast
  then show ?thesis by (simp add: piece_length_def)
qed

lemma piece_length_less: "pl < 2 ^ 56 \<Longrightarrow> piece_length sz pl < 2 ^ 56"
proof -
  obtain k where k: "double_length (sz div 1500) (16384 * 2 ^ 0) = 16384 * 2 ^ (0 + k)"
    "k = 0 \<or> (16384 :: nat) * 2 ^ (0 + k - 1) < 2 ^ 24"
    using double_length_spec [of "sz div 1500" 0] by blast
  then have "(16384 :: nat) * 2 ^ k < 2 ^ 25" by (cases k) simp_all
  with k(1) show "pl < 2 ^ 56 \<Longrightarrow> ?thesis" by (simp add: piece_length_def nat_less_iff)
qed

interpretation piece_hashes: exact_codec 20 "\<lambda>h. h" "copy_array 20" "\<lambda>h. length h = 20"
  by unfold_locales simp_all

lemma parse_path_strings [simp]: "parse_path (map BString ps) = Inr ps"
  by (induction ps) simp_all

lemma strings_of_strings [simp]: "strings_of (map BString ss) = ss"
  by (induction ss) simp_all

definition created_file :: "file_entry \<Rightarrow> tfile" where
  "created_file f = \<lparr>f_length = int (fe_size f), f_path = split_on 47 (fe_path f), f_attr = []\<rparr>"

lemma parse_files_created:
  "\<forall>f \<in> set fs. fe_size f < 2 ^ 63 \<Longrightarrow> parse_files (map file_dict fs) = Inr (map created_file fs)"
proof (induction fs)
  case (Cons f fs)
  then have "parse_file_entry (file_dict f) = Inr (created_file f)"
    by (simp add: parse_file_entry_def file_dict_def created_file_def dict_int_def get_list_def get_string_def
        dict_get_def bint_def sint_of_nat_64)
  with Cons show ?case by simp
qed simp

text \<open>The two layouts: one file, or a list of files.\<close>

definition layout_entry :: "bytes \<Rightarrow> fs_node \<Rightarrow> bytes \<times> bvalue" where
  "layout_entry name node =
     (case single_content node of
        Some content \<Rightarrow> (str ''length'', bint (length content))
      | None \<Rightarrow> (str ''files'', BList (map file_dict (created_files name node))))"

definition created_info :: "(bytes \<Rightarrow> bytes) \<Rightarrow> bytes \<Rightarrow> fs_node \<Rightarrow> create_opts \<Rightarrow> bdict" where
  "created_info sha1 name node opts =
     [(str ''name'', BString name), (str ''piece length'', bint (created_piece_length name node opts)),
      (str ''pieces'', BString (chunk_hashes sha1 (created_piece_length name node opts) (created_content name node))),
      layout_entry name node] @ private_entry opts"

lemma those_contents:
  "those (map fe_content fs) = Some contents \<Longrightarrow>
    contents = map (\<lambda>f. case fe_content f of Some c \<Rightarrow> c | None \<Rightarrow> []) fs \<and> (\<forall>f \<in> set fs. fe_content f \<noteq> None)"
  by (induction fs arbitrary: contents) (auto split: option.splits)

lemma build_info_cases:
  "build_info sha1 name node opts =
     (case single_content node of
        Some content \<Rightarrow> Inr (build_single_file_info sha1 name content opts)
      | None \<Rightarrow> if stat_node node = None then Inl (Fail ''stat'') else build_multi_file_info sha1 name node opts)"
  by (auto simp: build_info_def single_content_def split: option.split fs_node.split)

lemma build_info_created:
  assumes "build_info sha1 name node opts = Inr info"
  shows "info = created_info sha1 name node opts"
proof (cases "single_content node")
  case None
  then obtain contents where c: "those (map fe_content (created_files name node)) = Some contents"
    "info = [(str ''name'', BString name), (str ''piece length'', bint (created_piece_length name node opts)),
      (str ''pieces'', BString (hash_multi_files sha1 (created_piece_length name node opts) contents)),
      (str ''files'', BList (map file_dict (created_files name node)))] @ private_entry opts"
    using assms
    by (auto simp: build_info_cases build_multi_file_info_def Let_def created_piece_length_def created_size_def
        created_files_def split: if_splits option.splits)
  then show ?thesis
    using those_contents [OF c(1)] None
    by (simp add: created_info_def layout_entry_def created_content_def hash_multi_files_hashes created_piece_length_def)
next
  case (Some content)
  then show ?thesis
    using assms
    by (simp add: build_info_cases build_single_file_info_def created_info_def layout_entry_def Let_def
        created_piece_length_def created_size_def created_content_def created_files_def hash_file_hashes)
qed

text \<open>The torrent that \<open>Create\<close> describes.\<close>

definition created_torrent :: "(bytes \<Rightarrow> bytes) \<Rightarrow> bytes \<Rightarrow> fs_node \<Rightarrow> create_opts \<Rightarrow> torrent" where
  "created_torrent sha1 name node opts =
     \<lparr>t_announce = o_tracker opts,
      t_announce_list = (if o_trackers opts = [] then [] else [o_tracker opts # o_trackers opts]),
      t_url_list = filter (\<lambda>u. u \<noteq> []) (o_web_seeds opts),
      t_http_seeds = [],
      t_info_hash = sha1 (encode (BDict (created_info sha1 name node opts))),
      t_name = name,
      t_piece_length = int (created_piece_length name node opts),
      t_pieces = map sha1 (chunks (created_piece_length name node opts) (created_content name node)),
      t_length = (case single_content node of Some content \<Rightarrow> int (length content) | None \<Rightarrow> 0),
      t_files = (case single_content node of Some _ \<Rightarrow> [] | None \<Rightarrow> map created_file (created_files name node)),
      t_private = o_private opts\<rparr>"

lemma created_piece_length_less: "create_ok name node opts \<Longrightarrow> created_piece_length name node opts < 2 ^ 56"
  unfolding created_piece_length_def by (rule piece_length_less) (simp add: create_ok_def)

lemma length_hashes: "\<forall>x. length (sha1 x) = 20 \<Longrightarrow> length (chunk_hashes sha1 n c) = 20 * length (chunks n c)"
proof -
  assume len: "\<forall>x. length (sha1 x) = 20"
  have "length (concat (map sha1 cs)) = 20 * length cs" for cs by (induction cs) (simp_all add: len)
  then show ?thesis by (simp add: chunk_hashes_def)
qed

lemma pieces_of_hashes:
  assumes "\<forall>x. length (sha1 x) = 20"
  shows "decode_indexed hash_len (copy_array hash_len) (chunk_hashes sha1 n c) = map sha1 (chunks n c)"
  using piece_hashes.decode_indexed_all [of "map sha1 (chunks n c)"] assms
  by (simp add: hash_len_def chunk_hashes_def)

lemma length_chunks_le: "0 < n \<Longrightarrow> length (chunks n xs) \<le> length xs"
proof (induction n xs rule: chunks.induct)
  case (1 n xs)
  show ?case
  proof (cases "xs = []")
    case False
    then have "length xs - n < length xs" using "1.prems" by (cases xs) simp_all
    moreover have "length (chunks n xs) = Suc (length (chunks n (drop n xs)))"
      using False "1.prems" by (simp add: chunks.simps [of n xs])
    moreover have "length (chunks n (drop n xs)) \<le> length xs - n" using False 1 by simp
    ultimately show ?thesis by linarith
  qed simp
qed

lemma created_size_le: "f \<in> set (created_files name node) \<Longrightarrow> fe_size f \<le> created_size name node"
proof -
  have "f \<in> set fs \<Longrightarrow> fe_size f \<le> sum_list (map fe_size fs)" for fs by (induction fs) auto
  then show "f \<in> set (created_files name node) \<Longrightarrow> ?thesis" by (simp add: created_size_def)
qed

lemma foldl_total:
  "0 \<le> acc \<Longrightarrow> acc + int (sum_list (map fe_size fs)) < 2 ^ 63 \<Longrightarrow>
    foldl (\<lambda>total f. wrap64 (total + f_length f)) acc (map created_file fs) = acc + int (sum_list (map fe_size fs))"
proof (induction fs arbitrary: acc)
  case (Cons f fs)
  then have "in_int64 (acc + int (fe_size f))" by (simp add: in_int64_def)
  with Cons show ?case by (simp add: created_file_def)
qed simp

lemma total_length_created:
  assumes "create_ok name node opts" "created_files name node \<noteq> []"
  shows "total_length (created_torrent sha1 name node opts) = int (created_size name node)"
proof (cases "single_content node")
  case (Some content)
  then show ?thesis
    by (simp add: total_length_def is_single_file_def created_torrent_def created_size_def created_files_def)
next
  case None
  have "int (created_size name node) < 2 ^ 63" using assms(1) by (simp add: create_ok_def)
  then show ?thesis
    using foldl_total [of 0 "created_files name node"] assms(2)
    by (simp add: total_length_def is_single_file_def created_torrent_def created_size_def None)
qed

lemma well_sized_created:
  assumes "create_ok name node opts" "created_files name node \<noteq> []" "no_links node"
  shows "well_sized (created_torrent sha1 name node opts)"
proof -
  define pl c n where "pl = created_piece_length name node opts" and "c = created_content name node"
    and "n = length (chunks pl c)"
  have pl: "0 < pl" "pl < 2 ^ 56" and c: "length c < 2 ^ 56"
    using assms(1) created_piece_length_less [OF assms(1)]
    by (simp_all add: pl_def create_ok_def c_def) (simp add: created_piece_length_def)
  have b: "length c \<le> n * pl" "n * pl < length c + pl" using length_chunks [OF pl(1), of c] by (simp_all add: n_def)
  then have i: "int (length c) \<le> int n * int pl" "int n * int pl < int (length c) + int pl"
    by (simp_all flip: of_nat_mult of_nat_add)
  have "total_length (created_torrent sha1 name node opts) = int (length c)"
    using total_length_created [OF assms(1,2)] created_size_content [OF assms(3)] by (simp add: c_def)
  then show ?thesis
    using i pl c by (simp add: well_sized_def Let_def created_torrent_def pl_def [symmetric] c_def [symmetric]
        n_def [symmetric] algebra_simps)
qed

lemma parse_info_created:
  assumes "\<forall>x. length (sha1 x) = 20" "create_ok name node opts"
  shows "parse_info (new_torrent a al u h ih) (created_info sha1 name node opts) =
    Inr ((created_torrent sha1 name node opts)
      \<lparr>t_announce := a, t_announce_list := al, t_url_list := u, t_http_seeds := h, t_info_hash := ih\<rparr>)"
proof -
  have pl: "created_piece_length name node opts < 2 ^ 63"
    using created_piece_length_less [OF assms(2)] by simp
  have mod: "length (chunk_hashes sha1 n c) mod hash_len = 0" for n c
    by (simp add: length_hashes [OF assms(1)] hash_len_def)
  show ?thesis
  proof (cases "single_content node")
    case (Some content)
    have "length content < 2 ^ 63"
      using assms(2) by (simp add: create_ok_def created_size_def created_files_def Some)
    then show ?thesis
      using pl mod
      by (simp add: Some parse_info_def parse_layout_def created_info_def layout_entry_def dict_string_def
          dict_int_def get_int_def dict_get_def bint_def sint_of_nat_64 pieces_of_hashes [OF assms(1)]
          private_entry_def created_torrent_def new_torrent_def)
  next
    case None
    have "\<forall>f \<in> set (created_files name node). fe_size f < 2 ^ 63"
      using created_size_le [of _ name node] assms(2) by (fastforce simp: create_ok_def)
    from parse_files_created [OF this] show ?thesis
      using pl mod
      by (simp add: None parse_info_def parse_layout_def created_info_def layout_entry_def dict_string_def
          dict_int_def get_int_def get_list_def dict_get_def bint_def sint_of_nat_64 pieces_of_hashes [OF assms(1)]
          private_entry_def created_torrent_def new_torrent_def)
  qed
qed

lemma wf_created_info:
  assumes "\<forall>x. length (sha1 x) = 20" "create_ok name node opts"
  shows "wf_value (BDict (created_info sha1 name node opts))"
proof -
  let ?pl = "created_piece_length name node opts"
  have "length (chunks ?pl (created_content name node)) \<le> length (created_content name node)"
    by (intro length_chunks_le) (simp add: created_piece_length_def)
  then have hs: "small (chunk_hashes sha1 ?pl (created_content name node))"
    using assms(2) by (simp add: small_def length_hashes [OF assms(1)] create_ok_def)
  have "wf_value (file_dict f)" if "f \<in> set (created_files name node)" for f
  proof -
    have "small (fe_path f)" using that assms(2) by (auto simp: create_ok_def)
    then show ?thesis
      by (auto simp: file_dict_def bint_def small_def dest: length_split_on order.strict_trans1)
  qed
  then have "wf_value (snd (layout_entry name node))"
    by (auto simp: layout_entry_def bint_def split: option.split)
  then show ?thesis
    using hs assms(2)
    by (auto simp: created_info_def private_entry_def bint_def layout_entry_def create_ok_def small_def
        split: option.splits)
qed

lemma wf_create_meta:
  assumes "wf_value (BDict info)" "create_ok name node opts"
  shows "wf_value (BDict (create_meta now info opts))"
  using assms unfolding create_meta_def by (auto simp: create_ok_def small_def)

lemma parse_created:
  assumes "\<forall>x. length (sha1 x) = 20" "create_ok name node opts" "create sha1 now name node opts = Inr data"
  shows "parse sha1 data = Inr (created_torrent sha1 name node opts)"
proof -
  obtain info where info: "build_info sha1 name node opts = Inr info"
    and data: "data = encode (BDict (create_meta now info opts))"
    using assms(3) by (auto simp: create_def split: if_splits sum.splits)
  have i: "info = created_info sha1 name node opts" by (rule build_info_created [OF info])
  have wf: "wf_value (BDict (create_meta now info opts))"
    unfolding i by (rule wf_create_meta [OF wf_created_info [OF assms(1,2)] assms(2)])
  have "get_dict (create_meta now info opts) ''info'' = Some info"
    by (simp add: get_dict_def dict_get_def create_meta_def)
  from parse_encode [OF wf this, of sha1] show ?thesis
    unfolding data
    by (simp add: i parse_info_created [OF assms(1,2)] del: encode_simps)
      (simp add: create_meta_def dict_get_def created_torrent_def read_announce_def read_announce_list_def
        read_url_list_def read_http_seeds_def del: encode_simps)
qed

definition sample_opts :: create_opts where
  "sample_opts = \<lparr>o_tracker = [116], o_trackers = [], o_piece_length = 2, o_private = True, o_comment = [],
     o_web_seeds = [[117]], o_created_by = []\<rparr>"

section \<open>Properties\<close>

text \<open>
  Piece hashes do not depend on reads or file boundaries: hashing files one read at a time, in
  reads of any lengths, gives the hashes of the pieces of the concatenated content, which is
  also what the loop over a single file computes.
\<close>

theorem hash_loops_agree:
  assumes "0 < n"
  shows "hash_reads sha1 n files = concat (map sha1 (chunks n (concat (concat files)))) \<and>
    hash_multi_files sha1 n contents = hash_file sha1 n (concat contents) \<and>
    hash_file sha1 n content = concat (map sha1 (chunks n content)) \<and>
    concat (chunks n content) = content"
  using assms by (simp add: hash_reads_hashes hash_multi_files_hashes hash_file_hashes chunk_hashes_def concat_chunks)

lemma hash_loops_agree_witness:
  "hash_reads (\<lambda>x. x @ [0]) 2 [[[1], [2, 3]], [[4]]] = [1, 2, 0, 3, 4, 0]"
  using hash_loops_agree [of 2 "\<lambda>x. x @ [0]" "[[[1], [2, 3]], [[4]]]", THEN conjunct1]
  by (simp add: chunks.simps)

text \<open>
  A symbolic link to a file is listed with the size of the link and hashed with the content of the file: here two
  files of sizes 2 and 2 have the hashes of three pieces of two bytes, and the torrent is not well sized.
\<close>

lemma link_breaks_sizes:
  "\<exists>data t. create (\<lambda>x. replicate 20 1) 0 [110] (DirNode [([102], FileNode [1, 2]), ([103], LinkNode 2 (Some (FileNode [3, 4, 5, 6])))])
      sample_opts = Inr data \<and>
    parse (\<lambda>x. replicate 20 1) data = Inr t \<and> total_length t = 4 \<and> t_piece_length t = 2 \<and> length (t_pieces t) = 3"
proof -
  let ?node = "DirNode [([102], FileNode [1, 2]), ([103], LinkNode 2 (Some (FileNode [3, 4, 5, 6])))]"
  let ?sha = "\<lambda>x :: bytes. replicate 20 (1 :: u8)"
  have files: "created_files [110] ?node =
      [\<lparr>fe_path = [102], fe_size = 2, fe_content = Some [1, 2]\<rparr>, \<lparr>fe_path = [103], fe_size = 2, fe_content = Some [3, 4, 5, 6]\<rparr>]"
    by (simp add: created_files_def single_content_def walk_root_def listed_def join_path_def starts_with_def)
  have ok: "create_ok [110] ?node sample_opts"
    by (simp add: create_ok_def files created_size_def sample_opts_def created_content_def small_def)
  have built: "\<exists>info. build_info ?sha [110] ?node sample_opts = Inr info"
    using files by (auto simp: build_info_cases build_multi_file_info_def created_files_def single_content_def Let_def)
  then obtain data where data: "create ?sha 0 [110] ?node sample_opts = Inr data"
    by (auto simp: create_def sample_opts_def)
  have "total_length (created_torrent ?sha [110] ?node sample_opts) = 4"
    using total_length_created [OF ok] by (simp add: files created_size_def)
  moreover have "parse ?sha data = Inr (created_torrent ?sha [110] ?node sample_opts)"
    using parse_created [OF _ ok data] by simp
  ultimately show ?thesis
    using data by (auto simp: created_torrent_def created_content_def created_piece_length_def piece_length_def files
        chunks.simps sample_opts_def)
qed

text \<open>
  The files are in the order of their joined paths, in which \<open>a-b/x\<close> comes before \<open>a/x\<close>; the document on torrent
  creation has them in the order of their components.
\<close>

lemma order_by_joined_path:
  "map fe_path (created_files [110] (DirNode [([97], DirNode [([120], FileNode [1])]), ([97, 45, 98], DirNode [([120], FileNode [2])])])) =
    [str ''a-b/x'', str ''a/x'']"
  by (simp add: created_files_def single_content_def walk_root_def listed_def join_path_def starts_with_def)

text \<open>A link to a directory as the path itself is no directory for the walk: \<open>Create\<close> fails.\<close>

lemma link_to_directory_fails:
  "o_tracker opts \<noteq> [] \<Longrightarrow> \<exists>e. create sha1 now name (LinkNode sz (Some (DirNode es))) opts = Inl e"
  by (simp add: create_def build_info_def build_multi_file_info_def walk_root_def listed_def single_content_def Let_def)

text \<open>
  C25. \<open>Parse\<close> reads back what \<open>Create\<close> writes, for a file and for a directory: announce URL and
  tiers, web seeds, name, piece length, the hash of each piece, the files with their paths and
  sizes, the private flag, and the info hash of the info dictionary that was built. For a tree without symbolic
  links the torrent has as many pieces as its length asks for (with links it need not,
  \<open>link_breaks_sizes\<close>). Only a missing tracker, a directory without files, a path that leads nowhere or a
  file that cannot be read is an error.
\<close>

theorem create_parse:
  assumes "\<forall>x. length (sha1 x) = 20" "create_ok name node opts"
  shows "case create sha1 now name node opts of
      Inl e \<Rightarrow> o_tracker opts = [] \<or> created_files name node = [] \<or> stat_node node = None \<or>
        (\<exists>f \<in> set (created_files name node). fe_content f = None)
    | Inr data \<Rightarrow> parse sha1 data = Inr (created_torrent sha1 name node opts) \<and>
        (no_links node \<longrightarrow> well_sized (created_torrent sha1 name node opts))"
proof (cases "create sha1 now name node opts")
  case (Inl e)
  then have "o_tracker opts = [] \<or> build_info sha1 name node opts = Inl e"
    by (auto simp: create_def split: if_splits sum.splits)
  moreover have none: "\<exists>f \<in> set fs. fe_content f = None" if "those (map fe_content fs) = None" for fs
    using that by (induction fs) (auto split: option.splits)
  ultimately show ?thesis
    using Inl by (auto simp: build_info_cases build_multi_file_info_def created_files_def Let_def
        split: if_splits option.splits dest!: none)
next
  case (Inr data)
  then obtain info where info: "build_info sha1 name node opts = Inr info"
    by (auto simp: create_def split: if_splits sum.splits)
  have "created_files name node \<noteq> []"
    using info by (auto simp: build_info_cases build_multi_file_info_def created_files_def Let_def split: if_splits option.splits)
  then show ?thesis using Inr well_sized_created [OF assms(2)] parse_created [OF assms Inr] by simp
qed

lemma create_parse_witness:
  "case create (\<lambda>x. replicate 20 1) 0 [110] (DirNode [([102], FileNode [1, 2, 3])]) sample_opts of
     Inl e \<Rightarrow> False
   | Inr data \<Rightarrow> \<exists>t. parse (\<lambda>x. replicate 20 1) data = Inr t \<and> t_private t \<and> well_sized t \<and>
       t_pieces t = [replicate 20 1, replicate 20 1] \<and> t_url_list t = [[117]]"
proof -
  let ?node = "DirNode [([102], FileNode [1, 2, 3])]"
  have files: "created_files [110] ?node = [\<lparr>fe_path = [102], fe_size = 3, fe_content = Some [1, 2, 3]\<rparr>]"
    by (simp add: created_files_def single_content_def walk_root_def listed_def join_path_def starts_with_def)
  then have "create_ok [110] ?node sample_opts"
    by (simp add: create_ok_def sample_opts_def created_size_def created_content_def small_def)
  moreover have "no_links ?node" by (simp add: no_links_def)
  moreover have "stat_node ?node = Some ?node" by simp
  ultimately show ?thesis
    using create_parse [of "\<lambda>x. replicate 20 1" "[110]" ?node sample_opts 0] files
    by (auto simp: created_torrent_def created_content_def created_size_def created_piece_length_def piece_length_def
        chunks.simps sample_opts_def split: sum.splits)
qed

end
