(* ===== verification/Pex.thy ===== *)
theory Pex
  imports Bencode
begin

text \<open>
  Peer exchange (\<open>pex/message.go\<close>, \<open>pex/tracker.go\<close>): the bencoded message with its compact
  peer lists, and the tracker that computes the difference since the last message. The maps of
  the tracker are HOL maps; the order in which Go's \<open>range\<close> visits their keys is an argument.
  Against the specification that the receiver's view follows the current set, the tracker is
  right as long as no difference exceeds the caps, and loses peers for good otherwise.
\<close>

section \<open>Messages\<close>

record peer_entry =
  pe_ip :: bytes
  pe_port :: u16
  pe_flags :: u8

record pex_message =
  pm_added :: "peer_entry list"
  pm_dropped :: "peer_entry list"
  pm_added6 :: "peer_entry list"
  pm_dropped6 :: "peer_entry list"

text \<open>\<open>PeerEntry.Addr\<close>: \<open>fmt.Sprintf("%s:%d", ip, port)\<close>.\<close>

definition pe_addr :: "peer_entry \<Rightarrow> bytes" where
  "pe_addr e = ip_string (pe_ip e) @ [58] @ itoa (uint (pe_port e))"

text \<open>The two encoders differ in the form of the address they ask for.\<close>

primrec encode_compact :: "(bytes \<Rightarrow> bytes option) \<Rightarrow> peer_entry list \<Rightarrow> bytes \<times> bytes" where
  "encode_compact to_form [] = ([], [])"
| "encode_compact to_form (e # es) =
     (case to_form (pe_ip e) of
        None \<Rightarrow> encode_compact to_form es
      | Some ip \<Rightarrow>
          (let (peers, flags) = encode_compact to_form es
           in (ip @ put16 (pe_port e) @ peers, pe_flags e # flags)))"

definition encode_compact_ipv4 :: "peer_entry list \<Rightarrow> bytes \<times> bytes" where
  "encode_compact_ipv4 = encode_compact to4"

definition encode_compact_ipv6 :: "peer_entry list \<Rightarrow> bytes \<times> bytes" where
  "encode_compact_ipv6 = encode_compact to16"

definition pex_encode :: "pex_message \<Rightarrow> bytes" where
  "pex_encode m =
     (let (added_peers, added_flags) = encode_compact_ipv4 (pm_added m);
          (dropped_peers, _) = encode_compact_ipv4 (pm_dropped m);
          (added6_peers, added6_flags) = encode_compact_ipv6 (pm_added6 m);
          (dropped6_peers, _) = encode_compact_ipv6 (pm_dropped6 m)
      in encode (BDict
           [(str ''added'', BString added_peers), (str ''added.f'', BString added_flags),
            (str ''dropped'', BString dropped_peers),
            (str ''added6'', BString added6_peers), (str ''added6.f'', BString added6_flags),
            (str ''dropped6'', BString dropped6_peers)]))"

text \<open>\<open>getBytes\<close>: a missing key and a value of another type read as an empty slice.\<close>

definition get_bytes :: "bdict \<Rightarrow> string \<Rightarrow> bytes" where
  "get_bytes d key = (case get_string d key of Some s \<Rightarrow> s | None \<Rightarrow> [])"

definition parse_added :: "bdict \<Rightarrow> string \<Rightarrow> string \<Rightarrow> nat \<Rightarrow> peer_entry list res" where
  "parse_added d peers_key flags_key ip_len =
     (let peer_data = get_bytes d peers_key;
          flag_data = get_bytes d flags_key;
          entry_len = ip_len + 2;
          num_peers = length peer_data div entry_len
      in if length peer_data mod entry_len \<noteq> 0 then Inl (Fail ''length'')
         else if 0 < length flag_data \<and> length flag_data \<noteq> num_peers then Inl (Fail ''flags'')
         else
           let cells = decode_indexed entry_len (addr_cell ip_len) peer_data
           in Inr (map (\<lambda>i. \<lparr>pe_ip = fst (cells ! i), pe_port = snd (cells ! i),
                              pe_flags = (if i < length flag_data then flag_data ! i else 0)\<rparr>)
                 [0..<num_peers]))"

definition parse_peers :: "bdict \<Rightarrow> string \<Rightarrow> nat \<Rightarrow> peer_entry list res" where
  "parse_peers d key ip_len =
     (let data = get_bytes d key; entry_len = ip_len + 2
      in if length data mod entry_len \<noteq> 0 then Inl (Fail ''length'')
         else Inr (map (\<lambda>(ip, port). \<lparr>pe_ip = ip, pe_port = port, pe_flags = 0\<rparr>)
                (decode_indexed entry_len (addr_cell ip_len) data)))"

definition pex_decode :: "bytes \<Rightarrow> pex_message res" where
  "pex_decode data =
     (case decode data of
        Inl e \<Rightarrow> Inl e
      | Inr (BDict d) \<Rightarrow>
          (case parse_added d ''added'' ''added.f'' 4 of
             Inl e \<Rightarrow> Inl e
           | Inr added \<Rightarrow>
          (case parse_peers d ''dropped'' 4 of
             Inl e \<Rightarrow> Inl e
           | Inr dropped \<Rightarrow>
          (case parse_added d ''added6'' ''added6.f'' 16 of
             Inl e \<Rightarrow> Inl e
           | Inr added6 \<Rightarrow>
          (case parse_peers d ''dropped6'' 16 of
             Inl e \<Rightarrow> Inl e
           | Inr dropped6 \<Rightarrow>
               Inr \<lparr>pm_added = added, pm_dropped = dropped, pm_added6 = added6, pm_dropped6 = dropped6\<rparr>))))
      | Inr _ \<Rightarrow> Inl (Fail ''expected dict''))"

section \<open>The difference tracker\<close>

definition max_added :: nat where "max_added = 50"
definition max_dropped :: nat where "max_dropped = 50"

record diff_tracker =
  dt_current :: "bytes \<rightharpoonup> peer_entry"
  dt_last_sent :: "bytes \<rightharpoonup> peer_entry"

definition new_diff_tracker :: diff_tracker where
  "new_diff_tracker = \<lparr>dt_current = Map.empty, dt_last_sent = Map.empty\<rparr>"

definition dt_add_peer :: "peer_entry \<Rightarrow> diff_tracker \<Rightarrow> diff_tracker" where
  "dt_add_peer e t = t\<lparr>dt_current := (dt_current t)(pe_addr e \<mapsto> e)\<rparr>"

definition dt_remove_peer :: "bytes \<Rightarrow> u16 \<Rightarrow> diff_tracker \<Rightarrow> diff_tracker" where
  "dt_remove_peer ip port t =
     (let e = \<lparr>pe_ip = ip, pe_port = port, pe_flags = 0\<rparr>
      in t\<lparr>dt_current := (dt_current t)(pe_addr e := None)\<rparr>)"

text \<open>The entries of \<open>m\<close> whose key is not in \<open>other\<close>, in the order of the keys visited.\<close>

definition missing_in :: "(bytes \<rightharpoonup> peer_entry) \<Rightarrow> (bytes \<rightharpoonup> peer_entry) \<Rightarrow> bytes list \<Rightarrow> peer_entry list" where
  "missing_in m other keys = map (\<lambda>k. the (m k)) (filter (\<lambda>k. other k = None) keys)"

definition is_v4 :: "peer_entry \<Rightarrow> bool" where
  "is_v4 e \<longleftrightarrow> to4 (pe_ip e) \<noteq> None"

text \<open>\<open>Diff\<close>; the arguments are the orders in which the two loops visit the keys.\<close>

definition diff :: "bytes list \<Rightarrow> bytes list \<Rightarrow> diff_tracker \<Rightarrow> pex_message \<times> diff_tracker" where
  "diff current_keys last_keys t =
     (let added = missing_in (dt_current t) (dt_last_sent t) current_keys;
          dropped = missing_in (dt_last_sent t) (dt_current t) last_keys
      in (\<lparr>pm_added = take max_added (filter is_v4 added),
           pm_dropped = take max_dropped (filter is_v4 dropped),
           pm_added6 = take max_added (filter (\<lambda>e. \<not> is_v4 e) added),
           pm_dropped6 = take max_dropped (filter (\<lambda>e. \<not> is_v4 e) dropped)\<rparr>,
          t\<lparr>dt_last_sent := dt_current t\<rparr>))"

definition dt_count :: "diff_tracker \<Rightarrow> nat" where
  "dt_count t = card (dom (dt_current t))"

section \<open>Round trip of messages\<close>

definition entry_pair :: "peer_entry \<Rightarrow> bytes \<times> u16" where
  "entry_pair e = (pe_ip e, pe_port e)"

lemma encode_compact_eq:
  assumes "\<forall>e \<in> set es. to_form (pe_ip e) = Some (pe_ip e)"
  shows "encode_compact to_form es =
    (concat (map put_addr (map entry_pair es)), map pe_flags es)"
  using assms by (induction es) (simp_all add: entry_pair_def put_addr_def)

lemma cells_of_encoded:
  assumes "\<forall>e \<in> set es. length (pe_ip e) = ip_len"
  shows "decode_indexed (ip_len + 2) (addr_cell ip_len)
      (concat (map put_addr (map entry_pair es))) = map entry_pair es"
    "length (concat (map put_addr (map entry_pair es))) = length es * (ip_len + 2)"
proof -
  have "\<forall>x \<in> set (map entry_pair es). length (fst x) = ip_len"
    using assms by (auto simp: entry_pair_def)
  from addr_codec.decode_indexed_all [OF this] addr_codec.length_concat_enc [OF this]
  show "decode_indexed (ip_len + 2) (addr_cell ip_len)
      (concat (map put_addr (map entry_pair es))) = map entry_pair es"
    "length (concat (map put_addr (map entry_pair es))) = length es * (ip_len + 2)"
    by (simp_all only: length_map)
qed

lemma encoded_count:
  assumes "\<forall>e \<in> set es. length (pe_ip e) = ip_len"
  shows "length (concat (map put_addr (map entry_pair es))) mod (ip_len + 2) = 0"
    "length (concat (map put_addr (map entry_pair es))) div (ip_len + 2) = length es"
  unfolding cells_of_encoded(2) [OF assms] by (rule mod_mult_self2_is_0, rule nonzero_mult_div_cancel_right) simp

lemma parse_added_encoded:
  assumes "\<forall>e \<in> set es. length (pe_ip e) = ip_len"
    and "get_string d pk = Some (concat (map put_addr (map entry_pair es)))"
    and "get_string d fk = Some (map pe_flags es)"
  shows "parse_added d pk fk ip_len = Inr es"
proof -
  have "map (\<lambda>i. \<lparr>pe_ip = fst (map entry_pair es ! i), pe_port = snd (map entry_pair es ! i),
      pe_flags = (if i < length (map pe_flags es) then map pe_flags es ! i else 0)\<rparr>) [0..<length es] = es"
    by (rule nth_equalityI) (simp_all add: entry_pair_def)
  then show ?thesis
    by (simp only: parse_added_def get_bytes_def assms(2,3) Let_def option.case cells_of_encoded(1) [OF assms(1)]
        encoded_count [OF assms(1)] length_map) simp
qed

lemma parse_peers_encoded:
  assumes "\<forall>e \<in> set es. length (pe_ip e) = ip_len"
    and "get_string d pk = Some (concat (map put_addr (map entry_pair es)))"
  shows "parse_peers d pk ip_len = Inr (map (\<lambda>e. e\<lparr>pe_flags := 0\<rparr>) es)"
proof -
  have "map (\<lambda>(ip, port). \<lparr>pe_ip = ip, pe_port = port, pe_flags = 0\<rparr>) (map entry_pair es) =
      map (\<lambda>e. e\<lparr>pe_flags := 0\<rparr>) es" by (simp add: entry_pair_def)
  then show ?thesis
    by (simp only: parse_peers_def get_bytes_def assms(2) Let_def option.case cells_of_encoded(1) [OF assms(1)]
        encoded_count [OF assms(1)]) simp
qed

definition pex_ok :: "pex_message \<Rightarrow> bool" where
  "pex_ok m \<longleftrightarrow>
     (\<forall>e \<in> set (pm_added m @ pm_dropped m). length (pe_ip e) = 4) \<and>
     (\<forall>e \<in> set (pm_added6 m @ pm_dropped6 m). length (pe_ip e) = 16) \<and>
     length (pm_added m) + length (pm_dropped m) + length (pm_added6 m) + length (pm_dropped6 m) < 2 ^ 56"

lemma pex_roundtrip:
  assumes "pex_ok m"
  shows "pex_decode (pex_encode m) =
    Inr (m\<lparr>pm_dropped := map (\<lambda>e. e\<lparr>pe_flags := 0\<rparr>) (pm_dropped m),
           pm_dropped6 := map (\<lambda>e. e\<lparr>pe_flags := 0\<rparr>) (pm_dropped6 m)\<rparr>)"
proof -
  let ?c = "\<lambda>es. concat (map put_addr (map entry_pair es))"
  let ?d = "[(str ''added'', BString (?c (pm_added m))), (str ''added.f'', BString (map pe_flags (pm_added m))),
    (str ''dropped'', BString (?c (pm_dropped m))), (str ''added6'', BString (?c (pm_added6 m))),
    (str ''added6.f'', BString (map pe_flags (pm_added6 m))), (str ''dropped6'', BString (?c (pm_dropped6 m)))]"
  have len: "\<forall>e \<in> set (pm_added m). length (pe_ip e) = 4" "\<forall>e \<in> set (pm_dropped m). length (pe_ip e) = 4"
    "\<forall>e \<in> set (pm_added6 m). length (pe_ip e) = 16" "\<forall>e \<in> set (pm_dropped6 m). length (pe_ip e) = 16"
    using assms by (auto simp: pex_ok_def)
  have enc: "pex_encode m = encode (BDict ?d)"
    using len by (simp add: pex_encode_def encode_compact_ipv4_def encode_compact_ipv6_def encode_compact_eq
        del: map_map encode_simps str_Cons)
  have small: "small (?c (pm_added m))" "small (?c (pm_dropped m))" "small (?c (pm_added6 m))"
    "small (?c (pm_dropped6 m))" "small (map pe_flags (pm_added m))" "small (map pe_flags (pm_added6 m))"
    using assms by (simp_all only: small_def cells_of_encoded(2) [OF len(1)] cells_of_encoded(2) [OF len(2)]
        cells_of_encoded(2) [OF len(3)] cells_of_encoded(2) [OF len(4)] length_map pex_ok_def) simp_all
  have dist: "distinct (map fst ?d)" by simp
  have wf: "wf_value (BDict ?d)" using small dist by (simp del: map_map) (simp add: small_def)
  have "decode (pex_encode m) = Inr (BDict (norm_dict ?d))"
    unfolding enc by (rule decode_encode_dict [OF wf])
  moreover have "get_string (norm_dict ?d) k = get_string ?d k" for k by (rule get_norm(1) [OF dist])
  moreover have "get_string ?d ''added'' = Some (?c (pm_added m))"
    "get_string ?d ''added.f'' = Some (map pe_flags (pm_added m))"
    "get_string ?d ''dropped'' = Some (?c (pm_dropped m))"
    "get_string ?d ''added6'' = Some (?c (pm_added6 m))"
    "get_string ?d ''added6.f'' = Some (map pe_flags (pm_added6 m))"
    "get_string ?d ''dropped6'' = Some (?c (pm_dropped6 m))"
    by (simp_all add: get_string_def dict_get_def del: map_map)
  ultimately show ?thesis
    using parse_added_encoded [OF len(1), of "norm_dict ?d" "''added''" "''added.f''"]
      parse_peers_encoded [OF len(2), of "norm_dict ?d" "''dropped''"]
      parse_added_encoded [OF len(3), of "norm_dict ?d" "''added6''" "''added6.f''"]
      parse_peers_encoded [OF len(4), of "norm_dict ?d" "''dropped6''"]
    by (simp add: pex_decode_def del: map_map norm.simps str_Cons)
qed

section \<open>The receiver's view\<close>

text \<open>
  What a receiver knows, as a set of addresses, after a message. A history in which no difference
  exceeds the caps keeps the receiver's view equal to the set at the last message.
\<close>

definition receive :: "pex_message \<Rightarrow> bytes set \<Rightarrow> bytes set" where
  "receive m view = (view \<union> pe_addr ` set (pm_added m @ pm_added6 m)) - pe_addr ` set (pm_dropped m @ pm_dropped6 m)"

definition key_orders :: "bytes list \<Rightarrow> bytes list \<Rightarrow> diff_tracker \<Rightarrow> bool" where
  "key_orders ck lk t \<longleftrightarrow> distinct ck \<and> set ck = dom (dt_current t) \<and> distinct lk \<and> set lk = dom (dt_last_sent t)"

definition fits_caps :: "bytes list \<Rightarrow> bytes list \<Rightarrow> diff_tracker \<Rightarrow> bool" where
  "fits_caps ck lk t \<longleftrightarrow>
     (\<forall>p \<in> {is_v4, \<lambda>e. \<not> is_v4 e}.
        length (filter p (missing_in (dt_current t) (dt_last_sent t) ck)) \<le> max_added \<and>
        length (filter p (missing_in (dt_last_sent t) (dt_current t) lk)) \<le> max_dropped)"

inductive pex_reach :: "diff_tracker \<Rightarrow> bytes set \<Rightarrow> bool" where
  pex_init: "pex_reach new_diff_tracker {}"
| pex_add: "pex_reach t view \<Longrightarrow> pex_reach (dt_add_peer e t) view"
| pex_remove: "pex_reach t view \<Longrightarrow> pex_reach (dt_remove_peer ip port t) view"
| pex_send: "pex_reach t view \<Longrightarrow> key_orders ck lk t \<Longrightarrow> fits_caps ck lk t \<Longrightarrow> diff ck lk t = (m, t') \<Longrightarrow>
    pex_reach t' (receive m view)"

definition keyed :: "(bytes \<rightharpoonup> peer_entry) \<Rightarrow> bool" where
  "keyed m \<longleftrightarrow> (\<forall>k e. m k = Some e \<longrightarrow> pe_addr e = k)"

lemma missing_in_addrs:
  assumes "keyed m" "set keys = dom m"
  shows "pe_addr ` set (missing_in m other keys) = dom m - dom other"
proof -
  have "pe_addr (the (m k)) = k" if "k \<in> dom m" for k using assms(1) that by (auto simp: keyed_def)
  then have "pe_addr ` (\<lambda>k. the (m k)) ` (dom m - dom other) = dom m - dom other"
    by (force simp: image_image)
  moreover have "set (missing_in m other keys) = (\<lambda>k. the (m k)) ` (dom m - dom other)"
    using assms(2) by (auto simp: missing_in_def)
  ultimately show ?thesis by simp
qed

lemma set_both_families: "set (filter is_v4 es @ filter (\<lambda>e. \<not> is_v4 e) es) = set es"
  by auto

lemma receive_diff:
  assumes "keyed (dt_current t)" "keyed (dt_last_sent t)" "key_orders ck lk t" "fits_caps ck lk t"
  shows "receive (fst (diff ck lk t)) (dom (dt_last_sent t)) = dom (dt_current t)"
proof -
  let ?a = "missing_in (dt_current t) (dt_last_sent t) ck" and ?d = "missing_in (dt_last_sent t) (dt_current t) lk"
  have "pm_added (fst (diff ck lk t)) @ pm_added6 (fst (diff ck lk t)) =
      filter is_v4 ?a @ filter (\<lambda>e. \<not> is_v4 e) ?a"
    "pm_dropped (fst (diff ck lk t)) @ pm_dropped6 (fst (diff ck lk t)) =
      filter is_v4 ?d @ filter (\<lambda>e. \<not> is_v4 e) ?d"
    using assms(4) by (simp_all add: diff_def Let_def fits_caps_def)
  then have "receive (fst (diff ck lk t)) v = (v \<union> pe_addr ` set ?a) - pe_addr ` set ?d" for v
    by (simp only: receive_def set_both_families)
  moreover have "pe_addr ` set ?a = dom (dt_current t) - dom (dt_last_sent t)"
    "pe_addr ` set ?d = dom (dt_last_sent t) - dom (dt_current t)"
    using assms by (simp_all add: missing_in_addrs key_orders_def)
  ultimately show ?thesis by auto
qed

lemma pex_reach_view:
  "pex_reach t view \<Longrightarrow> keyed (dt_current t) \<and> keyed (dt_last_sent t) \<and> view = dom (dt_last_sent t)"
proof (induction rule: pex_reach.induct)
  case (pex_send t view ck lk m t')
  have "dt_current t' = dt_current t" "dt_last_sent t' = dt_current t" "m = fst (diff ck lk t)"
    using pex_send.hyps(4) by (auto simp: diff_def Let_def)
  then show ?case
    using pex_send.IH receive_diff [OF _ _ pex_send.hyps(2,3)] by simp
qed (auto simp: new_diff_tracker_def keyed_def dt_add_peer_def dt_remove_peer_def Let_def)

section \<open>Properties\<close>

text \<open>
  The caps are per address family: with enough new peers of both, one message announces a hundred of them, where
  the comments and the document allow fifty.
\<close>

lemma caps_per_family:
  assumes "max_added \<le> length (filter is_v4 (missing_in (dt_current t) (dt_last_sent t) ck))"
    and "max_added \<le> length (filter (\<lambda>e. \<not> is_v4 e) (missing_in (dt_current t) (dt_last_sent t) ck))"
  shows "length (pm_added (fst (diff ck lk t))) + length (pm_added6 (fst (diff ck lk t))) = 100"
  using assms by (simp add: diff_def Let_def max_added_def min_absorb2)

text \<open>
  C33. PEX messages survive encoding (the flags of dropped peers, which are not sent, read as zero),
  and the receiver's view refines the tracker: after any history of additions, removals and
  messages whose differences fit the caps, the next message brings the receiver to exactly the
  current set, and none of the four lists of a message is longer than 50 (the caps hold for each address family
  on its own, \<open>caps_per_family\<close>).
\<close>

theorem pex_view_refines:
  assumes "pex_reach t view" "key_orders ck lk t" "fits_caps ck lk t"
  shows "receive (fst (diff ck lk t)) view = dom (dt_current t) \<and>
    (\<forall>l \<in> {pm_added, pm_dropped, pm_added6, pm_dropped6}. length (l (fst (diff ck lk t))) \<le> 50) \<and>
    (\<forall>m. pex_ok m \<longrightarrow> pex_decode (pex_encode m) =
      Inr (m\<lparr>pm_dropped := map (\<lambda>e. e\<lparr>pe_flags := 0\<rparr>) (pm_dropped m),
             pm_dropped6 := map (\<lambda>e. e\<lparr>pe_flags := 0\<rparr>) (pm_dropped6 m)\<rparr>))"
proof (intro conjI allI impI)
  show "receive (fst (diff ck lk t)) view = dom (dt_current t)"
    using pex_reach_view [OF assms(1)] receive_diff [OF _ _ assms(2,3)] by simp
  show "\<forall>l \<in> {pm_added, pm_dropped, pm_added6, pm_dropped6}. length (l (fst (diff ck lk t))) \<le> 50"
    by (simp add: diff_def Let_def max_added_def max_dropped_def)
qed (rule pex_roundtrip)

definition sample_peer :: peer_entry where
  "sample_peer = \<lparr>pe_ip = [10, 0, 0, 1], pe_port = 6881, pe_flags = 2\<rparr>"

lemma pex_view_refines_witness:
  "receive (fst (diff [pe_addr sample_peer] [] (dt_add_peer sample_peer new_diff_tracker))) {} = {pe_addr sample_peer}"
proof -
  let ?t = "dt_add_peer sample_peer new_diff_tracker"
  have "pex_reach ?t {}" by (intro pex_reach.intros)
  moreover have "key_orders [pe_addr sample_peer] [] ?t" "fits_caps [pe_addr sample_peer] [] ?t"
    by (simp_all add: key_orders_def fits_caps_def dt_add_peer_def new_diff_tracker_def missing_in_def
        max_added_def max_dropped_def)
  ultimately show ?thesis
    using pex_view_refines [of ?t "{}" "[pe_addr sample_peer]" "[]", THEN conjunct1]
    by (simp add: dt_add_peer_def new_diff_tracker_def)
qed

text \<open>
  A difference beyond the caps is cut, but the snapshot takes the whole set: the peers that were
  cut are in no later message while they stay in the set. Here more than fifty IPv4 peers are
  new; the message leaves some address out and the next message adds nothing.
\<close>

lemma diff_forgets_peers:
  assumes "keyed (dt_current t)" "key_orders ck lk t"
    and "max_added < length (filter is_v4 (missing_in (dt_current t) (dt_last_sent t) ck))"
    and "diff ck lk t = (m, t')"
  shows "\<exists>k \<in> dom (dt_current t) - dom (dt_last_sent t). k \<notin> pe_addr ` set (pm_added m @ pm_added6 m) \<and>
    (\<forall>ck' lk'. key_orders ck' lk' t' \<longrightarrow> pm_added (fst (diff ck' lk' t')) = [] \<and> pm_added6 (fst (diff ck' lk' t')) = [])"
proof -
  let ?a = "missing_in (dt_current t) (dt_last_sent t) ck"
  have t': "dt_current t' = dt_current t" "dt_last_sent t' = dt_current t"
    and m: "pm_added m = take max_added (filter is_v4 ?a)"
      "pm_added6 m = take max_added (filter (\<lambda>e. \<not> is_v4 e) ?a)"
    using assms(4) by (auto simp: diff_def Let_def)
  have addr: "pe_addr (the (dt_current t k)) = k" if "k \<in> set ck" for k
    using assms(1,2) that by (auto simp: keyed_def key_orders_def)
  have "map pe_addr ?a = filter (\<lambda>k. dt_last_sent t k = None) ck"
    by (auto simp: missing_in_def addr intro: map_idI)
  then have d: "distinct (map pe_addr ?a)" using assms(2) by (simp add: key_orders_def)
  define e where "e = filter is_v4 ?a ! max_added"
  have e: "e \<in> set (filter is_v4 ?a)" using assms(3) unfolding e_def by (rule nth_mem)
  have "distinct (map pe_addr (filter is_v4 ?a))" using d by (rule distinct_map_filter)
  then have "pe_addr e \<notin> pe_addr ` set (pm_added m)"
    using assms(3) unfolding m(1) e_def by (auto simp: in_set_conv_nth distinct_conv_nth)
  moreover have "pe_addr e \<notin> pe_addr ` set (pm_added6 m)"
  proof
    assume "pe_addr e \<in> pe_addr ` set (pm_added6 m)"
    then obtain f where f: "f \<in> set ?a" "\<not> is_v4 f" "pe_addr e = pe_addr f"
      unfolding m(2) by (auto dest!: in_set_takeD)
    have "e = f" using d e f(1,3) by (auto simp: distinct_map inj_on_def)
    then show False using e f(2) by simp
  qed
  moreover have "pe_addr e \<in> dom (dt_current t) - dom (dt_last_sent t)"
    using e missing_in_addrs [OF assms(1), of ck "dt_last_sent t"] assms(2) by (auto simp: key_orders_def)
  moreover have "missing_in (dt_current t') (dt_last_sent t') ck' = []" if "key_orders ck' lk' t'" for ck' lk'
    using that by (auto simp: missing_in_def t' key_orders_def filter_empty_conv)
  ultimately show ?thesis by (intro bexI [of _ "pe_addr e"]) (auto simp: diff_def Let_def)
qed

end
