(* ===== verification/GoUrl.thy ===== *)
theory GoUrl
  imports GoStd
begin

text \<open>
  The parts of Go's \<open>net/url\<close> that build and read query strings: \<open>QueryEscape\<close>,
  \<open>QueryUnescape\<close>, \<open>Values.Encode\<close> and \<open>ParseQuery\<close>. A \<open>url.Values\<close> (a map from keys to
  lists of values) is the list of its pairs; the values of one key keep their order.
\<close>

section \<open>Escaping\<close>

definition unreserved :: "u8 \<Rightarrow> bool" where
  "unreserved c \<longleftrightarrow> (65 \<le> c \<and> c \<le> 90) \<or> (97 \<le> c \<and> c \<le> 122) \<or> (48 \<le> c \<and> c \<le> 57) \<or>
     c = 45 \<or> c = 95 \<or> c = 46 \<or> c = 126"

definition upper_hex :: "u8 \<Rightarrow> u8" where
  "upper_hex v = (if v < 10 then 48 + v else 55 + v)"

text \<open>The escape \<open>%XX\<close>.\<close>

definition percent :: "u8 \<Rightarrow> bytes" where
  "percent c = [37, upper_hex (drop_bit 4 c), upper_hex (c AND 15)]"

definition query_escape :: "bytes \<Rightarrow> bytes" where
  "query_escape s = concat (map (\<lambda>c. if unreserved c then [c] else if c = 32 then [43] else percent c) s)"

fun query_unescape :: "bytes \<Rightarrow> bytes option" where
  "query_unescape [] = Some []"
| "query_unescape (c # s) =
     (if c = 37 then
        (case s of
           a # b # s' \<Rightarrow>
             (case (hex_val a, hex_val b) of
                (Some x, Some y) \<Rightarrow> map_option (\<lambda>r. (push_bit 4 x OR y) # r) (query_unescape s')
              | _ \<Rightarrow> None)
         | _ \<Rightarrow> None)
      else map_option (\<lambda>r. (if c = 43 then 32 else c) # r) (query_unescape s))"

section \<open>Queries\<close>

text \<open>\<open>strings.Cut\<close> at a separator of one byte.\<close>

primrec cut :: "u8 \<Rightarrow> bytes \<Rightarrow> bytes \<times> bytes" where
  "cut c [] = ([], [])"
| "cut c (x # xs) = (if x = c then ([], xs) else (x # fst (cut c xs), snd (cut c xs)))"

type_synonym url_values = "(bytes \<times> bytes) list"

definition encode_values :: "url_values \<Rightarrow> bytes" where
  "encode_values vs =
     join_bytes [38] (map (\<lambda>(k, v). query_escape k @ [61] @ query_escape v) (sort_key fst vs))"

primrec parse_parts :: "bytes list \<Rightarrow> url_values res" where
  "parse_parts [] = Inr []"
| "parse_parts (p # ps) =
     (if 59 \<in> set p then Inl (Fail ''semicolon'')
      else if p = [] then parse_parts ps
      else case (query_unescape (fst (cut 61 p)), query_unescape (snd (cut 61 p))) of
        (Some k, Some v) \<Rightarrow> (case parse_parts ps of Inl e \<Rightarrow> Inl e | Inr vs \<Rightarrow> Inr ((k, v) # vs))
      | _ \<Rightarrow> Inl (Fail ''escape''))"

text \<open>\<open>ParseQuery\<close>; the callers stop at any error.\<close>

definition parse_query :: "bytes \<Rightarrow> url_values res" where
  "parse_query s = parse_parts (split_on 38 s)"

text \<open>\<open>URL.Query\<close>: what cannot be parsed is left out.\<close>

primrec query_pairs :: "bytes list \<Rightarrow> url_values" where
  "query_pairs [] = []"
| "query_pairs (p # ps) =
     (if 59 \<in> set p \<or> p = [] then query_pairs ps
      else case (query_unescape (fst (cut 61 p)), query_unescape (snd (cut 61 p))) of
        (Some k, Some v) \<Rightarrow> (k, v) # query_pairs ps
      | _ \<Rightarrow> query_pairs ps)"

definition query_values :: "bytes \<Rightarrow> url_values" where
  "query_values s = query_pairs (split_on 38 s)"

lemma query_pairs_parse: "parse_parts ps = Inr vs \<Longrightarrow> query_pairs ps = vs"
  by (induction ps arbitrary: vs) (auto split: if_splits option.splits sum.splits)

lemma query_values_parse: "parse_query s = Inr vs \<Longrightarrow> query_values s = vs"
  by (simp add: parse_query_def query_values_def query_pairs_parse)

text \<open>\<open>Get\<close>: the first value of a key, or the empty string; \<open>values[key]\<close>; \<open>Set\<close>; \<open>Add\<close>.\<close>

definition values_all :: "url_values \<Rightarrow> string \<Rightarrow> bytes list" where
  "values_all vs k = map snd (filter (\<lambda>p. fst p = str k) vs)"

definition values_get :: "url_values \<Rightarrow> string \<Rightarrow> bytes" where
  "values_get vs k = (case values_all vs k of [] \<Rightarrow> [] | v # _ \<Rightarrow> v)"

definition values_set :: "string \<Rightarrow> bytes \<Rightarrow> url_values \<Rightarrow> url_values" where
  "values_set k v vs = filter (\<lambda>p. fst p \<noteq> str k) vs @ [(str k, v)]"

definition values_add :: "string \<Rightarrow> bytes \<Rightarrow> url_values \<Rightarrow> url_values" where
  "values_add k v vs = vs @ [(str k, v)]"

section \<open>Escapes are undone\<close>

lemma hex_val_upper_hex [simp]: "v < 16 \<Longrightarrow> hex_val (upper_hex v) = Some v"
proof -
  assume v: "v < 16"
  then have u: "unat v < 16" by (simp add: word_less_nat_alt)
  moreover have "unat (48 + v) = 48 + unat v" "unat (55 + v) = 55 + unat v"
    using u by (simp_all add: unat_word_ariths)
  ultimately show ?thesis
    by (auto simp: hex_val_def upper_hex_def word_less_nat_alt word_le_nat_alt)
qed

lemma query_unescape_percent [simp]: "query_unescape (percent c @ s) = map_option (\<lambda>r. c # r) (query_unescape s)"
  by (simp add: percent_def nibble_high nibble_low nibbles_join)

lemma unreserved_neq: "unreserved c \<Longrightarrow> c \<noteq> 37 \<and> c \<noteq> 43 \<and> c \<noteq> 38 \<and> c \<noteq> 61 \<and> c \<noteq> 59"
  by (auto simp: unreserved_def)

text \<open>Any mix of unescaped unreserved bytes, plus signs for spaces and escapes reads back.\<close>

lemma query_unescape_concat:
  assumes "\<forall>c. f c = [c] \<and> unreserved c \<or> f c = [43] \<and> c = 32 \<or> f c = percent c"
  shows "query_unescape (concat (map f s)) = Some s"
proof (induction s)
  case (Cons c s)
  from assms consider "f c = [c]" "unreserved c" | "f c = [43]" "c = 32" | "f c = percent c" by blast
  then show ?case
    by cases (use Cons unreserved_neq [of c] in auto)
qed simp

lemma query_unescape_escape [simp, codec_simps]: "query_unescape (query_escape s) = Some s"
  unfolding query_escape_def by (rule query_unescape_concat) auto

lemma upper_hex_safe: "v < 16 \<Longrightarrow> unreserved (upper_hex v)"
proof -
  assume v: "v < 16"
  then have u: "unat v < 16" by (simp add: word_less_nat_alt)
  have "unat (48 + v) = 48 + unat v" "unat (55 + v) = 55 + unat v"
    using u by (simp_all add: unat_word_ariths)
  with u show ?thesis
    unfolding unreserved_def upper_hex_def word_le_nat_alt word_less_nat_alt by simp
qed

lemma set_percent: "x \<in> set (percent c) \<Longrightarrow> x \<noteq> 38 \<and> x \<noteq> 61 \<and> x \<noteq> 59"
  using upper_hex_safe [OF nibble_high [of c]] upper_hex_safe [OF nibble_low [of c]]
  by (auto simp: percent_def dest: unreserved_neq)

lemma query_escape_safe: "x \<in> set (query_escape s) \<Longrightarrow> x \<noteq> 38 \<and> x \<noteq> 61 \<and> x \<noteq> 59"
  using set_percent by (fastforce simp: query_escape_def dest: unreserved_neq split: if_splits)

section \<open>Queries read back\<close>

lemma cut_first: "c \<notin> set k \<Longrightarrow> cut c (k @ c # v) = (k, v)"
  by (induction k) auto

text \<open>Two texts that unescape to a key and a value.\<close>

definition escaped_pair :: "bytes \<Rightarrow> bytes \<times> bytes \<Rightarrow> bool" where
  "escaped_pair p kv \<longleftrightarrow>
     (\<exists>k v. p = k @ [61] @ v \<and> query_unescape k = Some (fst kv) \<and> query_unescape v = Some (snd kv) \<and>
        (\<forall>x \<in> set (k @ v). x \<noteq> 38 \<and> x \<noteq> 61 \<and> x \<noteq> 59))"

lemma escaped_pair_escape: "escaped_pair (query_escape k @ [61] @ query_escape v) (k, v)"
proof -
  have "\<forall>x \<in> set (query_escape k @ query_escape v). x \<noteq> 38 \<and> x \<noteq> 61 \<and> x \<noteq> 59"
    using query_escape_safe [of _ k] query_escape_safe [of _ v] by (simp only: set_append Un_iff) blast
  then show ?thesis
    unfolding escaped_pair_def by (intro exI [of _ "query_escape k"] exI [of _ "query_escape v"]) simp
qed

text \<open>A value escaped byte by byte, with \<open>%20\<close> for a space.\<close>

lemma escaped_pair_raw:
  assumes "query_unescape k = Some key" "\<forall>x \<in> set k. x \<noteq> 38 \<and> x \<noteq> 61 \<and> x \<noteq> 59"
  shows "escaped_pair (k @ [61] @ concat (map (\<lambda>c. if unreserved c then [c] else percent c) b)) (key, b)"
proof -
  let ?e = "concat (map (\<lambda>c. if unreserved c then [c] else percent c) b)"
  have "query_unescape ?e = Some b" by (rule query_unescape_concat) simp
  moreover have "\<forall>x \<in> set ?e. x \<noteq> 38 \<and> x \<noteq> 61 \<and> x \<noteq> 59"
  proof
    fix x assume "x \<in> set ?e"
    then obtain c where "x \<in> set (if unreserved c then [c] else percent c)"
      unfolding set_concat set_map by blast
    then show "x \<noteq> 38 \<and> x \<noteq> 61 \<and> x \<noteq> 59"
      using unreserved_neq [of c] set_percent [of x c] by (cases "unreserved c") simp_all
  qed
  ultimately have "query_unescape ?e = Some b" "\<forall>x \<in> set (k @ ?e). x \<noteq> 38 \<and> x \<noteq> 61 \<and> x \<noteq> 59"
    using assms(2) by (simp_all only: set_append ball_Un)
  with assms(1) show ?thesis
    unfolding escaped_pair_def by (intro exI [of _ k] exI [of _ ?e]) simp
qed

lemma join_bytes_snoc: "xs \<noteq> [] \<Longrightarrow> join_bytes sep (xs @ [y]) = join_bytes sep xs @ sep @ y"
proof (induction sep xs rule: join_bytes.induct)
  case (3 sep x y zs)
  then show ?case by simp
qed simp_all

lemma parse_parts_escaped: "list_all2 escaped_pair ps vs \<Longrightarrow> parse_parts ps = Inr vs"
proof (induction rule: list_all2_induct)
  case (Cons p ps kv vs)
  then obtain k v where p: "p = k @ [61] @ v" "query_unescape k = Some (fst kv)" "query_unescape v = Some (snd kv)"
    "\<forall>x \<in> set (k @ v). x \<noteq> 38 \<and> x \<noteq> 61 \<and> x \<noteq> 59" unfolding escaped_pair_def by blast
  have "61 \<notin> set k" "59 \<notin> set p" "p \<noteq> []" using p(1,4) by auto
  moreover have "cut 61 p = (k, v)" unfolding p(1) using \<open>61 \<notin> set k\<close> by (simp add: cut_first)
  ultimately show ?case using p(2,3) Cons.IH by simp
qed simp

lemma escaped_pair_free: "escaped_pair p kv \<Longrightarrow> 38 \<notin> set p"
proof -
  assume "escaped_pair p kv"
  then obtain k v where p: "p = k @ [61] @ v" and "\<forall>x \<in> set (k @ v). x \<noteq> 38 \<and> x \<noteq> 61 \<and> x \<noteq> 59"
    unfolding escaped_pair_def by blast
  then have "38 \<notin> set k" "38 \<notin> set v" by (simp_all only: set_append) blast+
  then show ?thesis by (simp add: p)
qed

lemma parse_query_join:
  assumes "list_all2 escaped_pair ps vs"
  shows "parse_query (join_bytes [38] ps) = Inr vs"
proof (cases "ps = []")
  case True
  then show ?thesis using assms by (simp add: parse_query_def)
next
  case False
  have "\<forall>p \<in> set ps. 38 \<notin> set p"
    using assms by (induction rule: list_all2_induct) (auto dest: escaped_pair_free)
  then have "split_on 38 (join_bytes [38] ps) = ps" by (rule join_split_on [OF False])
  then show ?thesis using parse_parts_escaped [OF assms] by (simp add: parse_query_def)
qed

lemma list_all2_escaped: "list_all2 escaped_pair (map (\<lambda>(k, v). query_escape k @ [61] @ query_escape v) vs) vs"
  unfolding list_all2_map1 by (rule list.rel_refl_strong) (auto simp: escaped_pair_escape [simplified])

lemma parse_encode_values: "parse_query (encode_values vs) = Inr (sort_key fst vs)"
  unfolding encode_values_def by (rule parse_query_join [OF list_all2_escaped])

lemma values_all_sort [simp]: "values_all (sort_key fst vs) k = values_all vs k"
  by (simp add: values_all_def filter_sort [symmetric] sort_key_stable)

lemma values_get_sort [simp]: "values_get (sort_key fst vs) k = values_get vs k"
  by (simp add: values_get_def)

lemma values_all_set:
  "values_all (values_set k v vs) k' = (if str k' = str k then [v] else values_all vs k')"
proof (cases "str k' = str k")
  case False
  then have "filter (\<lambda>p. fst p \<noteq> str k \<and> fst p = str k') vs = filter (\<lambda>p. fst p = str k') vs"
    by (intro filter_cong) auto
  with False show ?thesis by (simp add: values_all_def values_set_def)
qed (simp add: values_all_def values_set_def)

lemma values_all_add:
  "values_all (values_add k v vs) k' = values_all vs k' @ (if str k' = str k then [v] else [])"
  by (auto simp: values_all_def values_add_def)

end
