(* ===== verification/Tracker.thy ===== *)
theory Tracker
  imports Bencode GoUrl GoNet
begin

text \<open>
  Tracker announces over HTTP (\<open>tracker/tracker.go\<close>), over UDP (\<open>tracker/udp.go\<close>), scrapes
  (\<open>tracker/scrape.go\<close>) and tiers (\<open>tracker/tiered.go\<close>). Sockets are arguments: what each read
  of a retry loop returns. Random numbers are arguments too.
\<close>

section \<open>Announce parameters and responses\<close>

record tpeer =
  tp_ip :: bytes
  tp_port :: u16

definition tp_addr :: "tpeer \<Rightarrow> bytes" where
  "tp_addr p = join_host_port (ip_string (tp_ip p)) (itoa (uint (tp_port p)))"

record response =
  r_interval :: int
  r_peers :: "tpeer list"
  r_complete :: int
  r_incomplete :: int
  r_external_ip :: bytes

record announce_params =
  a_info_hash :: bytes
  a_peer_id :: bytes
  a_port :: u16
  a_uploaded :: int
  a_downloaded :: int
  a_left :: int
  a_event :: bytes
  a_num_want :: int

section \<open>The HTTP request\<close>

definition is_unreserved :: "u8 \<Rightarrow> bool" where
  "is_unreserved c \<longleftrightarrow> (65 \<le> c \<and> c \<le> 90) \<or> (97 \<le> c \<and> c \<le> 122) \<or> (48 \<le> c \<and> c \<le> 57) \<or>
     c = 45 \<or> c = 95 \<or> c = 46 \<or> c = 126"

definition percent_encode_bytes :: "bytes \<Rightarrow> bytes" where
  "percent_encode_bytes b = concat (map (\<lambda>c. if is_unreserved c then [c] else percent c) b)"

text \<open>\<open>buildAnnounceURL\<close>: the raw query; the query of the tracker URL is an argument.\<close>

definition announce_values :: "url_values \<Rightarrow> announce_params \<Rightarrow> url_values" where
  "announce_values base p =
     (let vs = values_set ''port'' (itoa (uint (a_port p))) base;
          vs = values_set ''uploaded'' (itoa (a_uploaded p)) vs;
          vs = values_set ''downloaded'' (itoa (a_downloaded p)) vs;
          vs = values_set ''left'' (itoa (a_left p)) vs;
          vs = values_set ''compact'' (str ''1'') vs;
          vs = (if a_event p \<noteq> [] then values_set ''event'' (a_event p) vs else vs)
      in if 0 < a_num_want p then values_set ''numwant'' (itoa (a_num_want p)) vs else vs)"

definition tracker_query :: "url_values \<Rightarrow> announce_params \<Rightarrow> bytes" where
  "tracker_query base p =
     encode_values (announce_values base p) @
     str ''&info_hash='' @ percent_encode_bytes (a_info_hash p) @
     str ''&peer_id='' @ percent_encode_bytes (a_peer_id p)"

section \<open>The HTTP response\<close>

definition parse_compact :: "nat \<Rightarrow> bytes \<Rightarrow> tpeer list res" where
  "parse_compact ip_len data =
     (if length data mod (ip_len + 2) \<noteq> 0 then Inl (Fail ''compact length'')
      else Inr (map (\<lambda>(ip, port). \<lparr>tp_ip = ip, tp_port = port\<rparr>)
             (decode_indexed (ip_len + 2) (addr_cell ip_len) data)))"

definition parse_compact_peers :: "bytes \<Rightarrow> tpeer list res" where
  "parse_compact_peers data = parse_compact 4 data"

definition parse_compact_peers6 :: "bytes \<Rightarrow> tpeer list res" where
  "parse_compact_peers6 data = parse_compact 16 data"

text \<open>\<open>uint16(portVal)\<close> keeps the low 16 bits.\<close>

definition parse_dict_peer :: "bvalue \<Rightarrow> tpeer res" where
  "parse_dict_peer item =
     (case item of
        BDict d \<Rightarrow>
          (case (get_string d ''ip'', get_int d ''port'') of
             (None, _) \<Rightarrow> Inl (Fail ''ip'')
           | (Some s, None) \<Rightarrow> Inl (Fail ''port'')
           | (Some s, Some port) \<Rightarrow>
               (case parse_ip s of
                  None \<Rightarrow> Inl (Fail ''invalid IP'')
                | Some ip \<Rightarrow> Inr \<lparr>tp_ip = ip, tp_port = ucast port\<rparr>))
      | _ \<Rightarrow> Inl (Fail ''peer is not a dict''))"

primrec parse_dict_peers :: "bvalue list \<Rightarrow> tpeer list res" where
  "parse_dict_peers [] = Inr []"
| "parse_dict_peers (item # items) =
     (case parse_dict_peer item of
        Inl e \<Rightarrow> Inl e
      | Inr p \<Rightarrow> (case parse_dict_peers items of Inl e \<Rightarrow> Inl e | Inr ps \<Rightarrow> Inr (p # ps)))"

definition external_ip :: "bdict \<Rightarrow> bytes" where
  "external_ip d =
     (case get_string d ''external ip'' of
        Some raw \<Rightarrow> if length raw = 4 then ipv4 raw else if length raw = 16 then raw else []
      | None \<Rightarrow> [])"

definition parse_response :: "bytes \<Rightarrow> response res" where
  "parse_response data =
     (case decode data of
        Inl e \<Rightarrow> Inl e
      | Inr (BDict d) \<Rightarrow>
          if get_string d ''failure reason'' \<noteq> None then Inl (Fail ''tracker error'')
          else
            let r = \<lparr>r_interval = int_or_zero d ''interval'', r_peers = [],
                     r_complete = int_or_zero d ''complete'', r_incomplete = int_or_zero d ''incomplete'',
                     r_external_ip = external_ip d\<rparr>
            in (case dict_get d ''peers'' of
                  None \<Rightarrow> Inr r
                | Some peers_val \<Rightarrow>
                    (case (case peers_val of
                             BString p \<Rightarrow> parse_compact_peers p
                           | BList items \<Rightarrow> parse_dict_peers items
                           | _ \<Rightarrow> Inl (Fail ''unexpected type for peers'')) of
                       Inl e \<Rightarrow> Inl e
                     | Inr ps \<Rightarrow>
                         (case get_string d ''peers6'' of
                            None \<Rightarrow> Inr (r\<lparr>r_peers := ps\<rparr>)
                          | Some s \<Rightarrow>
                              (case parse_compact_peers6 s of
                                 Inl e \<Rightarrow> Inl e
                               | Inr v6 \<Rightarrow> Inr (r\<lparr>r_peers := ps @ v6\<rparr>)))))
      | Inr _ \<Rightarrow> Inl (Fail ''tracker response is not a dict''))"

section \<open>UDP round trips\<close>

definition max_retries :: nat where "max_retries = 4"
definition udp_buffer :: nat where "udp_buffer = 4096"

text \<open>What a write and the read after it give; a datagram longer than the buffer is cut.\<close>

datatype udp_read = WriteFailed | ReadFailed | TimedOut | Datagram bytes

definition udp_check :: "nat \<Rightarrow> bytes \<Rightarrow> bytes res" where
  "udp_check min_resp d =
     (let n_read = length d
      in if n_read < min_resp then
           (if 8 \<le> n_read \<and> get32 (take 4 d) = 3 then Inl (Fail ''tracker error'')
            else Inl (Fail ''response too short''))
         else if 8 \<le> n_read \<and> get32 (take 4 d) = 3 then Inl (Fail ''tracker error'')
         else Inr d)"

text \<open>\<open>udpRoundTrip\<close>, from attempt \<open>n\<close>; \<open>rds n\<close> is the outcome of attempt \<open>n\<close>.\<close>

function udp_attempts :: "nat \<Rightarrow> (nat \<Rightarrow> udp_read) \<Rightarrow> nat \<Rightarrow> bytes res" where
  "udp_attempts min_resp rds n =
     (if max_retries \<le> n then Inl (Fail ''no response'')
      else case rds n of
        WriteFailed \<Rightarrow> Inl (Fail ''send'')
      | ReadFailed \<Rightarrow> Inl (Fail ''read'')
      | TimedOut \<Rightarrow> udp_attempts min_resp rds (n + 1)
      | Datagram d \<Rightarrow> udp_check min_resp (take udp_buffer d))"
  by pat_completeness auto

termination
  by (relation "measure (\<lambda>(m, r, n). max_retries - n)") auto

declare udp_attempts.simps [simp del]

definition udp_round_trip :: "nat \<Rightarrow> (nat \<Rightarrow> udp_read) \<Rightarrow> bytes res" where
  "udp_round_trip min_resp rds = udp_attempts min_resp rds 0"

section \<open>UDP connect and announce\<close>

definition udp_protocol_id :: u64 where "udp_protocol_id = 0x41727101980"
definition action_connect :: u32 where "action_connect = 0"
definition action_announce :: u32 where "action_announce = 1"
definition action_scrape :: u32 where "action_scrape = 2"

definition connect_request :: "u32 \<Rightarrow> bytes" where
  "connect_request txn = put64 udp_protocol_id @ put32 action_connect @ put32 txn"

definition udp_connect :: "u32 \<Rightarrow> (nat \<Rightarrow> udp_read) \<Rightarrow> u64 res" where
  "udp_connect txn rds =
     (case udp_round_trip 16 rds of
        Inl e \<Rightarrow> Inl e
      | Inr resp \<Rightarrow>
          if get32 (slice resp 0 4) \<noteq> action_connect then Inl (Fail ''action'')
          else if get32 (slice resp 4 8) \<noteq> txn then Inl (Fail ''transaction ID'')
          else Inr (get64 (slice resp 8 16)))"

definition event_code :: "bytes \<Rightarrow> u32" where
  "event_code event =
     (if event = str ''completed'' then 1 else if event = str ''started'' then 2
      else if event = str ''stopped'' then 3 else 0)"

text \<open>The loop of \<open>encodeURLDataOption\<close>: chunks of at most 255 bytes with their length.\<close>

function url_data_chunks :: "bytes \<Rightarrow> bytes" where
  "url_data_chunks data =
     (if data = [] then []
      else let chunk = take 255 data
           in 2 # of_nat (length chunk) # chunk @ url_data_chunks (drop 255 data))"
  by pat_completeness auto

termination
  by (relation "measure length") auto

declare url_data_chunks.simps [simp del]

definition encode_url_data_option :: "bytes \<Rightarrow> bytes" where
  "encode_url_data_option path_query =
     (let opts = url_data_chunks path_query in if length opts = 0 then [2, 0] else opts)"

definition announce_request :: "u64 \<Rightarrow> u32 \<Rightarrow> u32 \<Rightarrow> announce_params \<Rightarrow> bytes \<Rightarrow> bytes" where
  "announce_request conn_id txn key p path_query =
     put64 conn_id @ put32 action_announce @ put32 txn @
     copy_array 20 (a_info_hash p) @ copy_array 20 (a_peer_id p) @
     put64 (word_of_int (a_downloaded p)) @ put64 (word_of_int (a_left p)) @ put64 (word_of_int (a_uploaded p)) @
     put32 (event_code (a_event p)) @ put32 0 @ put32 key @
     put32 (word_of_int (if 0 < a_num_want p then a_num_want p else -1)) @ put16 (a_port p) @
     encode_url_data_option path_query"

definition udp_announce :: "u32 \<Rightarrow> (nat \<Rightarrow> udp_read) \<Rightarrow> response res" where
  "udp_announce txn rds =
     (case udp_round_trip 20 rds of
        Inl e \<Rightarrow> Inl e
      | Inr resp \<Rightarrow>
          if get32 (slice resp 0 4) \<noteq> action_announce then Inl (Fail ''action'')
          else if get32 (slice resp 4 8) \<noteq> txn then Inl (Fail ''transaction ID'')
          else case parse_compact_peers (drop 20 resp) of
            Inl e \<Rightarrow> Inl e
          | Inr ps \<Rightarrow>
              Inr \<lparr>r_interval = uint (get32 (slice resp 8 12)), r_peers = ps,
                   r_complete = uint (get32 (slice resp 16 20)),
                   r_incomplete = uint (get32 (slice resp 12 16)), r_external_ip = []\<rparr>)"

section \<open>Scrape\<close>

record scrape_result =
  s_info_hash :: bytes
  s_complete :: int
  s_downloaded :: int
  s_incomplete :: int

text \<open>\<open>strings.LastIndex\<close>, and the path of the scrape URL.\<close>

primrec last_index_upto :: "bytes \<Rightarrow> bytes \<Rightarrow> nat \<Rightarrow> nat option" where
  "last_index_upto s sub 0 = (if take (length sub) s = sub then Some 0 else None)"
| "last_index_upto s sub (Suc i) =
     (if take (length sub) (drop (Suc i) s) = sub then Some (Suc i) else last_index_upto s sub i)"

definition last_index :: "bytes \<Rightarrow> bytes \<Rightarrow> nat option" where
  "last_index s sub = last_index_upto s sub (length s)"

definition scrape_path :: "bytes \<Rightarrow> bytes res" where
  "scrape_path path =
     (case last_index path (str ''/announce'') of
        None \<Rightarrow> Inl (Fail ''no /announce'')
      | Some idx \<Rightarrow> Inr (take idx path @ str ''/scrape'' @ drop (idx + length (str ''/announce'')) path))"

definition scrape_query :: "bytes \<Rightarrow> bytes list \<Rightarrow> bytes" where
  "scrape_query raw_query info_hashes =
     foldl (\<lambda>q ih. (if 0 < length q then q @ [38] else q) @ str ''info_hash='' @ percent_encode_bytes ih)
       raw_query info_hashes"

definition scrape_entry :: "bdict \<Rightarrow> bytes \<Rightarrow> scrape_result" where
  "scrape_entry files ih =
     (case map_of files ih of
        Some (BDict ed) \<Rightarrow>
          \<lparr>s_info_hash = ih, s_complete = int_or_zero ed ''complete'',
           s_downloaded = int_or_zero ed ''downloaded'', s_incomplete = int_or_zero ed ''incomplete''\<rparr>
      | _ \<Rightarrow> \<lparr>s_info_hash = ih, s_complete = 0, s_downloaded = 0, s_incomplete = 0\<rparr>)"

definition parse_scrape_response :: "bytes \<Rightarrow> bytes list \<Rightarrow> scrape_result list res" where
  "parse_scrape_response data info_hashes =
     (case decode data of
        Inl e \<Rightarrow> Inl e
      | Inr (BDict d) \<Rightarrow>
          if get_string d ''failure reason'' \<noteq> None then Inl (Fail ''scrape error'')
          else (case dict_get d ''files'' of
                  None \<Rightarrow> Inl (Fail ''missing files'')
                | Some (BDict files) \<Rightarrow> Inr (map (scrape_entry files) info_hashes)
                | Some _ \<Rightarrow> Inl (Fail ''files is not a dict''))
      | Inr _ \<Rightarrow> Inl (Fail ''scrape response is not a dict''))"

definition scrape_request :: "u64 \<Rightarrow> u32 \<Rightarrow> bytes list \<Rightarrow> bytes" where
  "scrape_request conn_id txn info_hashes =
     put64 conn_id @ put32 action_scrape @ put32 txn @ concat (map (copy_array 20) info_hashes)"

definition udp_scrape_request :: "u32 \<Rightarrow> bytes list \<Rightarrow> (nat \<Rightarrow> udp_read) \<Rightarrow> scrape_result list res" where
  "udp_scrape_request txn info_hashes rds =
     (case udp_round_trip (8 + 12 * length info_hashes) rds of
        Inl e \<Rightarrow> Inl e
      | Inr resp \<Rightarrow>
          if get32 (slice resp 0 4) \<noteq> action_scrape then Inl (Fail ''action'')
          else if get32 (slice resp 4 8) \<noteq> txn then Inl (Fail ''transaction ID'')
          else Inr (map (\<lambda>i. let off = 8 + i * 12
              in \<lparr>s_info_hash = info_hashes ! i, s_complete = uint (get32 (slice resp off (off + 4))),
                  s_downloaded = uint (get32 (slice resp (off + 4) (off + 8))),
                  s_incomplete = uint (get32 (slice resp (off + 8) (off + 12)))\<rparr>)
            [0..<length info_hashes]))"

section \<open>Announces and scrapes over the network\<close>

text \<open>
  What the code gets from outside: \<open>url.Parse\<close> and \<open>URL.String\<close>, the answer to an HTTP request (its
  status and its body), UDP sockets and three random numbers. A socket answers the attempts to send
  a request; dialling one includes the name resolution.
\<close>

record url =
  url_scheme :: bytes
  url_host :: bytes
  url_path :: bytes
  url_raw_query :: bytes

type_synonym socket = "bytes \<Rightarrow> nat \<Rightarrow> udp_read"

record net_env =
  ne_parse_url :: "bytes \<Rightarrow> url res"
  ne_url_string :: "url \<Rightarrow> bytes"
  ne_get :: "bytes \<Rightarrow> (nat \<times> bytes res) res"
  ne_dial :: "bytes \<Rightarrow> socket res"
  ne_connect_txn :: u32
  ne_txn :: u32
  ne_key :: u32

definition build_announce_url :: "net_env \<Rightarrow> bytes \<Rightarrow> announce_params \<Rightarrow> bytes res" where
  "build_announce_url e tracker_url p =
     (case ne_parse_url e tracker_url of
        Inl err \<Rightarrow> Inl err
      | Inr base \<Rightarrow>
          Inr (ne_url_string e (base\<lparr>url_raw_query := tracker_query (query_values (url_raw_query base)) p\<rparr>)))"

definition announce_http :: "net_env \<Rightarrow> bytes \<Rightarrow> announce_params \<Rightarrow> response res" where
  "announce_http e tracker_url p =
     (case build_announce_url e tracker_url p of
        Inl err \<Rightarrow> Inl err
      | Inr req_url \<Rightarrow>
          (case ne_get e req_url of
             Inl err \<Rightarrow> Inl err
           | Inr (status, body) \<Rightarrow>
               if status \<noteq> 200 then Inl (Fail ''HTTP status'')
               else (case body of Inl err \<Rightarrow> Inl err | Inr b \<Rightarrow> parse_response b)))"

text \<open>\<open>udpParseURL\<close>: the host with the default port, and the payload of BEP 41.\<close>

definition udp_parse_url :: "net_env \<Rightarrow> bytes \<Rightarrow> (bytes \<times> bytes) res" where
  "udp_parse_url e raw_url =
     (case ne_parse_url e raw_url of
        Inl err \<Rightarrow> Inl err
      | Inr u \<Rightarrow>
          if url_scheme u \<noteq> str ''udp'' then Inl (Fail ''scheme'')
          else
            let host = (case split_host_port (url_host u) of
                          Inl _ \<Rightarrow> join_host_port (url_host u) (str ''6969'')
                        | Inr _ \<Rightarrow> url_host u)
            in Inr (host, if url_raw_query u \<noteq> [] then url_path u @ [63] @ url_raw_query u else url_path u))"

definition announce_udp :: "net_env \<Rightarrow> bytes \<Rightarrow> announce_params \<Rightarrow> response res" where
  "announce_udp e raw_url p =
     (case udp_parse_url e raw_url of
        Inl err \<Rightarrow> Inl err
      | Inr (host, path_query) \<Rightarrow>
          (case ne_dial e host of
             Inl err \<Rightarrow> Inl err
           | Inr sock \<Rightarrow>
               (case udp_connect (ne_connect_txn e) (sock (connect_request (ne_connect_txn e))) of
                  Inl err \<Rightarrow> Inl err
                | Inr conn_id \<Rightarrow>
                    udp_announce (ne_txn e) (sock (announce_request conn_id (ne_txn e) (ne_key e) p path_query)))))"

definition tracker_announce :: "net_env \<Rightarrow> bytes \<Rightarrow> announce_params \<Rightarrow> response res" where
  "tracker_announce e tracker_url p =
     (if has_prefix tracker_url ''udp://'' then announce_udp e tracker_url p else announce_http e tracker_url p)"

definition scrape_url :: "net_env \<Rightarrow> bytes \<Rightarrow> bytes res" where
  "scrape_url e announce_url =
     (case ne_parse_url e announce_url of
        Inl err \<Rightarrow> Inl err
      | Inr u \<Rightarrow>
          (case scrape_path (url_path u) of
             Inl err \<Rightarrow> Inl err
           | Inr p \<Rightarrow> Inr (ne_url_string e (u\<lparr>url_path := p\<rparr>))))"

text \<open>Unlike an announce, a scrape does not look at the HTTP status.\<close>

definition scrape_http :: "net_env \<Rightarrow> bytes \<Rightarrow> bytes list \<Rightarrow> scrape_result list res" where
  "scrape_http e tracker_url info_hashes =
     (case scrape_url e tracker_url of
        Inl err \<Rightarrow> Inl err
      | Inr s_url \<Rightarrow>
          (case ne_parse_url e s_url of
             Inl err \<Rightarrow> Inl err
           | Inr base \<Rightarrow>
               (case ne_get e (ne_url_string e (base\<lparr>url_raw_query := scrape_query (url_raw_query base) info_hashes\<rparr>)) of
                  Inl err \<Rightarrow> Inl err
                | Inr (_, body) \<Rightarrow>
                    (case body of Inl err \<Rightarrow> Inl err | Inr b \<Rightarrow> parse_scrape_response b info_hashes))))"

definition udp_scrape :: "net_env \<Rightarrow> bytes \<Rightarrow> bytes list \<Rightarrow> scrape_result list res" where
  "udp_scrape e raw_url info_hashes =
     (case udp_parse_url e raw_url of
        Inl err \<Rightarrow> Inl err
      | Inr (host, _) \<Rightarrow>
          (case ne_dial e host of
             Inl err \<Rightarrow> Inl err
           | Inr sock \<Rightarrow>
               (case udp_connect (ne_connect_txn e) (sock (connect_request (ne_connect_txn e))) of
                  Inl err \<Rightarrow> Inl err
                | Inr conn_id \<Rightarrow>
                    udp_scrape_request (ne_txn e) info_hashes (sock (scrape_request conn_id (ne_txn e) info_hashes)))))"

definition scrape :: "net_env \<Rightarrow> bytes \<Rightarrow> bytes list \<Rightarrow> scrape_result list res" where
  "scrape e tracker_url info_hashes =
     (if has_prefix tracker_url ''udp://'' then udp_scrape e tracker_url info_hashes
      else scrape_http e tracker_url info_hashes)"

section \<open>Tiers\<close>

text \<open>\<open>NewTieredAnnouncer\<close>; the shuffle of the \<open>i\<close>-th tier is an argument.\<close>

definition new_tiered :: "(nat \<Rightarrow> bytes list \<Rightarrow> bytes list) \<Rightarrow> bytes list list \<Rightarrow> bytes \<Rightarrow> bytes list list" where
  "new_tiered shuffle tiers announce =
     (if 0 < length tiers
      then filter (\<lambda>tier. 0 < length tier) (map (\<lambda>i. shuffle i (tiers ! i)) [0..<length tiers])
      else if announce \<noteq> [] then [[announce]] else [])"

definition promote :: "nat \<Rightarrow> nat \<Rightarrow> bytes list list \<Rightarrow> bytes list list" where
  "promote tier_idx tracker_idx tiers =
     (if length tiers \<le> tier_idx \<or> tracker_idx = 0 then tiers
      else
        let tier = tiers ! tier_idx
        in if length tier \<le> tracker_idx then tiers
           else tiers[tier_idx := tier ! tracker_idx # take tracker_idx tier @ drop (tracker_idx + 1) tier])"

text \<open>The loops over a snapshot of the tiers: the first success with its position.\<close>

primrec try_tier :: "(bytes \<Rightarrow> 'r res) \<Rightarrow> nat \<Rightarrow> bytes list \<Rightarrow> (nat \<times> 'r) option" where
  "try_tier announce j [] = None"
| "try_tier announce j (url # urls) =
     (case announce url of Inl e \<Rightarrow> try_tier announce (j + 1) urls | Inr r \<Rightarrow> Some (j, r))"

primrec try_tiers :: "(bytes \<Rightarrow> 'r res) \<Rightarrow> nat \<Rightarrow> bytes list list \<Rightarrow> (nat \<times> nat \<times> 'r) option" where
  "try_tiers announce i [] = None"
| "try_tiers announce i (tier # tiers) =
     (case try_tier announce 0 tier of
        None \<Rightarrow> try_tiers announce (i + 1) tiers
      | Some (j, r) \<Rightarrow> Some (i, j, r))"

definition tiered_announce :: "(bytes \<Rightarrow> 'r res) \<Rightarrow> bytes list list \<Rightarrow> 'r res \<times> bytes list list" where
  "tiered_announce announce tiers =
     (case try_tiers announce 0 tiers of
        None \<Rightarrow> (Inl (if concat tiers = [] then Fail ''no trackers available'' else Fail ''all trackers failed''), tiers)
      | Some (i, j, r) \<Rightarrow> (Inr r, promote i j tiers))"

section \<open>The announce query\<close>

lemma escaped_pair_percent:
  assumes "query_unescape k = Some key" "\<forall>x \<in> set k. x \<noteq> 38 \<and> x \<noteq> 61 \<and> x \<noteq> 59"
  shows "escaped_pair (k @ [61] @ percent_encode_bytes b) (key, b)"
proof -
  have "is_unreserved c = unreserved c" for c by (simp add: is_unreserved_def unreserved_def)
  then show ?thesis using escaped_pair_raw [OF assms] by (simp add: percent_encode_bytes_def)
qed

lemma parse_announce_query:
  "parse_query (tracker_query base p) =
    Inr (sort_key fst (announce_values base p) @
      [(str ''info_hash'', a_info_hash p), (str ''peer_id'', a_peer_id p)])"
proof -
  let ?vs = "sort_key fst (announce_values base p)"
  let ?parts = "map (\<lambda>(k, v). query_escape k @ [61] @ query_escape v) ?vs"
  let ?ih = "str ''info_hash'' @ [61] @ percent_encode_bytes (a_info_hash p)"
  let ?pid = "str ''peer_id'' @ [61] @ percent_encode_bytes (a_peer_id p)"
  have "announce_values base p \<noteq> []"
    by (simp add: announce_values_def Let_def values_set_def)
  then have ne: "?parts \<noteq> []" by simp (metis length_0_conv length_sort)
  have "str ''&info_hash='' = [38] @ str ''info_hash'' @ [61]" "str ''&peer_id='' = [38] @ str ''peer_id'' @ [61]"
    by simp_all
  then have "tracker_query base p = (join_bytes [38] ?parts @ [38] @ ?ih) @ [38] @ ?pid"
    by (simp only: tracker_query_def encode_values_def append_assoc)
  also have "\<dots> = join_bytes [38] ((?parts @ [?ih]) @ [?pid])"
    by (simp only: join_bytes_snoc [OF ne] join_bytes_snoc append_is_Nil_conv list.distinct simp_thms)
  finally have "tracker_query base p = join_bytes [38] ((?parts @ [?ih]) @ [?pid])" .
  moreover have "escaped_pair ?ih (str ''info_hash'', a_info_hash p)" "escaped_pair ?pid (str ''peer_id'', a_peer_id p)"
    by (rule escaped_pair_percent; simp)+
  then have "list_all2 escaped_pair ((?parts @ [?ih]) @ [?pid])
      (?vs @ [(str ''info_hash'', a_info_hash p), (str ''peer_id'', a_peer_id p)])"
    using list_all2_escaped [of ?vs] by (simp add: list_all2_appendI)
  ultimately show ?thesis by (simp only: parse_query_join)
qed

lemma values_all_append: "values_all (vs @ ws) k = values_all vs k @ values_all ws k"
  by (simp add: values_all_def)

section \<open>Retries\<close>

lemma udp_attempts_first:
  assumes "\<forall>m. n \<le> m \<and> m < k \<longrightarrow> rds m = TimedOut" "n \<le> k" "k < max_retries" "rds k = Datagram d"
  shows "udp_attempts min_resp rds n = udp_check min_resp (take udp_buffer d)"
  using assms
proof (induction min_resp rds n rule: udp_attempts.induct)
  case (1 min_resp rds n)
  show ?case
  proof (cases "n = k")
    case True
    then show ?thesis using "1.prems"(3,4) by (simp add: udp_attempts.simps [of _ _ k])
  next
    case False
    then have t: "rds n = TimedOut" "\<not> max_retries \<le> n" "n + 1 \<le> k" using "1.prems" by auto
    then show ?thesis
      using "1.IH" [OF t(2,1)] "1.prems" by (simp add: udp_attempts.simps [of _ _ n])
  qed
qed

lemma udp_attempts_Inr:
  "udp_attempts min_resp rds n = Inr resp \<Longrightarrow>
    \<exists>k d. n \<le> k \<and> k < max_retries \<and> (\<forall>m. n \<le> m \<and> m < k \<longrightarrow> rds m = TimedOut) \<and> rds k = Datagram d \<and>
      resp = take udp_buffer d \<and> min_resp \<le> length resp"
proof (induction min_resp rds n rule: udp_attempts.induct)
  case (1 min_resp rds n)
  have n: "\<not> max_retries \<le> n" using "1.prems" by (auto simp: udp_attempts.simps [of _ _ n] split: if_splits)
  show ?case
  proof (cases "rds n")
    case TimedOut
    then obtain k d where k: "n + 1 \<le> k" "k < max_retries" "\<forall>m. n + 1 \<le> m \<and> m < k \<longrightarrow> rds m = TimedOut"
      "rds k = Datagram d" "resp = take udp_buffer d" "min_resp \<le> length resp"
      using "1.IH" [OF n TimedOut] "1.prems" n by (auto simp: udp_attempts.simps [of _ _ n])
    then have "\<forall>m. n \<le> m \<and> m < k \<longrightarrow> rds m = TimedOut" using TimedOut
      by (metis Suc_eq_plus1 Suc_leI le_neq_implies_less)
    with k show ?thesis by (intro exI [of _ k] exI [of _ d]) simp
  next
    case (Datagram d)
    then have "udp_check min_resp (take udp_buffer d) = Inr resp"
      using "1.prems" n by (simp add: udp_attempts.simps [of _ _ n])
    then have "resp = take udp_buffer d" "min_resp \<le> length resp"
      by (auto simp: udp_check_def Let_def split: if_splits)
    then show ?thesis using n Datagram by (intro exI [of _ n] exI [of _ d]) auto
  qed (use "1.prems" n in \<open>simp_all add: udp_attempts.simps [of _ _ n]\<close>)
qed

section \<open>UDP replies\<close>

text \<open>The reply of a tracker to an announce.\<close>

definition announce_reply :: "u32 \<Rightarrow> u32 \<Rightarrow> u32 \<Rightarrow> u32 \<Rightarrow> u32 \<Rightarrow> tpeer list \<Rightarrow> bytes" where
  "announce_reply action txn interval leechers seeders ps =
     put32 action @ put32 txn @ put32 interval @ put32 leechers @ put32 seeders @
     concat (map put_addr (map (\<lambda>p. (tp_ip p, tp_port p)) ps))"

lemma slice_0 [simp]: "slice xs 0 n = take n xs"
  by (simp add: slice_def)

lemma slice_skip: "length xs \<le> i \<Longrightarrow> slice (xs @ ys) i j = slice ys (i - length xs) (j - length xs)"
  by (simp add: slice_def)

lemma parse_compact_encoded:
  assumes "\<forall>p \<in> set ps. length (tp_ip p) = n"
  shows "parse_compact n (concat (map put_addr (map (\<lambda>p. (tp_ip p, tp_port p)) ps))) = Inr ps"
proof -
  let ?as = "map (\<lambda>p. (tp_ip p, tp_port p)) ps"
  have "\<forall>a \<in> set ?as. length (fst a) = n" using assms by auto
  note enc = addr_codec.decode_indexed_all [OF this] encoded_addr_count [OF this]
  have "map (\<lambda>(ip, port). \<lparr>tp_ip = ip, tp_port = port\<rparr>) ?as = ps"
    by (induction ps) simp_all
  then show ?thesis by (simp only: parse_compact_def enc simp_thms if_False)
qed

lemma announce_reply_fields:
  assumes "d = announce_reply action txn interval leechers seeders ps"
  shows "take 4 d = put32 action" "slice d 4 8 = put32 txn" "slice d 8 12 = put32 interval"
    "slice d 12 16 = put32 leechers" "slice d 16 20 = put32 seeders"
    "drop 20 d = concat (map put_addr (map (\<lambda>p. (tp_ip p, tp_port p)) ps))" "20 \<le> length d"
  by (simp_all add: assms announce_reply_def slice_skip del: map_map)

lemma udp_announce_reply:
  assumes "d = announce_reply action txn' interval leechers seeders ps" "length d \<le> udp_buffer"
    and "\<forall>p \<in> set ps. length (tp_ip p) = 4"
    and "\<forall>m < k. rds m = TimedOut" "k < max_retries" "rds k = Datagram d"
  shows "udp_announce txn rds =
    (if action = 3 then Inl (Fail ''tracker error'')
     else if action \<noteq> action_announce then Inl (Fail ''action'')
     else if txn' \<noteq> txn then Inl (Fail ''transaction ID'')
     else Inr \<lparr>r_interval = uint interval, r_peers = ps, r_complete = uint seeders,
        r_incomplete = uint leechers, r_external_ip = []\<rparr>)"
proof -
  note f = announce_reply_fields [OF assms(1)]
  have "udp_round_trip 20 rds = udp_check 20 d"
    using udp_attempts_first [of 0 k rds d 20] assms by (simp add: udp_round_trip_def)
  also have "\<dots> = (if action = 3 then Inl (Fail ''tracker error'') else Inr d)"
    using f(7) by (simp add: udp_check_def f(1))
  finally show ?thesis
    by (simp add: udp_announce_def f parse_compact_peers_def parse_compact_encoded [OF assms(3)]
        del: map_map)
qed

section \<open>URL data options\<close>

text \<open>How a tracker reads the options of BEP 41: the concatenation of the URL data chunks.\<close>

function read_options :: "bytes \<Rightarrow> bytes" where
  "read_options opts =
     (case opts of
        t # l # rest \<Rightarrow> if t = 2 then take (unat l) rest @ read_options (drop (unat l) rest) else []
      | _ \<Rightarrow> [])"
  by pat_completeness auto

termination
  by (relation "measure length") auto

declare read_options.simps [simp del]

lemma read_url_data_chunks: "read_options (url_data_chunks pq) = pq"
proof (induction pq rule: url_data_chunks.induct)
  case (1 pq)
  show ?case
  proof (cases "pq = []")
    case True
    then show ?thesis by (simp add: url_data_chunks.simps read_options.simps)
  next
    case False
    have "unat (of_nat (length (take 255 pq)) :: u8) = length (take 255 pq)"
      by (simp add: unat_of_nat)
    moreover have "take (min (length pq) 255) pq = take 255 pq" by (simp add: min_def)
    moreover have "url_data_chunks pq =
        2 # of_nat (length (take 255 pq)) # take 255 pq @ url_data_chunks (drop 255 pq)"
      using False by (simp add: url_data_chunks.simps [of pq] Let_def)
    ultimately show ?thesis
      using False 1 by (simp add: read_options.simps [of "2 # _"])
  qed
qed

lemma read_url_data_option: "read_options (encode_url_data_option pq) = pq"
proof (cases "url_data_chunks pq = []")
  case True
  then have "pq = []" using read_url_data_chunks [of pq] by (simp add: read_options.simps)
  then show ?thesis by (simp add: encode_url_data_option_def url_data_chunks.simps read_options.simps)
qed (simp add: encode_url_data_option_def read_url_data_chunks)

section \<open>Tiers: the first success\<close>

lemma try_tier_spec:
  "case try_tier f j0 urls of
     None \<Rightarrow> \<forall>u \<in> set urls. isl (f u)
   | Some (j, r) \<Rightarrow> \<exists>k. j = j0 + k \<and> k < length urls \<and> f (urls ! k) = Inr r \<and> (\<forall>k' < k. isl (f (urls ! k')))"
proof (induction urls arbitrary: j0)
  case (Cons u urls)
  show ?case
  proof (cases "f u")
    case (Inl e)
    show ?thesis
    proof (cases "try_tier f (j0 + 1) urls")
      case None
      then show ?thesis using Cons.IH [of "j0 + 1"] Inl by simp
    next
      case (Some jr)
      then obtain k where "fst jr = j0 + 1 + k" "k < length urls" "f (urls ! k) = Inr (snd jr)"
        "\<forall>k' < k. isl (f (urls ! k'))" using Cons.IH [of "j0 + 1"] by (auto split: prod.splits)
      then show ?thesis using Some Inl
        by (cases jr) (auto simp: nth_Cons split: nat.splits intro!: exI [of _ "Suc k"])
    qed
  next
    case (Inr r)
    then show ?thesis by (auto intro: exI [of _ 0])
  qed
qed simp

lemma try_tiers_spec:
  "case try_tiers f i0 tiers of
     None \<Rightarrow> \<forall>u \<in> set (concat tiers). isl (f u)
   | Some (i, j, r) \<Rightarrow> \<exists>k. i = i0 + k \<and> k < length tiers \<and> j < length (tiers ! k) \<and> f (tiers ! k ! j) = Inr r \<and>
       (\<forall>j' < j. isl (f (tiers ! k ! j'))) \<and> (\<forall>k' < k. \<forall>u \<in> set (tiers ! k'). isl (f u))"
proof (induction tiers arbitrary: i0)
  case (Cons tier tiers)
  show ?case
  proof (cases "try_tier f 0 tier")
    case None
    then have t: "\<forall>u \<in> set tier. isl (f u)" using try_tier_spec [where f = f and ?j0.0 = 0 and urls = tier] by simp
    show ?thesis
    proof (cases "try_tiers f (i0 + 1) tiers")
      case None': None
      then show ?thesis using Cons.IH [of "i0 + 1"] None t by auto
    next
      case (Some ijr)
      obtain i j r where ijr: "ijr = (i, j, r)" by (cases ijr) auto
      then obtain k where "i = i0 + 1 + k" "k < length tiers" "j < length (tiers ! k)" "f (tiers ! k ! j) = Inr r"
        "\<forall>j' < j. isl (f (tiers ! k ! j'))" "\<forall>k' < k. \<forall>u \<in> set (tiers ! k'). isl (f u)"
        using Cons.IH [of "i0 + 1"] Some by auto
      then show ?thesis using Some None t ijr
        by (auto simp: nth_Cons split: nat.splits intro!: exI [of _ "Suc k"])
    qed
  next
    case (Some jr)
    obtain j r where "jr = (j, r)" by (cases jr)
    then show ?thesis using try_tier_spec [where f = f and ?j0.0 = 0 and urls = tier] Some by (auto intro!: exI [of _ 0])
  qed
qed simp

lemma promote_eq:
  "i < length tiers \<Longrightarrow> j < length (tiers ! i) \<Longrightarrow>
    promote i j tiers = tiers[i := tiers ! i ! j # take j (tiers ! i) @ drop (Suc j) (tiers ! i)]"
proof -
  assume a: "i < length tiers" "j < length (tiers ! i)"
  have "xs ! 0 # drop (Suc 0) xs = xs" if "xs \<noteq> []" for xs :: "bytes list" using that by (cases xs) simp_all
  then show ?thesis using a by (cases "j = 0") (auto simp: promote_def Let_def)
qed

section \<open>Properties\<close>

text \<open>
  The announce query reads back: whatever bytes the info hash, the peer id and the values are,
  parsing the raw query gives exactly one \<open>info_hash\<close>, \<open>peer_id\<close>, \<open>port\<close> and statistics with
  these values (the tracker's URL may bring other parameters, which are kept).
\<close>

theorem announce_query_roundtrip:
  assumes "\<forall>kv \<in> set base. fst kv \<noteq> str ''info_hash'' \<and> fst kv \<noteq> str ''peer_id''"
  shows "\<exists>vs. parse_query (tracker_query base p) = Inr vs \<and>
    values_all vs ''info_hash'' = [a_info_hash p] \<and> values_all vs ''peer_id'' = [a_peer_id p] \<and>
    values_all vs ''port'' = [itoa (uint (a_port p))] \<and> values_all vs ''uploaded'' = [itoa (a_uploaded p)] \<and>
    values_all vs ''downloaded'' = [itoa (a_downloaded p)] \<and> values_all vs ''left'' = [itoa (a_left p)] \<and>
    values_all vs ''compact'' = [str ''1''] \<and> (a_event p \<noteq> [] \<longrightarrow> values_all vs ''event'' = [a_event p]) \<and>
    (0 < a_num_want p \<longrightarrow> values_all vs ''numwant'' = [itoa (a_num_want p)]) \<and>
    values_all vs ''passkey'' = values_all base ''passkey''"
proof -
  let ?tail = "[(str ''info_hash'', a_info_hash p), (str ''peer_id'', a_peer_id p)]"
  have none: "values_all base ''info_hash'' = []" "values_all base ''peer_id'' = []"
    using assms by (auto simp: values_all_def filter_empty_conv)
  have all: "values_all (sort_key fst (announce_values base p) @ ?tail) k =
      values_all (announce_values base p) k @ values_all ?tail k" for k
    by (simp only: values_all_append values_all_sort)
  have tail: "values_all ?tail ''info_hash'' = [a_info_hash p]" "values_all ?tail ''peer_id'' = [a_peer_id p]"
    "values_all ?tail ''port'' = []" "values_all ?tail ''uploaded'' = []" "values_all ?tail ''downloaded'' = []"
    "values_all ?tail ''left'' = []" "values_all ?tail ''compact'' = []" "values_all ?tail ''event'' = []"
    "values_all ?tail ''numwant'' = []" "values_all ?tail ''passkey'' = []"
    by (simp_all add: values_all_def)
  have vals: "values_all (announce_values base p) ''info_hash'' = []"
    "values_all (announce_values base p) ''peer_id'' = []"
    "values_all (announce_values base p) ''port'' = [itoa (uint (a_port p))]"
    "values_all (announce_values base p) ''uploaded'' = [itoa (a_uploaded p)]"
    "values_all (announce_values base p) ''downloaded'' = [itoa (a_downloaded p)]"
    "values_all (announce_values base p) ''left'' = [itoa (a_left p)]"
    "values_all (announce_values base p) ''compact'' = [str ''1'']"
    "a_event p \<noteq> [] \<longrightarrow> values_all (announce_values base p) ''event'' = [a_event p]"
    "0 < a_num_want p \<longrightarrow> values_all (announce_values base p) ''numwant'' = [itoa (a_num_want p)]"
    "values_all (announce_values base p) ''passkey'' = values_all base ''passkey''"
    by (simp_all add: none announce_values_def Let_def values_all_set)
  show ?thesis
    by (rule exI, rule conjI, rule parse_announce_query) (use vals in \<open>simp only: all tail; simp\<close>)
qed

definition sample_params :: announce_params where
  "sample_params = \<lparr>a_info_hash = [0, 38, 255], a_peer_id = [45, 80], a_port = 6881, a_uploaded = 0,
     a_downloaded = 7, a_left = 9, a_event = str ''started'', a_num_want = 0\<rparr>"

lemma announce_query_roundtrip_witness:
  "\<exists>vs. parse_query (tracker_query [(str ''passkey'', [49])] sample_params) = Inr vs \<and>
    values_all vs ''info_hash'' = [[0, 38, 255]] \<and> values_all vs ''event'' = [str ''started'']"
  using announce_query_roundtrip [of "[(str ''passkey'', [49])]" sample_params]
  by (simp add: sample_params_def) blast

text \<open>A tracker of BEP 15: it hands out a connection ID and answers announces that carry it.\<close>

definition udp_tracker :: "u64 \<Rightarrow> (bytes \<Rightarrow> tpeer list) \<Rightarrow> u32 \<Rightarrow> bytes \<Rightarrow> bytes" where
  "udp_tracker conn_id swarm interval req =
     (let txn = get32 (slice req 12 16); ps = swarm (slice req 16 36)
      in if get64 (slice req 0 8) = udp_protocol_id \<and> get32 (slice req 8 12) = action_connect
         then put32 action_connect @ put32 txn @ put64 conn_id
         else if get64 (slice req 0 8) = conn_id \<and> get32 (slice req 8 12) = action_announce
         then announce_reply action_announce txn interval 0 (of_nat (length ps)) ps
         else put32 3 @ put32 txn)"

lemma udp_connect_tracker:
  assumes "\<forall>m < k. rds m = TimedOut" "k < max_retries" "rds k = Datagram (udp_tracker conn_id swarm interval (connect_request txn))"
  shows "udp_connect txn rds = Inr conn_id"
proof -
  let ?d = "put32 action_connect @ put32 txn @ put64 conn_id"
  have d: "udp_tracker conn_id swarm interval (connect_request txn) = ?d"
    by (simp add: udp_tracker_def connect_request_def slice_skip)
  have "udp_round_trip 16 rds = udp_check 16 (take udp_buffer ?d)"
    using udp_attempts_first [of 0 k rds ?d 16] assms unfolding d udp_round_trip_def by simp
  also have "\<dots> = Inr ?d" by (simp add: udp_check_def udp_buffer_def action_connect_def)
  finally show ?thesis by (simp add: udp_connect_def slice_skip)
qed

lemma announce_request_fields:
  assumes "req = announce_request conn_id txn key p path_query"
  shows "get64 (slice req 0 8) = conn_id" "get32 (slice req 8 12) = action_announce" "get32 (slice req 12 16) = txn"
    "slice req 16 36 = copy_array 20 (a_info_hash p)" "slice req 36 56 = copy_array 20 (a_peer_id p)"
    "get64 (slice req 56 64) = word_of_int (a_downloaded p)" "get64 (slice req 64 72) = word_of_int (a_left p)"
    "get64 (slice req 72 80) = word_of_int (a_uploaded p)" "get32 (slice req 80 84) = event_code (a_event p)"
    "get16 (slice req 96 98) = a_port p" "read_options (drop 98 req) = path_query"
  by (simp_all add: assms announce_request_def slice_skip read_url_data_option)

lemma udp_announce_tracker:
  assumes "\<forall>m < k. rds m = TimedOut" "k < max_retries" "req = announce_request conn_id txn key p path_query"
    and "rds k = Datagram (udp_tracker conn_id swarm interval req)" "swarm (copy_array 20 (a_info_hash p)) = ps"
    and "\<forall>x \<in> set ps. length (tp_ip x) = 4" "length ps < 680"
  shows "udp_announce txn rds =
    Inr \<lparr>r_interval = uint interval, r_peers = ps, r_complete = int (length ps), r_incomplete = 0, r_external_ip = []\<rparr>"
proof -
  let ?d = "announce_reply action_announce txn interval 0 (of_nat (length ps)) ps"
  have d: "udp_tracker conn_id swarm interval req = ?d"
    using announce_request_fields [OF assms(3)] assms(5)
    by (simp add: udp_tracker_def Let_def action_announce_def action_connect_def)
  have "\<forall>a \<in> set (map (\<lambda>p. (tp_ip p, tp_port p)) ps). length (fst a) = 4" using assms(6) by auto
  from addr_codec.length_concat_enc [OF this] have "length ?d \<le> udp_buffer"
    using assms(7) by (simp add: announce_reply_def udp_buffer_def del: map_map)
  moreover have "uint (of_nat (length ps) :: u32) = int (length ps)" using assms(7)
    by (simp add: uint_nat unat_of_nat)
  ultimately show ?thesis
    using udp_announce_reply [OF refl _ assms(6,1,2) assms(4) [unfolded d], of txn] by (simp add: action_announce_def)
qed

text \<open>Only a reply to the announce itself is used, with its action and its transaction ID.\<close>

lemma udp_announce_authentic:
  assumes "udp_announce txn rds = Inr r"
  shows "\<exists>m d. m < max_retries \<and> rds m = Datagram d \<and> get32 (slice d 0 4) = action_announce \<and>
    get32 (slice d 4 8) = txn \<and> parse_compact_peers (drop 20 (take udp_buffer d)) = Inr (r_peers r)"
proof -
  obtain resp where resp: "udp_round_trip 20 rds = Inr resp" "get32 (slice resp 0 4) = action_announce"
    "get32 (slice resp 4 8) = txn" "parse_compact_peers (drop 20 resp) = Inr (r_peers r)"
    using assms by (auto simp: udp_announce_def split: sum.splits if_splits)
  obtain k d where d: "k < max_retries" "rds k = Datagram d" "resp = take udp_buffer d" "20 \<le> length resp"
    using udp_attempts_Inr [of 20 rds 0 resp] resp(1) by (auto simp: udp_round_trip_def)
  have "slice resp 0 4 = slice d 0 4" "slice resp 4 8 = slice d 4 8"
    by (simp_all add: d(3) slice_def udp_buffer_def drop_take)
  with resp d show ?thesis by (intro exI [of _ k] exI [of _ d]) simp
qed

text \<open>
  C34. An announce to a UDP tracker. Against a tracker that follows BEP 15 and answers each request
  within the retries, \<open>Announce\<close> returns exactly the peers that the tracker has for the info hash of the
  request, fewer than 680 of them (what the buffer of 4096 bytes holds), and the request carries the counters, the port and the path of the URL. Whatever the
  socket answers, peers are only taken from a datagram that answers the announce, with the action and
  the transaction ID of the request.
\<close>

theorem udp_announce_exchange:
  assumes "has_prefix tracker_url ''udp://''" "udp_parse_url e tracker_url = Inr (host, path_query)"
    and "ne_dial e host = Inr sock"
  shows "(\<forall>k conn_id swarm interval.
      k < max_retries \<and> length (swarm (copy_array 20 (a_info_hash p))) < 680 \<and>
      (\<forall>x \<in> set (swarm (copy_array 20 (a_info_hash p))). length (tp_ip x) = 4) \<and>
      sock = (\<lambda>req m. if m < k then TimedOut else Datagram (udp_tracker conn_id swarm interval req)) \<longrightarrow>
        (\<exists>r. tracker_announce e tracker_url p = Inr r \<and> r_peers r = swarm (copy_array 20 (a_info_hash p)) \<and>
             r_interval r = uint interval)) \<and>
    (\<forall>r. tracker_announce e tracker_url p = Inr r \<longrightarrow>
      (\<exists>conn_id req m d. req = announce_request conn_id (ne_txn e) (ne_key e) p path_query \<and>
         m < max_retries \<and> sock req m = Datagram d \<and>
         get32 (slice d 0 4) = action_announce \<and> get32 (slice d 4 8) = ne_txn e \<and>
         parse_compact_peers (drop 20 (take udp_buffer d)) = Inr (r_peers r) \<and>
         slice req 16 36 = copy_array 20 (a_info_hash p) \<and> slice req 36 56 = copy_array 20 (a_peer_id p) \<and>
         get64 (slice req 56 64) = word_of_int (a_downloaded p) \<and> get64 (slice req 64 72) = word_of_int (a_left p) \<and>
         get64 (slice req 72 80) = word_of_int (a_uploaded p) \<and> get32 (slice req 80 84) = event_code (a_event p) \<and>
         get16 (slice req 96 98) = a_port p \<and> read_options (drop 98 req) = path_query))"
proof (intro conjI allI impI)
  fix k conn_id swarm interval
  assume "k < max_retries \<and> length (swarm (copy_array 20 (a_info_hash p))) < 680 \<and>
      (\<forall>x \<in> set (swarm (copy_array 20 (a_info_hash p))). length (tp_ip x) = 4) \<and>
      sock = (\<lambda>req m. if m < k then TimedOut else Datagram (udp_tracker conn_id swarm interval req))"
  then have t: "k < max_retries" "length (swarm (copy_array 20 (a_info_hash p))) < 680"
    "\<forall>x \<in> set (swarm (copy_array 20 (a_info_hash p))). length (tp_ip x) = 4"
    and sock: "sock = (\<lambda>req m. if m < k then TimedOut else Datagram (udp_tracker conn_id swarm interval req))" by blast+
  have "udp_connect (ne_connect_txn e) (sock (connect_request (ne_connect_txn e))) = Inr conn_id"
    unfolding sock using t(1) by (intro udp_connect_tracker [of k]) simp_all
  moreover have "udp_announce (ne_txn e) (sock (announce_request conn_id (ne_txn e) (ne_key e) p path_query)) =
      Inr \<lparr>r_interval = uint interval, r_peers = swarm (copy_array 20 (a_info_hash p)),
        r_complete = int (length (swarm (copy_array 20 (a_info_hash p)))), r_incomplete = 0, r_external_ip = []\<rparr>"
    unfolding sock using t by (intro udp_announce_tracker [of k, OF _ _ refl]) simp_all
  ultimately show "\<exists>r. tracker_announce e tracker_url p = Inr r \<and> r_peers r = swarm (copy_array 20 (a_info_hash p)) \<and>
      r_interval r = uint interval"
    using assms by (simp add: tracker_announce_def announce_udp_def)
next
  fix r assume "tracker_announce e tracker_url p = Inr r"
  then obtain conn_id where
    "udp_announce (ne_txn e) (sock (announce_request conn_id (ne_txn e) (ne_key e) p path_query)) = Inr r"
    using assms by (auto simp: tracker_announce_def announce_udp_def split: sum.splits)
  from udp_announce_authentic [OF this] announce_request_fields [OF refl]
  show "\<exists>conn_id req m d. req = announce_request conn_id (ne_txn e) (ne_key e) p path_query \<and>
         m < max_retries \<and> sock req m = Datagram d \<and>
         get32 (slice d 0 4) = action_announce \<and> get32 (slice d 4 8) = ne_txn e \<and>
         parse_compact_peers (drop 20 (take udp_buffer d)) = Inr (r_peers r) \<and>
         slice req 16 36 = copy_array 20 (a_info_hash p) \<and> slice req 36 56 = copy_array 20 (a_peer_id p) \<and>
         get64 (slice req 56 64) = word_of_int (a_downloaded p) \<and> get64 (slice req 64 72) = word_of_int (a_left p) \<and>
         get64 (slice req 72 80) = word_of_int (a_uploaded p) \<and> get32 (slice req 80 84) = event_code (a_event p) \<and>
         get16 (slice req 96 98) = a_port p \<and> read_options (drop 98 req) = path_query" by metis
qed

text \<open>A run: two time-outs, then one peer.\<close>

definition sample_env :: net_env where
  "sample_env = \<lparr>ne_parse_url = (\<lambda>_. Inr \<lparr>url_scheme = str ''udp'', url_host = str ''t:80'', url_path = str ''/announce'',
       url_raw_query = []\<rparr>),
     ne_url_string = (\<lambda>_. []), ne_get = (\<lambda>_. Inl (Fail ''get'')),
     ne_dial = (\<lambda>_. Inr (\<lambda>req m. if m < 2 then TimedOut
        else Datagram (udp_tracker 9 (\<lambda>_. [\<lparr>tp_ip = [1, 2, 3, 4], tp_port = 80\<rparr>]) 1800 req))),
     ne_connect_txn = 4, ne_txn = 5, ne_key = 6\<rparr>"

lemma udp_announce_exchange_witness:
  "\<exists>r. tracker_announce sample_env (str ''udp://t:80/announce'') sample_params = Inr r \<and>
    r_peers r = [\<lparr>tp_ip = [1, 2, 3, 4], tp_port = 80\<rparr>]"
proof -
  have u: "udp_parse_url sample_env (str ''udp://t:80/announce'') = Inr (str ''t:80'', str ''/announce'')"
    by (simp add: udp_parse_url_def sample_env_def split_host_port_def last_index_byte_def)
  have "\<exists>r. tracker_announce sample_env (str ''udp://t:80/announce'') sample_params = Inr r \<and>
      r_peers r = (\<lambda>_. [\<lparr>tp_ip = [1, 2, 3, 4], tp_port = 80\<rparr>]) (copy_array 20 (a_info_hash sample_params)) \<and>
      r_interval r = uint (1800 :: u32)"
    by (rule udp_announce_exchange [OF _ u, THEN conjunct1, rule_format, where k = 2 and conn_id = 9])
       (simp_all add: has_prefix_def sample_env_def max_retries_def)
  then show ?thesis by auto
qed

text \<open>
  C35. A tiered announce tries the trackers tier by tier in order, returns the first success and
  moves that tracker to the front of its tier, leaving the order of the others; it fails, with
  the tiers unchanged, only when every tracker fails.
\<close>

theorem tiered_announce_spec:
  "case tiered_announce f tiers of
     (Inr r, tiers') \<Rightarrow> \<exists>i j. i < length tiers \<and> j < length (tiers ! i) \<and> f (tiers ! i ! j) = Inr r \<and>
       (\<forall>j' < j. isl (f (tiers ! i ! j'))) \<and> (\<forall>i' < i. \<forall>u \<in> set (tiers ! i'). isl (f u)) \<and>
       tiers' = tiers[i := tiers ! i ! j # take j (tiers ! i) @ drop (Suc j) (tiers ! i)]
   | (Inl e, tiers') \<Rightarrow> tiers' = tiers \<and> (\<forall>u \<in> set (concat tiers). isl (f u))"
proof (cases "try_tiers f 0 tiers")
  case None
  then show ?thesis using try_tiers_spec [where f = f and ?i0.0 = 0 and tiers = tiers] by (simp add: tiered_announce_def)
next
  case (Some ijr)
  obtain i j r where ijr: "ijr = (i, j, r)" by (cases ijr) auto
  then have s: "i < length tiers" "j < length (tiers ! i)" "f (tiers ! i ! j) = Inr r"
    "\<forall>j' < j. isl (f (tiers ! i ! j'))" "\<forall>k' < i. \<forall>u \<in> set (tiers ! k'). isl (f u)"
    using try_tiers_spec [where f = f and ?i0.0 = 0 and tiers = tiers] Some by auto
  have "tiered_announce f tiers =
      (Inr r, tiers[i := tiers ! i ! j # take j (tiers ! i) @ drop (Suc j) (tiers ! i)])"
    using Some s(1,2) by (simp add: tiered_announce_def ijr promote_eq)
  with s show ?thesis by (simp only: prod.case sum.case) blast
qed

theorem tiered_announce_spec_witness:
  "tiered_announce (\<lambda>u. if u = [2] then Inr 7 else Inl (Fail ''refused'')) [[[1]], [[3], [2]]] =
     (Inr (7 :: nat), [[[1]], [[2], [3]]]) \<and>
   (\<exists>i < 2. \<exists>j. [[[1]], [[3], [2]]] ! i ! j = [2 :: u8])"
proof -
  let ?f = "\<lambda>u :: bytes. if u = [2] then Inr (7 :: nat) else Inl (Fail ''refused'')"
  have eq: "tiered_announce ?f [[[1]], [[3], [2]]] = (Inr 7, [[[1]], [[2], [3]]])"
    by (simp add: tiered_announce_def promote_def)
  obtain i j where ij: "i < 2" "?f ([[[1]], [[3], [2]]] ! i ! j) = Inr 7"
    "[[[1]], [[2], [3]]] = [[[1]], [[3], [2]]][i := [[[1]], [[3], [2]]] ! i ! j # take j ([[[1]], [[3], [2]]] ! i) @
         drop (Suc j) ([[[1]], [[3], [2 :: u8]]] ! i)]"
    using tiered_announce_spec [where f = ?f and tiers = "[[[1]], [[3], [2]]]"] unfolding eq by (auto simp: numeral_2_eq_2)
  have "[[[1]], [[3], [2]]] ! i ! j = [2 :: u8]" using ij(2) by (simp split: if_splits)
  then show ?thesis using eq ij(1) by blast
qed

section \<open>Where the code departs from its documentation\<close>

text \<open>
  The read buffer is called plenty for any tracker response, but a reply with 680 peers or more
  does not fit, and what is left of it is not a whole number of peers: the announce fails.
\<close>

lemma large_reply_fails:
  assumes "d = announce_reply action_announce txn interval leechers seeders ps"
    and "\<forall>p \<in> set ps. length (tp_ip p) = 4" "680 \<le> length ps" "rds 0 = Datagram d"
  shows "udp_announce txn rds = Inl (Fail ''compact length'')"
proof -
  have "\<forall>a \<in> set (map (\<lambda>p. (tp_ip p, tp_port p)) ps). length (fst a) = 4" using assms(2) by auto
  from addr_codec.length_concat_enc [OF this] have "4096 \<le> length d"
    using assms(3) by (simp add: assms(1) announce_reply_def del: map_map)
  then have len: "length (take udp_buffer d) = 4096" by (simp add: udp_buffer_def)
  have f: "take 4 (take udp_buffer d) = put32 action_announce" "slice (take udp_buffer d) 4 8 = put32 txn"
    by (simp_all add: assms(1) announce_reply_def udp_buffer_def slice_def)
  have "udp_round_trip 20 rds = Inr (take udp_buffer d)"
    using udp_attempts_first [of 0 0 rds d 20] assms(4) len f(1)
    by (simp add: udp_round_trip_def udp_check_def max_retries_def action_announce_def)
  then show ?thesis
    using len f by (simp add: udp_announce_def parse_compact_peers_def parse_compact_def)
qed

text \<open>
  A response with IPv6 peers only is read as one without peers: \<open>peers6\<close> is looked at only after
  a \<open>peers\<close> key was found.
\<close>

lemma peers6_alone_is_ignored:
  assumes "decode data = Inr (BDict d)" "get_string d ''failure reason'' = None" "dict_get d ''peers'' = None"
  shows "\<exists>r. parse_response data = Inr r \<and> r_peers r = []"
  using assms by (simp add: parse_response_def)

text \<open>
  Two announces that overlap: the second one promotes with an index of its old snapshot, and moves
  a tracker to the front that did not answer it.
\<close>

lemma stale_promote:
  assumes "distinct [a, b, c]"
  shows "promote 0 1 (promote 0 2 [[a, b, c]]) = [[a, c, b]]"
  by (simp add: promote_def)

end
