(* ===== verification/Magnet.thy ===== *)
theory Magnet
  imports Bencode GoUrl GoStrings PeerExt
begin

text \<open>
  Magnet links (\<open>magnet/magnet.go\<close>), links of updatable torrents (\<open>magnet/updateable.go\<close>) and
  the exchange of metadata with a peer (\<open>magnet/metadata.go\<close>). SHA-1 is an argument.
\<close>

section \<open>Base32\<close>

text \<open>
  \<open>strings.ToUpper\<close> as far as the alphabet is concerned: ASCII letters, and the two other
  letters whose upper case is ASCII, the long s (U+017F) and the dotless i (U+0131).
\<close>

definition upper_byte :: "u8 \<Rightarrow> u8" where
  "upper_byte c = (if 97 \<le> c \<and> c \<le> 122 then c - 32 else c)"

fun upper_runes :: "bytes \<Rightarrow> bytes" where
  "upper_runes [] = []"
| "upper_runes [c] = [upper_byte c]"
| "upper_runes (a # b # s) =
     (if a = 0xC5 \<and> b = 0xBF then 83 # upper_runes s
      else if a = 0xC4 \<and> b = 0xB1 then 73 # upper_runes s
      else upper_byte a # upper_runes (b # s))"

text \<open>\<open>strings.IndexRune\<close> in the alphabet \<open>A-Z2-7\<close>.\<close>

definition base32_index :: "u8 \<Rightarrow> nat option" where
  "base32_index c =
     (if 65 \<le> c \<and> c \<le> 90 then Some (unat c - 65)
      else if 50 \<le> c \<and> c \<le> 55 then Some (unat c - 24)
      else None)"

primrec base32_loop :: "nat \<Rightarrow> nat \<Rightarrow> bytes \<Rightarrow> bytes res" where
  "base32_loop acc bits [] = Inr []"
| "base32_loop acc bits (c # cs) =
     (case base32_index c of
        None \<Rightarrow> Inl (Fail ''invalid base32 character'')
      | Some idx \<Rightarrow>
          (let acc = push_bit 5 acc OR idx; bits = bits + 5
           in if 8 \<le> bits then
                (let bits = bits - 8
                 in case base32_loop (acc AND (push_bit bits 1 - 1)) bits cs of
                      Inl e \<Rightarrow> Inl e
                    | Inr out \<Rightarrow> Inr (of_nat (drop_bit bits acc) # out))
              else base32_loop acc bits cs))"

definition decode_base32 :: "bytes \<Rightarrow> bytes res" where
  "decode_base32 s = base32_loop 0 0 (upper_runes s)"

section \<open>Select-only indices\<close>

text \<open>
  One part of the list. A range is expanded one index at a time; a range whose expansion does not
  fit in memory ends the process, which the model does not show.
\<close>

definition parse_select_part :: "bytes \<Rightarrow> int list res" where
  "parse_select_part part =
     (case index_byte 45 part of
        Some dash \<Rightarrow>
          (case parse_int64 (take dash part) of
             Inl _ \<Rightarrow> Inl (Fail ''invalid range start'')
           | Inr lo \<Rightarrow>
               (case parse_int64 (drop (dash + 1) part) of
                  Inl _ \<Rightarrow> Inl (Fail ''invalid range end'')
                | Inr hi \<Rightarrow> if hi < lo then Inl (Fail ''start > end'') else Inr [lo..hi]))
      | None \<Rightarrow>
          (case parse_int64 part of Inl _ \<Rightarrow> Inl (Fail ''invalid index'') | Inr idx \<Rightarrow> Inr [idx]))"

primrec parse_select_parts :: "bytes list \<Rightarrow> int list res" where
  "parse_select_parts [] = Inr []"
| "parse_select_parts (p # ps) =
     (let part = trim_space p
      in if part = [] then parse_select_parts ps
         else case parse_select_part part of
           Inl e \<Rightarrow> Inl e
         | Inr is \<Rightarrow> (case parse_select_parts ps of Inl e \<Rightarrow> Inl e | Inr js \<Rightarrow> Inr (is @ js)))"

definition parse_select_only :: "bytes \<Rightarrow> int list res" where
  "parse_select_only s = parse_select_parts (split_on 44 s)"

text \<open>\<open>sortInts\<close>: the inner loop moves greater elements up, from position \<open>j - 1\<close> down.\<close>

primrec sift_int :: "nat \<Rightarrow> int \<Rightarrow> int list \<Rightarrow> int list" where
  "sift_int 0 key a = a[0 := key]"
| "sift_int (Suc j) key a = (if key < a ! j then sift_int j key (a[Suc j := a ! j]) else a[Suc j := key])"

definition sort_ints :: "int list \<Rightarrow> int list" where
  "sort_ints a = foldl (\<lambda>a i. sift_int i (a ! i) a) a [1..<length a]"

text \<open>The inner loop of \<open>formatSelectOnly\<close>: the end of a run of consecutive indices.\<close>

fun run_end :: "int \<Rightarrow> int list \<Rightarrow> int \<times> int list" where
  "run_end e [] = (e, [])"
| "run_end e (x # xs) = (if x = e + 1 then run_end x xs else (e, x # xs))"

lemma run_end_rest: "length (snd (run_end e xs)) \<le> length xs"
  by (induction e xs rule: run_end.induct) auto

function format_parts :: "int list \<Rightarrow> bytes list" where
  "format_parts [] = []"
| "format_parts (start # xs) =
     (let (e, rest) = run_end start xs
      in (if start = e then itoa start else itoa start @ [45] @ itoa e) # format_parts rest)"
  by pat_completeness auto

termination format_parts
proof (relation "measure length")
  fix start :: int and xs p e rest assume "p = run_end start xs" "(e, rest) = p"
  then have "rest = snd (run_end start xs)" by (metis snd_conv)
  then show "(rest, start # xs) \<in> measure length"
    using run_end_rest [of start xs] by (simp add: less_Suc_eq_le)
qed simp

definition format_select_only :: "int list \<Rightarrow> bytes" where
  "format_select_only indices =
     (if length indices = 0 then [] else join_bytes [44] (format_parts (sort_ints indices)))"

section \<open>Magnet links\<close>

record link =
  l_info_hash :: bytes
  l_name :: bytes
  l_trackers :: "bytes list"
  l_select_only :: "int list"

definition parse_info_hash :: "bytes \<Rightarrow> bytes res" where
  "parse_info_hash s =
     (if length s = 40 then
        (case hex_decode s of Inl e \<Rightarrow> Inl e | Inr h \<Rightarrow> Inr (copy_array 20 h))
      else if length s = 32 then
        (case decode_base32 s of Inl e \<Rightarrow> Inl e | Inr h \<Rightarrow> Inr (copy_array 20 h))
      else Inl (Fail ''info_hash length''))"

definition parse_link :: "bytes \<Rightarrow> link res" where
  "parse_link uri =
     (if \<not> has_prefix uri ''magnet:?'' then Inl (Fail ''not a magnet URI'')
      else case parse_query (drop 8 uri) of
        Inl e \<Rightarrow> Inl e
      | Inr params \<Rightarrow>
          (let xt = values_get params ''xt''
           in if xt = [] then Inl (Fail ''missing xt'')
              else if \<not> has_prefix xt ''urn:btih:'' then Inl (Fail ''unsupported xt'')
              else case parse_info_hash (drop 9 xt) of
                Inl e \<Rightarrow> Inl e
              | Inr h \<Rightarrow>
                  (let so = values_get params ''so''
                   in case (if so \<noteq> [] then parse_select_only so else Inr []) of
                        Inl e \<Rightarrow> Inl e
                      | Inr is \<Rightarrow>
                          Inr \<lparr>l_info_hash = h, l_name = values_get params ''dn'',
                               l_trackers = values_all params ''tr'', l_select_only = is\<rparr>)))"

definition link_values :: "link \<Rightarrow> url_values" where
  "link_values l =
     (let vs = values_set ''xt'' (str ''urn:btih:'' @ hex_encode (l_info_hash l)) [];
          vs = (if l_name l \<noteq> [] then values_set ''dn'' (l_name l) vs else vs);
          vs = foldl (\<lambda>vs tr. values_add ''tr'' tr vs) vs (l_trackers l)
      in if 0 < length (l_select_only l) then values_set ''so'' (format_select_only (l_select_only l)) vs else vs)"

definition link_string :: "link \<Rightarrow> bytes" where
  "link_string l = str ''magnet:?'' @ encode_values (link_values l)"

section \<open>Links of updatable torrents\<close>

record updateable_link =
  u_public_key :: bytes
  u_salt :: bytes
  u_name :: bytes

definition parse_updateable :: "bytes \<Rightarrow> updateable_link res" where
  "parse_updateable uri =
     (if \<not> has_prefix uri ''magnet:?'' then Inl (Fail ''not a magnet URI'')
      else case parse_query (drop 8 uri) of
        Inl e \<Rightarrow> Inl e
      | Inr params \<Rightarrow>
          (let xs = values_get params ''xs''
           in if xs = [] then Inl (Fail ''missing xs'')
              else if \<not> has_prefix xs ''urn:btpk:'' then Inl (Fail ''unsupported xs'')
              else
                let key_hex = drop 9 xs
                in if length key_hex \<noteq> 64 then Inl (Fail ''public key length'')
                   else case hex_decode key_hex of
                     Inl e \<Rightarrow> Inl e
                   | Inr key \<Rightarrow>
                       (let s = values_get params ''s''
                        in case (if s \<noteq> [] then hex_decode s else Inr []) of
                             Inl e \<Rightarrow> Inl e
                           | Inr salt \<Rightarrow>
                               Inr \<lparr>u_public_key = copy_array 32 key, u_salt = salt,
                                    u_name = values_get params ''dn''\<rparr>)))"

definition target_id :: "(bytes \<Rightarrow> bytes) \<Rightarrow> updateable_link \<Rightarrow> bytes" where
  "target_id sha1 l = copy_array 20 (sha1 (u_public_key l @ u_salt l))"

definition updateable_values :: "updateable_link \<Rightarrow> url_values" where
  "updateable_values l =
     (let vs = values_set ''xs'' (str ''urn:btpk:'' @ hex_encode (u_public_key l)) [];
          vs = (if u_salt l \<noteq> [] then values_set ''s'' (hex_encode (u_salt l)) vs else vs)
      in if u_name l \<noteq> [] then values_set ''dn'' (u_name l) vs else vs)"

definition updateable_string :: "updateable_link \<Rightarrow> bytes" where
  "updateable_string l = str ''magnet:?'' @ encode_values (updateable_values l)"

section \<open>The insertion sort\<close>

lemma sift_sorted:
  "sorted xs \<Longrightarrow> sift_int (length xs) key (xs @ y # zs) =
    takeWhile (\<lambda>x. x \<le> key) xs @ key # dropWhile (\<lambda>x. x \<le> key) xs @ zs"
proof (induction xs arbitrary: y zs rule: rev_induct)
  case (snoc w ws)
  have sorted: "sorted ws" "\<forall>x \<in> set ws. x \<le> w" using snoc.prems by (simp_all add: sorted_append)
  have w: "(ws @ [w] @ y # zs) ! length ws = w" by (simp add: nth_append)
  show ?case
  proof (cases "key < w")
    case True
    have "(ws @ w # y # zs)[Suc (length ws) := w] = ws @ w # (w # zs)" by (simp add: list_update_append)
    then show ?thesis
      using True snoc.IH [OF sorted(1), of w "w # zs"]
        takeWhile_tail [of "\<lambda>x. x \<le> key" w ws "[]"] dropWhile_append3 [of "\<lambda>x. x \<le> key" w ws "[]"]
      by (simp add: nth_append)
  next
    case False
    then have le: "\<forall>x \<in> set ws. x \<le> key" using sorted(2) by auto
    then have "takeWhile (\<lambda>x. x \<le> key) (ws @ [w]) = ws @ [w]" "dropWhile (\<lambda>x. x \<le> key) (ws @ [w]) = []"
      using False by auto
    moreover have "(ws @ w # y # zs)[Suc (length ws) := key] = ws @ w # key # zs" by (simp add: list_update_append)
    ultimately show ?thesis using False by (simp add: nth_append)
  qed
qed simp

lemma sorted_insert_split:
  "sorted xs \<Longrightarrow> sorted (takeWhile (\<lambda>x. x \<le> key) xs @ key # dropWhile (\<lambda>x. x \<le> (key :: int)) xs)"
proof -
  assume s: "sorted xs"
  have "key \<le> x" if "x \<in> set (dropWhile (\<lambda>x. x \<le> key) xs)" for x
  proof (cases "dropWhile (\<lambda>x. x \<le> key) xs")
    case (Cons d ds)
    then have "key < d" using hd_dropWhile [of "\<lambda>x. x \<le> key" xs] by auto
    moreover have "sorted (d # ds)" using s Cons by (metis sorted_dropWhile)
    ultimately show ?thesis using that Cons by auto
  next
    case Nil
    then show ?thesis using that unfolding Nil by simp
  qed
  moreover have "sorted (takeWhile (\<lambda>x. x \<le> key) xs)" "sorted (dropWhile (\<lambda>x. x \<le> key) xs)"
    using s by (auto intro: sorted_takeWhile sorted_dropWhile)
  moreover have "x \<le> key" if "x \<in> set (takeWhile (\<lambda>x. x \<le> key) xs)" for x using that by (auto dest: set_takeWhileD)
  ultimately show ?thesis by (fastforce simp: sorted_append)
qed

lemma sort_ints_prefix:
  "k \<le> length a \<Longrightarrow> foldl (\<lambda>a i. sift_int i (a ! i) a) a [1..<k] = sort (take k a) @ drop k a"
proof (induction k)
  case (Suc k)
  show ?case
  proof (cases "k = 0")
    case True
    then show ?thesis using Suc.prems by (cases a) simp_all
  next
    case False
    then have "[1..<Suc k] = [1..<k] @ [k]" by simp
    then have "foldl (\<lambda>a i. sift_int i (a ! i) a) a [1..<Suc k] = (let b = sort (take k a) @ drop k a in sift_int k (b ! k) b)"
      using Suc by (simp add: Let_def)
    moreover have d: "drop k a = a ! k # drop (Suc k) a" using Suc.prems by (simp add: Cons_nth_drop_Suc)
    moreover have len: "length (sort (take k a)) = k" using Suc.prems by simp
    ultimately have "foldl (\<lambda>a i. sift_int i (a ! i) a) a [1..<Suc k] =
        takeWhile (\<lambda>x. x \<le> a ! k) (sort (take k a)) @ a ! k # dropWhile (\<lambda>x. x \<le> a ! k) (sort (take k a)) @
          drop (Suc k) a"
      using sift_sorted [of "sort (take k a)" "a ! k" "a ! k" "drop (Suc k) a"]
      by (simp add: Let_def nth_append del: length_sort)
    moreover have "takeWhile (\<lambda>x. x \<le> a ! k) (sort (take k a)) @ a ! k # dropWhile (\<lambda>x. x \<le> a ! k) (sort (take k a)) =
        sort (take (Suc k) a)"
    proof (rule properties_for_sort [symmetric])
      have "mset (takeWhile P xs) + mset (dropWhile P xs) = mset xs" for P and xs :: "int list"
        by (metis mset_append takeWhile_dropWhile_id)
      then show "mset (takeWhile (\<lambda>x. x \<le> a ! k) (sort (take k a)) @ a ! k #
          dropWhile (\<lambda>x. x \<le> a ! k) (sort (take k a))) = mset (take (Suc k) a)"
        using Suc.prems by (simp add: take_Suc_conv_app_nth)
    qed (simp add: sorted_insert_split)
    ultimately show ?thesis by simp
  qed
qed simp

lemma sort_ints_eq: "sort_ints a = sort a"
  using sort_ints_prefix [of "length a" a] by (simp add: sort_ints_def)

section \<open>Select-only strings read back\<close>

lemma run_end_spec:
  "run_end e xs = (e', rest) \<Longrightarrow> e # xs = [e..e'] @ rest \<and> e \<le> e' \<and> (e' = e \<or> e' \<in> set xs) \<and> set rest \<subseteq> set xs"
proof (induction e xs rule: run_end.induct)
  case (2 e x xs)
  show ?case
  proof (cases "x = e + 1")
    case True
    with 2 have IH: "x # xs = [x..e'] @ rest" "x \<le> e'" "e' = x \<or> e' \<in> set xs" "set rest \<subseteq> set xs" by simp_all
    then have "[e..e'] = e # [x..e']" using True by (simp add: upto_rec1)
    with IH True show ?thesis by auto
  next
    case False
    with 2 show ?thesis by (auto simp: upto_rec1)
  qed
qed (auto simp: upto_rec1)

definition digits_only :: "bytes \<Rightarrow> bool" where
  "digits_only s \<longleftrightarrow> s \<noteq> [] \<and> (\<forall>c \<in> set s. is_digit c)"

lemma digits_itoa: "0 \<le> i \<Longrightarrow> digits_only (itoa i)"
  using set_dec_digits by (simp add: itoa_def digits_only_def)

text \<open>The text of one run of indices.\<close>

definition run_text :: "int \<Rightarrow> int \<Rightarrow> bytes" where
  "run_text s e = (if s = e then itoa s else itoa s @ [45] @ itoa e)"

lemma parse_run_text:
  assumes "0 \<le> s" "s \<le> e" "e < 2 ^ 63"
  shows "parse_select_part (trim_space (run_text s e)) = Inr [s..e]" "trim_space (run_text s e) \<noteq> []"
    "44 \<notin> set (run_text s e)"
proof -
  have d: "digits_only (itoa s)" "digits_only (itoa e)" using assms by (simp_all add: digits_itoa)
  have no: "c \<notin> set t" if "digits_only t" "\<not> is_digit c" for c t using that by (auto simp: digits_only_def)
  have nd: "\<not> is_digit 45" "\<not> is_digit 44" by (simp_all add: is_digit_def)
  have "is_digit (hd (run_text s e))" "is_digit (last (run_text s e))" "run_text s e \<noteq> []"
    using d by (auto simp: run_text_def digits_only_def last_append)
  then have t: "trim_space (run_text s e) = run_text s e" by (simp add: trim_space_digits)
  have p: "parse_int64 (itoa s) = Inr s" "parse_int64 (itoa e) = Inr e"
    using assms by (simp_all add: parse_int64_itoa in_int64_def)
  show "parse_select_part (trim_space (run_text s e)) = Inr [s..e]"
  proof (cases "s = e")
    case True
    then show ?thesis unfolding t
      using p no [OF d(1) nd(1)] by (simp add: run_text_def parse_select_part_def index_byte_none)
  next
    case False
    have "index_byte 45 (itoa s @ 45 # itoa e) = Some (length (itoa s))"
      by (rule index_byte_first [OF no [OF d(1) nd(1)]])
    with False p assms(2) show ?thesis unfolding t by (simp add: run_text_def parse_select_part_def)
  qed
  show "trim_space (run_text s e) \<noteq> []" using \<open>run_text s e \<noteq> []\<close> by (simp only: t not_False_eq_True)
  show "44 \<notin> set (run_text s e)" using no [OF d(1) nd(2)] no [OF d(2) nd(2)] by (simp add: run_text_def)
qed

lemma parse_format_parts:
  "\<forall>x \<in> set xs. 0 \<le> x \<and> x < 2 ^ 63 \<Longrightarrow>
    parse_select_parts (format_parts xs) = Inr xs \<and> (\<forall>p \<in> set (format_parts xs). 44 \<notin> set p)"
proof (induction xs rule: format_parts.induct)
  case (2 start xs)
  obtain e rest where r: "run_end start xs = (e, rest)" by (cases "run_end start xs")
  note spec = run_end_spec [OF r]
  have b: "0 \<le> start" "start \<le> e" "e < 2 ^ 63" using 2 spec by auto
  have "\<forall>x \<in> set rest. 0 \<le> x \<and> x < 2 ^ 63" using 2 spec by auto
  then have IH: "parse_select_parts (format_parts rest) = Inr rest \<and> (\<forall>p \<in> set (format_parts rest). 44 \<notin> set p)"
    using "2.IH" [OF r [symmetric] refl] by simp
  have f: "format_parts (start # xs) = run_text start e # format_parts rest"
    by (simp add: r run_text_def)
  show ?case
    unfolding f using IH spec parse_run_text [OF b] by (simp add: Let_def)
qed simp

lemma parse_format_select_only:
  assumes "\<forall>x \<in> set xs. 0 \<le> x \<and> x < 2 ^ 63" "xs \<noteq> []"
  shows "parse_select_only (format_select_only xs) = Inr (sort xs)" "format_select_only xs \<noteq> []"
proof -
  have p: "parse_select_parts (format_parts (sort xs)) = Inr (sort xs)"
    "\<forall>p \<in> set (format_parts (sort xs)). 44 \<notin> set p"
    using parse_format_parts [of "sort xs"] assms(1) by simp_all
  have ne: "format_parts (sort xs) \<noteq> []"
    using assms(2) by (cases "sort xs") (auto simp: split_beta Let_def dest: arg_cong [where f = set])
  have "split_on 44 (join_bytes [44] (format_parts (sort xs))) = format_parts (sort xs)"
    by (rule join_split_on [OF ne p(2)])
  then show r: "parse_select_only (format_select_only xs) = Inr (sort xs)"
    using p(1) assms(2) by (simp add: parse_select_only_def format_select_only_def sort_ints_eq)
  show "format_select_only xs \<noteq> []"
  proof
    assume "format_select_only xs = []"
    then have "parse_select_only [] = Inr (sort xs)" using r by simp
    then have "sort xs = []" by (simp add: parse_select_only_def)
    then have "length (sort xs) = 0" by (simp only: list.size)
    then show False using assms(2) by simp
  qed
qed

section \<open>Base32 text as a number\<close>

text \<open>The number that digits denote, most significant first.\<close>

definition number :: "nat \<Rightarrow> nat list \<Rightarrow> nat" where
  "number base ds = foldl (\<lambda>a d. a * base + d) 0 ds"

lemma foldl_number: "foldl (\<lambda>a d. a * base + d) acc ds = acc * base ^ length ds + number base ds"
proof (induction ds arbitrary: acc)
  case (Cons d ds)
  have "number base (d # ds) = d * base ^ length ds + number base ds"
    using Cons.IH [of d] unfolding number_def by simp
  moreover have "foldl (\<lambda>a d. a * base + d) acc (d # ds) = (acc * base + d) * base ^ length ds + number base ds"
    using Cons.IH [of "acc * base + d"] by simp
  ultimately show ?case by (simp add: algebra_simps)
qed (simp add: number_def)

lemma number_Cons: "number base (d # ds) = d * base ^ length ds + number base ds"
  using foldl_number [of base d ds] by (simp add: number_def)

lemma base32_index_less: "base32_index c = Some i \<Longrightarrow> i < 32"
  by (auto simp: base32_index_def word_le_nat_alt split: if_splits)

lemma push_or_add: "i < 32 \<Longrightarrow> push_bit 5 (acc :: nat) OR i = acc * 32 + i"
proof -
  assume "i < 32"
  then have "take_bit 5 i = i" by (simp add: take_bit_nat_eq_self)
  then have lt: "bit i n \<Longrightarrow> n < 5" for n by (metis bit_take_bit_iff)
  then have "push_bit 5 acc OR i = push_bit 5 acc + i"
    by (intro disjunctive_add [symmetric]) (auto simp: bit_push_bit_iff dest: lt)
  then show ?thesis by (simp add: push_bit_eq_mult)
qed

lemma and_low_bits: "acc AND (push_bit b 1 - 1) = acc mod 2 ^ b" for acc :: nat
proof -
  have "push_bit b 1 - 1 = (mask b :: nat)" by (simp add: mask_eq_exp_minus_1)
  then have "acc AND (push_bit b 1 - 1) = take_bit b acc" by (simp only: take_bit_eq_mask)
  then show ?thesis by (simp add: take_bit_eq_mod)
qed

lemmas and_low_bits_simp = and_low_bits [simplified]

lemma base32_loop_number:
  assumes "\<forall>c \<in> set cs. base32_index c \<noteq> None" "acc < 2 ^ bits" "bits < 8"
  shows "\<exists>out b. base32_loop acc bits cs = Inr out \<and> b < 8 \<and> bits + 5 * length cs = b + 8 * length out \<and>
    number 256 (map unat out) = (acc * 32 ^ length cs + number 32 (map (the \<circ> base32_index) cs)) div 2 ^ b"
  using assms
proof (induction cs arbitrary: acc bits)
  case Nil
  then show ?case by (simp add: number_def)
next
  case (Cons c cs)
  obtain i where i: "base32_index c = Some i" using Cons.prems(1) by auto
  then have "i < 32" by (rule base32_index_less)
  define acc' n where "acc' = acc * 32 + i" and "n = length cs"
  have push: "push_bit 5 acc OR i = acc'" using push_or_add [OF \<open>i < 32\<close>] by (simp add: acc'_def)
  have "acc * 32 + i < (acc + 1) * 32" using \<open>i < 32\<close> by simp
  also have "\<dots> \<le> 2 ^ bits * 32" using Cons.prems(2) by (intro mult_le_mono1) simp
  finally have acc': "acc' < 2 ^ (bits + 5)" by (simp add: acc'_def power_add)
  have val: "acc * 32 ^ length (c # cs) + number 32 (map (the \<circ> base32_index) (c # cs)) =
      acc' * 32 ^ n + number 32 (map (the \<circ> base32_index) cs)"
    by (simp add: number_Cons i acc'_def n_def algebra_simps)
  show ?case
  proof (cases "8 \<le> bits + 5")
    case True
    define b' where "b' = bits + 5 - 8"
    have b': "b' < 8" "bits + 5 = b' + 8" using True Cons.prems(3) by (simp_all add: b'_def)
    let ?high = "acc' div 2 ^ b'" and ?low = "acc' mod 2 ^ b'"
    have high: "?high < 256" using acc' by (simp add: b'(2) power_add div_less_iff_less_mult mult.commute)
    obtain out b where IH: "base32_loop ?low b' cs = Inr out" "b < 8" "b' + 5 * n = b + 8 * length out"
      "number 256 (map unat out) = (?low * 32 ^ n + number 32 (map (the \<circ> base32_index) cs)) div 2 ^ b"
    proof -
      have "\<exists>out b. base32_loop ?low b' cs = Inr out \<and> b < 8 \<and> b' + 5 * length cs = b + 8 * length out \<and>
        number 256 (map unat out) = (?low * 32 ^ length cs + number 32 (map (the \<circ> base32_index) cs)) div 2 ^ b"
        by (rule Cons.IH) (use Cons.prems(1) b'(1) in simp_all)
      then show thesis using that unfolding n_def by blast
    qed
    have "base32_loop acc bits (c # cs) = Inr (of_nat ?high # out)"
      using True IH(1) by (simp add: i push Let_def and_low_bits_simp b'_def [symmetric] drop_bit_eq_div)
    moreover have "number 256 (map unat (of_nat ?high # out :: bytes)) =
        (acc' * 32 ^ n + number 32 (map (the \<circ> base32_index) cs)) div 2 ^ b"
    proof -
      have "(2 :: nat) ^ b' * 32 ^ n = 2 ^ (b' + 5 * n)" by (simp add: power_add power_mult)
      also have "\<dots> = 256 ^ length out * 2 ^ b" unfolding IH(3) by (simp add: power_add power_mult)
      finally have p: "(2 :: nat) ^ b' * 32 ^ n = 256 ^ length out * 2 ^ b" .
      have "acc' * 32 ^ n = (?high * 2 ^ b' + ?low) * 32 ^ n" by (simp only: div_mult_mod_eq)
      also have "\<dots> = (?high * 256 ^ length out) * 2 ^ b + ?low * 32 ^ n"
        by (simp only: add_mult_distrib mult.assoc p)
      finally have "(acc' * 32 ^ n + number 32 (map (the \<circ> base32_index) cs)) div 2 ^ b =
          ?high * 256 ^ length out + (?low * 32 ^ n + number 32 (map (the \<circ> base32_index) cs)) div 2 ^ b"
        by (simp add: add.assoc)
      then show ?thesis using high IH(4) by (simp add: number_Cons unat_of_nat)
    qed
    ultimately show ?thesis using IH(2,3) b'(2)
      by (intro exI [of _ "of_nat ?high # out"] exI [of _ b]) (simp only: val, simp add: n_def)
  next
    case False
    then have bits: "bits + 5 < 8" by simp
    obtain out b where IH: "base32_loop acc' (bits + 5) cs = Inr out" "b < 8" "bits + 5 + 5 * n = b + 8 * length out"
      "number 256 (map unat out) = (acc' * 32 ^ n + number 32 (map (the \<circ> base32_index) cs)) div 2 ^ b"
    proof -
      have "\<exists>out b. base32_loop acc' (bits + 5) cs = Inr out \<and> b < 8 \<and> bits + 5 + 5 * length cs = b + 8 * length out \<and>
        number 256 (map unat out) = (acc' * 32 ^ length cs + number 32 (map (the \<circ> base32_index) cs)) div 2 ^ b"
        by (rule Cons.IH) (use Cons.prems(1) acc' bits in simp_all)
      then show thesis using that unfolding n_def by blast
    qed
    have "base32_loop acc bits (c # cs) = Inr out" using False IH(1) by (simp add: i push Let_def)
    then show ?thesis using IH(2-4)
      by (intro exI [of _ out] exI [of _ b]) (simp only: val, simp add: n_def)
  qed
qed

section \<open>Links read back\<close>

lemma values_all_add_all:
  "values_all (foldl (\<lambda>vs tr. values_add k tr vs) vs trs) k' = values_all vs k' @ (if str k' = str k then trs else [])"
  by (induction trs arbitrary: vs) (simp_all add: values_all_add)

lemma values_all_Nil [simp]: "values_all [] k = []"
  by (simp add: values_all_def)

definition link_ok :: "link \<Rightarrow> bool" where
  "link_ok l \<longleftrightarrow> length (l_info_hash l) = 20 \<and> (\<forall>x \<in> set (l_select_only l). 0 \<le> x \<and> x < 2 ^ 63)"

lemma link_values_all:
  "values_all (link_values l) ''xt'' = [str ''urn:btih:'' @ hex_encode (l_info_hash l)]"
  "values_all (link_values l) ''dn'' = (if l_name l = [] then [] else [l_name l])"
  "values_all (link_values l) ''tr'' = l_trackers l"
  "values_all (link_values l) ''so'' = (if l_select_only l = [] then [] else [format_select_only (l_select_only l)])"
  by (simp_all add: link_values_def Let_def values_all_set values_all_add_all)

lemma updateable_values_all:
  "values_all (updateable_values l) ''xs'' = [str ''urn:btpk:'' @ hex_encode (u_public_key l)]"
  "values_all (updateable_values l) ''s'' = (if u_salt l = [] then [] else [hex_encode (u_salt l)])"
  "values_all (updateable_values l) ''dn'' = (if u_name l = [] then [] else [u_name l])"
  by (simp_all add: updateable_values_def Let_def values_all_set)

lemma parse_link_string:
  assumes "link_ok l"
  shows "parse_link (link_string l) = Inr (l\<lparr>l_select_only := sort (l_select_only l)\<rparr>)"
proof -
  have sel: "parse_select_only (format_select_only xs) = Inr (sort xs)" "format_select_only xs \<noteq> []"
    if "xs = l_select_only l" "xs \<noteq> []" for xs
    using that assms parse_format_select_only by (auto simp: link_ok_def)
  have "drop 8 (link_string l) = encode_values (link_values l)" by (simp add: link_string_def)
  moreover have "has_prefix (link_string l) ''magnet:?''" by (simp only: link_string_def has_prefix_append)
  moreover have "values_get (link_values l) ''xt'' = str ''urn:btih:'' @ hex_encode (l_info_hash l)"
    "values_get (link_values l) ''dn'' = l_name l"
    "values_get (link_values l) ''so'' = (if l_select_only l = [] then [] else format_select_only (l_select_only l))"
    by (simp_all only: values_get_def link_values_all) simp_all
  moreover have "parse_info_hash (hex_encode (l_info_hash l)) = Inr (l_info_hash l)"
    using assms by (simp add: parse_info_hash_def link_ok_def)
  ultimately show ?thesis
    using sel [OF refl]
    by (cases "l_select_only l = []")
      (simp_all add: parse_link_def parse_encode_values link_values_all(3) has_prefix_def Let_def)
qed

section \<open>Properties\<close>

text \<open>
  Links read back: parsing the text of a magnet link gives the link, with its select-only
  indices in order (ranges are collapsed and expanded); the same holds for links of updatable
  torrents; and an info hash written as 32 base32 letters is the 20 bytes of the same number.
\<close>

theorem magnet_roundtrip:
  assumes "link_ok l" "length (u_public_key u) = 32"
  shows "parse_link (link_string l) = Inr (l\<lparr>l_select_only := sort (l_select_only l)\<rparr>) \<and>
    parse_updateable (updateable_string u) = Inr u \<and>
    (\<forall>s. length s = 32 \<and> (\<forall>c \<in> set s. base32_index c \<noteq> None) \<longrightarrow>
      (\<exists>h. parse_info_hash s = Inr h \<and> length h = 20 \<and>
        number 256 (map unat h) = number 32 (map (the \<circ> base32_index) s)))"
proof (intro conjI allI impI)
  show "parse_link (link_string l) = Inr (l\<lparr>l_select_only := sort (l_select_only l)\<rparr>)"
    by (rule parse_link_string [OF assms(1)])
next
  have "drop 8 (updateable_string u) = encode_values (updateable_values u)" by (simp add: updateable_string_def)
  moreover have "has_prefix (updateable_string u) ''magnet:?''" by (simp only: updateable_string_def has_prefix_append)
  moreover have "hex_encode (u_salt u) \<noteq> []" if "u_salt u \<noteq> []" using that by (cases "u_salt u") simp_all
  ultimately show "parse_updateable (updateable_string u) = Inr u"
    using assms(2)
    by (simp add: parse_updateable_def parse_encode_values values_get_def updateable_values_all has_prefix_def Let_def)
next
  fix s assume s: "length s = 32 \<and> (\<forall>c \<in> set s. base32_index c \<noteq> None)"
  have up: "upper_runes t = t" if "\<forall>c \<in> set t. base32_index c \<noteq> None" for t
    using that
  proof (induction t rule: upper_runes.induct)
    case (2 c)
    then show ?case by (auto simp: upper_byte_def base32_index_def word_le_nat_alt split: if_splits)
  next
    case (3 a b s)
    then have "65 \<le> a \<and> a \<le> 90 \<or> 50 \<le> a \<and> a \<le> 55" by (auto simp: base32_index_def split: if_splits)
    then have "a \<noteq> 0xC5" "a \<noteq> 0xC4" "upper_byte a = a" by (auto simp: upper_byte_def word_le_nat_alt)
    with 3 show ?case by simp
  qed simp
  obtain out b where o: "base32_loop 0 0 s = Inr out" "b < 8" "0 + 5 * length s = b + 8 * length out"
    "number 256 (map unat out) = (0 * 32 ^ length s + number 32 (map (the \<circ> base32_index) s)) div 2 ^ b"
    using base32_loop_number [of s 0 0] s by auto
  have "b + 8 * length out = 160" using o(3) s by simp
  then have "length out = 20" "b = 0" using o(2) by presburger+
  with o have "decode_base32 s = Inr out" "number 256 (map unat out) = number 32 (map (the \<circ> base32_index) s)"
    using s by (simp_all add: decode_base32_def up)
  then show "\<exists>h. parse_info_hash s = Inr h \<and> length h = 20 \<and>
      number 256 (map unat h) = number 32 (map (the \<circ> base32_index) s)"
    using s \<open>length out = 20\<close> by (simp add: parse_info_hash_def)
qed

definition sample_link :: link where
  "sample_link = \<lparr>l_info_hash = replicate 20 0xAB, l_name = str ''a b'', l_trackers = [str ''http://t/?k=1&x''],
     l_select_only = [4, 0, 5, 6]\<rparr>"

definition sample_updateable :: updateable_link where
  "sample_updateable = \<lparr>u_public_key = replicate 32 7, u_salt = [1], u_name = []\<rparr>"

lemma magnet_roundtrip_witness:
  "parse_link (link_string sample_link) = Inr (sample_link\<lparr>l_select_only := [0, 4, 5, 6]\<rparr>) \<and>
    parse_updateable (updateable_string sample_updateable) = Inr sample_updateable"
  using magnet_roundtrip [of sample_link sample_updateable]
  by (simp add: link_ok_def sample_link_def sample_updateable_def)

end
