(* ===== verification/Metadata.thy ===== *)
theory Metadata
  imports Magnet Piece
begin

text \<open>
  Metadata from a peer (\<open>magnet/metadata.go\<close>, BEP 9): the requests, the loop over responses with
  its duplicate check, and the hash check. The peer's bytes are the input; deadlines and write
  errors are left out, SHA-1 is an argument.
\<close>

section \<open>Requests and responses\<close>

definition metadata_piece_size :: nat where
  "metadata_piece_size = 16384"

definition metadata_request_dict :: "nat \<Rightarrow> bdict" where
  "metadata_request_dict i = [(str ''msg_type'', BInt 0), (str ''piece'', BInt (of_nat i))]"

definition metadata_requests :: "int \<Rightarrow> nat \<Rightarrow> wire_msg list" where
  "metadata_requests ut_metadata_id num_pieces =
     map (\<lambda>i. new_ext_message (word_of_int ut_metadata_id) (encode (BDict (metadata_request_dict i)))) [0..<num_pieces]"

definition parse_metadata_response :: "bytes \<Rightarrow> (int \<times> bytes \<times> int) res" where
  "parse_metadata_response payload =
     (case decode_first payload of
        Inl e \<Rightarrow> Inl e
      | Inr (BDict d, n) \<Rightarrow>
          (case dict_get d ''msg_type'' of
             Some (BInt mt) \<Rightarrow>
               (case dict_get d ''piece'' of
                  Some (BInt p) \<Rightarrow> Inr (sint p, drop n payload, sint mt)
                | Some _ \<Rightarrow> Inl (Fail ''piece not int'')
                | None \<Rightarrow> Inl (Fail ''missing piece''))
           | Some _ \<Rightarrow> Inl (Fail ''msg_type not int'')
           | None \<Rightarrow> Inl (Fail ''missing msg_type''))
      | Inr _ \<Rightarrow> Inl (Fail ''expected dict''))"

section \<open>The loop\<close>

text \<open>What one message does: it is skipped, it ends the exchange, or it brings a piece.\<close>

datatype metadata_action = SkipMsg | StopWith goerr | StorePiece nat bytes

definition metadata_step :: "nat \<Rightarrow> nat \<Rightarrow> bool list \<Rightarrow> wire_msg option \<Rightarrow> metadata_action" where
  "metadata_step metadata_size num_pieces received m =
     (case m of
        None \<Rightarrow> SkipMsg
      | Some m \<Rightarrow>
          if wm_id m \<noteq> msg_id_of ''extended'' \<or> length (wm_payload m) < 2 then SkipMsg
          else (case parse_metadata_response (drop 1 (wm_payload m)) of
                  Inl e \<Rightarrow> if e = Panic then StopWith Panic else SkipMsg
                | Inr (pidx, data, msg_type) \<Rightarrow>
                    if msg_type = 2 then StopWith (Fail ''peer rejected'')
                    else if msg_type \<noteq> 1 then SkipMsg
                    else if pidx < 0 \<or> int num_pieces \<le> pidx then SkipMsg
                    else if received ! nat pidx then SkipMsg
                    else
                      let offset = nat pidx * metadata_piece_size;
                          expected_len = (if nat pidx = num_pieces - 1 then metadata_size - offset
                                          else metadata_piece_size)
                      in if length data \<noteq> expected_len then StopWith (Fail ''length of metadata piece'')
                         else StorePiece (nat pidx) data))"

function fetch_loop :: "nat \<Rightarrow> nat \<Rightarrow> bytes \<Rightarrow> bool list \<Rightarrow> nat \<Rightarrow> bytes \<Rightarrow> (bytes \<times> bytes) res" where
  "fetch_loop metadata_size num_pieces metadata received pending input =
     (if pending = 0 then Inr (metadata, input)
      else case read_message input of
        Inl e \<Rightarrow> Inl e
      | Inr (m, rest) \<Rightarrow>
          (case metadata_step metadata_size num_pieces received m of
             SkipMsg \<Rightarrow> fetch_loop metadata_size num_pieces metadata received pending rest
           | StopWith e \<Rightarrow> Inl e
           | StorePiece pidx data \<Rightarrow>
               fetch_loop metadata_size num_pieces
                 (copy_at metadata (pidx * metadata_piece_size) data) (received[pidx := True]) (pending - 1) rest))"
  by pat_completeness auto

termination
  by (relation "measure (\<lambda>(s, n, md, r, p, input). length input)") (auto dest: wire_reader.dec_shorter)

declare fetch_loop.simps [simp del]

text \<open>\<open>make\<close> panics on a length beyond the address space, \<open>2 ^ 48\<close> bytes on a 64-bit machine.\<close>

definition max_alloc :: int where
  "max_alloc = 2 ^ 48"

definition num_metadata_pieces :: "nat \<Rightarrow> nat" where
  "num_metadata_pieces metadata_size = (metadata_size + metadata_piece_size - 1) div metadata_piece_size"

definition fetch_metadata ::
    "(bytes \<Rightarrow> bytes) \<Rightarrow> ext_handshake option \<Rightarrow> bytes \<Rightarrow> bytes \<Rightarrow> (bytes \<times> bytes) res" where
  "fetch_metadata sha1 ext info_hash input =
     (case ext of
        None \<Rightarrow> Inl (Fail ''no extension handshake'')
      | Some ext \<Rightarrow>
          (case map_of (eh_m ext) (str ''ut_metadata'') of
             None \<Rightarrow> Inl (Fail ''no ut_metadata'')
           | Some ut_id \<Rightarrow>
               if ut_id = 0 then Inl (Fail ''no ut_metadata'')
               else if eh_metadata_size ext \<le> 0 then Inl (Fail ''metadata_size'')
               else if max_alloc < eh_metadata_size ext then Inl Panic
               else
                 let metadata_size = nat (eh_metadata_size ext); num_pieces = num_metadata_pieces metadata_size
                 in (case fetch_loop metadata_size num_pieces (replicate metadata_size 0)
                        (replicate num_pieces False) num_pieces input of
                       Inl e \<Rightarrow> Inl e
                     | Inr (metadata, rest) \<Rightarrow>
                         if sha1 metadata \<noteq> info_hash then Inl (Fail ''metadata hash mismatch'')
                         else Inr (metadata, rest))))"

section \<open>Data messages\<close>

definition metadata_chunk :: "bytes \<Rightarrow> nat \<Rightarrow> bytes" where
  "metadata_chunk data i = slice data (i * metadata_piece_size) ((i + 1) * metadata_piece_size)"

text \<open>The message by which a peer answers the request of a piece.\<close>

definition metadata_answer :: "u8 \<Rightarrow> bytes \<Rightarrow> nat \<Rightarrow> wire_msg" where
  "metadata_answer sub data i =
     new_ext_message sub
       (encode (BDict [(str ''msg_type'', BInt 1), (str ''piece'', BInt (of_nat i)),
          (str ''total_size'', BInt (of_nat (length data)))]) @ metadata_chunk data i)"

lemma num_pieces_bounds:
  assumes "0 < sz"
  shows "sz \<le> num_metadata_pieces sz * metadata_piece_size"
    "(num_metadata_pieces sz - 1) * metadata_piece_size < sz" "0 < num_metadata_pieces sz"
proof -
  define q r where "q = (sz - 1) div metadata_piece_size" and "r = (sz - 1) mod metadata_piece_size"
  have s: "sz - 1 = q * metadata_piece_size + r" "r < metadata_piece_size"
    by (simp_all add: q_def r_def metadata_piece_size_def)
  have "sz + metadata_piece_size - 1 = (sz - 1) + metadata_piece_size"
    using assms by (simp add: metadata_piece_size_def)
  then have "num_metadata_pieces sz = q + 1"
    by (simp add: num_metadata_pieces_def q_def metadata_piece_size_def)
  then show "sz \<le> num_metadata_pieces sz * metadata_piece_size"
    "(num_metadata_pieces sz - 1) * metadata_piece_size < sz" "0 < num_metadata_pieces sz"
    using s assms by simp_all
qed

lemma length_metadata_chunk:
  assumes "i < num_metadata_pieces (length data)" "data \<noteq> []"
  shows "length (metadata_chunk data i) =
    (if i = num_metadata_pieces (length data) - 1 then length data - i * metadata_piece_size else metadata_piece_size)"
    "i * metadata_piece_size + length (metadata_chunk data i) \<le> length data"
proof -
  have b: "length data \<le> num_metadata_pieces (length data) * metadata_piece_size"
    "(num_metadata_pieces (length data) - 1) * metadata_piece_size < length data"
    using num_pieces_bounds [of "length data"] assms(2) by simp_all
  have less: "(i + 1) * metadata_piece_size \<le> (num_metadata_pieces (length data) - 1) * metadata_piece_size"
    if "i \<noteq> num_metadata_pieces (length data) - 1"
    using that assms(1) by (intro mult_le_mono1) simp
  show "length (metadata_chunk data i) =
    (if i = num_metadata_pieces (length data) - 1 then length data - i * metadata_piece_size else metadata_piece_size)"
  proof (cases "i = num_metadata_pieces (length data) - 1")
    case True
    then have "num_metadata_pieces (length data) = i + 1" using assms(1) by simp
    then have "length data \<le> (i + 1) * metadata_piece_size" using b(1) by simp
    then show ?thesis using True by (simp add: metadata_chunk_def)
  next
    case False
    then show ?thesis using less [OF False] b(2) by (simp add: metadata_chunk_def)
  qed
  have "i * metadata_piece_size \<le> (num_metadata_pieces (length data) - 1) * metadata_piece_size"
    using assms(1) by (intro mult_le_mono1) simp
  with b(2) have "i * metadata_piece_size \<le> length data" by linarith
  then show "i * metadata_piece_size + length (metadata_chunk data i) \<le> length data"
  proof -
    have "length (metadata_chunk data i) \<le> length data - i * metadata_piece_size"
      by (simp add: metadata_chunk_def)
    with \<open>i * metadata_piece_size \<le> length data\<close> show ?thesis by linarith
  qed
qed

lemma parse_answer:
  assumes "i < 2 ^ 63"
  shows "parse_metadata_response (drop 1 (wm_payload (metadata_answer sub data i))) =
    Inr (int i, metadata_chunk data i, 1)"
proof -
  let ?d = "[(str ''msg_type'', BInt 1), (str ''piece'', BInt (of_nat i)), (str ''total_size'', BInt (of_nat (length data)))]"
  have wf: "wf_value (BDict ?d)" by (simp add: small_def)
  have dist: "distinct (map fst ?d)" by simp
  have "decode_value (encode (BDict ?d) @ metadata_chunk data i) = Inr (BDict (norm_dict ?d), metadata_chunk data i)"
    using decode_value_encode [OF wf, of "metadata_chunk data i"] by (simp only: norm_BDict)
  then have "decode_first (encode (BDict ?d) @ metadata_chunk data i) = Inr (BDict (norm_dict ?d), length (encode (BDict ?d)))"
    unfolding decode_first_def by simp
  moreover have "dict_get (norm_dict ?d) ''msg_type'' = Some (BInt 1)"
    "dict_get (norm_dict ?d) ''piece'' = Some (BInt (of_nat i))"
    unfolding dict_get_norm [OF dist] by (simp_all add: dict_get_def)
  ultimately show ?thesis
    using assms by (simp add: parse_metadata_response_def metadata_answer_def new_ext_message_def msg_def
        sint_of_nat_64 del: encode_simps str_Cons)
qed

text \<open>Messages that the loop skips whatever it has received.\<close>

definition never_metadata :: "wire_msg option \<Rightarrow> bool" where
  "never_metadata m \<longleftrightarrow> msg_ok m \<and> (\<forall>s n r. metadata_step s n r m = SkipMsg)"

lemma never_metadata_other: "msg_ok m \<Longrightarrow> (\<forall>w. m = Some w \<longrightarrow> wm_id w \<noteq> 20 \<or> length (wm_payload w) < 2) \<Longrightarrow> never_metadata m"
  by (auto simp: never_metadata_def metadata_step_def msg_id_of_def split: option.split)

primrec metadata_message :: "u8 \<Rightarrow> bytes \<Rightarrow> nat + wire_msg option \<Rightarrow> wire_msg option" where
  "metadata_message sub data (Inl i) = Some (metadata_answer sub data i)"
| "metadata_message sub data (Inr m) = m"

section \<open>Any order of answers\<close>

lemma length_itoa_int64: "in_int64 i \<Longrightarrow> length (itoa i) \<le> 20"
proof -
  assume i: "in_int64 i"
  then have "nat i \<le> nat (2 ^ 63)" "nat (- i) \<le> nat (2 ^ 63)"
    by (intro nat_mono; simp add: in_int64_def)+
  then have "nat i < 10 ^ 19" "nat (- i) < 10 ^ 19" by simp_all
  then have "length (dec_digits (nat i)) \<le> 19" "length (dec_digits (nat (- i))) \<le> 19"
    by (auto intro: length_dec_digits_le)
  then show ?thesis by (simp add: itoa_def)
qed

lemma length_enc_string: "small s \<Longrightarrow> length (enc_string s) \<le> length s + 21"
  using length_itoa_int64 [of "int (length s)"]
  by (simp add: enc_string_def append_string_def small_def in_int64_def)

lemma answer_msg_ok: "msg_ok (Some (metadata_answer sub data i))"
proof -
  have "in_int64 (sint (w :: 64 word))" for w
    using sint_lt [of w] sint_ge [of w] by (simp add: in_int64_def)
  then have it: "length (itoa (sint (w :: 64 word))) \<le> 20" for w by (rule length_itoa_int64)
  let ?d = "[(str ''msg_type'', BInt 1), (str ''piece'', BInt (of_nat i)), (str ''total_size'', BInt (of_nat (length data)))]"
  have "length (enc_entry p) \<le> 60" if "p \<in> set ?d" for p
  proof -
    from that obtain k w where p: "p = (k, BInt w)" "length k \<le> 10" by auto
    then show ?thesis using length_enc_string [of k] it [of w] by (simp add: enc_entry_def small_def)
  qed
  then have "length (concat (map enc_entry (sort_key fst ?d))) \<le> 60 * length (sort_key fst ?d)"
  proof -
    have "\<forall>p \<in> set ps. length (enc_entry p) \<le> 60 \<Longrightarrow> length (concat (map enc_entry ps)) \<le> 60 * length ps" for ps
      by (induction ps) auto
    then show ?thesis using \<open>\<And>p. p \<in> set ?d \<Longrightarrow> length (enc_entry p) \<le> 60\<close> by (metis set_sort)
  qed
  then have "length (encode (BDict ?d)) \<le> 182" unfolding encode_simps(4) by simp
  moreover have "length (metadata_chunk data i) \<le> 16384"
    by (simp add: metadata_chunk_def metadata_piece_size_def)
  ultimately show ?thesis
    by (simp add: msg_ok_def metadata_answer_def new_ext_message_def msg_def max_message_len_def
        del: encode_simps)
qed

lemma step_answer:
  assumes "i < num_metadata_pieces (length data)" "data \<noteq> []" "num_metadata_pieces (length data) < 2 ^ 63"
    and "length received = num_metadata_pieces (length data)"
  shows "metadata_step (length data) (num_metadata_pieces (length data)) received (Some (metadata_answer sub data i)) =
    (if received ! i then SkipMsg else StorePiece i (metadata_chunk data i))"
proof -
  have i: "i < 2 ^ 63" using assms(1,3) by simp
  have "wm_id (metadata_answer sub data i) = 20"
    by (simp add: metadata_answer_def new_ext_message_def msg_def msg_id_of_def)
  moreover have "2 \<le> length (wm_payload (metadata_answer sub data i))"
    by (simp add: metadata_answer_def new_ext_message_def msg_def)
  ultimately show ?thesis
    using parse_answer [OF i, of sub data] length_metadata_chunk(1) [OF assms(1,2)] assms(1)
    by (simp add: metadata_step_def msg_id_of_def Let_def)
qed

lemma length_fetch_loop:
  "fetch_loop sz n buf received pending input = Inr (md, rest) \<Longrightarrow> length buf = sz \<Longrightarrow> length received = n \<Longrightarrow>
    n = num_metadata_pieces sz \<Longrightarrow> 0 < sz \<Longrightarrow> length md = sz"
proof (induction sz n buf received pending input rule: fetch_loop.induct)
  case (1 sz n buf received pending input)
  show ?case
  proof (cases "pending = 0")
    case True
    then show ?thesis using "1.prems" by (simp add: fetch_loop.simps)
  next
    case False
    obtain m rest0 where rd: "read_message input = Inr (m, rest0)"
      using "1.prems"(1) False by (subst (asm) fetch_loop.simps) (auto split: sum.splits)
    show ?thesis
    proof (cases "metadata_step sz n received m")
      case SkipMsg
      then show ?thesis using "1.IH"(1) [OF False rd refl SkipMsg] "1.prems" False rd
        by (subst (asm) fetch_loop.simps [of sz n]) simp
    next
      case (StopWith e)
      then show ?thesis using "1.prems"(1) False rd by (subst (asm) fetch_loop.simps [of sz n]) simp
    next
      case (StorePiece i d)
      then have d: "i < n" "length d = (if i = n - 1 then sz - i * metadata_piece_size else metadata_piece_size)"
        by (auto simp: metadata_step_def Let_def split: option.splits if_splits sum.splits prod.splits)
      have "i * metadata_piece_size \<le> (n - 1) * metadata_piece_size" using d(1) by (intro mult_le_mono1) simp
      moreover have "(i + 1) * metadata_piece_size \<le> (n - 1) * metadata_piece_size" if "i \<noteq> n - 1"
        using d(1) that by (intro mult_le_mono1) simp
      ultimately have "i * metadata_piece_size + length d \<le> sz"
        using d(2) num_pieces_bounds(2) [of sz] "1.prems"(4,5) by (cases "i = n - 1") auto
      then have "length (copy_at buf (i * metadata_piece_size) d) = sz" using "1.prems"(2) by simp
      then show ?thesis using "1.IH"(2) [OF False rd refl StorePiece] "1.prems" False rd StorePiece
        by (subst (asm) fetch_loop.simps [of sz n]) simp
    qed
  qed
qed

text \<open>The pieces marked as received are in place, and \<open>pending\<close> counts the others.\<close>

definition fetched :: "bytes \<Rightarrow> bytes \<Rightarrow> bool list \<Rightarrow> nat \<Rightarrow> bool" where
  "fetched data buf received pending \<longleftrightarrow>
     length received = num_metadata_pieces (length data) \<and> pending = length (filter Not received) \<and>
     agrees buf data {(i * metadata_piece_size, length (metadata_chunk data i)) | i. i < length received \<and> received ! i}"

lemma count_update:
  "i < length received \<Longrightarrow> \<not> received ! i \<Longrightarrow>
    length (filter Not received) = Suc (length (filter Not (received[i := True])))"
proof (induction received arbitrary: i)
  case (Cons r received)
  then show ?case by (cases i) auto
qed simp

lemma collect_insert: "{f j | j. j = i \<or> P j} = insert (f i) {f j | j. P j}"
  by auto

lemma fetched_store:
  assumes "fetched data buf received pending" "i < length received" "\<not> received ! i" "data \<noteq> []"
  shows "fetched data (copy_at buf (i * metadata_piece_size) (metadata_chunk data i)) (received[i := True]) (pending - 1)"
    "0 < pending"
proof -
  have i: "i < num_metadata_pieces (length data)" using assms(1,2) by (simp add: fetched_def)
  have le: "i * metadata_piece_size + length (metadata_chunk data i) \<le> length data"
    by (rule length_metadata_chunk(2) [OF i assms(4)])
  have sl: "slice data (i * metadata_piece_size) (i * metadata_piece_size + length (metadata_chunk data i)) = metadata_chunk data i"
    by (simp add: metadata_chunk_def slice_def min_def)
  have "agrees buf data
      {(i * metadata_piece_size, length (metadata_chunk data i)) | i. i < length received \<and> received ! i}"
    using assms(1) unfolding fetched_def by blast
  from agrees_copy [OF this le, unfolded sl]
  have "agrees (copy_at buf (i * metadata_piece_size) (metadata_chunk data i)) data
      (insert (i * metadata_piece_size, length (metadata_chunk data i))
        {(i * metadata_piece_size, length (metadata_chunk data i)) | i. i < length received \<and> received ! i})" .
  moreover have "{(j * metadata_piece_size, length (metadata_chunk data j)) | j.
        j < length (received[i := True]) \<and> received[i := True] ! j} =
      insert (i * metadata_piece_size, length (metadata_chunk data i))
        {(j * metadata_piece_size, length (metadata_chunk data j)) | j. j < length received \<and> received ! j}"
  proof -
    have eq: "(j < length (received[i := True]) \<and> received[i := True] ! j) \<longleftrightarrow> j = i \<or> j < length received \<and> received ! j" for j
      using assms(2) by (cases "j = i") (simp_all add: nth_list_update)
    show ?thesis unfolding eq by (rule collect_insert)
  qed
  ultimately show "fetched data (copy_at buf (i * metadata_piece_size) (metadata_chunk data i)) (received[i := True]) (pending - 1)"
    using assms(1) count_update [OF assms(2,3)] by (simp add: fetched_def)
  show "0 < pending" using assms(1) count_update [OF assms(2,3)] by (simp add: fetched_def)
qed

lemma fetched_all:
  assumes "fetched data buf received 0" "data \<noteq> []"
  shows "buf = data"
proof (rule nth_equalityI)
  show len: "length buf = length data" using assms by (simp add: fetched_def agrees_def)
  have all: "received ! i" if "i < length received" for i
    using assms(1) that by (auto simp: fetched_def filter_empty_conv)
  fix k assume "k < length buf"
  with len have k: "k < length data" by simp
  let ?i = "k div metadata_piece_size"
  have low: "?i * metadata_piece_size \<le> k" "k < (?i + 1) * metadata_piece_size"
    using dividend_less_div_times [of metadata_piece_size k] by (simp_all add: metadata_piece_size_def)
  have "?i * metadata_piece_size < num_metadata_pieces (length data) * metadata_piece_size"
  proof -
    have "length data \<le> num_metadata_pieces (length data) * metadata_piece_size"
      using num_pieces_bounds(1) [of "length data"] assms(2) by simp
    with low(1) k show ?thesis by linarith
  qed
  then have "?i < num_metadata_pieces (length data)" by (rule mult_right_less_imp_less) simp
  then have i: "?i < length received" using assms(1) by (simp add: fetched_def)
  have "k < ?i * metadata_piece_size + length (metadata_chunk data ?i)"
    using low k by (simp add: metadata_chunk_def)
  with low(1) k i all [OF i] assms(1) show "buf ! k = data ! k"
    unfolding fetched_def agrees_def by blast
qed

lemma fetch_loop_answers:
  assumes "data \<noteq> []" "num_metadata_pieces (length data) < 2 ^ 63"
  shows "\<forall>x \<in> set xs. case x of Inl i \<Rightarrow> i < num_metadata_pieces (length data) | Inr m \<Rightarrow> never_metadata m \<Longrightarrow>
    fetched data buf received pending \<Longrightarrow>
    \<forall>i < length received. received ! i \<or> Inl i \<in> set xs \<Longrightarrow>
    \<exists>rest'. fetch_loop (length data) (num_metadata_pieces (length data)) buf received pending
      (concat (map write_message (map (metadata_message sub data) xs)) @ rest) = Inr (data, rest')"
proof (induction xs arbitrary: buf received pending)
  case Nil
  then have "\<forall>i < length received. received ! i" by simp
  then have "pending = 0" using Nil.prems(2) by (auto simp: fetched_def in_set_conv_nth filter_empty_conv)
  then show ?case using fetched_all assms(1) Nil.prems(2) by (simp add: fetch_loop.simps)
next
  case (Cons x xs)
  let ?in = "concat (map write_message (map (metadata_message sub data) xs)) @ rest"
  let ?n = "num_metadata_pieces (length data)"
  have xs: "\<forall>x \<in> set xs. case x of Inl i \<Rightarrow> i < ?n | Inr m \<Rightarrow> never_metadata m" using Cons.prems(1) by simp
  have len: "length received = ?n" using Cons.prems(2) by (simp add: fetched_def)
  show ?case
  proof (cases "pending = 0")
    case True
    then show ?thesis using fetched_all assms(1) Cons.prems(2) by (simp add: fetch_loop.simps)
  next
    case False
    have "msg_ok (metadata_message sub data x)"
      using Cons.prems(1) answer_msg_ok by (cases x) (auto simp: never_metadata_def)
    then have rd: "read_message (write_message (metadata_message sub data x) @ ?in) =
        Inr (metadata_message sub data x, ?in)" by (rule wire.dec_enc_append)
    show ?thesis
    proof (cases "\<exists>i. x = Inl i \<and> \<not> received ! i")
      case True
      then obtain i where x: "x = Inl i" "\<not> received ! i" by blast
      then have i: "i < ?n" "i < length received" using Cons.prems(1) len by simp_all
      have st: "metadata_step (length data) ?n received (metadata_message sub data x) = StorePiece i (metadata_chunk data i)"
        using step_answer [OF i(1) assms len] x by simp
      have "\<forall>j < length (received[i := True]). received[i := True] ! j \<or> Inl j \<in> set xs"
        using Cons.prems(3) x(1) i(2) by (auto simp: nth_list_update)
      from Cons.IH [OF xs fetched_store(1) [OF Cons.prems(2) i(2) x(2) assms(1)] this] show ?thesis
        using False rd st by (subst fetch_loop.simps) (simp del: map_map)
    next
      case skip: False
      have st: "metadata_step (length data) ?n received (metadata_message sub data x) = SkipMsg"
      proof (cases x)
        case (Inl i)
        then show ?thesis using step_answer [OF _ assms len, of i sub] skip Cons.prems(1) by simp
      qed (use Cons.prems(1) in \<open>simp add: never_metadata_def\<close>)
      have "\<forall>j < length received. received ! j \<or> Inl j \<in> set xs" using Cons.prems(3) skip by auto
      from Cons.IH [OF xs Cons.prems(2) this] show ?thesis
        using False rd st by (subst fetch_loop.simps) (simp del: map_map)
    qed
  qed
qed

lemma fetch_metadata_answers:
  assumes "data \<noteq> []" "length data < 2 ^ 48" "map_of (eh_m ext) (str ''ut_metadata'') = Some ut_id" "ut_id \<noteq> 0"
    and "eh_metadata_size ext = int (length data)"
    and "\<forall>x \<in> set xs. case x of Inl i \<Rightarrow> i < num_metadata_pieces (length data) | Inr m \<Rightarrow> never_metadata m"
    and "\<forall>i < num_metadata_pieces (length data). Inl i \<in> set xs"
  shows "\<exists>rest'. fetch_metadata sha1 (Some ext) (sha1 data)
      (concat (map write_message (map (metadata_message sub data) xs)) @ rest) = Inr (data, rest')"
proof -
  let ?n = "num_metadata_pieces (length data)"
  have "?n \<le> length data + metadata_piece_size - 1" unfolding num_metadata_pieces_def by (rule div_le_dividend)
  then have n: "?n < 2 ^ 63" using assms(2) by (simp add: metadata_piece_size_def)
  have "fetched data (replicate (length data) 0) (replicate ?n False) ?n"
    by (auto simp: fetched_def agrees_def)
  from fetch_loop_answers [OF assms(1) n assms(6) this] assms(7)
  have "\<exists>rest'. fetch_loop (length data) ?n (replicate (length data) 0) (replicate ?n False) ?n
      (concat (map write_message (map (metadata_message sub data) xs)) @ rest) = Inr (data, rest')" by simp
  then show ?thesis
    using assms(1-5) by (auto simp: fetch_metadata_def max_alloc_def Let_def simp del: map_map)
qed

section \<open>Properties\<close>

text \<open>
  C11. Metadata exchange. A peer that answers each request at least once, in any order, with
  repetitions and with other messages in between, gives exactly its metadata when the hash
  matches; and whatever a peer sends, metadata is returned only at the announced size and with
  the expected hash.
\<close>

theorem fetch_metadata_spec:
  assumes "data \<noteq> []" "length data < 2 ^ 48" "map_of (eh_m ext) (str ''ut_metadata'') = Some ut_id" "ut_id \<noteq> 0"
    and "eh_metadata_size ext = int (length data)"
    and "\<forall>x \<in> set xs. case x of Inl i \<Rightarrow> i < num_metadata_pieces (length data) | Inr m \<Rightarrow> never_metadata m"
    and "\<forall>i < num_metadata_pieces (length data). Inl i \<in> set xs"
  shows "(\<exists>rest'. fetch_metadata sha1 (Some ext) (sha1 data)
      (concat (map write_message (map (metadata_message sub data) xs)) @ rest) = Inr (data, rest')) \<and>
    (\<forall>ext h input md rest'. fetch_metadata sha1 ext h input = Inr (md, rest') \<longrightarrow>
      sha1 md = h \<and> (\<exists>e. ext = Some e \<and> int (length md) = eh_metadata_size e))"
proof (intro conjI allI impI)
  show "\<exists>rest'. fetch_metadata sha1 (Some ext) (sha1 data)
      (concat (map write_message (map (metadata_message sub data) xs)) @ rest) = Inr (data, rest')"
    by (rule fetch_metadata_answers [OF assms])
next
  fix ext h input md rest' assume r: "fetch_metadata sha1 ext h input = Inr (md, rest')"
  then show "sha1 md = h"
    by (auto simp: fetch_metadata_def Let_def split: option.splits if_splits sum.splits)
  from r show "\<exists>e. ext = Some e \<and> int (length md) = eh_metadata_size e"
    by (auto simp: fetch_metadata_def Let_def split: option.splits if_splits sum.splits dest!: length_fetch_loop)
qed

definition sample_ext :: ext_handshake where
  "sample_ext = \<lparr>eh_m = [(str ''ut_metadata'', 3)], eh_metadata_size = 2, eh_v = [], eh_upload_only = False\<rparr>"

lemma fetch_metadata_spec_witness:
  "\<exists>rest'. fetch_metadata (\<lambda>x. x) (Some sample_ext) [100, 101]
     (concat (map write_message (map (metadata_message 1 [100, 101]) [Inr None, Inl 0]))) = Inr ([100, 101], rest')"
proof -
  have n: "num_metadata_pieces (length [100, 101 :: u8]) = 1"
    by (simp add: num_metadata_pieces_def metadata_piece_size_def)
  have "never_metadata None" by (simp add: never_metadata_other msg_ok_def)
  then show ?thesis
    using fetch_metadata_spec [where data = "[100, 101]" and ext = sample_ext and ut_id = 3 and rest = "[]"
        and xs = "[Inr None, Inl 0]" and sub = 1 and ?sha1.0 = "\<lambda>x. x", THEN conjunct1] n
    by (simp add: sample_ext_def)
qed

text \<open>
  The size a peer announces is not bounded: beyond the address space the buffer's allocation
  panics, before any message is read.
\<close>

lemma huge_metadata_size_panics:
  assumes "map_of (eh_m ext) (str ''ut_metadata'') = Some ut_id" "ut_id \<noteq> 0" "2 ^ 48 < eh_metadata_size ext"
  shows "fetch_metadata sha1 (Some ext) h input = Inl Panic"
  using assms by (simp add: fetch_metadata_def max_alloc_def)

end
