(* ===== verification/GoFloat.thy ===== *)
theory GoFloat
  imports GoStd Complex_Main "HOL-Library.Signed_Division"
begin

text \<open>
  Floating point as the source uses it: operations on \<open>float64\<close> are exact operations on reals followed
  by a rounding, an argument \<open>rnd\<close> of the definitions; the conversions to integers, the seconds of a
  duration and the decimal text of a number with a fixed number of digits.
\<close>

section \<open>Rounding\<close>

text \<open>
  What IEEE arithmetic promises of the rounding: it is monotone and leaves the integers up to
  \<open>2^53\<close> alone.
\<close>

definition ieee_rounding :: "(real \<Rightarrow> real) \<Rightarrow> bool" where
  "ieee_rounding rnd \<longleftrightarrow> mono rnd \<and> (\<forall>n :: int. \<bar>n\<bar> \<le> 2 ^ 53 \<longrightarrow> rnd (of_int n) = of_int n)"

lemma ieee_exact: "ieee_rounding rnd \<Longrightarrow> \<bar>n\<bar> \<le> 2 ^ 53 \<Longrightarrow> rnd (of_int n) = of_int n"
  by (simp add: ieee_rounding_def)

lemma ieee_mono: "ieee_rounding rnd \<Longrightarrow> x \<le> y \<Longrightarrow> rnd x \<le> rnd y"
  by (simp add: ieee_rounding_def mono_def)

lemma ieee_between:
  assumes "ieee_rounding rnd" "of_int a \<le> x" "x \<le> of_int b" "\<bar>a\<bar> \<le> 2 ^ 53" "\<bar>b\<bar> \<le> 2 ^ 53"
  shows "of_int a \<le> rnd x" "rnd x \<le> of_int b"
  using ieee_mono [OF assms(1,2)] ieee_mono [OF assms(1,3)] ieee_exact [OF assms(1)] assms(4,5) by simp_all

text \<open>
  And of its error: half a unit in the last place, so at most \<open>2 ^ -53\<close> of a number of ordinary size
  (the addend covers the subnormal numbers, the bound the overflow).
\<close>

definition float64_rounding :: "(real \<Rightarrow> real) \<Rightarrow> bool" where
  "float64_rounding rnd \<longleftrightarrow> ieee_rounding rnd \<and> (\<forall>x. \<bar>x\<bar> \<le> 2 ^ 1000 \<longrightarrow> \<bar>rnd x - x\<bar> \<le> (\<bar>x\<bar> + 1) / 2 ^ 53)"

lemma float64_ieee: "float64_rounding rnd \<Longrightarrow> ieee_rounding rnd"
  by (simp add: float64_rounding_def)

lemma float64_id: "float64_rounding (\<lambda>x. x)"
  by (simp add: float64_rounding_def ieee_rounding_def mono_def)

lemma float64_error:
  assumes "float64_rounding rnd" "0 \<le> x" "x \<le> 2 ^ 200"
  shows "\<bar>rnd x - x\<bar> \<le> (x + 1) / 2 ^ 53"
proof -
  have "(2 :: real) ^ 200 \<le> 2 ^ 1000" by (rule power_increasing) simp_all
  then have "\<bar>x\<bar> \<le> 2 ^ 1000" using assms(2,3) by simp
  then have "\<bar>rnd x - x\<bar> \<le> (\<bar>x\<bar> + 1) / 2 ^ 53" using assms(1) unfolding float64_rounding_def by blast
  then show ?thesis using assms(2) by simp
qed

section \<open>Conversions\<close>

text \<open>\<open>int64(x)\<close> of a number in range.\<close>

definition to_int :: "real \<Rightarrow> int" where
  "to_int x = (if x < 0 then - \<lfloor>- x\<rfloor> else \<lfloor>x\<rfloor>)"

lemma to_int_between: "of_int a \<le> x \<Longrightarrow> x \<le> of_int b \<Longrightarrow> a \<le> to_int x \<and> to_int x \<le> b"
  unfolding to_int_def by (simp split: if_splits) linarith

text \<open>\<open>Duration.Seconds\<close>, for nanoseconds.\<close>

definition seconds :: "(real \<Rightarrow> real) \<Rightarrow> int \<Rightarrow> real" where
  "seconds rnd d = rnd (rnd (of_int (d sdiv 10 ^ 9)) + rnd (rnd (of_int (d smod 10 ^ 9)) / 10 ^ 9))"

lemma seconds_exact: "seconds (\<lambda>x. x) d = of_int d / 10 ^ 9"
proof -
  have "d sdiv 10 ^ 9 * 10 ^ 9 + d smod 10 ^ 9 = d" by (rule sdiv_mult_smod_eq)
  then have "(of_int d :: real) = of_int (d sdiv 10 ^ 9 * 10 ^ 9 + d smod 10 ^ 9)" by simp
  then have "(of_int d :: real) = of_int (d sdiv 10 ^ 9) * 10 ^ 9 + of_int (d smod 10 ^ 9)" by (simp only: of_int_add of_int_mult of_int_power of_int_numeral)
  then show ?thesis by (simp only: seconds_def) simp
qed

text \<open>The seconds of a non-negative duration, with their rounding error.\<close>

lemma seconds_float64:
  assumes "float64_rounding rnd" "0 \<le> d" "d < 2 ^ 63"
  shows "0 \<le> seconds rnd d" "\<bar>seconds rnd d - of_int d / 10 ^ 9\<bar> \<le> (of_int d / 10 ^ 9 + 4) / 2 ^ 53"
proof -
  note ieee = float64_ieee [OF assms(1)]
  define q r where "q = d div 10 ^ 9" and "r = d mod 10 ^ 9"
  have dqr: "d = q * 10 ^ 9 + r" "0 \<le> r" "r < 10 ^ 9" "0 \<le> q" using assms(2) by (simp_all add: q_def r_def pos_imp_zdiv_nonneg_iff)
  have q: "q < 2 ^ 34" using dqr assms(3) by simp
  have sq: "d sdiv 10 ^ 9 = q" "d smod 10 ^ 9 = r"
    using assms(2) by (simp_all add: signed_divide_int_def signed_modulo_int_def q_def r_def sgn_if minus_div_mult_eq_mod)
  have ex: "rnd (of_int q) = of_int q" "rnd (of_int r) = of_int r"
    using q dqr by (auto intro!: ieee_exact [OF ieee])
  define x where "x = rnd (of_int r / 10 ^ 9)"
  have frac: "0 \<le> (of_int r :: real) / 10 ^ 9" "(of_int r :: real) / 10 ^ 9 \<le> 1" using dqr by simp_all
  have x01: "0 \<le> x" "x \<le> 1" unfolding x_def using ieee_between [OF ieee, of 0 _ 1] frac by simp_all
  have "(1 :: real) \<le> 2 ^ 200" by simp
  then have x: "\<bar>x - of_int r / 10 ^ 9\<bar> \<le> (of_int r / 10 ^ 9 + 1) / 2 ^ 53"
    unfolding x_def using frac by (intro float64_error [OF assms(1)]) linarith+
  have sec: "seconds rnd d = rnd (of_int q + x)" by (simp only: seconds_def sq ex x_def)
  have qx: "0 \<le> of_int q + x" using dqr(4) x01 by simp
  have "(of_int q :: real) \<le> 2 ^ 34" using q by (metis less_imp_le of_int_le_iff of_int_numeral of_int_power)
  moreover have "(2 :: real) ^ 34 + 1 \<le> 2 ^ 200"
  proof -
    have "(2 :: real) ^ 34 + 1 \<le> 2 ^ 35" by simp
    also have "\<dots> \<le> 2 ^ 200" by (rule power_increasing) simp_all
    finally show ?thesis .
  qed
  ultimately have "of_int q + x \<le> 2 ^ 200" using x01 by linarith
  then have s: "\<bar>rnd (of_int q + x) - (of_int q + x)\<bar> \<le> (of_int q + x + 1) / 2 ^ 53" by (rule float64_error [OF assms(1) qx])
  have whole: "(of_int d :: real) / 10 ^ 9 = of_int q + of_int r / 10 ^ 9" by (simp add: dqr(1) field_simps)
  show "0 \<le> seconds rnd d" unfolding sec using ieee_mono [OF ieee qx] ieee_exact [OF ieee, of 0] by simp
  have "(of_int q + x + 1) / 2 ^ 53 + (of_int r / 10 ^ 9 + 1) / 2 ^ 53 \<le> (of_int d / 10 ^ 9 + 4) / (2 :: real) ^ 53"
    unfolding whole add_divide_distrib [symmetric] using frac x01 by (intro divide_right_mono) simp_all
  then show "\<bar>seconds rnd d - of_int d / 10 ^ 9\<bar> \<le> (of_int d / 10 ^ 9 + 4) / 2 ^ 53"
    unfolding sec whole using s x by linarith
qed

section \<open>Decimal text\<close>

text \<open>
  The integer next to a number, the even one of two at the same distance, and the verbs \<open>%.0f\<close>,
  \<open>%.1f\<close> and \<open>%.2f\<close> of a number that is not negative.
\<close>

definition round_even :: "real \<Rightarrow> int" where
  "round_even x =
     (let n = \<lfloor>x\<rfloor>; d = x - of_int n
      in if d < 1 / 2 \<or> d = 1 / 2 \<and> even n then n else n + 1)"

definition fmt_f0 :: "real \<Rightarrow> bytes" where
  "fmt_f0 x = itoa (round_even x)"

definition fmt_f1 :: "real \<Rightarrow> bytes" where
  "fmt_f1 x = (let t = round_even (10 * x) in itoa (t div 10) @ [46] @ itoa (t mod 10))"

definition fmt_f2 :: "real \<Rightarrow> bytes" where
  "fmt_f2 x =
     (let t = round_even (100 * x) in itoa (t div 100) @ [46] @ itoa (t mod 100 div 10) @ itoa (t mod 10))"

lemma round_even_of_int [simp]: "round_even (of_int n) = n"
  by (simp add: round_even_def)

lemma round_even_near: "\<bar>of_int (round_even x) - x\<bar> \<le> 1 / 2"
  unfolding round_even_def Let_def by (simp; linarith)

end
