(* ===== verification/Utp.thy ===== *)
theory Utp
  imports GoFloat
begin

text \<open>
  The micro transport protocol: packets (\<open>utp/utp.go\<close>), selective acknowledgements
  (\<open>utp/sack.go\<close>) and the congestion controller (\<open>utp/congestion.go\<close>). Durations are
  nanoseconds in an \<open>int64\<close>; \<open>wrap64\<close> follows each operation. Floating-point operations are
  exact operations followed by a rounding that is an argument.
\<close>

section \<open>Packets\<close>

definition st_data :: u8 where "st_data = 0"
definition st_fin :: u8 where "st_fin = 1"
definition st_state :: u8 where "st_state = 2"
definition st_reset :: u8 where "st_reset = 3"
definition st_syn :: u8 where "st_syn = 4"
definition ext_none :: u8 where "ext_none = 0"
definition header_size :: nat where "header_size = 20"
definition utp_version :: u8 where "utp_version = 1"

text \<open>The states of a connection; the package has their names only.\<close>

definition cs_idle :: u8 where "cs_idle = 0"
definition cs_syn_sent :: u8 where "cs_syn_sent = 1"
definition cs_syn_recv :: u8 where "cs_syn_recv = 2"
definition cs_connected :: u8 where "cs_connected = 3"
definition cs_fin_sent :: u8 where "cs_fin_sent = 4"
definition cs_destroy :: u8 where "cs_destroy = 5"

definition type_string :: "u8 \<Rightarrow> bytes" where
  "type_string t =
     (if t = st_data then str ''ST_DATA'' else if t = st_fin then str ''ST_FIN''
      else if t = st_state then str ''ST_STATE'' else if t = st_reset then str ''ST_RESET''
      else if t = st_syn then str ''ST_SYN'' else str ''ST_UNKNOWN('' @ itoa (uint t) @ str '')'')"

definition state_string :: "u8 \<Rightarrow> bytes" where
  "state_string s =
     (if s = cs_idle then str ''CS_IDLE'' else if s = cs_syn_sent then str ''CS_SYN_SENT''
      else if s = cs_syn_recv then str ''CS_SYN_RECV'' else if s = cs_connected then str ''CS_CONNECTED''
      else if s = cs_fin_sent then str ''CS_FIN_SENT'' else if s = cs_destroy then str ''CS_DESTROY''
      else str ''CS_UNKNOWN('' @ itoa (uint s) @ str '')'')"

record header =
  h_type :: u8
  h_version :: u8
  h_extension :: u8
  h_conn_id :: u16
  h_timestamp :: u32
  h_time_diff :: u32
  h_wnd_size :: u32
  h_seq_nr :: u16
  h_ack_nr :: u16

record extension_header =
  x_type :: u8
  x_payload :: bytes

record packet =
  p_header :: header
  p_extensions :: "extension_header list"
  p_payload :: bytes

text \<open>\<open>EncodeHeader\<close>: the 20 bytes it writes.\<close>

definition encode_header :: "header \<Rightarrow> bytes" where
  "encode_header h =
     [push_bit 4 (h_type h) OR (h_version h AND 0x0F), h_extension h] @
     put16 (h_conn_id h) @ put32 (h_timestamp h) @ put32 (h_time_diff h) @ put32 (h_wnd_size h) @
     put16 (h_seq_nr h) @ put16 (h_ack_nr h)"

definition decode_header :: "bytes \<Rightarrow> header res" where
  "decode_header data =
     (if length data < header_size then Inl (Fail ''header too short'')
      else
        let h = \<lparr>h_type = drop_bit 4 (data ! 0) AND 0x0F, h_version = data ! 0 AND 0x0F, h_extension = data ! 1,
                 h_conn_id = get16 (slice data 2 4), h_timestamp = get32 (slice data 4 8),
                 h_time_diff = get32 (slice data 8 12), h_wnd_size = get32 (slice data 12 16),
                 h_seq_nr = get16 (slice data 16 18), h_ack_nr = get16 (slice data 18 20)\<rparr>
        in if h_version h \<noteq> utp_version then Inl (Fail ''unsupported version'') else Inr h)"

text \<open>The chain of extensions: the next type, the length as a byte, the payload.\<close>

fun encode_extensions :: "extension_header list \<Rightarrow> bytes" where
  "encode_extensions [] = []"
| "encode_extensions (x # xs) =
     (case xs of [] \<Rightarrow> ext_none | y # _ \<Rightarrow> x_type y) # of_nat (length (x_payload x)) # x_payload x @
     encode_extensions xs"

definition encode_packet :: "packet \<Rightarrow> bytes" where
  "encode_packet p = encode_header (p_header p) @ encode_extensions (p_extensions p) @ p_payload p"

text \<open>The loop of \<open>DecodePacket\<close>, on the bytes from the offset on.\<close>

function decode_extensions :: "u8 \<Rightarrow> bytes \<Rightarrow> (extension_header list \<times> bytes) res" where
  "decode_extensions next_ext data =
     (if next_ext = ext_none then Inr ([], data)
      else if length data < 2 then Inl (Fail ''extension header truncated'')
      else
        let ext_len = unat (data ! 1); rest = drop 2 data
        in if length rest < ext_len then Inl (Fail ''extension payload truncated'')
           else (case decode_extensions (data ! 0) (drop ext_len rest) of
                   Inl e \<Rightarrow> Inl e
                 | Inr (xs, payload) \<Rightarrow> Inr (\<lparr>x_type = next_ext, x_payload = take ext_len rest\<rparr> # xs, payload)))"
  by pat_completeness auto

termination
  by (relation "measure (\<lambda>(n, data). length data)") auto

declare decode_extensions.simps [simp del]

definition decode_packet :: "bytes \<Rightarrow> packet res" where
  "decode_packet data =
     (case decode_header data of
        Inl e \<Rightarrow> Inl e
      | Inr h \<Rightarrow>
          (case decode_extensions (h_extension h) (drop header_size data) of
             Inl e \<Rightarrow> Inl e
           | Inr (xs, payload) \<Rightarrow> Inr \<lparr>p_header = h, p_extensions = xs, p_payload = payload\<rparr>))"

section \<open>Selective acknowledgements\<close>

definition new_selective_ack :: "int \<Rightarrow> bytes" where
  "new_selective_ack n =
     (if n \<le> 0 then replicate 4 0
      else let byte_count = (nat n + 7) div 8 in replicate ((byte_count + 3) div 4 * 4) 0)"

definition set_bit_at :: "bytes \<Rightarrow> int \<Rightarrow> bytes" where
  "set_bit_at sack offset =
     (if offset < 0 \<or> int (length sack) * 8 \<le> offset then sack
      else
        let byte_idx = nat offset div 8; bit_idx = nat offset mod 8
        in sack[byte_idx := sack ! byte_idx OR push_bit bit_idx 1])"

definition get_bit_at :: "bytes \<Rightarrow> int \<Rightarrow> bool" where
  "get_bit_at sack offset =
     (if offset < 0 \<or> int (length sack) * 8 \<le> offset then False
      else
        let byte_idx = nat offset div 8; bit_idx = nat offset mod 8
        in sack ! byte_idx AND push_bit bit_idx 1 \<noteq> 0)"

definition acked_packets :: "bytes \<Rightarrow> int list" where
  "acked_packets sack = filter (get_bit_at sack) (map int [0..<length sack * 8])"

section \<open>Congestion control\<close>

definition target_delay :: int where "target_delay = 100 * 1000 * 1000"
definition min_timeout :: int where "min_timeout = 500 * 1000 * 1000"
definition init_timeout :: int where "init_timeout = 1000 * 1000 * 1000"
definition min_packet_size :: u32 where "min_packet_size = 150"
definition max_gain :: int where "max_gain = 3000"
definition base_delay_window :: int where "base_delay_window = 120 * 1000 * 1000 * 1000"

record congestion =
  cc_max_window :: u32
  cc_cur_window :: u32
  cc_rtt :: int
  cc_rtt_var :: int
  cc_timeout :: int
  cc_base_delay :: int
  cc_base_delay_time :: int
  cc_our_delay :: int

definition new_congestion :: congestion where
  "new_congestion =
     \<lparr>cc_max_window = 3 * 1400, cc_cur_window = 0, cc_rtt = 0, cc_rtt_var = 0, cc_timeout = init_timeout,
      cc_base_delay = -1, cc_base_delay_time = 0, cc_our_delay = 0\<rparr>"

definition microseconds :: "int \<Rightarrow> int" where
  "microseconds d = d sdiv 1000"

definition on_ack :: "int \<Rightarrow> congestion \<Rightarrow> congestion" where
  "on_ack packet_rtt cc =
     (let rtt_us = microseconds packet_rtt;
          cc1 = (if cc_rtt cc = 0 then cc\<lparr>cc_rtt := rtt_us, cc_rtt_var := rtt_us sdiv 2\<rparr>
                 else
                   let delta = wrap64 (cc_rtt cc - rtt_us);
                       delta = (if delta < 0 then wrap64 (- delta) else delta)
                   in cc\<lparr>cc_rtt_var := wrap64 (cc_rtt_var cc + wrap64 (delta - cc_rtt_var cc) sdiv 4),
                         cc_rtt := wrap64 (cc_rtt cc + wrap64 (rtt_us - cc_rtt cc) sdiv 8)\<rparr>);
          timeout_us = wrap64 (cc_rtt cc1 + wrap64 (cc_rtt_var cc1 * 4));
          timeout = wrap64 (timeout_us * 1000)
      in cc1\<lparr>cc_timeout := (if timeout < min_timeout then min_timeout else timeout)\<rparr>)"

text \<open>
  \<open>OnDelaySample\<close>; \<open>rnd\<close> rounds to a \<open>float64\<close>, \<open>now\<close> is the clock.
\<close>

definition update_base :: "int \<Rightarrow> int \<Rightarrow> congestion \<Rightarrow> congestion" where
  "update_base now delay_us cc =
     (if cc_base_delay cc < 0 \<or> base_delay_window < now - cc_base_delay_time cc
      then cc\<lparr>cc_base_delay := delay_us, cc_base_delay_time := now\<rparr>
      else if delay_us < cc_base_delay cc
      then cc\<lparr>cc_base_delay := delay_us, cc_base_delay_time := now\<rparr>
      else cc)"

definition scaled_gain :: "(real \<Rightarrow> real) \<Rightarrow> int \<Rightarrow> u32 \<Rightarrow> u32 \<Rightarrow> int" where
  "scaled_gain rnd off_target cur_window max_window =
     (let delay_factor = rnd (rnd (of_int off_target) / rnd (of_int (microseconds target_delay)));
          window_factor =
            (if max_window \<noteq> 0 then rnd (rnd (of_int (uint cur_window)) / rnd (of_int (uint max_window))) else 0)
      in to_int (rnd (rnd (rnd (of_int max_gain) * delay_factor) * window_factor)))"

definition on_delay_sample :: "(real \<Rightarrow> real) \<Rightarrow> int \<Rightarrow> int \<Rightarrow> congestion \<Rightarrow> congestion" where
  "on_delay_sample rnd now delay_us cc =
     (let cc1 = update_base now delay_us cc;
          our_delay = wrap64 (delay_us - cc_base_delay cc1);
          off_target = wrap64 (microseconds target_delay - our_delay);
          new_window = wrap64 (uint (cc_max_window cc1) +
            scaled_gain rnd off_target (cc_cur_window cc1) (cc_max_window cc1))
      in cc1\<lparr>cc_our_delay := our_delay,
             cc_max_window := word_of_int (if new_window < 0 then 0 else new_window)\<rparr>)"

definition on_timeout :: "congestion \<Rightarrow> congestion" where
  "on_timeout cc = cc\<lparr>cc_max_window := min_packet_size, cc_timeout := wrap64 (cc_timeout cc * 2)\<rparr>"

definition on_packet_loss :: "congestion \<Rightarrow> congestion" where
  "on_packet_loss cc =
     (let w = cc_max_window cc div 2
      in cc\<lparr>cc_max_window := (if w < min_packet_size then min_packet_size else w)\<rparr>)"

definition can_send :: "congestion \<Rightarrow> u32 \<Rightarrow> u32 \<Rightarrow> bool" where
  "can_send cc packet_size peer_wnd_size =
     (let effective_window = (if peer_wnd_size < cc_max_window cc then peer_wnd_size else cc_max_window cc)
      in cc_cur_window cc + packet_size \<le> effective_window)"

text \<open>The readings \<open>RTT\<close> and \<open>OurDelay\<close>, as durations.\<close>

definition rtt_duration :: "congestion \<Rightarrow> int" where
  "rtt_duration cc = wrap64 (cc_rtt cc * 1000)"

definition our_delay_duration :: "congestion \<Rightarrow> int" where
  "our_delay_duration cc = wrap64 (cc_our_delay cc * 1000)"

section \<open>Packets read back\<close>

definition header_ok :: "header \<Rightarrow> bool" where
  "header_ok h \<longleftrightarrow> h_type h < 16 \<and> h_version h = utp_version"

lemma low_nibble:
  assumes b: "b < 16"
  shows "(b :: u8) AND 15 = b"
proof -
  have "unat (b AND 15) = take_bit 4 (unat b)"
    by (simp add: unsigned_and_eq take_bit_eq_mask mask_eq_exp_minus_1)
  also have "\<dots> = unat b" using b by (simp add: take_bit_nat_eq_self word_less_nat_alt)
  finally show ?thesis by (simp add: word_unat_eq_iff)
qed

lemma decode_encode_header:
  assumes "header_ok h"
  shows "decode_header (encode_header h @ rest) = Inr h"
proof -
  have t: "h_type h < 16" "h_version h = 1" using assms by (simp_all add: header_ok_def utp_version_def)
  have ty: "drop_bit 4 (push_bit 4 (h_type h) OR 1) AND 15 = h_type h"
  proof -
    have "drop_bit 4 (push_bit 4 b OR 1) AND 15 = b AND (15 :: u8)" for b
    proof -
      have m: "(15 :: u8) = mask 4" by (simp add: mask_eq_exp_minus_1)
      show ?thesis unfolding m by (intro bit_word_eqI) (auto simp: bit_simps bit_1_iff)
    qed
    then show ?thesis using low_nibble [OF t(1)] by simp
  qed
  have ver: "(push_bit 4 b OR 1) AND 15 = (1 :: u8)" for b
  proof -
    have m: "(15 :: u8) = mask 4" by (simp add: mask_eq_exp_minus_1)
    show ?thesis unfolding m by (intro bit_word_eqI) (auto simp: bit_simps bit_1_iff)
  qed
  have one: "h_version h AND 15 = 1" by (simp add: t(2))
  show ?thesis
    using ty ver
    by (simp add: decode_header_def encode_header_def header_size_def Let_def one slice_def utp_version_def t(2))
qed

definition first_type :: "extension_header list \<Rightarrow> u8" where
  "first_type xs = (case xs of [] \<Rightarrow> ext_none | x # _ \<Rightarrow> x_type x)"

definition extension_ok :: "extension_header \<Rightarrow> bool" where
  "extension_ok x \<longleftrightarrow> x_type x \<noteq> ext_none \<and> length (x_payload x) < 256"

lemma decode_extensions_none [simp]: "decode_extensions ext_none data = Inr ([], data)"
  by (simp add: decode_extensions.simps)

lemma decode_encode_extensions:
  "list_all extension_ok xs \<Longrightarrow>
   decode_extensions (first_type xs) (encode_extensions xs @ payload) = Inr (xs, payload)"
proof (induction xs)
  case Nil
  then show ?case by (simp add: first_type_def)
next
  case (Cons x xs)
  have x: "x_type x \<noteq> ext_none" and len: "length (x_payload x) < 256"
    using Cons.prems by (simp_all add: extension_ok_def)
  have u: "unat (of_nat (length (x_payload x)) :: u8) = length (x_payload x)"
    using len by (simp add: unat_of_nat)
  have "decode_extensions (first_type xs) (encode_extensions xs @ payload) = Inr (xs, payload)"
    using Cons by simp
  then show ?case
    by (subst decode_extensions.simps) (simp add: x u Let_def first_type_def split: list.splits)
qed

text \<open>
  A packet with a 4-bit type, the version and a well-formed chain of extensions (the header's
  extension byte names the first one, no type is 0, no payload is over 255 bytes) is the packet
  \<open>DecodePacket\<close> reads from the bytes of \<open>Encode\<close>.
\<close>
theorem packet_roundtrip:
  assumes "header_ok (p_header p)"
    and "h_extension (p_header p) = first_type (p_extensions p)"
    and "list_all extension_ok (p_extensions p)"
  shows "decode_packet (encode_packet p) = Inr p"
proof -
  have "drop header_size (encode_packet p) = encode_extensions (p_extensions p) @ p_payload p"
    by (simp add: encode_packet_def encode_header_def header_size_def)
  moreover have "decode_header (encode_packet p) = Inr (p_header p)"
    using decode_encode_header [OF assms(1)] by (simp add: encode_packet_def)
  ultimately show ?thesis
    using decode_encode_extensions [OF assms(3), of "p_payload p"] assms(2) by (simp add: decode_packet_def)
qed

theorem packet_roundtrip_witness:
  "\<exists>p. length (p_extensions p) = 2 \<and> p_payload p \<noteq> [] \<and> decode_packet (encode_packet p) = Inr p"
proof -
  let ?p = "\<lparr>p_header = \<lparr>h_type = st_state, h_version = utp_version, h_extension = 1, h_conn_id = 77,
                h_timestamp = 123456, h_time_diff = 99, h_wnd_size = 1048576, h_seq_nr = 65535, h_ack_nr = 3\<rparr>,
             p_extensions = [\<lparr>x_type = 1, x_payload = [1, 0, 0, 128]\<rparr>, \<lparr>x_type = 2, x_payload = []\<rparr>],
             p_payload = [104, 105]\<rparr>"
  have "decode_packet (encode_packet ?p) = Inr ?p"
    by (rule packet_roundtrip)
      (simp_all add: header_ok_def st_state_def utp_version_def first_type_def extension_ok_def ext_none_def)
  then show ?thesis by (intro exI [of _ ?p]) simp
qed

section \<open>The bitmask\<close>

lemma length_set_bit_at [simp]: "length (set_bit_at s i) = length s"
  by (simp add: set_bit_at_def Let_def)

lemma get_bit_bit:
  "get_bit_at s j \<longleftrightarrow> 0 \<le> j \<and> nat j < length s * 8 \<and> bit (s ! (nat j div 8)) (nat j mod 8)"
proof -
  have "(w AND push_bit n 1 \<noteq> 0) = bit w n" if "n < 8" for n and w :: u8
    using that by (auto simp: bit_iff_odd and_exp_eq_0_iff_not_bit push_bit_eq_mult
        simp flip: bit_iff_odd)
  then show ?thesis by (auto simp: get_bit_at_def Let_def)
qed

lemma get_set_bit_at:
  "get_bit_at (set_bit_at s i) j \<longleftrightarrow> get_bit_at s j \<or> j = i \<and> 0 \<le> i \<and> i < int (length s) * 8"
proof (cases "0 \<le> i \<and> i < int (length s) * 8 \<and> 0 \<le> j \<and> j < int (length s) * 8")
  case False
  then show ?thesis by (auto simp: set_bit_at_def get_bit_at_def Let_def)
next
  case True
  then have lt: "nat i div 8 < length s" "nat j div 8 < length s" by (auto simp: nat_less_iff)
  have eq: "nat i div 8 = nat j div 8 \<and> nat i mod 8 = nat j mod 8 \<longleftrightarrow> i = j"
    using True by (metis div_mult_mod_eq eq_nat_nat_iff)
  have b: "bit (push_bit (nat i mod 8) 1 :: u8) (nat j mod 8) \<longleftrightarrow> nat i mod 8 = nat j mod 8"
    by (auto simp: bit_simps bit_1_iff)
  show ?thesis
  proof (cases "nat i div 8 = nat j div 8")
    case same: True
    then show ?thesis
      using True lt b eq by (auto simp: get_bit_bit set_bit_at_def Let_def nth_list_update bit_or_iff)
  next
    case other: False
    then show ?thesis using True lt eq by (auto simp: get_bit_bit set_bit_at_def Let_def)
  qed
qed

lemma get_set_bits:
  "get_bit_at (foldl set_bit_at s is) j \<longleftrightarrow>
   get_bit_at s j \<or> j \<in> set is \<and> 0 \<le> j \<and> j < int (length s) * 8"
  by (induction "is" arbitrary: s) (auto simp: get_set_bit_at)

lemma length_set_bits [simp]: "length (foldl set_bit_at s is) = length s"
  by (induction "is" arbitrary: s) simp_all

lemma get_bit_new: "\<not> get_bit_at (new_selective_ack n) j"
  by (auto simp: get_bit_bit new_selective_ack_def Let_def split: if_splits)

lemma length_new_selective_ack:
  "4 dvd length (new_selective_ack n)" "4 \<le> length (new_selective_ack n)"
  "n \<le> 8 * int (length (new_selective_ack n))"
proof -
  show "4 dvd length (new_selective_ack n)" by (simp add: new_selective_ack_def Let_def)
  show "4 \<le> length (new_selective_ack n)"
  proof (cases "n \<le> 0")
    case False
    have step: "4 \<le> (k + 3) div 4 * 4" if "1 \<le> k" for k :: nat using that by presburger
    have "1 \<le> (nat n + 7) div 8" using False by simp
    then have "4 \<le> ((nat n + 7) div 8 + 3) div 4 * 4" by (rule step)
    then show ?thesis using False by (simp add: new_selective_ack_def Let_def)
  qed (simp add: new_selective_ack_def)
  show "n \<le> 8 * int (length (new_selective_ack n))"
  proof (cases "n \<le> 0")
    case False
    have "nat n \<le> 8 * (((nat n + 7) div 8 + 3) div 4 * 4)" by linarith
    then have "n \<le> int (8 * (((nat n + 7) div 8 + 3) div 4 * 4))" using False by linarith
    then show ?thesis using False by (simp add: new_selective_ack_def Let_def)
  qed (simp add: new_selective_ack_def)
qed

text \<open>
  A bitmask made for \<open>n\<close> packets is a positive multiple of four bytes with room for them, and
  after any sequence of \<open>SetBit\<close> calls \<open>AckedPackets\<close> lists exactly the offsets set that lie in
  the mask, in increasing order and once each.
\<close>
theorem sack_spec:
  shows "4 dvd length (new_selective_ack n) \<and> 4 \<le> length (new_selective_ack n) \<and> n \<le> 8 * int (length (new_selective_ack n)) \<and>
         acked_packets (foldl set_bit_at (new_selective_ack n) is) = filter (\<lambda>i. i \<in> set is) (map int [0..<length (new_selective_ack n) * 8])"
proof -
  have "acked_packets (foldl set_bit_at (new_selective_ack n) is) = filter (\<lambda>i. i \<in> set is) (map int [0..<length (new_selective_ack n) * 8])"
    unfolding acked_packets_def length_set_bits
    by (rule filter_cong) (auto simp: get_set_bits get_bit_new)
  then show ?thesis using length_new_selective_ack [of n] by simp
qed

section \<open>The round-trip estimate\<close>

lemma sdiv_between:
  fixes d :: int
  assumes "0 < k"
  shows "0 \<le> d \<Longrightarrow> 0 \<le> d sdiv k \<and> d sdiv k \<le> d" "d \<le> 0 \<Longrightarrow> d \<le> d sdiv k \<and> d sdiv k \<le> 0"
proof -
  have pos: "0 \<le> x div k \<and> x div k \<le> x" if "0 \<le> x" for x
    using assms that by (simp add: pos_imp_zdiv_nonneg_iff) (use zdiv_mono2 [of x 1 k] in simp)
  show "0 \<le> d \<Longrightarrow> 0 \<le> d sdiv k \<and> d sdiv k \<le> d"
    using pos [of d] assms by (cases "d = 0") (simp_all add: signed_divide_int_def)
  show "d \<le> 0 \<Longrightarrow> d \<le> d sdiv k \<and> d sdiv k \<le> 0"
    using pos [of "- d"] assms by (cases "d = 0") (auto simp: signed_divide_int_def)
qed

lemma move_towards:
  fixes v d :: int
  assumes "0 < k" "a \<le> v" "v \<le> b" "a \<le> d" "d \<le> b"
  shows "a \<le> v + (d - v) sdiv k" "v + (d - v) sdiv k \<le> b"
  using sdiv_between [OF assms(1), of "d - v"] assms by linarith+

definition rtt_ok :: "int \<Rightarrow> int \<Rightarrow> congestion \<Rightarrow> bool" where
  "rtt_ok lo hi cc \<longleftrightarrow>
     lo \<le> cc_rtt cc \<and> cc_rtt cc \<le> hi \<and> 0 \<le> cc_rtt_var cc \<and> cc_rtt_var cc \<le> hi \<and>
     cc_timeout cc = max min_timeout ((cc_rtt cc + 4 * cc_rtt_var cc) * 1000)"

lemma wrap64_small: "\<bar>x\<bar> < 2 ^ 63 \<Longrightarrow> wrap64 x = x"
  by (rule wrap64_id) (auto simp: in_int64_def)

lemma on_ack_step:
  assumes cc: "cc_rtt cc = 0 \<or> rtt_ok lo hi cc"
    and bounds: "1 \<le> lo" "hi < 2 ^ 50"
    and d: "lo \<le> microseconds d" "microseconds d \<le> hi"
  shows "rtt_ok lo hi (on_ack d cc)"
proof -
  define us where "us = microseconds d"
  define v where "v = (if cc_rtt cc = 0 then us sdiv 2
                       else cc_rtt_var cc + (\<bar>cc_rtt cc - us\<bar> - cc_rtt_var cc) sdiv 4)"
  define r where "r = (if cc_rtt cc = 0 then us else cc_rtt cc + (us - cc_rtt cc) sdiv 8)"
  have us: "1 \<le> us" "lo \<le> us" "us \<le> hi" using d bounds by (simp_all add: us_def)
  have v: "0 \<le> v" "v \<le> hi"
  proof -
    have "0 \<le> v \<and> v \<le> hi"
    proof (cases "cc_rtt cc = 0")
      case True
      then show ?thesis using sdiv_between(1) [of 2 us] us by (simp add: v_def)
    next
      case False
      then have "rtt_ok lo hi cc" using cc by simp
      moreover from this have "\<bar>cc_rtt cc - us\<bar> \<le> hi" using us bounds by (simp add: rtt_ok_def abs_le_iff)
      ultimately show ?thesis
        using False us bounds move_towards [of 4 0 "cc_rtt_var cc" hi "\<bar>cc_rtt cc - us\<bar>"]
        by (simp add: v_def rtt_ok_def)
    qed
    then show "0 \<le> v" "v \<le> hi" by simp_all
  qed
  have r: "lo \<le> r" "r \<le> hi"
  proof -
    have "lo \<le> r \<and> r \<le> hi"
    proof (cases "cc_rtt cc = 0")
      case False
      then show ?thesis
        using cc us move_towards [of 8 lo "cc_rtt cc" hi us] by (simp add: r_def rtt_ok_def)
    qed (use us in \<open>simp add: r_def\<close>)
    then show "lo \<le> r" "r \<le> hi" by simp_all
  qed
  have big: "5 * (2 ^ 50) * 1000 < (2 :: int) ^ 63" by simp
  have sums: "wrap64 (v * 4) = v * 4" "wrap64 (r + v * 4) = r + v * 4"
    "wrap64 ((r + v * 4) * 1000) = (r + v * 4) * 1000"
    using v r bounds by (intro wrap64_small; simp add: abs_less_iff)+
  have ack: "on_ack d cc = cc\<lparr>cc_rtt_var := v, cc_rtt := r, cc_timeout := max min_timeout ((r + v * 4) * 1000)\<rparr>"
  proof (cases "cc_rtt cc = 0")
    case True
    then have "v = us sdiv 2" "r = us" by (simp_all add: v_def r_def)
    then show ?thesis
      using True sums by (simp add: on_ack_def Let_def us_def max_def)
  next
    case False
    then have ok: "rtt_ok lo hi cc" using cc by simp
    then have w: "wrap64 (cc_rtt cc - us) = cc_rtt cc - us" "wrap64 (us - cc_rtt cc) = us - cc_rtt cc"
      using us bounds by (intro wrap64_small; simp add: rtt_ok_def abs_less_iff)+
    have w2: "wrap64 (us - cc_rtt cc - cc_rtt_var cc) = us - cc_rtt cc - cc_rtt_var cc"
      "wrap64 (cc_rtt cc - us - cc_rtt_var cc) = cc_rtt cc - us - cc_rtt_var cc"
      using us bounds ok by (intro wrap64_small; simp add: rtt_ok_def abs_less_iff)+
    have w3: "wrap64 v = v" "wrap64 r = r"
      using v r bounds by (intro wrap64_small; simp add: abs_less_iff)+
    show ?thesis
    proof (cases "cc_rtt cc < us")
      case lt: True
      have "v = cc_rtt_var cc + (us - cc_rtt cc - cc_rtt_var cc) sdiv 4" "r = cc_rtt cc + (us - cc_rtt cc) sdiv 8"
        using False lt by (simp_all add: v_def r_def)
      then show ?thesis
        using False lt w w2 w3 sums by (simp add: on_ack_def Let_def us_def [symmetric] max_def)
    next
      case ge: False
      have "v = cc_rtt_var cc + (cc_rtt cc - us - cc_rtt_var cc) sdiv 4" "r = cc_rtt cc + (us - cc_rtt cc) sdiv 8"
        using False ge by (simp_all add: v_def r_def)
      then show ?thesis
        using False ge w w2 w3 sums by (simp add: on_ack_def Let_def us_def [symmetric] max_def)
    qed
  qed
  show ?thesis using v r by (simp add: ack rtt_ok_def mult.commute)
qed

lemma on_acks:
  assumes "1 \<le> lo" "hi < 2 ^ 50" "\<forall>d \<in> set ds. lo \<le> microseconds d \<and> microseconds d \<le> hi"
  shows "ds \<noteq> [] \<Longrightarrow> cc_rtt cc = 0 \<or> rtt_ok lo hi cc \<Longrightarrow> rtt_ok lo hi (foldl (\<lambda>c d. on_ack d c) cc ds)"
  using assms(3)
proof (induction ds arbitrary: cc)
  case (Cons d ds)
  have "rtt_ok lo hi (on_ack d cc)" using on_ack_step [of cc lo hi d] assms Cons.prems by simp
  then show ?case using Cons by (cases "ds = []") auto
qed simp

lemma mono_rtt_timeout:
  assumes "rtt_ok lo hi cc"
  shows "min_timeout \<le> cc_timeout cc" "cc_timeout cc \<le> max min_timeout (5000 * hi)"
  using assms by (auto simp: rtt_ok_def)

text \<open>
  After any non-empty run of acknowledgements whose round trips, in microseconds, lie between
  \<open>lo > 0\<close> and \<open>hi < 2^50\<close>, no step has overflowed: the smoothed round trip lies between
  \<open>lo\<close> and \<open>hi\<close>, its variance between 0 and \<open>hi\<close>, and the timeout is the larger of 500 ms and
  the round trip plus four variances, so never below 500 ms nor above the larger of that and
  \<open>5 hi\<close>.
\<close>
theorem rtt_estimate_bounds:
  assumes "1 \<le> lo" "hi < 2 ^ 50" "ds \<noteq> []"
    and "\<forall>d \<in> set ds. lo \<le> microseconds d \<and> microseconds d \<le> hi"
  defines "cc \<equiv> foldl (\<lambda>c d. on_ack d c) new_congestion ds"
  shows "lo \<le> cc_rtt cc \<and> cc_rtt cc \<le> hi \<and> 0 \<le> cc_rtt_var cc \<and> cc_rtt_var cc \<le> hi \<and>
    cc_timeout cc = max min_timeout ((cc_rtt cc + 4 * cc_rtt_var cc) * 1000) \<and>
    min_timeout \<le> cc_timeout cc \<and> cc_timeout cc \<le> max min_timeout (5000 * hi)"
proof -
  have "rtt_ok lo hi cc"
    unfolding cc_def using assms by (intro on_acks) (simp_all add: new_congestion_def)
  then show ?thesis using mono_rtt_timeout by (auto simp: rtt_ok_def)
qed

theorem rtt_estimate_bounds_witness:
  "40000 \<le> cc_rtt (foldl (\<lambda>c d. on_ack d c) new_congestion [50000000, 90000000, 40000000])"
  using rtt_estimate_bounds [of 40000 90000 "[50000000, 90000000, 40000000]"]
  by (simp add: microseconds_def signed_divide_int_def)

section \<open>The window\<close>

text \<open>The fraction of the target that is left and the fraction of the window in flight.\<close>

lemma window_gain:
  assumes rnd: "ieee_rounding rnd"
    and off: "\<bar>off\<bar> \<le> 2 ^ 33" and le: "cur_w \<le> max_w"
  shows "0 \<le> off \<Longrightarrow> off \<le> microseconds target_delay \<Longrightarrow>
      0 \<le> scaled_gain rnd off cur_w max_w \<and> scaled_gain rnd off cur_w max_w \<le> max_gain"
    and "off \<le> 0 \<Longrightarrow> - (2 ^ 52) \<le> scaled_gain rnd off cur_w max_w \<and> scaled_gain rnd off cur_w max_w \<le> 0"
    and "cur_w = 0 \<Longrightarrow> scaled_gain rnd off cur_w max_w = 0"
proof -
  define factor where
    "factor = (if max_w \<noteq> 0 then rnd (rnd (of_int (uint cur_w)) / rnd (of_int (uint max_w))) else 0)"
  define gain where
    "gain = rnd (rnd (rnd (of_int max_gain) * rnd (rnd (of_int off) / rnd (of_int (microseconds target_delay)))) *
       factor)"
  have sg: "scaled_gain rnd off cur_w max_w = to_int gain"
    by (simp add: scaled_gain_def gain_def factor_def Let_def)
  have w: "uint cur_w \<le> uint max_w" "uint max_w < 2 ^ 32" "0 \<le> uint cur_w"
    using le uint_lt2p [of max_w] by (simp_all add: word_le_def)
  have td: "microseconds target_delay = 100000" by (simp add: microseconds_def target_delay_def signed_divide_int_def)
  have f: "0 \<le> factor" "factor \<le> 1"
  proof -
    have e: "rnd (of_int (uint cur_w)) = of_int (uint cur_w)" "rnd (of_int (uint max_w)) = of_int (uint max_w)"
      using w ieee_exact [OF rnd, of "uint cur_w"] ieee_exact [OF rnd, of "uint max_w"] by simp_all
    have frac: "0 \<le> real_of_int a / real_of_int b \<and> real_of_int a / real_of_int b \<le> 1"
      if "0 \<le> a" "a \<le> b" for a b using that by (auto simp: divide_le_eq)
    have "(0 :: real) \<le> of_int (uint cur_w) / of_int (uint max_w)"
      "of_int (uint cur_w) / of_int (uint max_w) \<le> (1 :: real)"
      using frac [OF w(3) w(1)] by blast+
    then show "0 \<le> factor" "factor \<le> 1"
      using ieee_between [OF rnd, of 0 "of_int (uint cur_w) / of_int (uint max_w)" 1] unfolding factor_def e by auto
  qed
  define ratio where "ratio = rnd (rnd (of_int off) / rnd (of_int (microseconds target_delay)))"
  have e: "rnd (of_int off) = of_int off" "rnd (of_int (microseconds target_delay)) = 100000"
    "rnd (of_int max_gain) = 3000" "rnd 100000 = 100000"
    using off ieee_exact [OF rnd, of off] ieee_exact [OF rnd, of 100000] ieee_exact [OF rnd, of 3000]
    by (simp_all add: td max_gain_def)
  have prod: "of_int a * factor \<le> y * factor" "y * factor \<le> of_int b * factor"
    if "of_int a \<le> y" "y \<le> of_int b" for a b y using that f by (simp_all add: mult_right_mono)
  show "0 \<le> scaled_gain rnd off cur_w max_w \<and> scaled_gain rnd off cur_w max_w \<le> max_gain" if "0 \<le> off" "off \<le> microseconds target_delay"
  proof -
    have "0 \<le> ratio" "ratio \<le> 1"
      using that ieee_between [OF rnd, of 0 "of_int off / 100000" 1] by (simp_all add: ratio_def e td)
    then have "0 \<le> rnd (3000 * ratio)" "rnd (3000 * ratio) \<le> 3000"
      using ieee_between [OF rnd, of 0 "3000 * ratio" 3000] by simp_all
    then have "0 \<le> rnd (3000 * ratio) * factor" "rnd (3000 * ratio) * factor \<le> 3000"
      using f mult_mono [of "rnd (3000 * ratio)" 3000 factor 1] by simp_all
    then have "0 \<le> gain" "gain \<le> 3000"
      using ieee_between [OF rnd, of 0 "rnd (3000 * ratio) * factor" 3000]
      by (simp_all add: gain_def e ratio_def [unfolded e])
    then show ?thesis using to_int_between [of 0 gain 3000] by (simp add: sg max_gain_def)
  qed
  show "- (2 ^ 52) \<le> scaled_gain rnd off cur_w max_w \<and> scaled_gain rnd off cur_w max_w \<le> 0" if "off \<le> 0"
  proof -
    have "- (2 ^ 33) \<le> ratio" "ratio \<le> 0"
      using that off ieee_between [OF rnd, of "- (2 ^ 33)" "of_int off / 100000" 0]
      by (simp_all add: ratio_def e)
    then have "- (2 ^ 52) \<le> rnd (3000 * ratio)" "rnd (3000 * ratio) \<le> 0"
      using ieee_between [OF rnd, of "- (2 ^ 52)" "3000 * ratio" 0] by simp_all
    then have "- (2 ^ 52) \<le> rnd (3000 * ratio) * factor" "rnd (3000 * ratio) * factor \<le> 0"
      using f mult_mono [of "- rnd (3000 * ratio)" "2 ^ 52" factor 1] by (simp_all add: mult_nonpos_nonneg)
    then have "- (2 ^ 52) \<le> gain" "gain \<le> 0"
      using ieee_between [OF rnd, of "- (2 ^ 52)" "rnd (3000 * ratio) * factor" 0]
      by (simp_all add: gain_def e ratio_def [unfolded e])
    then show ?thesis using to_int_between [of "- (2 ^ 52)" gain 0] by (simp add: sg)
  qed
  show "scaled_gain rnd off cur_w max_w = 0" if "cur_w = 0"
  proof -
    have z: "rnd 0 = 0" using ieee_exact [OF rnd, of 0] by simp
    then have "factor = 0" using that by (simp add: factor_def)
    then show ?thesis by (simp add: sg gain_def z to_int_def)
  qed
qed

lemma uint_window:
  assumes "0 \<le> n" "n < 2 ^ 32"
  shows "uint (word_of_int n :: u32) = n"
  using assms by (simp add: uint_word_of_int)

text \<open>
  The code has no lower bound for the window but zero, where the document on uTP has 150 bytes: one sample can take a
  window of 200 bytes to nothing, and no sample takes it back.
\<close>

lemma empty_window_stays:
  assumes "ieee_rounding rnd" "cc_max_window cc = 0"
  shows "cc_max_window (on_delay_sample rnd now delay cc) = 0"
proof -
  have "rnd 0 = 0" using ieee_exact [OF assms(1), of 0] by simp
  moreover have "cc_max_window (update_base now delay cc) = 0" using assms(2) by (simp add: update_base_def)
  ultimately show ?thesis by (simp add: on_delay_sample_def scaled_gain_def to_int_def wrap64_small Let_def)
qed

lemma window_below_minimum:
  "cc_max_window (on_delay_sample (\<lambda>x. x) 7 110000
     (new_congestion\<lparr>cc_max_window := 200, cc_cur_window := 200, cc_base_delay := 0\<rparr>)) = 0"
  by (simp add: on_delay_sample_def update_base_def new_congestion_def scaled_gain_def to_int_def microseconds_def
      target_delay_def max_gain_def base_delay_window_def wrap64_small signed_divide_int_def Let_def)

text \<open>
  A timeout shrinks the window below what is in flight; the share of the window in use is then above one, and the
  next sample raises the window by more than \<open>MaxGain\<close>.
\<close>

lemma gain_after_timeout:
  "cc_max_window (on_timeout (new_congestion\<lparr>cc_cur_window := 4200\<rparr>)) = 150 \<and>
   cc_max_window (on_delay_sample (\<lambda>x. x) 7 30000 (on_timeout (new_congestion\<lparr>cc_cur_window := 4200\<rparr>))) = 150 + 84000"
  by (simp add: on_timeout_def on_delay_sample_def update_base_def new_congestion_def scaled_gain_def to_int_def
      microseconds_def target_delay_def max_gain_def min_packet_size_def wrap64_small signed_divide_int_def Let_def)

text \<open>
  C36. One delay sample of 32 bits, with no more in flight than the window and the window 3000 short
  of its width: the base delay does not exceed the sample and the sample is measured against it;
  below the target delay the window grows by 0 to 3000 bytes, at or above it the window does not
  grow, and with nothing in flight it stays as it is. The window is not kept at a minimum
  (\<open>window_below_minimum\<close>), and the hypothesis on the bytes in flight fails after a timeout, where the
  window grows by more (\<open>gain_after_timeout\<close>).
\<close>
theorem delay_sample_bounds:
  fixes now :: int
  assumes "ieee_rounding rnd" "0 \<le> delay" "delay < 2 ^ 32" "cc_base_delay cc < 2 ^ 32"
    and "cc_cur_window cc \<le> cc_max_window cc" "uint (cc_max_window cc) + max_gain < 2 ^ 32"
  defines "cc' \<equiv> on_delay_sample rnd now delay cc"
  shows "0 \<le> cc_base_delay cc' \<and> cc_base_delay cc' \<le> delay \<and> cc_our_delay cc' = delay - cc_base_delay cc' \<and>
    (cc_our_delay cc' \<le> microseconds target_delay \<longrightarrow>
       uint (cc_max_window cc) \<le> uint (cc_max_window cc') \<and>
       uint (cc_max_window cc') \<le> uint (cc_max_window cc) + max_gain) \<and>
    (microseconds target_delay \<le> cc_our_delay cc' \<longrightarrow> cc_max_window cc' \<le> cc_max_window cc) \<and>
    (cc_cur_window cc = 0 \<longrightarrow> cc_max_window cc' = cc_max_window cc)"
proof -
  define base where
    "base = (if cc_base_delay cc < 0 \<or> base_delay_window < now - cc_base_delay_time cc \<or> delay < cc_base_delay cc
             then delay else cc_base_delay cc)"
  define off where "off = microseconds target_delay - (delay - base)"
  define gain where "gain = scaled_gain rnd off (cc_cur_window cc) (cc_max_window cc)"
  define w where "w = uint (cc_max_window cc)"
  have td: "microseconds target_delay = 100000"
    by (simp add: microseconds_def target_delay_def signed_divide_int_def)
  have base: "0 \<le> base" "base \<le> delay" "base < 2 ^ 32" using assms by (auto simp: base_def)
  have w: "0 \<le> w" "w < 2 ^ 32" using uint_lt2p [of "cc_max_window cc"] by (simp_all add: w_def)
  have off: "\<bar>off\<bar> \<le> 2 ^ 33" using base assms(3) by (simp add: off_def td abs_le_iff)
  note gain = window_gain [OF assms(1) off assms(5), folded gain_def]
  have bounds: "- (2 ^ 52) \<le> gain" "gain \<le> max_gain"
    using gain(1,2) base by (cases "0 \<le> off"; simp add: off_def max_gain_def)+
  have new: "wrap64 (w + gain) = w + gain"
    using bounds w by (intro wrap64_small) (simp add: abs_less_iff max_gain_def)
  have wr: "wrap64 (delay - base) = delay - base" "wrap64 off = off"
    using base assms(3) off by (auto intro!: wrap64_small simp: abs_less_iff abs_le_iff)
  have ub: "cc_base_delay (update_base now delay cc) = base"
    "cc_max_window (update_base now delay cc) = cc_max_window cc"
    "cc_cur_window (update_base now delay cc) = cc_cur_window cc"
    by (simp_all add: update_base_def base_def)
  have cc': "cc_base_delay cc' = base" "cc_our_delay cc' = delay - base"
    "cc_max_window cc' = word_of_int (if w + gain < 0 then 0 else w + gain)"
    unfolding cc'_def on_delay_sample_def
    by (simp_all only: Let_def ub wr off_def [symmetric] gain_def [symmetric] w_def [symmetric] new)
      (simp_all add: ub)
  have w': "uint (cc_max_window cc') = (if w + gain < 0 then 0 else w + gain)"
    unfolding cc'(3) using w bounds assms(6) by (intro uint_window) (auto simp: w_def)
  have "uint (cc_max_window cc') = w" if "cc_cur_window cc = 0"
    using w' gain(3) that w by simp
  moreover have "uint (cc_max_window cc') \<le> w" if "off \<le> 0"
    using w' gain(2) [OF that] w by auto
  moreover have "w \<le> uint (cc_max_window cc')" "uint (cc_max_window cc') \<le> w + max_gain" if "0 \<le> off"
    using w' gain(1) [OF that] base w by (auto simp: off_def)
  ultimately show ?thesis
    using base cc' by (auto simp: off_def w_def word_le_def word_uint_eq_iff)
qed

theorem delay_sample_bounds_witness:
  "cc_max_window new_congestion \<le> cc_max_window (on_delay_sample id 7 30000 (new_congestion\<lparr>cc_cur_window := 2800\<rparr>))"
proof -
  have "ieee_rounding id" by (simp add: ieee_rounding_def mono_def)
  moreover have "cc_our_delay (on_delay_sample id 7 30000 (new_congestion\<lparr>cc_cur_window := 2800\<rparr>)) = 0"
    by (simp add: new_congestion_def on_delay_sample_def update_base_def Let_def wrap64_small)
  ultimately show ?thesis
    using delay_sample_bounds [of id 30000 "new_congestion\<lparr>cc_cur_window := 2800\<rparr>" 7]
    by (simp add: new_congestion_def max_gain_def microseconds_def target_delay_def word_le_def
        signed_divide_int_def)
qed

text \<open>
  Two limits of the code: \<open>Encode\<close> writes the length of an extension as one byte, so a payload
  of 256 bytes is announced as empty; \<open>CanSend\<close> adds in 32 bits, so a packet can be let through
  a small window when the sum wraps.
\<close>

lemma long_extension_lost:
  assumes "header_ok h" "h_extension h = 1"
  shows "decode_packet (encode_packet \<lparr>p_header = h, p_extensions = [\<lparr>x_type = 1, x_payload = replicate 256 7\<rparr>],
           p_payload = []\<rparr>) =
         Inr \<lparr>p_header = h, p_extensions = [\<lparr>x_type = 1, x_payload = []\<rparr>], p_payload = replicate 256 7\<rparr>"
proof -
  let ?p = "\<lparr>p_header = h, p_extensions = [\<lparr>x_type = 1, x_payload = []\<rparr>], p_payload = replicate 256 7\<rparr>"
  have "encode_packet \<lparr>p_header = h, p_extensions = [\<lparr>x_type = 1, x_payload = replicate 256 7\<rparr>], p_payload = []\<rparr> =
      encode_packet ?p"
    by (simp add: encode_packet_def)
  moreover have "drop header_size (encode_packet ?p) = encode_extensions (p_extensions ?p) @ p_payload ?p"
    by (simp add: encode_packet_def encode_header_def header_size_def)
  moreover have "decode_header (encode_packet ?p) = Inr h"
    using decode_encode_header [OF assms(1)] by (simp add: encode_packet_def)
  moreover have "decode_extensions 1 (encode_extensions (p_extensions ?p) @ p_payload ?p) =
      Inr (p_extensions ?p, p_payload ?p)"
    using decode_encode_extensions [of "p_extensions ?p" "p_payload ?p"]
    by (simp add: first_type_def extension_ok_def ext_none_def)
  ultimately show ?thesis by (simp add: decode_packet_def assms(2))
qed

lemma can_send_wraps:
  "can_send (new_congestion\<lparr>cc_cur_window := 4294967000\<rparr>) 1400 4200"
  by (simp add: can_send_def new_congestion_def Let_def)

end
