(* ===== verification/Pipeline.thy ===== *)
theory Pipeline
  imports Piece Torrent
begin

text \<open>
  The pipelined session of a peer connection (\<open>download/pipeline.go\<close>), with its sender and its
  reader as two threads of control that share a queue of jobs. Each step is one access to shared state: an operation of the picker,
  a channel operation or a message read.
\<close>

section \<open>Jobs and results\<close>

record job =
  j_index :: nat
  j_num_blocks :: nat
  j_buf :: bytes
  j_hash :: bytes
  j_received :: nat

text \<open>\<open>pieceResult\<close>: a piece with its data and its source, or the index of a failed one.\<close>

datatype piece_result = Got nat bytes bytes | Failed nat

abbreviation plen :: "torrent \<Rightarrow> nat \<Rightarrow> nat" where
  "plen t i \<equiv> nat (piece_len t (int i))"

text \<open>The places of the pieces in the file.\<close>

definition piece_start :: "torrent \<Rightarrow> nat \<Rightarrow> nat" where
  "piece_start t i = i * nat (t_piece_length t)"

lemma piece_place:
  assumes "well_sized t" "i < length (t_pieces t)"
  shows "nat (wrap64 (int i * t_piece_length t)) = piece_start t i"
    "piece_start t i + plen t i \<le> nat (total_length t)"
    "i < k \<Longrightarrow> piece_start t i + plen t i \<le> piece_start t k"
proof -
  have pos: "0 < t_piece_length t" "0 \<le> total_length t" using assms(1) by (simp_all add: well_sized_def Let_def)
  have st: "int (piece_start t k) = int k * t_piece_length t" for k using pos by (simp add: piece_start_def)
  have pl: "int (plen t i) = min (t_piece_length t) (total_length t - int i * t_piece_length t)"
    using piece_len_eq [OF assms] by simp
  have "int i * t_piece_length t \<le> int (length (t_pieces t)) * t_piece_length t"
    using assms(2) pos by (intro mult_right_mono) simp_all
  also have "\<dots> < 2 ^ 63" using assms(1) by (simp add: well_sized_def Let_def)
  finally have "int i * t_piece_length t < 2 ^ 63" .
  moreover have "0 \<le> int i * t_piece_length t" using pos by simp
  ultimately have "in_int64 (int i * t_piece_length t)" unfolding in_int64_def by linarith
  then show "nat (wrap64 (int i * t_piece_length t)) = piece_start t i" using st [of i] by simp
  show "piece_start t i + plen t i \<le> nat (total_length t)" using st [of i] pl pos by linarith
  assume "i < k"
  then have "(int i + 1) * t_piece_length t \<le> int k * t_piece_length t"
    using pos by (intro mult_right_mono) simp_all
  then show "piece_start t i + plen t i \<le> piece_start t k"
    using st [of i] st [of k] pl unfolding distrib_right mult_1 by linarith
qed

definition new_job :: "torrent \<Rightarrow> nat \<Rightarrow> job" where
  "new_job t i =
     \<lparr>j_index = i, j_num_blocks = block_count (plen t i), j_buf = replicate (plen t i) 0,
      j_hash = t_pieces t ! i, j_received = 0\<rparr>"

section \<open>The session of a peer\<close>

text \<open>
  The sender picks a piece, writes its requests and queues the job; it is \<open>Stopped\<close> when it
  has closed the channel. The reader reads messages while pieces are active; a complete piece
  is checked with the picker, verified and reported; on an error or a choke it gives every
  reserved piece back.
\<close>

datatype sender = Picking | Requesting nat | Queueing nat | Stopped

datatype reader = Reading | Complete nat | Verifying nat | Reporting piece_result | Draining | Ended

record session =
  s_addr :: bytes
  s_bitfield :: bytes
  s_max_active :: nat
  s_sender :: sender
  s_sent :: "wire_msg list"
  s_jobs :: "job list"
  s_reader :: reader
  s_active :: "nat \<rightharpoonup> job"
  s_pending :: int
  s_downloaded :: nat

definition new_session :: "bytes \<Rightarrow> bytes \<Rightarrow> nat \<Rightarrow> session" where
  "new_session addr bitfield max_active =
     \<lparr>s_addr = addr, s_bitfield = bitfield, s_max_active = max_active, s_sender = Picking, s_sent = [],
      s_jobs = [], s_reader = Reading, s_active = Map.empty, s_pending = 0, s_downloaded = 0\<rparr>"

definition register :: "job \<Rightarrow> session \<Rightarrow> session" where
  "register j s = s\<lparr>s_active := (s_active s)(j_index j \<mapsto> j), s_pending := s_pending s + int (j_num_blocks j)\<rparr>"

text \<open>The case of a \<open>Piece\<close> message, up to the question whether the piece is complete.\<close>

definition receive_piece :: "bytes \<Rightarrow> session \<Rightarrow> session" where
  "receive_piece payload s =
     (case parse_piece payload of
        Inl _ \<Rightarrow> s\<lparr>s_reader := Draining\<rparr>
      | Inr pp \<Rightarrow>
          (case s_active s (unat (pp_index pp)) of
             None \<Rightarrow> s
           | Some j \<Rightarrow>
               if length (j_buf j) < unat (pp_begin pp) + length (pp_block pp) then s
               else
                 let j = j\<lparr>j_buf := copy_at (j_buf j) (unat (pp_begin pp)) (pp_block pp),
                           j_received := j_received j + 1\<rparr>;
                     s = s\<lparr>s_active := (s_active s)(unat (pp_index pp) \<mapsto> j), s_pending := s_pending s - 1\<rparr>
                 in if j_received j = j_num_blocks j then s\<lparr>s_reader := Complete (j_index j)\<rparr> else s))"

definition reader_message :: "wire_msg option \<Rightarrow> session \<Rightarrow> session" where
  "reader_message m s =
     (case m of
        None \<Rightarrow> s
      | Some m \<Rightarrow>
          if wm_id m = msg_id_of ''piece'' then receive_piece (wm_payload m) s
          else if wm_id m = msg_id_of ''choke'' then s\<lparr>s_reader := Draining\<rparr>
          else s)"

text \<open>The hash decides between \<open>Finish\<close> and \<open>Abort\<close>; the result is to be sent next.\<close>

definition verify_piece :: "(bytes \<Rightarrow> bytes) \<Rightarrow> bytes \<Rightarrow> job \<Rightarrow> picker \<Rightarrow> picker \<times> piece_result" where
  "verify_piece sha1 addr j pk =
     (if sha1 (j_buf j) \<noteq> j_hash j then (abort pk (j_index j), Failed (j_index j))
      else (finish pk (j_index j), Got (j_index j) (j_buf j) addr))"

definition result_index :: "piece_result \<Rightarrow> nat" where
  "result_index r = (case r of Got i _ _ \<Rightarrow> i | Failed i \<Rightarrow> i)"

definition reported :: "piece_result \<Rightarrow> session \<Rightarrow> session" where
  "reported r s =
     s\<lparr>s_reader := Reading, s_active := (s_active s)(result_index r := None),
       s_downloaded := (case r of Got _ _ _ \<Rightarrow> s_downloaded s + 1 | Failed _ \<Rightarrow> s_downloaded s)\<rparr>"

text \<open>The steps, on the picker, the channel of results and the session.\<close>

inductive session_step ::
  "(bytes \<Rightarrow> bytes) \<Rightarrow> torrent \<Rightarrow> picker \<times> piece_result list \<times> session \<Rightarrow> picker \<times> piece_result list \<times> session \<Rightarrow> bool"
  for sha1 t where
  pick_some: "s_sender s = Picking \<Longrightarrow> pick rnd pk (s_bitfield s) = (pk', Some i) \<Longrightarrow>
    session_step sha1 t (pk, rs, s) (pk', rs, s\<lparr>s_sender := Requesting i\<rparr>)"
| pick_none: "s_sender s = Picking \<Longrightarrow> pick rnd pk (s_bitfield s) = (pk', None) \<Longrightarrow>
    session_step sha1 t (pk, rs, s) (pk', rs, s\<lparr>s_sender := Stopped\<rparr>)"
| request: "s_sender s = Requesting i \<Longrightarrow>
    session_step sha1 t (pk, rs, s)
      (pk, rs, s\<lparr>s_sender := Queueing i, s_sent := s_sent s @ block_requests i (plen t i)\<rparr>)"
| write_error: "s_sender s = Requesting i \<Longrightarrow>
    session_step sha1 t (pk, rs, s) (abort pk i, rs, s\<lparr>s_sender := Stopped\<rparr>)"
| enqueue: "s_sender s = Queueing i \<Longrightarrow> length (s_jobs s) < s_max_active s \<Longrightarrow>
    session_step sha1 t (pk, rs, s) (pk, rs, s\<lparr>s_sender := Picking, s_jobs := s_jobs s @ [new_job t i]\<rparr>)"
| take_job: "s_reader s = Reading \<Longrightarrow> s_jobs s = j # js \<Longrightarrow>
    session_step sha1 t (pk, rs, s) (pk, rs, register j (s\<lparr>s_jobs := js\<rparr>))"
| read: "s_reader s = Reading \<Longrightarrow> s_active s \<noteq> Map.empty \<Longrightarrow>
    session_step sha1 t (pk, rs, s) (pk, rs, reader_message m s)"
| read_error: "s_reader s = Reading \<Longrightarrow> s_active s \<noteq> Map.empty \<Longrightarrow>
    session_step sha1 t (pk, rs, s) (pk, rs, s\<lparr>s_reader := Draining\<rparr>)"
| already_done: "s_reader s = Complete i \<Longrightarrow> is_done pk i \<Longrightarrow>
    session_step sha1 t (pk, rs, s) (pk, rs, s\<lparr>s_reader := Reading, s_active := (s_active s)(i := None)\<rparr>)"
| not_done: "s_reader s = Complete i \<Longrightarrow> \<not> is_done pk i \<Longrightarrow>
    session_step sha1 t (pk, rs, s) (pk, rs, s\<lparr>s_reader := Verifying i\<rparr>)"
| verify: "s_reader s = Verifying i \<Longrightarrow> s_active s i = Some j \<Longrightarrow>
    verify_piece sha1 (s_addr s) j pk = (pk', r) \<Longrightarrow>
    session_step sha1 t (pk, rs, s) (pk', rs, s\<lparr>s_reader := Reporting r\<rparr>)"
| report: "s_reader s = Reporting r \<Longrightarrow> length rs < length (t_pieces t) \<Longrightarrow>
    session_step sha1 t (pk, rs, s) (pk, rs @ [r], reported r s)"
| abort_active: "s_reader s = Draining \<Longrightarrow> s_active s i = Some j \<Longrightarrow>
    session_step sha1 t (pk, rs, s) (abort pk (j_index j), rs, s\<lparr>s_active := (s_active s)(i := None)\<rparr>)"
| abort_job: "s_reader s = Draining \<Longrightarrow> s_active s = Map.empty \<Longrightarrow> s_jobs s = j # js \<Longrightarrow>
    session_step sha1 t (pk, rs, s) (abort pk (j_index j), rs, s\<lparr>s_jobs := js\<rparr>)"
| ended: "s_reader s = Reading \<or> s_reader s = Draining \<Longrightarrow> s_active s = Map.empty \<Longrightarrow> s_jobs s = [] \<Longrightarrow>
    s_sender s = Stopped \<Longrightarrow>
    session_step sha1 t (pk, rs, s) (remove_peer_bits pk (s_bitfield s), rs, s\<lparr>s_reader := Ended\<rparr>)"

inductive_cases session_stepE: "session_step sha1 t (pk, rs, s) (pk', rs', s')"

end
