(* ===== verification/WebSeed.thy ===== *)
theory WebSeed
  imports Pipeline GoUrl
begin

text \<open>
  HTTP seeds: the workers of BEP 19 web seeds (\<open>download/webseed.go\<close>) and of BEP 17 HTTP seeds
  (\<open>download/httpseed.go\<close>). What the HTTP client returns is an argument: an error, or the
  status code with the bytes of the body read and whether the read came to its end.
\<close>

section \<open>Requests and responses\<close>

record http_response =
  hr_status :: nat
  hr_body :: bytes
  hr_complete :: bool

datatype fetch_error = Retry_After int | Fetch_Failed

text \<open>The URL of a web seed, and the \<open>Range\<close> header of a piece.\<close>

definition webseed_url :: "bytes \<Rightarrow> bytes \<Rightarrow> bytes" where
  "webseed_url seed_url name = (if seed_url \<noteq> [] \<and> last seed_url = 47 then seed_url @ name else seed_url)"

definition range_header :: "torrent \<Rightarrow> nat \<Rightarrow> bytes" where
  "range_header t idx =
     (let start = wrap64 (int idx * t_piece_length t);
          stop = wrap64 (wrap64 (start + piece_len t (int idx)) - 1)
      in str ''bytes='' @ itoa start @ str ''-'' @ itoa stop)"

definition webseed_fetch :: "torrent \<Rightarrow> nat \<Rightarrow> http_response res \<Rightarrow> fetch_error + bytes" where
  "webseed_fetch t idx resp =
     (case resp of
        Inl _ \<Rightarrow> Inl Fetch_Failed
      | Inr r \<Rightarrow>
          if hr_status r \<noteq> 206 \<and> hr_status r \<noteq> 200 then Inl Fetch_Failed
          else if \<not> hr_complete r then Inl Fetch_Failed
          else if int (length (hr_body r)) \<noteq> piece_len t (int idx) then Inl Fetch_Failed
          else Inr (hr_body r))"

text \<open>The query of a BEP 17 request.\<close>

definition is_unreserved_byte :: "u8 \<Rightarrow> bool" where
  "is_unreserved_byte c \<longleftrightarrow> (65 \<le> c \<and> c \<le> 90) \<or> (97 \<le> c \<and> c \<le> 122) \<or> (48 \<le> c \<and> c \<le> 57) \<or>
     c = 45 \<or> c = 95 \<or> c = 46 \<or> c = 126"

definition url_hex_char :: "u8 \<Rightarrow> u8" where
  "url_hex_char b = (if b < 10 then 48 + b else 65 + b - 10)"

definition percent_encode_info_hash :: "bytes \<Rightarrow> bytes" where
  "percent_encode_info_hash hash =
     concat (map (\<lambda>b. if is_unreserved_byte b then [b]
                      else [37, url_hex_char (drop_bit 4 b), url_hex_char (b AND 0x0F)]) hash)"

definition httpseed_query :: "torrent \<Rightarrow> nat \<Rightarrow> bytes" where
  "httpseed_query t idx =
     str ''info_hash='' @ percent_encode_info_hash (t_info_hash t) @ str ''&piece='' @ itoa (int idx)"

text \<open>
  The value \<open>strconv.Atoi\<close> returns besides its error: 0 for a text that is no number, the
  nearest bound for a number out of range; digits are read until the number leaves 64 bits.
\<close>

primrec atoi_loop :: "nat \<Rightarrow> bytes \<Rightarrow> nat option" where
  "atoi_loop acc [] = Some acc"
| "atoi_loop acc (b # bs) =
     (if \<not> is_digit b then None
      else
        let v = 10 * acc + (unat b - 48)
        in if 2 ^ 64 \<le> v then Some v else atoi_loop v bs)"

definition atoi_value :: "bytes \<Rightarrow> int" where
  "atoi_value s =
     (let (neg, ds) =
        (case s of
           [] \<Rightarrow> (False, [])
         | b # bs \<Rightarrow> if b = 43 then (False, bs) else if b = 45 then (True, bs) else (False, s))
      in if ds = [] then 0
         else case atoi_loop 0 ds of
           None \<Rightarrow> 0
         | Some v \<Rightarrow>
             if \<not> neg \<and> 2 ^ 63 \<le> v then 2 ^ 63 - 1
             else if neg \<and> 2 ^ 63 < v then - (2 ^ 63)
             else if neg then - int v else int v)"

text \<open>The wait in nanoseconds that a 503 asks for.\<close>

definition retry_wait :: "bytes \<Rightarrow> int" where
  "retry_wait body = (let secs = atoi_value body; secs = (if secs \<le> 0 then 30 else secs) in wrap64 (secs * 10 ^ 9))"

definition httpseed_fetch :: "torrent \<Rightarrow> nat \<Rightarrow> http_response res \<Rightarrow> fetch_error + bytes" where
  "httpseed_fetch t idx resp =
     (case resp of
        Inl _ \<Rightarrow> Inl Fetch_Failed
      | Inr r \<Rightarrow>
          if hr_status r = 503
          then Inl (Retry_After (retry_wait (hr_body r)))
          else if hr_status r \<noteq> 200 then Inl Fetch_Failed
          else if \<not> hr_complete r then Inl Fetch_Failed
          else if int (length (hr_body r)) \<noteq> piece_len t (int idx) then Inl Fetch_Failed
          else Inr (hr_body r))"

text \<open>The pause before the next pick, in nanoseconds (\<open>retryAfter\<close>).\<close>

definition back_off :: "fetch_error \<Rightarrow> int" where
  "back_off e = (case e of Retry_After wait \<Rightarrow> wait | Fetch_Failed \<Rightarrow> 2 * 10 ^ 9)"

section \<open>The worker\<close>

datatype web_state = Web_Idle | Web_Fetching nat | Web_Reporting piece_result | Web_Stopped

record web_worker =
  w_url :: bytes
  w_http_seed :: bool
  w_state :: web_state
  w_bytes :: int

definition web_fetch :: "web_worker \<Rightarrow> torrent \<Rightarrow> nat \<Rightarrow> http_response res \<Rightarrow> fetch_error + bytes" where
  "web_fetch w t idx resp = (if w_http_seed w then httpseed_fetch t idx resp else webseed_fetch t idx resp)"

definition full_bitfield :: "torrent \<Rightarrow> bytes" where
  "full_bitfield t = (case make_full_bitfield (length (t_pieces t)) of None \<Rightarrow> [] | Some bf \<Rightarrow> bf)"

text \<open>What the loop does with the outcome of a fetch.\<close>

definition web_outcome ::
  "(bytes \<Rightarrow> bytes) \<Rightarrow> torrent \<Rightarrow> web_worker \<Rightarrow> nat \<Rightarrow> fetch_error + bytes \<Rightarrow> picker \<Rightarrow> picker \<times> piece_result" where
  "web_outcome sha1 t w idx out pk =
     (case out of
        Inl _ \<Rightarrow> (abort pk idx, Failed idx)
      | Inr data \<Rightarrow>
          if sha1 data \<noteq> t_pieces t ! idx then (abort pk idx, Failed idx)
          else (finish pk idx, Got idx data (w_url w)))"

inductive web_step ::
  "(bytes \<Rightarrow> bytes) \<Rightarrow> torrent \<Rightarrow> picker \<times> piece_result list \<times> web_worker \<Rightarrow>
     picker \<times> piece_result list \<times> web_worker \<Rightarrow> bool" for sha1 t where
  web_pick: "w_state w = Web_Idle \<Longrightarrow> pick rnd pk (full_bitfield t) = (pk', Some i) \<Longrightarrow>
    web_step sha1 t (pk, rs, w) (pk', rs, w\<lparr>w_state := Web_Fetching i\<rparr>)"
| web_pick_none: "w_state w = Web_Idle \<Longrightarrow> pick rnd pk (full_bitfield t) = (pk', None) \<Longrightarrow>
    web_step sha1 t (pk, rs, w) (remove_peer_bits pk' (full_bitfield t), rs, w\<lparr>w_state := Web_Stopped\<rparr>)"
| web_cancel: "w_state w = Web_Idle \<Longrightarrow>
    web_step sha1 t (pk, rs, w) (remove_peer_bits pk (full_bitfield t), rs, w\<lparr>w_state := Web_Stopped\<rparr>)"
| web_fetched: "w_state w = Web_Fetching i \<Longrightarrow> web_fetch w t i resp = out \<Longrightarrow>
    web_outcome sha1 t w i out pk = (pk', r) \<Longrightarrow>
    web_step sha1 t (pk, rs, w)
      (pk', rs, w\<lparr>w_state := Web_Reporting r, w_bytes := w_bytes w + (case out of Inr data \<Rightarrow> int (length data) | Inl _ \<Rightarrow> 0)\<rparr>)"
| web_report: "w_state w = Web_Reporting r \<Longrightarrow> length rs < length (t_pieces t) \<Longrightarrow>
    web_step sha1 t (pk, rs, w) (pk, rs @ [r], w\<lparr>w_state := Web_Idle\<rparr>)"

section \<open>Requests read back\<close>

lemma url_hex_char_upper: "v < 16 \<Longrightarrow> url_hex_char v = upper_hex v"
  by (simp add: url_hex_char_def upper_hex_def)

lemma percent_encode_raw:
  "percent_encode_info_hash h = concat (map (\<lambda>c. if unreserved c then [c] else percent c) h)"
proof -
  have "is_unreserved_byte c = unreserved c" for c by (simp add: is_unreserved_byte_def unreserved_def)
  then show ?thesis
    by (simp add: percent_encode_info_hash_def percent_def url_hex_char_upper nibble_high nibble_low
        cong: if_cong)
qed

lemma query_unescape_plain: "\<forall>c \<in> set s. unreserved c \<Longrightarrow> query_unescape s = Some s"
  by (induction s) (auto dest: unreserved_neq)

lemma escaped_pair_number: "escaped_pair (str ''piece'' @ [61] @ itoa (int i)) (str ''piece'', itoa (int i))"
proof -
  have u: "\<forall>c \<in> set (itoa (int i)). unreserved c"
    using set_dec_digits by (auto simp: itoa_def unreserved_def is_digit_def)
  then have "query_unescape (itoa (int i)) = Some (itoa (int i))" by (rule query_unescape_plain)
  moreover have "\<forall>x \<in> set (str ''piece'' @ itoa (int i)). x \<noteq> 38 \<and> x \<noteq> 61 \<and> x \<noteq> 59"
  proof -
    have "\<forall>x \<in> set (str ''piece''). x \<noteq> 38 \<and> x \<noteq> 61 \<and> x \<noteq> 59" by simp
    then show ?thesis using u unreserved_neq by (simp only: set_append ball_Un) blast
  qed
  ultimately show ?thesis
    unfolding escaped_pair_def by (intro exI [of _ "str ''piece''"] exI [of _ "itoa (int i)"]) simp
qed

text \<open>
  A BEP 17 request names the torrent's info hash and the piece: parsed as a query, it holds
  these two values, whatever the bytes of the hash.
\<close>
theorem httpseed_query_values:
  "parse_query (httpseed_query t idx) =
     Inr [(str ''info_hash'', t_info_hash t), (str ''piece'', itoa (int idx))]"
proof -
  let ?ps = "[str ''info_hash'' @ [61] @ percent_encode_info_hash (t_info_hash t), str ''piece'' @ [61] @ itoa (int idx)]"
  let ?vs = "[(str ''info_hash'', t_info_hash t), (str ''piece'', itoa (int idx))]"
  have "escaped_pair (str ''info_hash'' @ [61] @ percent_encode_info_hash (t_info_hash t))
      (str ''info_hash'', t_info_hash t)"
    unfolding percent_encode_raw by (rule escaped_pair_raw) simp_all
  then have "list_all2 escaped_pair ?ps ?vs" using escaped_pair_number by blast
  from parse_query_join [OF this] show ?thesis by (simp add: httpseed_query_def)
qed

text \<open>
  A body that is a huge number makes the wait negative: the worker asks again at once.
\<close>

lemma retry_wait_wraps: "retry_wait (str ''9223372036854775807'') = - 1000000000"
  by (simp add: retry_wait_def atoi_value_def is_digit_def Let_def wrap64_def)

end
