(* ===== verification/Download.thy ===== *)
theory Download
  imports WebSeed
begin

text \<open>
  A whole download (\<open>download/session.go\<close>): the workers of peers and HTTP seeds share one
  picker and one channel of results, and the collector writes verified pieces to the output
  file. The steps interleave freely.
\<close>

section \<open>The download\<close>

datatype worker = Peer_Worker session | Web_Worker web_worker

record download =
  d_picker :: picker
  d_results :: "piece_result list"
  d_workers :: "worker list"
  d_file :: bytes
  d_completed :: nat

definition new_download :: "torrent \<Rightarrow> download" where
  "new_download t =
     \<lparr>d_picker = new_picker (length (t_pieces t)), d_results = [], d_workers = [],
      d_file = replicate (nat (total_length t)) 0, d_completed = 0\<rparr>"

text \<open>One turn of the collecting loop: a failed result is dropped, a piece is written at its offset.\<close>

definition collect :: "torrent \<Rightarrow> piece_result \<Rightarrow> download \<Rightarrow> download" where
  "collect t r d =
     (case r of
        Failed _ \<Rightarrow> d
      | Got i data _ \<Rightarrow>
          d\<lparr>d_file := copy_at (d_file d) (nat (wrap64 (int i * t_piece_length t))) data,
            d_completed := d_completed d + 1\<rparr>)"

text \<open>\<open>File\<close> reports success when as many results were written as there are pieces.\<close>

definition download_done :: "torrent \<Rightarrow> download \<Rightarrow> bool" where
  "download_done t d \<longleftrightarrow> d_completed d = length (t_pieces t)"

inductive download_step :: "(bytes \<Rightarrow> bytes) \<Rightarrow> torrent \<Rightarrow> download \<Rightarrow> download \<Rightarrow> bool" for sha1 t where
  start_peer:
    "0 < max_active \<Longrightarrow> download_step sha1 t d
       (d\<lparr>d_picker := add_peer_bits (d_picker d) bf,
          d_workers := d_workers d @ [Peer_Worker (new_session addr bf max_active)]\<rparr>)"
| start_web:
    "download_step sha1 t d
       (d\<lparr>d_picker := add_peer_bits (d_picker d) (full_bitfield t),
          d_workers := d_workers d @ [Web_Worker \<lparr>w_url = url, w_http_seed = hs, w_state = Web_Idle, w_bytes = 0\<rparr>]\<rparr>)"
| peer_moves:
    "k < length (d_workers d) \<Longrightarrow> d_workers d ! k = Peer_Worker s \<Longrightarrow>
     session_step sha1 t (d_picker d, d_results d, s) (pk', rs', s') \<Longrightarrow>
     download_step sha1 t d
       (d\<lparr>d_picker := pk', d_results := rs', d_workers := (d_workers d)[k := Peer_Worker s']\<rparr>)"
| web_moves:
    "k < length (d_workers d) \<Longrightarrow> d_workers d ! k = Web_Worker w \<Longrightarrow>
     web_step sha1 t (d_picker d, d_results d, w) (pk', rs', w') \<Longrightarrow>
     download_step sha1 t d
       (d\<lparr>d_picker := pk', d_results := rs', d_workers := (d_workers d)[k := Web_Worker w']\<rparr>)"
| collects:
    "\<not> download_done t d \<Longrightarrow> d_results d = r # rs \<Longrightarrow>
     download_step sha1 t d (collect t r (d\<lparr>d_results := rs\<rparr>))"

inductive reach :: "(bytes \<Rightarrow> bytes) \<Rightarrow> torrent \<Rightarrow> download \<Rightarrow> bool" for sha1 t where
  init: "reach sha1 t (new_download t)"
| step: "reach sha1 t d \<Longrightarrow> download_step sha1 t d d' \<Longrightarrow> reach sha1 t d'"

section \<open>What a pick does\<close>

lemma foldl_scan_subset:
  "set (snd (foldl (scan_step p bf) s is)) \<subseteq> set (snd s) \<union> {i \<in> set is. \<not> pk_done p ! i \<and> (pk_inflight p ! i \<longrightarrow> pk_endgame p)}"
proof (induction "is" arbitrary: s)
  case (Cons k "is")
  have "set (snd (scan_step p bf s k)) \<subseteq> set (snd s) \<union> {i \<in> {k}. \<not> pk_done p ! i \<and> (pk_inflight p ! i \<longrightarrow> pk_endgame p)}"
    by (auto simp: scan_step_def Let_def)
  then show ?case using Cons.IH [of "scan_step p bf s k"] by auto
qed simp

text \<open>A pick of a piece: it is missing, and in flight before only when endgame has begun.\<close>

lemma pick_someD:
  assumes "pick rnd p bf = (p', Some i)" "picker_ok p"
  shows "i < pk_num p" "\<not> pk_done p ! i" "pk_num p' = pk_num p" "pk_done p' = pk_done p"
    "pk_inflight p' = (pk_inflight p)[i := True]" "pk_endgame p \<Longrightarrow> pk_endgame p'"
    "\<not> pk_endgame p' \<Longrightarrow> \<not> pk_inflight p ! i" "picker_ok p'"
proof -
  have "(i < pk_num p \<and> \<not> pk_done p ! i \<and> pk_num p' = pk_num p \<and> pk_done p' = pk_done p \<and>
    pk_inflight p' = (pk_inflight p)[i := True] \<and> (pk_endgame p \<longrightarrow> pk_endgame p') \<and>
    (\<not> pk_endgame p' \<longrightarrow> \<not> pk_inflight p ! i)) \<and> pk_freq p' = pk_freq p"
  proof (cases "pick_candidates p bf = []")
    case False
    then have "i \<in> set (pick_candidates p bf)" "p' = p\<lparr>pk_inflight := (pk_inflight p)[i := True]\<rparr>"
      using assms(1) nth_mod_mem [OF False, of rnd] by (auto simp: pick_def Let_def)
    then show ?thesis
      using foldl_scan_subset [of p bf "(max_int, [])" "[0..<pk_num p]"] by (auto simp: pick_candidates_def)
  next
    case True
    let ?p = "p\<lparr>pk_endgame := True\<rparr>"
    have p': "p' = ?p" "endgame_candidates ?p bf \<noteq> []"
      "i = endgame_candidates ?p bf ! (rnd mod length (endgame_candidates ?p bf))"
      using True assms(1) by (auto simp: pick_def pick_endgame_def Let_def split: if_splits)
    then have "i \<in> set (endgame_candidates ?p bf)" using nth_mod_mem by metis
    then have "i < pk_num p" "\<not> pk_done p ! i" "pk_inflight p ! i"
      by (simp_all add: set_endgame_candidates)
    moreover from this have "(pk_inflight p)[i := True] = pk_inflight p"
      by (metis list_update_id)
    ultimately show ?thesis by (simp add: p'(1))
  qed
  then show "i < pk_num p" "\<not> pk_done p ! i" "pk_num p' = pk_num p" "pk_done p' = pk_done p"
    "pk_inflight p' = (pk_inflight p)[i := True]" "pk_endgame p \<Longrightarrow> pk_endgame p'"
    "\<not> pk_endgame p' \<Longrightarrow> \<not> pk_inflight p ! i" "picker_ok p'"
    using assms(2) by (auto simp: picker_ok_def nth_update_if)
qed

lemma pick_noneD:
  assumes "pick rnd p bf = (p', None)"
  shows "\<exists>e. p' = p\<lparr>pk_endgame := e\<rparr> \<and> (pk_endgame p \<longrightarrow> e)"
  using assms by (auto simp: pick_def pick_endgame_def Let_def split: if_splits
      intro: exI [of _ True] exI [of _ "pk_endgame p"])

section \<open>What every worker keeps\<close>

definition good_result :: "(bytes \<Rightarrow> bytes) \<Rightarrow> torrent \<Rightarrow> piece_result \<Rightarrow> bool" where
  "good_result sha1 t r =
     (case r of
        Got i data _ \<Rightarrow> i < length (t_pieces t) \<and> length data = plen t i \<and> sha1 data = t_pieces t ! i
      | Failed _ \<Rightarrow> True)"

definition job_ok :: "torrent \<Rightarrow> job \<Rightarrow> bool" where
  "job_ok t j \<longleftrightarrow> j_index j < length (t_pieces t) \<and> length (j_buf j) = plen t (j_index j) \<and>
     j_hash j = t_pieces t ! j_index j"

definition peer_ok :: "(bytes \<Rightarrow> bytes) \<Rightarrow> torrent \<Rightarrow> session \<Rightarrow> bool" where
  "peer_ok sha1 t s \<longleftrightarrow>
     (\<forall>i. s_sender s = Requesting i \<or> s_sender s = Queueing i \<longrightarrow> i < length (t_pieces t)) \<and>
     (\<forall>j \<in> set (s_jobs s). job_ok t j) \<and>
     (\<forall>i j. s_active s i = Some j \<longrightarrow> job_ok t j \<and> j_index j = i) \<and>
     (\<forall>i. s_reader s = Complete i \<or> s_reader s = Verifying i \<longrightarrow> s_active s i \<noteq> None) \<and>
     (\<forall>r. s_reader s = Reporting r \<longrightarrow> good_result sha1 t r \<and> s_active s (result_index r) \<noteq> None) \<and>
     0 < s_max_active s \<and> (s_reader s = Ended \<longrightarrow> s_sender s = Stopped)"

definition web_ok :: "(bytes \<Rightarrow> bytes) \<Rightarrow> torrent \<Rightarrow> web_worker \<Rightarrow> bool" where
  "web_ok sha1 t w \<longleftrightarrow>
     (\<forall>i. w_state w = Web_Fetching i \<longrightarrow> i < length (t_pieces t)) \<and>
     (\<forall>r. w_state w = Web_Reporting r \<longrightarrow> good_result sha1 t r)"

fun worker_ok :: "(bytes \<Rightarrow> bytes) \<Rightarrow> torrent \<Rightarrow> worker \<Rightarrow> bool" where
  "worker_ok sha1 t (Peer_Worker s) = peer_ok sha1 t s"
| "worker_ok sha1 t (Web_Worker w) = web_ok sha1 t w"

text \<open>The result that a worker is about to send, and how often it holds a reserved piece.\<close>

fun reporting :: "worker \<Rightarrow> piece_result option" where
  "reporting (Peer_Worker s) = (case s_reader s of Reporting r \<Rightarrow> Some r | _ \<Rightarrow> None)"
| "reporting (Web_Worker w) = (case w_state w of Web_Reporting r \<Rightarrow> Some r | _ \<Rightarrow> None)"

definition peer_held :: "session \<Rightarrow> nat \<Rightarrow> nat" where
  "peer_held s i =
     (if s_sender s = Requesting i \<or> s_sender s = Queueing i then 1 else 0) +
     length (filter (\<lambda>j. j_index j = i) (s_jobs s)) +
     (if s_active s i \<noteq> None \<and> (\<forall>r. s_reader s = Reporting r \<longrightarrow> result_index r \<noteq> i) then 1 else 0)"

fun held :: "worker \<Rightarrow> nat \<Rightarrow> nat" where
  "held (Peer_Worker s) i = peer_held s i"
| "held (Web_Worker w) i = (if w_state w = Web_Fetching i then 1 else 0)"

definition is_got :: "piece_result \<Rightarrow> bool" where
  "is_got r = (case r of Got _ _ _ \<Rightarrow> True | Failed _ \<Rightarrow> False)"

definition gots :: "piece_result list \<Rightarrow> nat" where
  "gots rs = length (filter is_got rs)"

definition about_to_report :: "worker \<Rightarrow> nat" where
  "about_to_report w = (case reporting w of Some r \<Rightarrow> if is_got r then 1 else 0 | None \<Rightarrow> 0)"

definition done_count :: "picker \<Rightarrow> nat" where
  "done_count p = length (filter (\<lambda>d. d) (pk_done p))"

lemma done_count_finish:
  "i < length (pk_done p) \<Longrightarrow> \<not> pk_done p ! i \<Longrightarrow> done_count (finish p i) = done_count p + 1"
proof -
  assume a: "i < length (pk_done p)" "\<not> pk_done p ! i"
  have "length (filter (\<lambda>d. d) (xs[i := True])) = length (filter (\<lambda>d. d) xs) + 1"
    if "i < length xs" "\<not> xs ! i" for xs
    using that by (induction xs arbitrary: i) (auto split: nat.splits)
  then show ?thesis using a by (simp add: done_count_def finish_def)
qed

lemma done_count_abort [simp]: "done_count (abort p i) = done_count p"
  by (simp add: done_count_def abort_def)

section \<open>What every move of a worker does\<close>

abbreviation flag :: "bool \<Rightarrow> nat" where
  "flag b \<equiv> if b then 1 else 0"

text \<open>Reserved pieces are handed on, and before endgame one piece has one holder.\<close>

definition exclusive :: "torrent \<Rightarrow> picker \<Rightarrow> worker \<Rightarrow> bool" where
  "exclusive t pk w \<longleftrightarrow> (\<forall>i < length (t_pieces t). held w i \<le> flag (pk_inflight pk ! i))"

definition sound_move ::
  "(bytes \<Rightarrow> bytes) \<Rightarrow> torrent \<Rightarrow> picker \<times> piece_result list \<times> worker \<Rightarrow> picker \<times> piece_result list \<times> worker \<Rightarrow> bool" where
  "sound_move sha1 t c c' \<longleftrightarrow>
     (case (c, c') of ((pk, rs, w), (pk', rs', w')) \<Rightarrow>
        worker_ok sha1 t w' \<and> picker_ok pk' \<and> pk_num pk' = pk_num pk \<and>
        (pk_endgame pk \<longrightarrow> pk_endgame pk') \<and>
        set rs \<subseteq> set rs' \<and> (\<forall>r \<in> set rs'. r \<in> set rs \<or> good_result sha1 t r) \<and>
        (\<forall>i < pk_num pk. pk_done pk' ! i \<longrightarrow>
           pk_done pk ! i \<or> (\<exists>data a. reporting w' = Some (Got i data a))) \<and>
        (\<forall>r. reporting w = Some r \<longrightarrow> reporting w' = Some r \<or> r \<in> set rs') \<and>
        (\<not> pk_endgame pk' \<and> exclusive t pk w \<longrightarrow>
           (\<forall>i < pk_num pk. held w' i + flag (pk_inflight pk ! i) = held w i + flag (pk_inflight pk' ! i)) \<and>
           gots rs' + about_to_report w' + done_count pk = gots rs + about_to_report w + done_count pk'))"

lemma picker_ok_endgame [simp]: "picker_ok (p\<lparr>pk_endgame := e\<rparr>) = picker_ok p"
  by (simp add: picker_ok_def)

lemma picker_ok_remove [simp]: "picker_ok p \<Longrightarrow> picker_ok (remove_peer_bits p bf)"
  by (simp add: picker_ok_def remove_peer_bits_def)

lemma picker_ok_add [simp]: "picker_ok p \<Longrightarrow> picker_ok (add_peer_bits p bf)"
  by (simp add: picker_ok_def add_peer_bits_def)

lemma remove_peer_fields [simp]:
  "pk_num (remove_peer_bits p bf) = pk_num p" "pk_done (remove_peer_bits p bf) = pk_done p"
  "pk_inflight (remove_peer_bits p bf) = pk_inflight p" "pk_endgame (remove_peer_bits p bf) = pk_endgame p"
  by (simp_all add: remove_peer_bits_def)

lemma add_peer_fields [simp]:
  "pk_num (add_peer_bits p bf) = pk_num p" "pk_done (add_peer_bits p bf) = pk_done p"
  "pk_inflight (add_peer_bits p bf) = pk_inflight p" "pk_endgame (add_peer_bits p bf) = pk_endgame p"
  by (simp_all add: add_peer_bits_def)

lemma done_count_same [simp]:
  "done_count (remove_peer_bits p bf) = done_count p" "done_count (add_peer_bits p bf) = done_count p"
  "done_count (p\<lparr>pk_endgame := e\<rparr>) = done_count p"
  by (simp_all add: done_count_def)

text \<open>Moves that leave the picker alone or only rearrange what the worker holds.\<close>

lemma sound_local:
  assumes "worker_ok sha1 t w'" "picker_ok pk" "pk_num pk = length (t_pieces t)"
    and "reporting w' = reporting w" and "exclusive t pk w \<Longrightarrow> \<forall>i < length (t_pieces t). held w' i = held w i"
  shows "sound_move sha1 t (pk, rs, w) (pk, rs, w')"
  using assms by (auto simp: sound_move_def about_to_report_def)

text \<open>Moves that give a held piece back.\<close>

lemma sound_abort:
  assumes "worker_ok sha1 t w'" "picker_ok pk" "pk_num pk = length (t_pieces t)" "k < pk_num pk"
    and "reporting w' = reporting w \<or> reporting w = None \<and> reporting w' = Some (Failed k)"
    and "exclusive t pk w \<Longrightarrow> held w k = held w' k + 1 \<and> (\<forall>i < length (t_pieces t). i \<noteq> k \<longrightarrow> held w' i = held w i)"
  shows "sound_move sha1 t (pk, rs, w) (abort pk k, rs, w')"
proof -
  have len: "length (pk_inflight pk) = pk_num pk" using assms(2) by (simp add: picker_ok_def)
  have "held w' i + flag (pk_inflight pk ! i) = held w i + flag (pk_inflight (abort pk k) ! i)"
    if ex: "exclusive t pk w" and i: "i < pk_num pk" for i
  proof (cases "i = k")
    case True
    then have "pk_inflight pk ! k"
      using ex assms(3,4,6) by (fastforce simp: exclusive_def split: if_splits)
    then show ?thesis using assms(6) ex len i True by (simp add: abort_def)
  next
    case False
    then show ?thesis using assms(3,6) ex i by (simp add: abort_def)
  qed
  then show ?thesis
    using assms(1,2,5) abort_ok [OF assms(2), of k]
    by (auto simp: sound_move_def abort_def about_to_report_def is_got_def done_count_def)
qed

text \<open>A verified piece is finished and about to be reported.\<close>

lemma sound_finish:
  assumes "worker_ok sha1 t w'" "picker_ok pk" "pk_num pk = length (t_pieces t)" "k < pk_num pk"
    and "reporting w = None" "reporting w' = Some (Got k data a)"
    and "exclusive t pk w \<Longrightarrow> held w k = held w' k + 1 \<and> (\<forall>i < length (t_pieces t). i \<noteq> k \<longrightarrow> held w' i = held w i)"
  shows "sound_move sha1 t (pk, rs, w) (finish pk k, rs, w')"
proof -
  have len: "length (pk_inflight pk) = pk_num pk" "length (pk_done pk) = pk_num pk"
    using assms(2) by (simp_all add: picker_ok_def)
  have fl: "pk_inflight pk ! k" if "exclusive t pk w"
    using that assms(3,4,7) by (fastforce simp: exclusive_def split: if_splits)
  have "held w' i + flag (pk_inflight pk ! i) = held w i + flag (pk_inflight (finish pk k) ! i)"
    if ex: "exclusive t pk w" and i: "i < pk_num pk" for i
    using assms(3,7) ex len i fl [OF ex] by (cases "i = k") (simp_all add: finish_def)
  moreover have "done_count (finish pk k) = done_count pk + 1" if "exclusive t pk w"
    using fl [OF that] assms(2,4) len by (intro done_count_finish) (auto simp: picker_ok_def)
  ultimately show ?thesis
    using assms(1,2,5,6) finish_ok [OF assms(2), of k]
    by (auto simp: sound_move_def about_to_report_def is_got_def finish_def nth_update_if split: if_splits)
qed

lemma sound_pick:
  assumes "worker_ok sha1 t w'" "picker_ok pk" "pk_num pk = length (t_pieces t)" "pick rnd pk bf = (pk', Some k)"
    and "reporting w' = reporting w"
    and "\<forall>i < length (t_pieces t). held w' i = held w i + flag (i = k)"
  shows "sound_move sha1 t (pk, rs, w) (pk', rs, w')"
proof -
  note p = pick_someD [OF assms(4,2)]
  have len: "length (pk_inflight pk) = pk_num pk" using assms(2) by (simp add: picker_ok_def)
  have "held w' i + flag (pk_inflight pk ! i) = held w i + flag (pk_inflight pk' ! i)"
    if "\<not> pk_endgame pk'" "i < pk_num pk" for i
    using that p(1,5,7) len assms(3,6) by (auto simp: nth_update_if)
  then show ?thesis
    using assms(1,5) p by (auto simp: sound_move_def about_to_report_def done_count_def)
qed

lemma sound_pick_none:
  assumes "worker_ok sha1 t w'" "picker_ok pk" "pk_num pk = length (t_pieces t)" "pick rnd pk bf = (pk', None)"
    and "reporting w' = reporting w" "\<forall>i < length (t_pieces t). held w' i = held w i"
  shows "sound_move sha1 t (pk, rs, w) (pk', rs, w')"
  using assms pick_noneD [OF assms(4)] by (auto simp: sound_move_def about_to_report_def)

lemma sound_remove:
  assumes "worker_ok sha1 t w'" "picker_ok pk" "pk_num pk = length (t_pieces t)"
    and "reporting w' = None" "reporting w = None" "\<forall>i < length (t_pieces t). held w' i = held w i"
  shows "sound_move sha1 t (pk, rs, w) (remove_peer_bits pk bf, rs, w')"
  using assms by (auto simp: sound_move_def about_to_report_def)

lemma sound_report:
  assumes "worker_ok sha1 t w'" "picker_ok pk" "pk_num pk = length (t_pieces t)"
    and "reporting w = Some r" "good_result sha1 t r" "reporting w' = None"
    and "\<forall>i < length (t_pieces t). held w' i = held w i"
  shows "sound_move sha1 t (pk, rs, w) (pk, rs @ [r], w')"
  using assms by (auto simp: sound_move_def about_to_report_def gots_def)

lemma copy_at_length: "\<not> length buf < off + length b \<Longrightarrow> length (copy_at buf off b) = length buf"
  by simp

text \<open>A message never changes what is held; a block keeps its job well formed.\<close>

lemma receive_piece_keeps:
  assumes "peer_ok sha1 t s" "s_reader s = Reading"
  shows "peer_ok sha1 t (receive_piece payload s) \<and> peer_held (receive_piece payload s) i = peer_held s i \<and>
    reporting (Peer_Worker (receive_piece payload s)) = None"
proof (cases "parse_piece payload")
  case (Inl e)
  then show ?thesis using assms by (auto simp: receive_piece_def peer_ok_def peer_held_def)
next
  case (Inr pp)
  let ?k = "unat (pp_index pp)"
  show ?thesis
  proof (cases "s_active s ?k")
    case None
    then show ?thesis using Inr assms by (simp add: receive_piece_def)
  next
    case (Some j)
    then have "job_ok t j" "j_index j = ?k" using assms by (auto simp: peer_ok_def)
    then show ?thesis
      using Inr Some assms
      by (auto simp: receive_piece_def peer_ok_def peer_held_def Let_def job_ok_def)
  qed
qed

lemma reader_message_keeps:
  assumes "peer_ok sha1 t s" "s_reader s = Reading"
  shows "peer_ok sha1 t (reader_message m s)" "peer_held (reader_message m s) i = peer_held s i"
    "reporting (Peer_Worker (reader_message m s)) = None"
proof -
  have "peer_ok sha1 t (s\<lparr>s_reader := Draining\<rparr>)" "peer_held (s\<lparr>s_reader := Draining\<rparr>) i = peer_held s i"
    using assms by (auto simp: peer_ok_def peer_held_def)
  then show "peer_ok sha1 t (reader_message m s)" "peer_held (reader_message m s) i = peer_held s i"
    "reporting (Peer_Worker (reader_message m s)) = None"
    using assms receive_piece_keeps [OF assms] by (auto simp: reader_message_def split: option.splits)
qed

lemma new_job_ok: "well_sized t \<Longrightarrow> i < length (t_pieces t) \<Longrightarrow> job_ok t (new_job t i)"
  by (simp add: job_ok_def new_job_def)

lemma held_pos_inflight:
  assumes "exclusive t pk w" "i < length (t_pieces t)" "0 < held w i"
  shows "pk_inflight pk ! i" "held w i = 1"
  using assms by (fastforce simp: exclusive_def split: if_splits)+

lemma session_sound:
  assumes "session_step sha1 t (pk, rs, s) (pk', rs', s')" "well_sized t"
    and ok: "picker_ok pk" "pk_num pk = length (t_pieces t)" "peer_ok sha1 t s"
  shows "sound_move sha1 t (pk, rs, Peer_Worker s) (pk', rs', Peer_Worker s')"
  using assms(1)
proof (cases rule: session_step.cases)
  case (pick_some rnd i)
  then have "i < length (t_pieces t)" using pick_someD(1) [OF pick_some(4) ok(1)] ok(2) by simp
  then show ?thesis
    unfolding pick_some(2) pick_some(1) using ok pick_some(3,4)
    by (intro sound_pick [OF _ ok(1,2) pick_some(4)]) (auto simp: peer_ok_def peer_held_def)
next
  case (pick_none rnd)
  then show ?thesis
    unfolding pick_none(2) pick_none(1) using ok
    by (intro sound_pick_none [OF _ ok(1,2) pick_none(4)]) (auto simp: peer_ok_def peer_held_def)
next
  case (request i)
  then show ?thesis using ok by (auto intro!: sound_local simp: peer_ok_def peer_held_def)
next
  case (write_error i)
  moreover have "i < pk_num pk" using write_error ok by (auto simp: peer_ok_def)
  ultimately show ?thesis using ok by (auto intro!: sound_abort simp: peer_ok_def peer_held_def)
next
  case (enqueue i)
  moreover have "job_ok t (new_job t i)" "j_index (new_job t i) = i"
    using enqueue ok assms(2) by (auto simp: peer_ok_def new_job_ok) (simp add: new_job_def)
  ultimately show ?thesis using ok by (auto intro!: sound_local simp: peer_ok_def peer_held_def)
next
  case (take_job j js)
  have j: "job_ok t j" "j_index j < length (t_pieces t)" using take_job ok by (auto simp: peer_ok_def job_ok_def)
  have none: "s_active s (j_index j) = None" if "exclusive t pk (Peer_Worker s)"
  proof (rule ccontr)
    assume "s_active s (j_index j) \<noteq> None"
    then have "2 \<le> held (Peer_Worker s) (j_index j)" using take_job by (auto simp: peer_held_def)
    then show False using held_pos_inflight(2) [OF that j(2)] by simp
  qed
  show ?thesis
    unfolding take_job(1,2,3) using take_job(4,5) ok j none
    by (intro sound_local) (auto simp: peer_ok_def peer_held_def register_def)
next
  case (read m)
  then show ?thesis
    using ok reader_message_keeps [OF ok(3) read(4)] by (auto intro!: sound_local)
next
  case read_error
  then show ?thesis using ok by (auto intro!: sound_local simp: peer_ok_def peer_held_def)
next
  case (already_done i)
  have i: "i < length (t_pieces t)" "s_active s i \<noteq> None"
    using already_done ok by (auto simp: peer_ok_def job_ok_def)
  have False if ex: "exclusive t pk (Peer_Worker s)"
  proof -
    have "0 < held (Peer_Worker s) i" using already_done i by (simp add: peer_held_def)
    then have "pk_inflight pk ! i" using held_pos_inflight(1) [OF ex i(1)] by simp
    then show False using already_done(5) ok i(1) by (auto simp: is_done_def picker_ok_def)
  qed
  then show ?thesis
    unfolding already_done(1,2,3) using already_done(4) ok
    by (intro sound_local) (auto simp: peer_ok_def)
next
  case (not_done i)
  then show ?thesis using ok by (auto intro!: sound_local simp: peer_ok_def peer_held_def)
next
  case (verify i j r)
  have j: "job_ok t j" "j_index j = i" "i < length (t_pieces t)"
    using verify(4) ok by (auto simp: peer_ok_def job_ok_def)
  have h: "held (Peer_Worker s) i = held (Peer_Worker (s\<lparr>s_reader := Reporting r\<rparr>)) i + 1 \<and>
      (\<forall>k < length (t_pieces t). k \<noteq> i \<longrightarrow> held (Peer_Worker (s\<lparr>s_reader := Reporting r\<rparr>)) k = held (Peer_Worker s) k)"
    if "result_index r = i" for r using that verify(3,4) by (auto simp: peer_held_def)
  show ?thesis
  proof (cases "sha1 (j_buf j) = j_hash j")
    case True
    then have r: "pk' = finish pk i" "r = Got i (j_buf j) (s_addr s)"
      using verify(5) j(2) by (simp_all add: verify_piece_def)
    then have g: "good_result sha1 t r" "result_index r = i" using True j by (simp_all add: good_result_def job_ok_def result_index_def)
    show ?thesis
      unfolding verify(1,2) r(1) using ok j(3) verify(3,4) r(2) g h [OF g(2)]
      by (intro sound_finish) (auto simp: peer_ok_def)
  next
    case False
    then have r: "pk' = abort pk i" "r = Failed i" using verify(5) j(2) by (simp_all add: verify_piece_def)
    then have g: "good_result sha1 t r" "result_index r = i" by (simp_all add: good_result_def result_index_def)
    show ?thesis
      unfolding verify(1,2) r(1) using ok j(3) verify(3,4) r(2) g h [OF g(2)]
      by (intro sound_abort) (auto simp: peer_ok_def)
  qed
next
  case (report r)
  then show ?thesis
    unfolding report(1,2,3) using ok
    by (intro sound_report) (auto simp: peer_ok_def peer_held_def reported_def split: if_splits)
next
  case (abort_active i j)
  have j: "job_ok t j" "j_index j = i" "i < length (t_pieces t)"
    using abort_active ok by (auto simp: peer_ok_def job_ok_def)
  show ?thesis
    unfolding abort_active(1,2,3) j(2) using ok j(3) abort_active(4,5)
    by (intro sound_abort) (auto simp: peer_ok_def peer_held_def)
next
  case (abort_job j js)
  have j: "job_ok t j" "j_index j < length (t_pieces t)"
    using abort_job ok by (auto simp: peer_ok_def job_ok_def)
  show ?thesis
    unfolding abort_job(1,2,3) using ok j(2) abort_job(4,5,6)
    by (intro sound_abort) (auto simp: peer_ok_def peer_held_def)
next
  case ended
  then show ?thesis using ok by (auto intro!: sound_remove simp: peer_ok_def peer_held_def)
qed

lemma fetched_data:
  "web_fetch w t i resp = Inr data \<Longrightarrow> int (length data) = piece_len t (int i)"
  by (auto simp: web_fetch_def webseed_fetch_def httpseed_fetch_def split: sum.splits if_splits)

lemma web_sound:
  assumes "web_step sha1 t (pk, rs, w) (pk', rs', w')"
    and ok: "picker_ok pk" "pk_num pk = length (t_pieces t)" "web_ok sha1 t w"
  shows "sound_move sha1 t (pk, rs, Web_Worker w) (pk', rs', Web_Worker w')"
  using assms(1)
proof (cases rule: web_step.cases)
  case (web_pick rnd i)
  then have "i < length (t_pieces t)" using pick_someD(1) [OF web_pick(4) ok(1)] ok(2) by simp
  then show ?thesis
    unfolding web_pick(1,2) using ok web_pick(3,4)
    by (intro sound_pick [OF _ ok(1,2) web_pick(4)]) (auto simp: web_ok_def)
next
  case (web_pick_none rnd pk1)
  note p = pick_noneD [OF web_pick_none(5)]
  then show ?thesis
    unfolding web_pick_none(1,2,3) using ok web_pick_none(4)
    by (auto simp: sound_move_def about_to_report_def web_ok_def)
next
  case web_cancel
  then show ?thesis using ok by (auto intro!: sound_remove simp: web_ok_def)
next
  case (web_fetched i resp out r)
  have i: "i < pk_num pk" using web_fetched ok by (auto simp: web_ok_def)
  show ?thesis
  proof (cases "\<exists>data. out = Inr data \<and> sha1 data = t_pieces t ! i")
    case True
    then obtain data where d: "out = Inr data" "sha1 data = t_pieces t ! i" by blast
    have r: "pk' = finish pk i" "r = Got i data (w_url w)" using web_fetched(5) d by (simp_all add: web_outcome_def)
    have "int (length data) = piece_len t (int i)" using fetched_data web_fetched(4) d by blast
    then have g: "good_result sha1 t r" using r(2) d i ok(2) by (simp add: good_result_def)
    show ?thesis
      unfolding web_fetched(1,2) r(1) using ok i web_fetched(3) r(2) g
      by (intro sound_finish) (auto simp: web_ok_def)
  next
    case False
    then have r: "pk' = abort pk i" "r = Failed i"
      using web_fetched(5) by (auto simp: web_outcome_def split: sum.splits if_splits)
    show ?thesis
      unfolding web_fetched(1,2) r(1) using ok i web_fetched(3) r(2)
      by (intro sound_abort) (auto simp: web_ok_def good_result_def)
  qed
next
  case (web_report r)
  then show ?thesis
    unfolding web_report(1,2,3) using ok by (intro sound_report) (auto simp: web_ok_def)
qed

section \<open>The invariant\<close>

text \<open>The bytes of the file where piece \<open>i\<close> belongs have the expected hash.\<close>

definition on_disk :: "(bytes \<Rightarrow> bytes) \<Rightarrow> torrent \<Rightarrow> download \<Rightarrow> nat \<Rightarrow> bool" where
  "on_disk sha1 t d i \<longleftrightarrow>
     sha1 (slice (d_file d) (piece_start t i) (piece_start t i + plen t i)) = t_pieces t ! i"

text \<open>A finished piece that is still under way to the file.\<close>

definition under_way :: "download \<Rightarrow> nat \<Rightarrow> bool" where
  "under_way d i \<longleftrightarrow>
     (\<exists>data a. Got i data a \<in> set (d_results d) \<or> (\<exists>w \<in> set (d_workers d). reporting w = Some (Got i data a)))"

definition download_ok :: "(bytes \<Rightarrow> bytes) \<Rightarrow> torrent \<Rightarrow> download \<Rightarrow> bool" where
  "download_ok sha1 t d \<longleftrightarrow>
     picker_ok (d_picker d) \<and> pk_num (d_picker d) = length (t_pieces t) \<and>
     length (d_file d) = nat (total_length t) \<and>
     (\<forall>w \<in> set (d_workers d). worker_ok sha1 t w) \<and>
     (\<forall>r \<in> set (d_results d). good_result sha1 t r) \<and>
     (\<forall>i < length (t_pieces t). pk_done (d_picker d) ! i \<longrightarrow> on_disk sha1 t d i \<or> under_way d i) \<and>
     (\<not> pk_endgame (d_picker d) \<longrightarrow>
        (\<forall>i < length (t_pieces t). (\<Sum>w \<leftarrow> d_workers d. held w i) = flag (pk_inflight (d_picker d) ! i)) \<and>
        d_completed d + gots (d_results d) + (\<Sum>w \<leftarrow> d_workers d. about_to_report w) = done_count (d_picker d))"

lemma sum_list_replace:
  fixes f :: "'a \<Rightarrow> nat"
  assumes "k < length xs"
  shows "sum_list (map f (xs[k := y])) + f (xs ! k) = sum_list (map f xs) + f y"
  using assms by (induction xs arbitrary: k) (auto split: nat.splits)

lemma member_le_sum_list_map: "k < length xs \<Longrightarrow> f (xs ! k) \<le> (sum_list (map f xs) :: nat)"
  by (simp add: member_le_sum_list)

lemma set_update_split: "k < length xs \<Longrightarrow> x \<in> set xs \<Longrightarrow> x = xs ! k \<or> x \<in> set (xs[k := y])"
  by (metis in_set_conv_nth length_list_update nth_list_update_neq)

text \<open>A sound move of one worker keeps the invariant.\<close>

lemma download_ok_move:
  assumes ok: "download_ok sha1 t d" and k: "k < length (d_workers d)"
    and move: "sound_move sha1 t (d_picker d, d_results d, d_workers d ! k) (pk', rs', w')"
  shows "download_ok sha1 t (d\<lparr>d_picker := pk', d_results := rs', d_workers := (d_workers d)[k := w']\<rparr>)"
proof -
  let ?d = "d\<lparr>d_picker := pk', d_results := rs', d_workers := (d_workers d)[k := w']\<rparr>"
  let ?w = "d_workers d ! k" and ?n = "length (t_pieces t)" and ?pk = "d_picker d"
  note inv = ok [unfolded download_ok_def]
  have mv: "worker_ok sha1 t w'" "picker_ok pk'" "pk_num pk' = pk_num ?pk" "pk_endgame ?pk \<longrightarrow> pk_endgame pk'"
    "set (d_results d) \<subseteq> set rs'" "\<forall>r \<in> set rs'. r \<in> set (d_results d) \<or> good_result sha1 t r"
    "\<forall>i < pk_num ?pk. pk_done pk' ! i \<longrightarrow> pk_done ?pk ! i \<or> (\<exists>data a. reporting w' = Some (Got i data a))"
    "\<forall>r. reporting ?w = Some r \<longrightarrow> reporting w' = Some r \<or> r \<in> set rs'"
    and count: "\<not> pk_endgame pk' \<Longrightarrow> exclusive t ?pk ?w \<Longrightarrow>
      (\<forall>i < pk_num ?pk. held w' i + flag (pk_inflight ?pk ! i) = held ?w i + flag (pk_inflight pk' ! i)) \<and>
      gots rs' + about_to_report w' + done_count ?pk = gots (d_results d) + about_to_report ?w + done_count pk'"
    using move unfolding sound_move_def by simp_all
  have w': "w' \<in> set ((d_workers d)[k := w'])" using k by (simp add: set_update_memI)
  have under: "under_way ?d i" if "under_way d i" for i
  proof -
    obtain data a where "Got i data a \<in> set (d_results d) \<or> (\<exists>w \<in> set (d_workers d). reporting w = Some (Got i data a))"
      using \<open>under_way d i\<close> unfolding under_way_def by blast
    then have "Got i data a \<in> set rs' \<or> (\<exists>w \<in> set ((d_workers d)[k := w']). reporting w = Some (Got i data a))"
      using mv(5,8) w' set_update_split [OF k, of _ w'] by blast
    then show ?thesis unfolding under_way_def by auto
  qed
  have disk: "on_disk sha1 t ?d i = on_disk sha1 t d i" for i by (simp add: on_disk_def)
  have finished: "on_disk sha1 t ?d i \<or> under_way ?d i" if i: "i < ?n" "pk_done pk' ! i" for i
  proof (cases "pk_done ?pk ! i")
    case True
    then show ?thesis using inv i under disk by blast
  next
    case False
    then obtain data a where "reporting w' = Some (Got i data a)" using mv(7) i inv by auto
    then have "under_way ?d i" using w' unfolding under_way_def by auto
    then show ?thesis ..
  qed
  have sums: "(\<forall>i < ?n. (\<Sum>w \<leftarrow> (d_workers d)[k := w']. held w i) = flag (pk_inflight pk' ! i)) \<and>
      d_completed d + gots rs' + (\<Sum>w \<leftarrow> (d_workers d)[k := w']. about_to_report w) = done_count pk'"
    if e: "\<not> pk_endgame pk'"
  proof -
    have tot: "\<forall>i < ?n. (\<Sum>w \<leftarrow> d_workers d. held w i) = flag (pk_inflight ?pk ! i)"
      "d_completed d + gots (d_results d) + (\<Sum>w \<leftarrow> d_workers d. about_to_report w) = done_count ?pk"
      using e mv(4) inv by blast+
    have "exclusive t ?pk ?w"
      using tot(1) member_le_sum_list_map [OF k, of "\<lambda>w. held w _"] unfolding exclusive_def by metis
    note c = count [OF e this]
    show ?thesis
    proof (intro conjI allI impI)
      fix i assume i: "i < ?n"
      then have "i < pk_num ?pk" using inv by simp
      then have "held w' i + flag (pk_inflight ?pk ! i) = held ?w i + flag (pk_inflight pk' ! i)" using c by blast
      moreover have "(\<Sum>w \<leftarrow> d_workers d. held w i) = flag (pk_inflight ?pk ! i)" using tot(1) i by blast
      ultimately show "(\<Sum>w \<leftarrow> (d_workers d)[k := w']. held w i) = flag (pk_inflight pk' ! i)"
        using sum_list_replace [OF k, of "\<lambda>w. held w i" w'] by linarith
    next
      show "d_completed d + gots rs' + (\<Sum>w \<leftarrow> (d_workers d)[k := w']. about_to_report w) = done_count pk'"
        using c tot(2) sum_list_replace [OF k, of about_to_report w'] by linarith
    qed
  qed
  have "\<forall>w \<in> set ((d_workers d)[k := w']). worker_ok sha1 t w"
    using inv mv(1) set_update_subset_insert [of "d_workers d" k w'] by blast
  then show ?thesis
    using inv mv finished sums unfolding download_ok_def by auto
qed

lemma slice_copy_at_same:
  "off + length b \<le> length buf \<Longrightarrow> slice (copy_at buf off b) off (off + length b) = b"
  by (rule nth_equalityI) (simp_all add: slice_def nth_copy_at)

lemma slice_copy_at_other:
  assumes "off + length b \<le> length buf" "stop \<le> length buf" "stop \<le> off \<or> off + length b \<le> start"
  shows "slice (copy_at buf off b) start stop = slice buf start stop"
  using assms by (intro nth_equalityI) (auto simp: slice_def nth_copy_at)

lemma download_ok_collect:
  assumes ok: "download_ok sha1 t d" and ws: "well_sized t" and r: "d_results d = r # rs"
  shows "download_ok sha1 t (collect t r (d\<lparr>d_results := rs\<rparr>))"
proof (cases r)
  case (Failed i)
  have "on_disk sha1 t (d\<lparr>d_results := rs\<rparr>) k = on_disk sha1 t d k" for k by (simp add: on_disk_def)
  moreover have "under_way (d\<lparr>d_results := rs\<rparr>) k = under_way d k" for k
    by (simp add: under_way_def r Failed)
  moreover have "gots (d_results d) = gots rs" by (simp add: gots_def r Failed is_got_def)
  ultimately show ?thesis using ok r Failed by (simp add: download_ok_def collect_def)
next
  case (Got i data a)
  have g: "i < length (t_pieces t)" "length data = plen t i" "sha1 data = t_pieces t ! i"
    using ok r Got by (simp_all add: download_ok_def good_result_def)
  note pl = piece_place [OF ws g(1)]
  let ?d = "d\<lparr>d_results := rs, d_file := copy_at (d_file d) (piece_start t i) data, d_completed := d_completed d + 1\<rparr>"
  have c: "collect t r (d\<lparr>d_results := rs\<rparr>) = ?d" using pl(1) by (simp add: collect_def Got)
  have fit: "piece_start t i + length data \<le> length (d_file d)" using pl(2) g(2) ok by (simp add: download_ok_def)
  have self: "on_disk sha1 t ?d i"
    using slice_copy_at_same [OF fit] g by (simp add: on_disk_def)
  have other: "on_disk sha1 t ?d k = on_disk sha1 t d k" if "k \<noteq> i" "k < length (t_pieces t)" for k
  proof -
    note pk = piece_place [OF ws that(2)]
    have "piece_start t k + plen t k \<le> length (d_file d)" using pk(2) ok by (simp add: download_ok_def)
    moreover have "piece_start t k + plen t k \<le> piece_start t i \<or> piece_start t i + length data \<le> piece_start t k"
      using that(1) pl(3) [of k] pk(3) [of i] g(2) by (cases "k < i") simp_all
    ultimately show ?thesis using slice_copy_at_other [OF fit] by (simp add: on_disk_def)
  qed
  have "on_disk sha1 t ?d k \<or> under_way ?d k" if "k < length (t_pieces t)" "pk_done (d_picker d) ! k" for k
  proof (cases "k = i")
    case False
    then have "on_disk sha1 t d k \<or> under_way d k" using ok that by (simp add: download_ok_def)
    moreover have "under_way d k \<Longrightarrow> under_way ?d k" using False by (auto simp: under_way_def r Got)
    ultimately show ?thesis using other [OF False that(1)] by blast
  qed (use self in simp)
  moreover have "gots (d_results d) = gots rs + 1" by (simp add: gots_def r Got is_got_def)
  ultimately show ?thesis unfolding c using ok r fit by (simp add: download_ok_def)
qed

lemma new_download_ok: "well_sized t \<Longrightarrow> download_ok sha1 t (new_download t)"
  by (simp add: download_ok_def new_download_def new_picker_def picker_ok_def gots_def done_count_def)

lemma download_ok_start:
  assumes "download_ok sha1 t d" "worker_ok sha1 t w" "\<forall>i. held w i = 0" "reporting w = None"
  shows "download_ok sha1 t (d\<lparr>d_picker := add_peer_bits (d_picker d) bf, d_workers := d_workers d @ [w]\<rparr>)"
  using assms by (auto simp: download_ok_def on_disk_def under_way_def about_to_report_def)

lemma download_ok_step:
  assumes "download_step sha1 t d d'" "download_ok sha1 t d" "well_sized t"
  shows "download_ok sha1 t d'"
  using assms(1)
proof (cases rule: download_step.cases)
  case (start_peer bf addr max_active)
  then show ?thesis
    using assms by (auto intro!: download_ok_start simp: peer_ok_def new_session_def peer_held_def)
next
  case (start_web url hs)
  then show ?thesis using assms by (auto intro!: download_ok_start simp: web_ok_def)
next
  case (peer_moves k s pk' rs' s')
  then have "peer_ok sha1 t s" "picker_ok (d_picker d)" "pk_num (d_picker d) = length (t_pieces t)"
    using assms(2) nth_mem [of k "d_workers d"] by (fastforce simp: download_ok_def)+
  then show ?thesis
    using peer_moves session_sound [OF peer_moves(4) assms(3)] download_ok_move [OF assms(2) peer_moves(2)] by simp
next
  case (web_moves k w pk' rs' w')
  then have "web_ok sha1 t w" "picker_ok (d_picker d)" "pk_num (d_picker d) = length (t_pieces t)"
    using assms(2) nth_mem [of k "d_workers d"] by (fastforce simp: download_ok_def)+
  then show ?thesis
    using web_moves web_sound [OF web_moves(4)] download_ok_move [OF assms(2) web_moves(2)] by simp
next
  case (collects r rs)
  then show ?thesis using download_ok_collect assms by blast
qed

lemma reach_ok: "reach sha1 t d \<Longrightarrow> well_sized t \<Longrightarrow> download_ok sha1 t d"
  by (induction rule: reach.induct) (use new_download_ok download_ok_step in blast)+

lemma finished_on_disk:
  assumes "reach sha1 t d" "well_sized t" "all_done (d_picker d)" "\<forall>i. \<not> under_way d i" "i < length (t_pieces t)"
  shows "on_disk sha1 t d i"
proof -
  have ok: "download_ok sha1 t d" by (rule reach_ok [OF assms(1,2)])
  then have "length (pk_done (d_picker d)) = length (t_pieces t)" by (simp add: download_ok_def picker_ok_def)
  then have "pk_done (d_picker d) ! i" using assms(3,5) nth_mem [of i "pk_done (d_picker d)"] unfolding all_done_def by metis
  then show ?thesis using ok assms(4,5) by (auto simp: download_ok_def)
qed

text \<open>Before endgame every result counted is another piece.\<close>

lemma counted_before_endgame:
  assumes "reach sha1 t d" "well_sized t" "download_done t d" "\<not> pk_endgame (d_picker d)"
  shows "all_done (d_picker d) \<and> (\<forall>i. \<not> under_way d i)"
proof -
  let ?done = "pk_done (d_picker d)"
  have ok: "download_ok sha1 t d" by (rule reach_ok [OF assms(1,2)])
  then have len: "length ?done = length (t_pieces t)"
    and sum: "length (t_pieces t) + gots (d_results d) + (\<Sum>w \<leftarrow> d_workers d. about_to_report w) = done_count (d_picker d)"
    using assms(3,4) by (simp_all add: download_ok_def picker_ok_def download_done_def)
  have "done_count (d_picker d) \<le> length ?done" unfolding done_count_def by (rule length_filter_le)
  then have full: "length (filter (\<lambda>x. x) ?done) = length ?done"
    and none: "gots (d_results d) = 0" "(\<Sum>w \<leftarrow> d_workers d. about_to_report w) = 0"
    using sum len unfolding done_count_def by linarith+
  have "\<not> under_way d i" for i
  proof
    assume "under_way d i"
    then obtain data a where "Got i data a \<in> set (d_results d) \<or>
        (\<exists>w \<in> set (d_workers d). reporting w = Some (Got i data a))" unfolding under_way_def by blast
    then show False
    proof
      assume "Got i data a \<in> set (d_results d)"
      then show False using none(1) by (auto simp: gots_def is_got_def filter_empty_conv)
    next
      assume "\<exists>w \<in> set (d_workers d). reporting w = Some (Got i data a)"
      then show False using none(2) by (auto simp: about_to_report_def is_got_def)
    qed
  qed
  moreover have "\<forall>x \<in> set ?done. x"
    using full by (metis (no_types, lifting) length_filter_less less_irrefl)
  ultimately show ?thesis by (simp add: all_done_def)
qed

section \<open>Properties\<close>

text \<open>
  C2. Only verified data reaches the file. In every state that any interleaving of peers, HTTP
  seeds and the collector can reach: a piece in the channel of results has its length and its
  hash; a piece that the picker counts as finished is in the file with its hash, or on its way
  there; and once every piece is finished and nothing is on its way, every piece of the file
  has the hash of the torrent.
\<close>
theorem download_verified:
  assumes "reach sha1 t d" "well_sized t"
  shows "(\<forall>i data a. Got i data a \<in> set (d_results d) \<longrightarrow>
      i < length (t_pieces t) \<and> length data = plen t i \<and> sha1 data = t_pieces t ! i) \<and>
    (\<forall>i < length (t_pieces t). pk_done (d_picker d) ! i \<longrightarrow> on_disk sha1 t d i \<or> under_way d i) \<and>
    (all_done (d_picker d) \<and> (\<forall>i. \<not> under_way d i) \<longrightarrow> (\<forall>i < length (t_pieces t). on_disk sha1 t d i))"
proof -
  have ok: "download_ok sha1 t d" by (rule reach_ok [OF assms])
  have "pk_done (d_picker d) ! i" if "all_done (d_picker d)" "i < length (t_pieces t)" for i
  proof -
    have "length (pk_done (d_picker d)) = length (t_pieces t)" using ok by (simp add: download_ok_def picker_ok_def)
    then show ?thesis using that nth_mem [of i "pk_done (d_picker d)"] unfolding all_done_def by metis
  qed
  moreover have "\<forall>i < length (t_pieces t). pk_done (d_picker d) ! i \<longrightarrow> on_disk sha1 t d i \<or> under_way d i"
    using ok by (simp add: download_ok_def)
  moreover have "i < length (t_pieces t) \<and> length data = plen t i \<and> sha1 data = t_pieces t ! i"
    if "Got i data a \<in> set (d_results d)" for i data a
  proof -
    have "good_result sha1 t (Got i data a)" using ok that by (simp add: download_ok_def)
    then show ?thesis by (simp add: good_result_def)
  qed
  ultimately show ?thesis by blast
qed

text \<open>
  C3. \<open>File\<close> counts results, not pieces. As long as endgame has not begun this is enough: a piece
  has at most one holder, so when as many results as pieces are written, every piece of the
  file has its hash.
\<close>
theorem success_before_endgame:
  assumes "reach sha1 t d" "well_sized t" "download_done t d" "\<not> pk_endgame (d_picker d)"
  shows "all_done (d_picker d) \<and> (\<forall>i < length (t_pieces t). on_disk sha1 t d i)"
  using counted_before_endgame [OF assms] finished_on_disk [OF assms(1,2)] by blast

definition worker_ended :: "worker \<Rightarrow> bool" where
  "worker_ended w \<longleftrightarrow>
     (case w of Peer_Worker s \<Rightarrow> s_reader s = Ended | Web_Worker v \<Rightarrow> w_state v = Web_Stopped)"

definition worker_can_move :: "(bytes \<Rightarrow> bytes) \<Rightarrow> torrent \<Rightarrow> download \<Rightarrow> worker \<Rightarrow> bool" where
  "worker_can_move sha1 t d w \<longleftrightarrow>
     (case w of
        Peer_Worker s \<Rightarrow> \<exists>c. session_step sha1 t (d_picker d, d_results d, s) c
      | Web_Worker v \<Rightarrow> \<exists>c. web_step sha1 t (d_picker d, d_results d, v) c)"

lemma pick_total: "(\<exists>pk' i. pick rnd pk bf = (pk', Some i)) \<or> (\<exists>pk'. pick rnd pk bf = (pk', None))"
  by (metis option.exhaust surj_pair)

lemma session_progress:
  assumes "peer_ok sha1 t s" "s_reader s \<noteq> Ended" "length rs < length (t_pieces t)"
  shows "\<exists>c. session_step sha1 t (pk, rs, s) c"
proof -
  consider "s_sender s = Picking" | i where "s_sender s = Requesting i"
    | i where "s_sender s = Queueing i" "length (s_jobs s) < s_max_active s"
    | "s_jobs s \<noteq> []" | "s_sender s = Stopped" "s_jobs s = []"
  proof (cases "s_jobs s")
    case Nil
    then have "length (s_jobs s) < s_max_active s" using assms(1) by (simp add: peer_ok_def)
    then show thesis using that Nil by (cases "s_sender s") blast+
  qed (use that in simp)
  then show ?thesis
  proof cases
    case 1
    then show ?thesis using pick_total [of 0 pk "s_bitfield s"] session_step.pick_some session_step.pick_none by metis
  next
    case 2
    then show ?thesis using session_step.request by blast
  next
    case 3
    then show ?thesis using session_step.enqueue by blast
  next
    case 4
    then obtain j js where j: "s_jobs s = j # js" by (cases "s_jobs s") auto
    show ?thesis
    proof (cases "s_reader s")
      case Reading then show ?thesis using session_step.take_job j by blast
    next
      case (Complete i) then show ?thesis using session_step.already_done session_step.not_done by blast
    next
      case (Verifying i)
      then show ?thesis using assms(1) session_step.verify by (auto simp: peer_ok_def) (metis surj_pair)
    next
      case (Reporting r) then show ?thesis using session_step.report assms(3) by blast
    next
      case Draining
      then show ?thesis using session_step.abort_active session_step.abort_job j by (metis option.exhaust ext)
    qed (use assms(2) in simp)
  next
    case 5
    show ?thesis
    proof (cases "s_reader s")
      case Reading
      then show ?thesis using session_step.read session_step.ended 5 by metis
    next
      case (Complete i) then show ?thesis using session_step.already_done session_step.not_done by blast
    next
      case (Verifying i)
      then show ?thesis using assms(1) session_step.verify by (auto simp: peer_ok_def) (metis surj_pair)
    next
      case (Reporting r) then show ?thesis using session_step.report assms(3) by blast
    next
      case Draining
      then show ?thesis using session_step.abort_active session_step.ended 5 by (metis option.exhaust ext)
    qed (use assms(2) in simp)
  qed
qed

text \<open>
  C28. No deadlock: in a reachable state of an unfinished download, the collector has a result to
  take or every worker that has not ended can move, whatever the others do.
\<close>
theorem no_deadlock:
  assumes "reach sha1 t d" "well_sized t" "d_results d = []" "t_pieces t \<noteq> []" "w \<in> set (d_workers d)"
    and "\<not> worker_ended w"
  shows "worker_can_move sha1 t d w"
proof -
  have "worker_ok sha1 t w" using reach_ok [OF assms(1,2)] assms(5) by (simp add: download_ok_def)
  moreover have "length (d_results d) < length (t_pieces t)" using assms(3,4) by simp
  moreover have "\<exists>c. web_step sha1 t (pk, rs, v) c"
    if "w_state v \<noteq> Web_Stopped" "length rs < length (t_pieces t)" for pk rs v
  proof (cases "w_state v")
    case (Web_Fetching i)
    then show ?thesis
      using web_step.web_fetched [of v i t undefined _ sha1 pk] by (metis surj_pair)
  next
    case (Web_Reporting r)
    then show ?thesis using web_step.web_report that(2) by blast
  qed (use that web_step.web_cancel in blast)+
  ultimately show ?thesis
    using assms(6) session_progress by (cases w) (auto simp: worker_ended_def worker_can_move_def)
qed

section \<open>Runs\<close>

text \<open>A scheduler for HTTP seeds and the collector: a list of events gives a run of the download.\<close>

datatype event = Start_Web bytes | Web_Pick nat nat | Web_Fetch nat http_response | Web_Report nat | Collect

definition web_at :: "download \<Rightarrow> nat \<Rightarrow> web_worker option" where
  "web_at d k =
     (if k < length (d_workers d) then (case d_workers d ! k of Web_Worker w \<Rightarrow> Some w | Peer_Worker _ \<Rightarrow> None) else None)"

definition set_web :: "download \<Rightarrow> nat \<Rightarrow> picker \<Rightarrow> piece_result list \<Rightarrow> web_worker \<Rightarrow> download" where
  "set_web d k pk rs w = d\<lparr>d_picker := pk, d_results := rs, d_workers := (d_workers d)[k := Web_Worker w]\<rparr>"

fun exec :: "(bytes \<Rightarrow> bytes) \<Rightarrow> torrent \<Rightarrow> event \<Rightarrow> download \<Rightarrow> download option" where
  "exec sha1 t (Start_Web url) d =
     Some (d\<lparr>d_picker := add_peer_bits (d_picker d) (full_bitfield t),
             d_workers := d_workers d @ [Web_Worker \<lparr>w_url = url, w_http_seed = False, w_state = Web_Idle, w_bytes = 0\<rparr>]\<rparr>)"
| "exec sha1 t (Web_Pick k rnd) d =
     (case web_at d k of
        None \<Rightarrow> None
      | Some w \<Rightarrow>
          (case (w_state w, pick rnd (d_picker d) (full_bitfield t)) of
             (Web_Idle, pk, Some i) \<Rightarrow> Some (set_web d k pk (d_results d) (w\<lparr>w_state := Web_Fetching i\<rparr>))
           | _ \<Rightarrow> None))"
| "exec sha1 t (Web_Fetch k resp) d =
     (case web_at d k of
        None \<Rightarrow> None
      | Some w \<Rightarrow>
          (case w_state w of
             Web_Fetching i \<Rightarrow>
               let out = web_fetch w t i (Inr resp); (pk, r) = web_outcome sha1 t w i out (d_picker d)
               in Some (set_web d k pk (d_results d)
                    (w\<lparr>w_state := Web_Reporting r,
                       w_bytes := w_bytes w + (case out of Inr data \<Rightarrow> int (length data) | Inl _ \<Rightarrow> 0)\<rparr>))
           | _ \<Rightarrow> None))"
| "exec sha1 t (Web_Report k) d =
     (case web_at d k of
        None \<Rightarrow> None
      | Some w \<Rightarrow>
          (case w_state w of
             Web_Reporting r \<Rightarrow>
               if length (d_results d) < length (t_pieces t)
               then Some (set_web d k (d_picker d) (d_results d @ [r]) (w\<lparr>w_state := Web_Idle\<rparr>)) else None
           | _ \<Rightarrow> None))"
| "exec sha1 t Collect d =
     (case d_results d of
        [] \<Rightarrow> None
      | r # rs \<Rightarrow> if download_done t d then None else Some (collect t r (d\<lparr>d_results := rs\<rparr>)))"

primrec execs :: "(bytes \<Rightarrow> bytes) \<Rightarrow> torrent \<Rightarrow> event list \<Rightarrow> download \<Rightarrow> download option" where
  "execs sha1 t [] d = Some d"
| "execs sha1 t (e # es) d = Option.bind (exec sha1 t e d) (execs sha1 t es)"

lemma web_atD: "web_at d k = Some w \<Longrightarrow> k < length (d_workers d) \<and> d_workers d ! k = Web_Worker w"
  by (auto simp: web_at_def split: if_splits worker.splits)

lemma exec_step: "exec sha1 t e d = Some d' \<Longrightarrow> download_step sha1 t d d'"
proof (induction sha1 t e d rule: exec.induct)
  case (1 sha1 t url d)
  then show ?case using download_step.start_web [of sha1 t d url False] by simp
next
  case (2 sha1 t k rnd d)
  then obtain w pk i where w: "web_at d k = Some w" "w_state w = Web_Idle"
    "pick rnd (d_picker d) (full_bitfield t) = (pk, Some i)"
    "d' = set_web d k pk (d_results d) (w\<lparr>w_state := Web_Fetching i\<rparr>)"
    by (auto split: option.splits web_state.splits prod.splits)
  show ?case
    unfolding w(4) set_web_def
    by (rule download_step.web_moves [OF _ _ web_step.web_pick [OF w(2,3)]]) (use web_atD [OF w(1)] in simp_all)
next
  case (3 sha1 t k resp d)
  then obtain w i where w: "web_at d k = Some w" "w_state w = Web_Fetching i"
    by (auto split: option.splits web_state.splits)
  obtain pk r where o: "web_outcome sha1 t w i (web_fetch w t i (Inr resp)) (d_picker d) = (pk, r)" by fastforce
  have d': "d' = set_web d k pk (d_results d)
      (w\<lparr>w_state := Web_Reporting r,
         w_bytes := w_bytes w + (case web_fetch w t i (Inr resp) of Inr data \<Rightarrow> int (length data) | Inl _ \<Rightarrow> 0)\<rparr>)"
    using 3 w o by simp
  show ?case
    unfolding d' set_web_def
    by (rule download_step.web_moves [OF _ _ web_step.web_fetched [OF w(2) refl o]]) (use web_atD [OF w(1)] in simp_all)
next
  case (4 sha1 t k d)
  then obtain w r where w: "web_at d k = Some w" "w_state w = Web_Reporting r"
    "length (d_results d) < length (t_pieces t)"
    "d' = set_web d k (d_picker d) (d_results d @ [r]) (w\<lparr>w_state := Web_Idle\<rparr>)"
    by (auto split: option.splits web_state.splits if_splits)
  show ?case
    unfolding w(4) set_web_def
    by (rule download_step.web_moves [OF _ _ web_step.web_report [OF w(2,3)]]) (use web_atD [OF w(1)] in simp_all)
next
  case (5 sha1 t d)
  then show ?case using download_step.collects by (auto split: list.splits if_splits)
qed

lemma execs_reach: "reach sha1 t d \<Longrightarrow> execs sha1 t es d = Some d' \<Longrightarrow> reach sha1 t d'"
proof (induction es arbitrary: d)
  case (Cons e es)
  then obtain d1 where "exec sha1 t e d = Some d1" "execs sha1 t es d1 = Some d'"
    by (auto simp: bind_eq_Some_conv)
  then show ?case using Cons.IH reach.step [OF Cons.prems(1)] exec_step by blast
qed simp

text \<open>A torrent of two pieces of one byte; the bytes stand for their own hashes.\<close>

definition two_pieces :: torrent where
  "two_pieces =
     \<lparr>t_announce = [], t_announce_list = [], t_url_list = [], t_http_seeds = [], t_info_hash = [], t_name = [],
      t_piece_length = 1, t_pieces = [[1], [2]], t_length = 2, t_files = [], t_private = False\<rparr>"

definition body :: "u8 \<Rightarrow> http_response" where
  "body b = \<lparr>hr_status = 206, hr_body = [b], hr_complete = True\<rparr>"

lemma two_pieces_simps [simp]:
  "t_pieces two_pieces = [[1], [2]]" "t_piece_length two_pieces = 1" "total_length two_pieces = 2"
  "full_bitfield two_pieces = [192]" "piece_len two_pieces 0 = 1" "piece_len two_pieces 1 = 1"
  by (simp_all add: two_pieces_def total_length_def is_single_file_def full_bitfield_def make_full_bitfield_def
      piece_len_def Let_def wrap64_def)

lemma wrap64_small_numerals [simp]: "wrap64 0 = 0" "wrap64 1 = 1"
  by (simp_all add: wrap64_def)

lemma list_update_numeral [simp]: "(x # xs)[numeral n := y] = x # xs[pred_numeral n := y]"
  by (simp add: numeral_eq_Suc)

lemma two_pieces_sized: "well_sized two_pieces"
  by (simp add: well_sized_def)

lemma upto_two: "[0..<2] = [0, 1]"
  by (simp add: upt_rec)

lemmas run_simps = exec.simps execs.simps new_download_def new_picker_def add_peer_bits_def web_at_def set_web_def
  pick_def pick_candidates_def scan_step_def endgame_candidates_def pick_endgame_def should_enter_endgame_def
  has_piece_def max_int_def upto_two web_fetch_def webseed_fetch_def web_outcome_def finish_def abort_def body_def collect_def
  download_done_def copy_at_def Let_def

definition fast_run :: "event list" where
  "fast_run = [Start_Web [], Web_Pick 0 0, Web_Fetch 0 (body 1), Web_Report 0, Collect,
     Web_Pick 0 0, Web_Fetch 0 (body 2), Web_Report 0, Collect]"

lemma fast_run_result:
  obtains d where "reach (\<lambda>b. b) two_pieces d" "d_completed d = 2" "d_file d = [1, 2]" "d_results d = []"
    "pk_done (d_picker d) = [True, True]" "\<not> pk_endgame (d_picker d)"
proof -
  have "\<exists>d. execs (\<lambda>b. b) two_pieces fast_run (new_download two_pieces) = Some d \<and> d_completed d = 2 \<and>
      d_file d = [1, 2] \<and> d_results d = [] \<and> pk_done (d_picker d) = [True, True] \<and> \<not> pk_endgame (d_picker d)"
    unfolding fast_run_def by (simp add: run_simps)
  then show thesis using that execs_reach [OF reach.init] by blast
qed

theorem download_verified_witness:
  "\<exists>d. reach (\<lambda>b. b) two_pieces d \<and> d_completed d = 2 \<and> (on_disk (\<lambda>b. b) two_pieces d 0 \<or> under_way d 0)"
proof (rule fast_run_result)
  fix d assume d: "reach (\<lambda>b. b) two_pieces d" "d_completed d = 2" "pk_done (d_picker d) = [True, True]"
  then have "on_disk (\<lambda>b. b) two_pieces d 0 \<or> under_way d 0"
    using download_verified [OF d(1) two_pieces_sized] by simp
  then show ?thesis using d by blast
qed

theorem success_before_endgame_witness:
  "\<exists>d. reach (\<lambda>b. b) two_pieces d \<and> download_done two_pieces d \<and> on_disk (\<lambda>b. b) two_pieces d 1"
proof (rule fast_run_result)
  fix d assume d: "reach (\<lambda>b. b) two_pieces d" "d_completed d = 2" "\<not> pk_endgame (d_picker d)"
  then have dd: "download_done two_pieces d" by (simp add: download_done_def)
  have "on_disk (\<lambda>b. b) two_pieces d 1"
    using success_before_endgame [OF d(1) two_pieces_sized dd d(3)] by simp
  then show ?thesis using d(1) dd by blast
qed

theorem no_deadlock_witness:
  "\<exists>d. reach (\<lambda>b. b) two_pieces d \<and> length (d_workers d) = 1 \<and> worker_can_move (\<lambda>b. b) two_pieces d (d_workers d ! 0)"
proof -
  obtain d where d: "execs (\<lambda>b. b) two_pieces [Start_Web [], Web_Pick 0 0] (new_download two_pieces) = Some d"
    "d_results d = []" "length (d_workers d) = 1" "\<not> worker_ended (d_workers d ! 0)"
    by (simp add: run_simps worker_ended_def)
  have r: "reach (\<lambda>b. b) two_pieces d" by (rule execs_reach [OF reach.init d(1)])
  have "worker_can_move (\<lambda>b. b) two_pieces d (d_workers d ! 0)"
    by (rule no_deadlock [OF r two_pieces_sized d(2) _ _ d(4)]) (use d(3) in simp_all)
  then show ?thesis using r d(3) by blast
qed

section \<open>Where the code goes wrong\<close>

text \<open>
  In endgame two workers can finish the same piece (a web seed does not even ask whether it is
  done), and the second result is counted again: \<open>File\<close> reports success with a piece missing.
\<close>

definition double_run :: "event list" where
  "double_run = [Start_Web [], Start_Web [], Start_Web [], Web_Pick 0 0, Web_Pick 1 0, Web_Pick 2 0,
     Web_Fetch 0 (body 1), Web_Report 0, Web_Fetch 2 (body 1), Web_Report 2, Collect, Collect]"

lemma early_success:
  "\<exists>d. reach (\<lambda>b. b) two_pieces d \<and> download_done two_pieces d \<and> \<not> on_disk (\<lambda>b. b) two_pieces d 1"
proof -
  have "\<exists>d. execs (\<lambda>b. b) two_pieces double_run (new_download two_pieces) = Some d \<and> d_completed d = 2 \<and> d_file d = [1, 0]"
    unfolding double_run_def by (simp add: run_simps) blast
  then obtain d where d: "execs (\<lambda>b. b) two_pieces double_run (new_download two_pieces) = Some d"
    "d_completed d = 2" "d_file d = [1, 0]" by blast
  have "\<not> on_disk (\<lambda>b. b) two_pieces d 1" by (simp add: on_disk_def d(3) slice_def piece_start_def)
  then show ?thesis using execs_reach [OF reach.init d(1)] d(2) by (auto simp: download_done_def)
qed

text \<open>
  A peer that chokes while pieces are missing: the reader gives every queued piece back, the
  sender picks it again and writes its requests again, and nothing but a write error ends the
  loop. One turn leaves all as it was, except for the requests written.
\<close>

lemma choke_flood:
  assumes "s_reader s = Draining" "s_active s = Map.empty" "s_jobs s = []" "s_sender s = Picking"
    and "0 < s_max_active s" "pick rnd pk (s_bitfield s) = (pk', Some i)" "abort pk' i = pk"
  shows "(session_step sha1 t)\<^sup>+\<^sup>+ (pk, rs, s) (pk, rs, s\<lparr>s_sent := s_sent s @ block_requests i (plen t i)\<rparr>)"
proof -
  let ?a = "s\<lparr>s_sender := Requesting i\<rparr>"
  let ?b = "s\<lparr>s_sender := Queueing i, s_sent := s_sent s @ block_requests i (plen t i)\<rparr>"
  let ?c = "s\<lparr>s_sent := s_sent s @ block_requests i (plen t i), s_sender := Picking, s_jobs := [new_job t i]\<rparr>"
  have "session_step sha1 t (pk, rs, s) (pk', rs, ?a)" using assms by (auto intro: session_step.pick_some)
  moreover have "session_step sha1 t (pk', rs, ?a) (pk', rs, ?b)"
    using session_step.request [of ?a i sha1 t pk' rs] by simp
  moreover have "session_step sha1 t (pk', rs, ?b) (pk', rs, ?c)"
    using session_step.enqueue [of ?b i sha1 t pk' rs] assms by simp
  moreover have "session_step sha1 t (pk', rs, ?c) (pk, rs, s\<lparr>s_sent := s_sent s @ block_requests i (plen t i)\<rparr>)"
  proof -
    have eq: "?c\<lparr>s_jobs := []\<rparr> = s\<lparr>s_sent := s_sent s @ block_requests i (plen t i)\<rparr>"
      using assms by (cases s) simp
    have idx: "j_index (new_job t i) = i" by (simp add: new_job_def)
    have "session_step sha1 t (pk', rs, ?c) (abort pk' (j_index (new_job t i)), rs, ?c\<lparr>s_jobs := []\<rparr>)"
      by (rule session_step.abort_job) (use assms in simp_all)
    then show ?thesis unfolding eq idx assms(7) .
  qed
  ultimately show ?thesis by (meson tranclp.r_into_trancl tranclp.trancl_into_trancl)
qed

text \<open>
  In endgame \<open>Pick\<close> goes on returning pieces in flight, also to the worker that has them: the
  piece is requested again and \<open>register\<close> replaces the job, so the blocks received so far are
  lost. In one turn of this loop the peer delivers a block of a piece of two or more, and the
  count of received blocks is one at its end, as it was at its beginning.
\<close>

lemma receive_piece_block:
  assumes "s_active s i = Some j" "unat (of_nat i :: u32) = i" "length block \<le> length (j_buf j)"
    and "j_received j + 1 \<noteq> j_num_blocks j"
  shows "receive_piece (wm_payload (new_piece (of_nat i) 0 block)) s =
    s\<lparr>s_active := (s_active s)(i \<mapsto> j\<lparr>j_buf := copy_at (j_buf j) 0 block, j_received := j_received j + 1\<rparr>),
      s_pending := s_pending s - 1\<rparr>"
proof -
  have "parse_piece (wm_payload (new_piece (of_nat i) 0 block)) =
      Inr \<lparr>pp_index = of_nat i, pp_begin = 0, pp_block = block\<rparr>" by (rule parse_new)
  then show ?thesis using assms by (simp add: receive_piece_def Let_def)
qed

lemma endgame_restarts:
  fixes block :: bytes
  assumes s: "s_reader s = Reading" "s_jobs s = []" "s_sender s = Picking" "0 < s_max_active s" "s_active s i = Some j"
    and pk: "pick rnd pk (s_bitfield s) = (pk, Some i)"
    and i: "i < 2 ^ 32" "2 \<le> block_count (plen t i)" "length block \<le> plen t i"
  shows "\<exists>s' j'. (session_step sha1 t)\<^sup>+\<^sup>+ (pk, rs, s) (pk, rs, s') \<and> s_active s' i = Some j' \<and> j_received j' = 1 \<and>
    s_reader s' = Reading \<and> s_jobs s' = [] \<and> s_sender s' = Picking \<and> s_downloaded s' = s_downloaded s \<and>
    s_sent s' = s_sent s @ block_requests i (plen t i)"
proof -
  let ?a = "s\<lparr>s_sender := Requesting i\<rparr>"
  let ?b = "?a\<lparr>s_sender := Queueing i, s_sent := s_sent ?a @ block_requests i (plen t i)\<rparr>"
  let ?c = "?b\<lparr>s_sender := Picking, s_jobs := s_jobs ?b @ [new_job t i]\<rparr>"
  let ?d = "register (new_job t i) (?c\<lparr>s_jobs := []\<rparr>)"
  let ?e = "reader_message (Some (new_piece (of_nat i) 0 block)) ?d"
  have idx: "j_index (new_job t i) = i" "unat (of_nat i :: u32) = i"
    using i(1) by (simp_all add: new_job_def unat_of_nat)
  have "session_step sha1 t (pk, rs, s) (pk, rs, ?a)" using s pk by (auto intro: session_step.pick_some)
  moreover have "session_step sha1 t (pk, rs, ?a) (pk, rs, ?b)" by (rule session_step.request) simp
  moreover have "session_step sha1 t (pk, rs, ?b) (pk, rs, ?c)" by (rule session_step.enqueue) (use s in simp_all)
  moreover have "session_step sha1 t (pk, rs, ?c) (pk, rs, ?d)" by (rule session_step.take_job) (use s in simp_all)
  moreover have "session_step sha1 t (pk, rs, ?d) (pk, rs, ?e)"
  proof (rule session_step.read)
    show "s_reader ?d = Reading" using s(1) by (simp add: register_def)
    have "s_active ?d i = Some (new_job t i)" using idx(1) by (simp add: register_def)
    then show "s_active ?d \<noteq> Map.empty" by (metis option.distinct(1))
  qed
  ultimately have run: "(session_step sha1 t)\<^sup>+\<^sup>+ (pk, rs, s) (pk, rs, ?e)"
    by (meson tranclp.r_into_trancl tranclp.trancl_into_trancl)
  have "?e = receive_piece (wm_payload (new_piece (of_nat i) 0 block)) ?d"
    by (simp add: reader_message_def new_piece_def msg_def)
  also have "\<dots> = ?d\<lparr>s_active := (s_active ?d)(i \<mapsto> (new_job t i)\<lparr>j_buf := copy_at (j_buf (new_job t i)) 0 block, j_received := 1\<rparr>),
      s_pending := s_pending ?d - 1\<rparr>"
    using receive_piece_block [of ?d i "new_job t i" block] i(2,3) idx
    by (simp add: register_def) (simp add: new_job_def)
  finally show ?thesis using run s by (intro exI [of _ ?e]) (simp add: register_def)
qed

end
