(* ===== verification/Progress.thy ===== *)
theory Progress
  imports GoFloat Picker Piece
begin

text \<open>
  The progress display (\<open>download/progress.go\<close>): the state of the pieces and of the peers with the
  operations that update them, and the text of the display. Colours are the escape sequences of the
  source, block characters their UTF-8 bytes. Floating point takes the rounding argument \<open>rnd\<close>, and the
  order in which Go's \<open>sort.Slice\<close> leaves the peers is an argument.
\<close>

section \<open>State\<close>

datatype piece_state = StateEmpty | StatePending | StateActive | StateDone

record peer_stats =
  ps_bitfield :: bytes
  ps_has_pieces :: nat
  ps_pieces :: nat
  ps_blocks :: nat
  ps_bytes :: int
  ps_speed :: real
  ps_connected :: int

record pool_stats =
  pl_active_slots :: int
  pl_max_slots :: int
  pl_untried :: int

record progress =
  pg_name :: bytes
  pg_total_bytes :: int
  pg_num_pieces :: nat
  pg_piece_len :: int
  pg_pieces :: "piece_state list"
  pg_peers :: "bytes \<rightharpoonup> peer_stats"
  pg_pool :: pool_stats
  pg_start :: int
  pg_bytes_down :: int
  pg_pieces_done :: nat
  pg_last_lines :: nat

definition new_progress :: "int \<Rightarrow> bytes \<Rightarrow> nat \<Rightarrow> int \<Rightarrow> int \<Rightarrow> progress" where
  "new_progress now name num_pieces plen total_bytes =
     \<lparr>pg_name = name, pg_total_bytes = total_bytes, pg_num_pieces = num_pieces, pg_piece_len = plen,
      pg_pieces = replicate num_pieces StateEmpty, pg_peers = Map.empty,
      pg_pool = \<lparr>pl_active_slots = 0, pl_max_slots = 0, pl_untried = 0\<rparr>, pg_start = now,
      pg_bytes_down = 0, pg_pieces_done = 0, pg_last_lines = 0\<rparr>"

definition peer_connected :: "int \<Rightarrow> bytes \<Rightarrow> bytes \<Rightarrow> progress \<Rightarrow> progress" where
  "peer_connected now addr bitfield p =
     p\<lparr>pg_pieces := map (\<lambda>i. if has_piece bitfield i \<and> pg_pieces p ! i = StateEmpty then StatePending else pg_pieces p ! i)
         [0..<pg_num_pieces p],
       pg_peers := (pg_peers p)(addr \<mapsto>
         \<lparr>ps_bitfield = bitfield, ps_has_pieces = length (filter (has_piece bitfield) [0..<pg_num_pieces p]),
          ps_pieces = 0, ps_blocks = 0, ps_bytes = 0, ps_speed = 0, ps_connected = now\<rparr>)\<rparr>"

definition peer_disconnected :: "bytes \<Rightarrow> progress \<Rightarrow> progress" where
  "peer_disconnected addr p = p\<lparr>pg_peers := (pg_peers p)(addr := None)\<rparr>"

text \<open>\<open>if ps, ok := p.peers[addr]\<close>.\<close>

definition with_peer :: "bytes \<Rightarrow> (peer_stats \<Rightarrow> peer_stats) \<Rightarrow> progress \<Rightarrow> progress" where
  "with_peer addr f p =
     (case pg_peers p addr of None \<Rightarrow> p | Some ps \<Rightarrow> p\<lparr>pg_peers := (pg_peers p)(addr \<mapsto> f ps)\<rparr>)"

text \<open>\<open>p.pieces[index] = s\<close>, which panics outside.\<close>

definition set_state :: "nat \<Rightarrow> piece_state \<Rightarrow> progress \<Rightarrow> progress res" where
  "set_state i s p = (if i < length (pg_pieces p) then Inr (p\<lparr>pg_pieces := (pg_pieces p)[i := s]\<rparr>) else Inl Panic)"

definition piece_started :: "nat \<Rightarrow> progress \<Rightarrow> progress res" where
  "piece_started i p = set_state i StateActive p"

definition piece_failed :: "nat \<Rightarrow> progress \<Rightarrow> progress res" where
  "piece_failed i p = set_state i StatePending p"

definition piece_done :: "nat \<Rightarrow> bytes \<Rightarrow> progress \<Rightarrow> progress res" where
  "piece_done i addr p =
     (if length (pg_pieces p) \<le> i then Inl Panic
      else if pg_pieces p ! i = StateDone then Inr p
      else let p = p\<lparr>pg_pieces := (pg_pieces p)[i := StateDone], pg_pieces_done := pg_pieces_done p + 1\<rparr>
           in Inr (with_peer addr (\<lambda>ps. ps\<lparr>ps_pieces := ps_pieces ps + 1\<rparr>) p))"

definition block_received :: "bytes \<Rightarrow> int \<Rightarrow> progress \<Rightarrow> progress" where
  "block_received addr n p =
     (let p = with_peer addr (\<lambda>ps. ps\<lparr>ps_blocks := ps_blocks ps + 1, ps_bytes := wrap64 (ps_bytes ps + n)\<rparr>) p
      in p\<lparr>pg_bytes_down := wrap64 (pg_bytes_down p + n)\<rparr>)"

definition update_peer_speed :: "bytes \<Rightarrow> real \<Rightarrow> progress \<Rightarrow> progress" where
  "update_peer_speed addr speed = with_peer addr (\<lambda>ps. ps\<lparr>ps_speed := speed\<rparr>)"

definition set_pool_stats :: "pool_stats \<Rightarrow> progress \<Rightarrow> progress" where
  "set_pool_stats stats p = p\<lparr>pg_pool := stats\<rparr>"

section \<open>The text of sizes, speeds and times\<close>

text \<open>\<open>float64(b)/float64(1<<k)\<close>.\<close>

definition scaled :: "(real \<Rightarrow> real) \<Rightarrow> nat \<Rightarrow> real \<Rightarrow> real" where
  "scaled rnd k x = rnd (x / 2 ^ k)"

definition format_bytes :: "(real \<Rightarrow> real) \<Rightarrow> int \<Rightarrow> bytes" where
  "format_bytes rnd b =
     (if 2 ^ 30 \<le> b then fmt_f1 (scaled rnd 30 (rnd (of_int b))) @ str '' GiB''
      else if 2 ^ 20 \<le> b then fmt_f1 (scaled rnd 20 (rnd (of_int b))) @ str '' MiB''
      else if 2 ^ 10 \<le> b then fmt_f1 (scaled rnd 10 (rnd (of_int b))) @ str '' KiB''
      else itoa b @ str '' B'')"

definition format_speed :: "(real \<Rightarrow> real) \<Rightarrow> real \<Rightarrow> bytes" where
  "format_speed rnd v =
     (if 2 ^ 20 \<le> v then fmt_f1 (scaled rnd 20 v) @ str '' MiB''
      else if 2 ^ 10 \<le> v then fmt_f1 (scaled rnd 10 v) @ str '' KiB''
      else if 0 < v then fmt_f0 v @ str '' B''
      else str ''  0 B'')"

text \<open>\<open>int(d.Hours())\<close> and the like: whole units and the rest as a fraction, added as \<open>float64\<close>.\<close>

definition whole_units :: "(real \<Rightarrow> real) \<Rightarrow> int \<Rightarrow> int \<Rightarrow> int" where
  "whole_units rnd u d =
     to_int (rnd (rnd (of_int (d sdiv u)) + rnd (rnd (of_int (d smod u)) / rnd (of_int u))))"

definition hour_ns :: int where "hour_ns = 3600 * 10 ^ 9"
definition minute_ns :: int where "minute_ns = 60 * 10 ^ 9"
definition second_ns :: int where "second_ns = 10 ^ 9"

definition format_duration :: "(real \<Rightarrow> real) \<Rightarrow> int \<Rightarrow> bytes" where
  "format_duration rnd d =
     (if hour_ns \<le> d then itoa (whole_units rnd hour_ns d) @ str ''h '' @ itoa (whole_units rnd minute_ns d smod 60) @ str ''m''
      else if minute_ns \<le> d then itoa (whole_units rnd minute_ns d) @ str ''m '' @ itoa (whole_units rnd second_ns d smod 60) @ str ''s''
      else itoa (whole_units rnd second_ns d) @ str ''s'')"

section \<open>The piece map\<close>

abbreviation esc :: "string \<Rightarrow> bytes" where
  "esc code \<equiv> 27 # 91 # str code"

definition full_block :: bytes where "full_block = [0xE2, 0x96, 0x88]"
definition dark_shade :: bytes where "dark_shade = [0xE2, 0x96, 0x93]"
definition light_shade :: bytes where "light_shade = [0xE2, 0x96, 0x91]"
definition middle_dot :: bytes where "middle_dot = [0xC2, 0xB7]"

definition piece_char :: "piece_state \<Rightarrow> bytes" where
  "piece_char s = (case s of StateDone \<Rightarrow> full_block | StateActive \<Rightarrow> dark_shade | StatePending \<Rightarrow> light_shade | StateEmpty \<Rightarrow> middle_dot)"

definition state_color :: "piece_state \<Rightarrow> bytes" where
  "state_color s = (case s of StateDone \<Rightarrow> esc ''32m'' | StateActive \<Rightarrow> esc ''33m'' | StatePending \<Rightarrow> esc ''90m'' | StateEmpty \<Rightarrow> esc ''90m'')"

definition repeat_text :: "nat \<Rightarrow> bytes \<Rightarrow> bytes" where
  "repeat_text n s = concat (replicate n s)"

definition state_run :: "piece_state \<times> nat \<Rightarrow> bytes" where
  "state_run r = state_color (fst r) @ repeat_text (snd r) (piece_char (fst r))"

text \<open>The runs of equal cells that \<open>writePieceRow\<close> forms, from the current state and its count.\<close>

primrec row_runs :: "piece_state \<Rightarrow> nat \<Rightarrow> piece_state list \<Rightarrow> (piece_state \<times> nat) list" where
  "row_runs cur n [] = [(cur, n)]"
| "row_runs cur n (s # row) =
     (if s = cur then row_runs cur (n + 1) row else (cur, n) # row_runs s 1 row)"

definition piece_row :: "piece_state list \<Rightarrow> bytes" where
  "piece_row row =
     (case row of [] \<Rightarrow> [] | s # rest \<Rightarrow> concat (map state_run (row_runs s 1 rest)) @ esc ''0m'')"

text \<open>\<open>dominantState\<close>, from the counts of the four states.\<close>

definition dominant_state :: "(piece_state \<Rightarrow> nat) \<Rightarrow> piece_state" where
  "dominant_state counts =
     (let sum = counts StateDone + counts StateActive + counts StatePending + counts StateEmpty
      in if counts StateDone = sum then StateDone
         else if 0 < counts StateActive then StateActive
         else if 0 < counts StatePending then StatePending
         else StateEmpty)"

definition max_rows :: nat where "max_rows = 8"

definition map_width :: "int \<Rightarrow> nat" where
  "map_width width = nat (max 20 (width - 4))"

definition cell_bounds :: "nat \<Rightarrow> nat \<Rightarrow> nat \<Rightarrow> nat \<times> nat" where
  "cell_bounds num_pieces cells cell = (cell * num_pieces div cells, min num_pieces ((cell + 1) * num_pieces div cells))"

definition cell_state :: "piece_state list \<Rightarrow> nat \<times> nat \<Rightarrow> piece_state" where
  "cell_state pieces b = dominant_state (\<lambda>s. length (filter (\<lambda>x. x = s) (slice pieces (fst b) (snd b))))"

text \<open>The cells of the map: the pieces, or the dominant states of \<open>max_rows * width\<close> groups.\<close>

definition map_cells :: "nat \<Rightarrow> piece_state list \<Rightarrow> piece_state list" where
  "map_cells width pieces =
     (let n = length pieces
      in if max_rows < (n + width - 1) div width
         then map (\<lambda>cell. cell_state pieces (cell_bounds n (max_rows * width) cell)) [0..<max_rows * width]
         else pieces)"

text \<open>Rows of the width; the last may be shorter.\<close>

function rows_of :: "nat \<Rightarrow> 'a list \<Rightarrow> 'a list list" where
  "rows_of w xs = (if xs = [] \<or> w = 0 then [] else take w xs # rows_of w (drop w xs))"
  by pat_completeness auto

termination rows_of
  by (relation "measure (\<lambda>(w, xs). length xs)") auto

declare rows_of.simps [simp del]

definition piece_map :: "nat \<Rightarrow> piece_state list \<Rightarrow> bytes" where
  "piece_map width pieces =
     concat (map (\<lambda>row. str ''  '' @ piece_row row @ [10]) (rows_of width (map_cells width pieces)))"

text \<open>\<open>renderMiniBitfield\<close>: the share of the pieces that a peer has, in each column.\<close>

definition mini_cell :: "(real \<Rightarrow> real) \<Rightarrow> bytes \<Rightarrow> nat \<times> nat \<Rightarrow> bytes" where
  "mini_cell rnd bitfield b =
     (let has = length (filter (has_piece bitfield) [fst b..<snd b]);
          num = (if snd b = fst b then 1 else snd b - fst b);
          ratio = rnd (of_nat has / of_nat num)
      in if 3 / 4 \<le> ratio then full_block
         else if 1 / 2 \<le> ratio then dark_shade
         else if 1 / 4 \<le> ratio then [0xE2, 0x96, 0x92]
         else if 0 < ratio then light_shade
         else esc ''90m'' @ middle_dot @ esc ''36m'')"

definition mini_bitfield :: "(real \<Rightarrow> real) \<Rightarrow> bytes \<Rightarrow> nat \<Rightarrow> nat \<Rightarrow> bytes" where
  "mini_bitfield rnd bitfield num_pieces width =
     (if num_pieces = 0 then repeat_text width middle_dot
      else esc ''36m'' @ concat (map (\<lambda>col. mini_cell rnd bitfield (cell_bounds num_pieces width col)) [0..<width]) @ esc ''0m'')"

section \<open>The display\<close>

text \<open>The parts of the progress bar: pieces done, pieces under way, and the rest.\<close>

definition bar_parts :: "int \<Rightarrow> int \<Rightarrow> int \<Rightarrow> int \<Rightarrow> int \<times> int \<times> int" where
  "bar_parts width num_pieces pieces_done active =
     (let bar = (if width - 30 < 20 then 20 else width - 30);
          filled = (if 0 < num_pieces then pieces_done * bar sdiv num_pieces else 0);
          filled = (if bar < filled then bar else filled);
          act = (if 0 < num_pieces then active * bar sdiv num_pieces else 0);
          act = (if bar < act + filled then bar - filled else act);
          act = (if act < 0 then 0 else act);
          rest = bar - filled - act;
          rest = (if rest < 0 then 0 else rest)
      in (filled, act, rest))"

definition header_text :: "(real \<Rightarrow> real) \<Rightarrow> progress \<Rightarrow> bytes" where
  "header_text rnd p =
     esc ''1m'' @ [0xE2, 0x9A, 0xA1] @ str '' Peer Pressure'' @ esc ''0m'' @ str '' '' @ [0xE2, 0x80, 0x94] @ str '' '' @ pg_name p @ [10] @
     str ''   '' @ format_bytes rnd (pg_total_bytes p) @ str '' total, '' @ format_bytes rnd (pg_piece_len p) @ str '' pieces, '' @
     itoa (int (pg_num_pieces p)) @ str '' pcs '' @ [0xC3, 0x97] @ str '' '' @ format_bytes rnd (int block_size) @ [10] @ [10]"

definition bar_text :: "int \<Rightarrow> progress \<Rightarrow> bytes" where
  "bar_text width p =
     (let n = int (pg_num_pieces p);
          pct = (if 0 < n then int (pg_pieces_done p) * 100 sdiv n else 0);
          active = int (length (filter (\<lambda>s. s = StateActive) (pg_pieces p)));
          (filled, act, rest) = bar_parts width n (int (pg_pieces_done p)) active
      in str ''  Progress '' @ esc ''32m'' @ repeat_text (nat filled) full_block @ esc ''33m'' @ repeat_text (nat act) dark_shade @
         esc ''90m'' @ repeat_text (nat rest) light_shade @ esc ''0m'' @ str '' '' @ itoa pct @ str ''%  '' @
         itoa (int (pg_pieces_done p)) @ str ''/'' @ itoa n @ str '' pcs'' @ [10])"

definition speed_text :: "(real \<Rightarrow> real) \<Rightarrow> int \<Rightarrow> progress \<Rightarrow> bytes" where
  "speed_text rnd now p =
     (let elapsed = seconds rnd (now - pg_start p);
          speed = (if 0 < elapsed then rnd (rnd (of_int (pg_bytes_down p)) / elapsed) else 0);
          left = wrap64 (pg_total_bytes p - pg_bytes_down p);
          eta = (if 0 < speed \<and> 0 < left
                 then format_duration rnd (to_int (rnd (rnd (rnd (of_int left) / speed) * 10 ^ 9)))
                 else if pg_pieces_done p = pg_num_pieces p then str ''done!'' else [])
      in str ''  Speed: '' @ format_bytes rnd (to_int speed) @ str ''/s  Downloaded: '' @ format_bytes rnd (pg_bytes_down p) @
         str ''  ETA: '' @ eta @ [10] @ [10])"

definition map_text :: "int \<Rightarrow> progress \<Rightarrow> bytes" where
  "map_text width p =
     str ''  '' @ esc ''1m'' @ str ''Piece Map'' @ esc ''0m'' @ str ''  '' @ esc ''32m'' @ full_block @ esc ''0m'' @ str '' done  '' @
     esc ''33m'' @ dark_shade @ esc ''0m'' @ str '' active  '' @ esc ''90m'' @ light_shade @ esc ''0m'' @ str '' pending  '' @
     esc ''90m'' @ middle_dot @ esc ''0m'' @ str '' empty'' @ [10] @
     piece_map (map_width width) (pg_pieces p) @ [10]"

definition pool_text :: "pool_stats \<Rightarrow> bytes" where
  "pool_text s =
     str ''  '' @ esc ''1m'' @ str ''Peer Pool'' @ esc ''0m'' @ str ''  '' @ itoa (pl_active_slots s) @ str ''/'' @ itoa (pl_max_slots s) @
     str '' slots'' @ (if 0 < pl_untried s then str ''  '' @ itoa (pl_untried s) @ str '' queued'' else []) @ [10]"

text \<open>The verbs \<open>%-21s\<close>, \<open>%8s\<close> and \<open>%4d\<close> on ASCII text.\<close>

definition pad_right :: "nat \<Rightarrow> bytes \<Rightarrow> bytes" where
  "pad_right n s = s @ replicate (n - length s) 32"

definition pad_left :: "nat \<Rightarrow> bytes \<Rightarrow> bytes" where
  "pad_left n s = replicate (n - length s) 32 @ s"

definition bar_cap :: int where "bar_cap = 16"

definition speed_fill :: "(real \<Rightarrow> real) \<Rightarrow> real \<Rightarrow> real \<Rightarrow> int" where
  "speed_fill rnd max_speed speed =
     (if 0 < speed then
        let fill = to_int (rnd (rnd (speed / max_speed) * of_int bar_cap));
            fill = (if fill < 1 then 1 else fill)
        in if bar_cap < fill then bar_cap else fill
      else 0)"

definition peer_text :: "(real \<Rightarrow> real) \<Rightarrow> real \<Rightarrow> bytes \<Rightarrow> peer_stats \<Rightarrow> bytes" where
  "peer_text rnd max_speed addr ps =
     (let fill = speed_fill rnd max_speed (ps_speed ps); ratio = rnd (ps_speed ps / max_speed);
          color = (if ratio < 1 / 4 then esc ''31m'' else if ratio < 1 / 2 then esc ''33m'' else esc ''32m'')
      in str ''  '' @ pad_right 21 addr @ str '' '' @ color @ repeat_text (nat fill) full_block @ esc ''90m'' @
         repeat_text (nat (bar_cap - fill)) light_shade @ esc ''0m'' @ str '' '' @ pad_left 8 (format_speed rnd (ps_speed ps)) @ str ''/s  '' @
         pad_left 4 (itoa (int (ps_blocks ps))) @ str '' blks  '' @ format_bytes rnd (ps_bytes ps) @ [10])"

text \<open>\<open>order\<close> lists the peers the way \<open>sort.Slice\<close> leaves them.\<close>

definition peers_text :: "(real \<Rightarrow> real) \<Rightarrow> bytes list \<Rightarrow> progress \<Rightarrow> bytes" where
  "peers_text rnd order p =
     (if dom (pg_peers p) = {} then str ''  '' @ esc ''90m'' @ str ''(no peers connected)'' @ esc ''0m'' @ [10]
      else let sorted = map (\<lambda>a. (a, the (pg_peers p a))) order;
               max_speed = ps_speed (snd (hd sorted));
               max_speed = (if max_speed < 1 then 1 else max_speed)
           in concat (map (\<lambda>(a, ps). peer_text rnd max_speed a ps) sorted))"

definition sorted_peers :: "progress \<Rightarrow> bytes list \<Rightarrow> bool" where
  "sorted_peers p order \<longleftrightarrow> distinct order \<and> set order = dom (pg_peers p) \<and>
     sorted_wrt (\<lambda>a b. ps_bytes (the (pg_peers p b)) \<le> ps_bytes (the (pg_peers p a))) order"

definition render :: "(real \<Rightarrow> real) \<Rightarrow> int \<Rightarrow> bytes list \<Rightarrow> int \<Rightarrow> progress \<Rightarrow> bytes" where
  "render rnd now order width p =
     (let width = (if width \<le> 0 then 80 else width)
      in header_text rnd p @ bar_text width p @ speed_text rnd now p @ map_text width p @ pool_text (pg_pool p) @ peers_text rnd order p)"

text \<open>\<open>PrintOver\<close>: what is printed, over the lines of the last display, and the new state.\<close>

definition newlines :: "bytes \<Rightarrow> nat" where
  "newlines s = length (filter (\<lambda>c. c = 10) s)"

definition clear_line_ends :: "bytes \<Rightarrow> bytes" where
  "clear_line_ends s = concat (map (\<lambda>c. if c = 10 then esc ''K'' @ [10] else [c]) s)"

definition cursor_up :: "nat \<Rightarrow> bytes" where
  "cursor_up n = [27, 91] @ itoa (int n) @ str ''A''"

definition print_over :: "bytes \<Rightarrow> progress \<Rightarrow> bytes \<times> progress" where
  "print_over output p =
     (let before = pg_last_lines p; output = clear_line_ends output; now = newlines output
      in ((if 0 < before then cursor_up before else []) @ output @
          (if now < before then repeat_text (before - now) (esc ''K'' @ [10]) @ cursor_up (before - now) else []),
          p\<lparr>pg_last_lines := now\<rparr>))"

section \<open>Rows, cells and runs\<close>

lemma rows_of_Nil [simp]: "rows_of w [] = []"
  by (simp add: rows_of.simps [of w "[]"])

lemma concat_rows_of: "0 < w \<Longrightarrow> concat (rows_of w xs) = xs"
proof (induction w xs rule: rows_of.induct)
  case (1 w xs)
  then show ?case by (cases "xs = []") (simp_all add: rows_of.simps [of w xs])
qed

lemma set_rows_of: "row \<in> set (rows_of w xs) \<Longrightarrow> row \<noteq> [] \<and> length row \<le> w"
proof (induction w xs rule: rows_of.induct)
  case (1 w xs)
  then show ?case by (cases "xs = [] \<or> w = 0") (auto simp: rows_of.simps [of w xs])
qed

lemma length_rows_of: "0 < w \<Longrightarrow> length xs \<le> k * w \<Longrightarrow> length (rows_of w xs) \<le> k"
proof (induction k arbitrary: xs)
  case 0
  then show ?case by (simp add: rows_of.simps [of w "[]"])
next
  case (Suc k)
  then show ?case by (cases "xs = []") (simp_all add: rows_of.simps [of w xs])
qed

text \<open>The runs spell the row, and no run is followed by one of the same state.\<close>

lemma row_runs_spell: "concat (map (\<lambda>(s, n). replicate n s) (row_runs cur n row)) = replicate n cur @ row"
  proof (induction row arbitrary: cur n)
  case (Cons s row)
  then show ?case by (cases "s = cur") (simp_all add: replicate_app_Cons_same)
qed simp

lemma row_runs_hd: "fst (hd (row_runs cur n row)) = cur \<and> row_runs cur n row \<noteq> []"
  by (induction row arbitrary: n) simp_all

lemma row_runs_alternate: "successively (\<lambda>a b. fst a \<noteq> fst b) (row_runs cur n row)"
proof (induction row arbitrary: cur n)
  case (Cons s row)
  then show ?case using row_runs_hd [of s 1 row] by (auto simp: successively_Cons)
qed simp

text \<open>The groups of a compressed map: none is empty, and they follow one another.\<close>

lemma cell_bounds_eq: "cell < cells \<Longrightarrow> cell_bounds n cells cell = (cell * n div cells, Suc cell * n div cells)"
proof -
  assume "cell < cells"
  then have "Suc cell * n div cells \<le> cells * n div cells" by (intro div_le_mono mult_le_mono1) simp
  also have "\<dots> = n" using \<open>cell < cells\<close> by simp
  finally show ?thesis by (simp add: cell_bounds_def)
qed

lemma cell_not_empty:
  assumes "cells \<le> n" "cell < cells"
  shows "cell * n div cells < Suc cell * n div cells" "Suc cell * n div cells \<le> n"
proof -
  have "cell * n div cells + 1 = (cell * n + cells) div cells" using assms(2) by simp
  also have "\<dots> \<le> Suc cell * n div cells" using assms(1) by (intro div_le_mono) simp
  finally show "cell * n div cells < Suc cell * n div cells" by simp
  have "Suc cell * n div cells \<le> cells * n div cells" using assms(2) by (intro div_le_mono mult_le_mono1) simp
  then show "Suc cell * n div cells \<le> n" using assms(2) by simp
qed

lemma dominant_done:
  assumes "xs \<noteq> []"
  shows "dominant_state (\<lambda>s. length (filter (\<lambda>x. x = s) xs)) = StateDone \<longleftrightarrow> (\<forall>x \<in> set xs. x = StateDone)"
proof -
  have sum: "length xs = length (filter (\<lambda>x. x = StateDone) xs) + length (filter (\<lambda>x. x = StateActive) xs) +
      length (filter (\<lambda>x. x = StatePending) xs) + length (filter (\<lambda>x. x = StateEmpty) xs)"
  proof (induction xs)
    case (Cons x xs)
    then show ?case by (cases x) simp_all
  qed simp
  have "length (filter (\<lambda>x. x = StateDone) xs) = length xs \<longleftrightarrow> (\<forall>x \<in> set xs. x = StateDone)"
    using length_filter_less [of _ xs "\<lambda>x. x = StateDone"] filter_True [of xs "\<lambda>x. x = StateDone"] by fastforce
  then show ?thesis by (simp add: dominant_state_def Let_def flip: sum)
qed

text \<open>The piece map fits its place. It has at most eight rows of at most the width of the map; the
  rows spell the cells in order, and the coloured runs of a row spell the row. When the pieces do not fit
  one to one, each cell stands for a group of at least one piece, the groups follow one another from
  the first piece to the last, and a cell is shown as done exactly if every piece of its group is.\<close>

theorem piece_map_spec:
  assumes w: "w = map_width width"
  shows "length (rows_of w (map_cells w pieces)) \<le> max_rows \<and>
    (\<forall>row \<in> set (rows_of w (map_cells w pieces)). row \<noteq> [] \<and> length row \<le> w) \<and>
    concat (rows_of w (map_cells w pieces)) = map_cells w pieces \<and>
    (\<forall>s row. concat (map (\<lambda>(s, n). replicate n s) (row_runs s 1 row)) = s # row) \<and>
    (if length pieces \<le> max_rows * w then map_cells w pieces = pieces
     else length (map_cells w pieces) = max_rows * w \<and>
       fst (cell_bounds (length pieces) (max_rows * w) 0) = 0 \<and>
       snd (cell_bounds (length pieces) (max_rows * w) (max_rows * w - 1)) = length pieces \<and>
       (\<forall>k < max_rows * w. case cell_bounds (length pieces) (max_rows * w) k of (lo, hi) \<Rightarrow>
          lo < hi \<and> hi \<le> length pieces \<and> (k + 1 < max_rows * w \<longrightarrow> fst (cell_bounds (length pieces) (max_rows * w) (k + 1)) = hi) \<and>
          (map_cells w pieces ! k = StateDone \<longleftrightarrow> (\<forall>i. lo \<le> i \<and> i < hi \<longrightarrow> pieces ! i = StateDone))))"
proof -
  let ?n = "length pieces" and ?c = "max_rows * w"
  have w0: "0 < w" using w by (simp add: map_width_def)
  have fits: "max_rows < (?n + w - 1) div w \<longleftrightarrow> ?c < ?n"
  proof -
    have "max_rows < (?n + w - 1) div w \<longleftrightarrow> Suc max_rows * w \<le> ?n + w - 1"
      using w0 by (metis Suc_le_eq less_eq_div_iff_mult_less_eq)
    also have "\<dots> \<longleftrightarrow> ?c < ?n" using w0 by auto
    finally show ?thesis .
  qed
  have len: "length (map_cells w pieces) \<le> ?c" using fits by (auto simp: map_cells_def Let_def simp del: One_nat_def)
  have cells: "case cell_bounds ?n ?c k of (lo, hi) \<Rightarrow>
      lo < hi \<and> hi \<le> ?n \<and> (k + 1 < ?c \<longrightarrow> fst (cell_bounds ?n ?c (k + 1)) = hi) \<and>
      (map_cells w pieces ! k = StateDone \<longleftrightarrow> (\<forall>i. lo \<le> i \<and> i < hi \<longrightarrow> pieces ! i = StateDone))"
    if big: "?c < ?n" and k: "k < ?c" for k
  proof -
    define lo hi where lh: "lo = k * ?n div ?c" "hi = Suc k * ?n div ?c"
    have b: "lo < hi" "hi \<le> ?n" using cell_not_empty [of ?c ?n k] big k by (simp_all only: lh)
    have "length (slice pieces lo hi) = hi - lo" using b by simp
    then have ne: "slice pieces lo hi \<noteq> []" using b(1) by (metis diff_is_0_eq linorder_not_le list.size(3))
    have "(\<forall>x \<in> set (slice pieces lo hi). x = StateDone) \<longleftrightarrow> (\<forall>j < hi - lo. pieces ! (lo + j) = StateDone)"
      using b by (auto simp: slice_def in_set_conv_nth all_set_conv_all_nth)
    also have "\<dots> \<longleftrightarrow> (\<forall>i. lo \<le> i \<and> i < hi \<longrightarrow> pieces ! i = StateDone)"
    proof safe
      fix i assume all: "\<forall>j < hi - lo. pieces ! (lo + j) = StateDone" and i: "lo \<le> i" "i < hi"
      then have "pieces ! (lo + (i - lo)) = StateDone" by (intro all [rule_format]) simp
      then show "pieces ! i = StateDone" using i by simp
    qed simp
    finally have "map_cells w pieces ! k = StateDone \<longleftrightarrow> (\<forall>i. lo \<le> i \<and> i < hi \<longrightarrow> pieces ! i = StateDone)"
      using dominant_done [OF ne] big k fits by (simp add: map_cells_def cell_state_def cell_bounds_eq Let_def lh del: One_nat_def)
    then show ?thesis using b k by (simp add: cell_bounds_eq lh)
  qed
  have "fst (cell_bounds ?n ?c 0) = 0" by (simp add: cell_bounds_def)
  moreover have "snd (cell_bounds ?n ?c (?c - 1)) = ?n"
    using w0 by (simp add: cell_bounds_def max_rows_def)
  moreover have "map_cells w pieces = pieces" if "?n \<le> ?c" using that fits by (simp add: map_cells_def Let_def del: One_nat_def)
  moreover have "length (map_cells w pieces) = ?c" if "\<not> ?n \<le> ?c" using that fits by (simp add: map_cells_def Let_def del: One_nat_def)
  ultimately show ?thesis
    using concat_rows_of [OF w0] set_rows_of length_rows_of [OF w0 len] row_runs_spell [of _ 1] cells
    by (simp add: linorder_not_le) blast
qed

theorem piece_map_spec_witness:
  "length (rows_of (map_width 24) (map_cells (map_width 24) (replicate 1000 StateDone))) \<le> max_rows"
  using piece_map_spec [OF refl, of 24 "replicate 1000 StateDone"] by blast

section \<open>The bar and the counters\<close>

text \<open>The three parts of the bar fill it exactly, and none is negative.\<close>

lemma bar_parts_fill:
  assumes "0 \<le> done_pieces" "0 \<le> active" "bar_parts width n done_pieces active = (filled, act, rest)"
  shows "0 \<le> filled" "0 \<le> act" "0 \<le> rest" "filled + act + rest = max 20 (width - 30)"
proof -
  have "0 \<le> x * max 20 (width - 30) sdiv n" if "0 \<le> x" "0 < n" for x
  proof -
    have "0 \<le> x * max 20 (width - 30)" using that by simp
    then show ?thesis using that(2) by (simp add: signed_divide_int_def sgn_if pos_imp_zdiv_nonneg_iff)
  qed
  note nonneg = this [OF assms(1)] this [OF assms(2)]
  have bar: "(if width - 30 < 20 then 20 else width - 30) = max 20 (width - 30)" by simp
  have parts: "filled = (let f = if 0 < n then done_pieces * max 20 (width - 30) sdiv n else 0 in min f (max 20 (width - 30)))"
    "act = max 0 (let a = if 0 < n then active * max 20 (width - 30) sdiv n else 0 in if max 20 (width - 30) < a + filled then max 20 (width - 30) - filled else a)"
    "rest = max 0 (max 20 (width - 30) - filled - act)"
    using assms(3) unfolding bar_parts_def bar by (auto simp: Let_def min_def max_def split: if_splits)
  show f: "0 \<le> filled" using nonneg(1) unfolding parts(1) Let_def by auto
  have "filled \<le> max 20 (width - 30)" unfolding parts(1) Let_def by simp
  moreover from this have "act \<le> max 20 (width - 30) - filled" unfolding parts(2) Let_def by auto
  ultimately show "filled + act + rest = max 20 (width - 30)" unfolding parts(3) by simp
  show "0 \<le> act" "0 \<le> rest" unfolding parts(2,3) by simp_all
qed

text \<open>The counter agrees with the map as long as no finished piece is set back.\<close>

definition counted :: "progress \<Rightarrow> bool" where
  "counted p \<longleftrightarrow> pg_pieces_done p = length (filter (\<lambda>s. s = StateDone) (pg_pieces p))"

lemma with_peer_pieces [simp]:
  "pg_pieces (with_peer addr f p) = pg_pieces p" "pg_pieces_done (with_peer addr f p) = pg_pieces_done p"
  by (simp_all add: with_peer_def split: option.splits)

lemma filter_update_other:
  "i < length xs \<Longrightarrow> xs ! i \<noteq> a \<Longrightarrow> length (filter (\<lambda>x. x = a) (xs[i := b])) = length (filter (\<lambda>x. x = a) xs) + (if b = a then 1 else 0)"
  by (induction xs arbitrary: i) (auto simp: less_Suc_eq_0_disj)

lemma counted_new: "counted (new_progress now name n plen size_total)"
  by (simp add: counted_def new_progress_def)

lemma counted_done: "counted p \<Longrightarrow> piece_done i addr p = Inr p' \<Longrightarrow> counted p'"
  by (auto simp: counted_def piece_done_def filter_update_other Let_def split: if_splits)

lemma counted_set:
  "counted p \<Longrightarrow> set_state i s p = Inr p' \<Longrightarrow> s \<noteq> StateDone \<Longrightarrow> pg_pieces p ! i \<noteq> StateDone \<Longrightarrow> counted p'"
  by (auto simp: counted_def set_state_def filter_update_other split: if_splits)

lemma counted_bound: "counted p \<Longrightarrow> pg_pieces_done p \<le> length (pg_pieces p)"
  by (simp add: counted_def)

text \<open>
  The failure of a piece reaches the collector after another worker has fetched it: the
  collector sets it back to pending and counts it again, one of one pieces twice.
\<close>

lemma done_counted_twice:
  "Inr 2 = map_sum id pg_pieces_done
     (case piece_done 0 addr (new_progress now name 1 plen size_total) of
        Inl e \<Rightarrow> Inl e
      | Inr p \<Rightarrow> (case piece_failed 0 p of Inl e \<Rightarrow> Inl e | Inr p \<Rightarrow> piece_done 0 addr p))"
  by (simp add: piece_done_def piece_failed_def set_state_def new_progress_def with_peer_def)

text \<open>The display of the last \<open>PrintOver\<close> is left when the cursor goes up by its lines.\<close>

lemma newlines_clear: "newlines (clear_line_ends s) = newlines s"
  by (induction s) (simp_all add: newlines_def clear_line_ends_def)

lemma print_over_lines: "pg_last_lines (snd (print_over output p)) = newlines output"
  by (simp add: print_over_def newlines_clear Let_def)

end
