(* ===== verification/Pool.thy ===== *)
theory Pool
  imports Download Progress
begin

text \<open>
  The pool of peer workers (\<open>download/pool.go\<close>): slots, untried peers, strikes, and the
  evaluation that replaces slow workers. Times are nanoseconds, read from a clock that is an
  argument; \<open>rnd\<close> rounds to a \<open>float64\<close>. A map is iterated in an arbitrary order, given as a list.
\<close>

section \<open>State\<close>

record active_worker =
  aw_bytes :: int
  aw_prev_bytes :: int
  aw_prev_time :: int
  aw_started :: int
  aw_cancelled :: bool

record pool =
  p_max_slots :: nat
  p_rotate_count :: nat
  p_pipeline_depth :: nat
  p_untried :: "bytes list"
  p_active :: "bytes \<rightharpoonup> active_worker"
  p_strikes :: "bytes \<rightharpoonup> nat"
  p_done :: "bytes list"
  p_running :: "bytes list"

definition eval_interval :: int where "eval_interval = 5 * 10 ^ 9"
definition grace_period :: int where "grace_period = 5 * 10 ^ 9"

text \<open>\<open>newPeerPool\<close>; numbers of the configuration that are not positive stand for the defaults.\<close>

definition new_peer_pool :: "int \<Rightarrow> int \<Rightarrow> bytes list \<Rightarrow> pool" where
  "new_peer_pool max_peers pipeline_depth peers =
     (let max_slots = (if max_peers \<le> 0 then 30 else nat max_peers);
          depth = (if pipeline_depth \<le> 0 then 20 else nat pipeline_depth);
          rotate = max_slots div 10
      in \<lparr>p_max_slots = max_slots, p_rotate_count = (if rotate < 1 then 1 else rotate), p_pipeline_depth = depth,
          p_untried = drop max_slots peers, p_active = Map.empty, p_strikes = Map.empty, p_done = [], p_running = []\<rparr>)"

text \<open>The peers that \<open>File\<close> hands to \<open>run\<close>.\<close>

definition initial_peers :: "int \<Rightarrow> bytes list \<Rightarrow> bytes list" where
  "initial_peers max_peers peers = take (if max_peers \<le> 0 then 30 else nat max_peers) peers"

definition start_worker :: "int \<Rightarrow> bytes \<Rightarrow> pool \<Rightarrow> pool" where
  "start_worker now addr p =
     p\<lparr>p_active := (p_active p)(addr \<mapsto>
         \<lparr>aw_bytes = 0, aw_prev_bytes = 0, aw_prev_time = now, aw_started = now, aw_cancelled = False\<rparr>),
       p_running := addr # p_running p\<rparr>"

definition pick_untried :: "pool \<Rightarrow> bytes option \<times> pool" where
  "pick_untried p = (case p_untried p of [] \<Rightarrow> (None, p) | a # as \<Rightarrow> (Some a, p\<lparr>p_untried := as\<rparr>))"

text \<open>The backfill loops; the empty string, which stands for no peer, ends them.\<close>

primrec backfill :: "int \<Rightarrow> nat \<Rightarrow> pool \<Rightarrow> pool" where
  "backfill now 0 p = p"
| "backfill now (Suc n) p =
     (case pick_untried p of
        (None, p') \<Rightarrow> p'
      | (Some a, p') \<Rightarrow> if a = [] then p' else backfill now n (start_worker now a p'))"

definition strikes_of :: "pool \<Rightarrow> bytes \<Rightarrow> nat" where
  "strikes_of p addr = (case p_strikes p addr of Some k \<Rightarrow> k | None \<Rightarrow> 0)"

definition release :: "bytes \<Rightarrow> pool \<Rightarrow> pool" where
  "release addr p =
     (let aw = p_active p addr;
          p = p\<lparr>p_active := (p_active p)(addr := None)\<rparr>
      in if aw \<noteq> None then
           let k = strikes_of p addr + 1;
               p = p\<lparr>p_strikes := (p_strikes p)(addr \<mapsto> k)\<rparr>
           in if k < 3 then p\<lparr>p_untried := p_untried p @ [addr]\<rparr> else p
         else p)"

definition handle_worker_exit :: "int \<Rightarrow> bytes \<Rightarrow> pool \<Rightarrow> pool" where
  "handle_worker_exit now addr p =
     (let p = release addr p in backfill now (p_max_slots p - card (dom (p_active p))) p)"

section \<open>Evaluation\<close>

text \<open>\<open>activeWorker.speed\<close>.\<close>

definition worker_speed :: "(real \<Rightarrow> real) \<Rightarrow> int \<Rightarrow> active_worker \<Rightarrow> real" where
  "worker_speed rnd now w =
     (let elapsed = seconds rnd (now - aw_prev_time w)
      in if elapsed \<le> 0 then 0 else rnd (rnd (of_int (aw_bytes w - aw_prev_bytes w)) / elapsed))"

definition snapshot :: "int \<Rightarrow> active_worker \<Rightarrow> active_worker" where
  "snapshot now w = w\<lparr>aw_prev_bytes := aw_bytes w, aw_prev_time := now\<rparr>"

definition in_grace :: "int \<Rightarrow> active_worker \<Rightarrow> bool" where
  "in_grace now w \<longleftrightarrow> now - aw_started w < grace_period"

text \<open>The dead workers, and the live ones with their speeds, in the order of the iteration.\<close>

definition dead_workers :: "int \<Rightarrow> bytes list \<Rightarrow> pool \<Rightarrow> bytes list" where
  "dead_workers now order p =
     filter (\<lambda>a. case p_active p a of Some w \<Rightarrow> \<not> in_grace now w \<and> aw_bytes w = 0 | None \<Rightarrow> False) order"

definition live_workers :: "(real \<Rightarrow> real) \<Rightarrow> int \<Rightarrow> bytes list \<Rightarrow> pool \<Rightarrow> (bytes \<times> real) list" where
  "live_workers rnd now order p =
     map (\<lambda>a. (a, worker_speed rnd now (the (p_active p a))))
       (filter (\<lambda>a. case p_active p a of Some w \<Rightarrow> \<not> in_grace now w \<and> aw_bytes w \<noteq> 0 | None \<Rightarrow> False) order)"

definition to_cancel :: "(real \<Rightarrow> real) \<Rightarrow> int \<Rightarrow> bytes list \<Rightarrow> pool \<Rightarrow> bytes list" where
  "to_cancel rnd now order p =
     (let dead = dead_workers now order p;
          live = live_workers rnd now order p;
          available = length (p_untried p)
      in if length dead < available \<and> live \<noteq> [] then
           let budget = min (min (p_rotate_count p) (available - length dead)) (length live)
           in dead @ map fst (take budget (sort_key snd live))
         else dead)"

definition evaluate :: "(real \<Rightarrow> real) \<Rightarrow> int \<Rightarrow> bytes list \<Rightarrow> pool \<Rightarrow> pool" where
  "evaluate rnd now order p =
     (let cancel = to_cancel rnd now order p;
          p = p\<lparr>p_active := (\<lambda>a. map_option (\<lambda>w. (snapshot now w)\<lparr>aw_cancelled := aw_cancelled w \<or> a \<in> set cancel\<rparr>)
                              (p_active p a))\<rparr>
      in backfill now (length cancel) p)"

section \<open>A worker\<close>

text \<open>
  The loop of \<open>runWorker\<close> over the sessions with one peer. A round tells whether the context was cancelled
  before the session, how many pieces the session downloaded and whether the pause after it was cut
  short. The loop pauses as many seconds as there were failures in a row, and gives up after three.
\<close>

record worker_round =
  rd_cancelled :: bool
  rd_downloaded :: nat
  rd_pause_cut :: bool

datatype worker_event = Session | Strikes_Cleared | Pause nat

definition max_worker_retries :: nat where "max_worker_retries = 3"

text \<open>The events, and whether the worker has returned after the given rounds.\<close>

primrec run_worker :: "nat \<Rightarrow> worker_round list \<Rightarrow> worker_event list \<times> bool" where
  "run_worker retries [] = ([], max_worker_retries \<le> retries)"
| "run_worker retries (r # rs) =
     (if max_worker_retries \<le> retries \<or> rd_cancelled r then ([], True)
      else
        let productive = 0 < rd_downloaded r;
            retries = (if productive then 0 else retries + 1);
            now = Session # (if productive then [Strikes_Cleared] else [])
        in if rd_pause_cut r then (now, True)
           else let (later, returned) = run_worker retries rs in (now @ Pause retries # later, returned))"

text \<open>A peer that delivers nothing is left after three sessions, with pauses of one, two and three seconds.\<close>

lemma run_worker_idle:
  assumes "\<forall>r \<in> set rs. \<not> rd_cancelled r \<and> rd_downloaded r = 0 \<and> \<not> rd_pause_cut r" "3 \<le> length rs"
  shows "run_worker 0 rs = ([Session, Pause 1, Session, Pause 2, Session, Pause 3], True)"
proof -
  obtain a b c ds where rs: "rs = a # b # c # ds" using assms(2) by (auto simp: numeral_3_eq_3 Suc_le_length_iff)
  have "run_worker 3 ds = ([], True)" by (cases ds) (simp_all add: max_worker_retries_def)
  then show ?thesis using assms(1) by (simp add: rs max_worker_retries_def numeral_2_eq_2 numeral_3_eq_3)
qed

text \<open>Strikes are only cleared after a session that delivered; between two such sessions there are at most two idle ones.\<close>

lemma run_worker_sessions:
  "length (filter (\<lambda>e. e = Session) (fst (run_worker k rs))) + k \<le>
     3 * (length (filter (\<lambda>e. e = Strikes_Cleared) (fst (run_worker k rs))) + 1) + (if 3 < k then k - 3 else 0)"
proof (induction rs arbitrary: k)
  case (Cons r rs)
  show ?case
  proof (cases "3 \<le> k \<or> rd_cancelled r \<or> rd_pause_cut r")
    case True
    then show ?thesis by (auto simp: max_worker_retries_def Let_def)
  next
    case False
    then show ?thesis using Cons.IH [of 0] Cons.IH [of "k + 1"]
      by (auto simp: max_worker_retries_def Let_def split: prod.splits)
  qed
qed simp

section \<open>Statistics\<close>

text \<open>\<open>pushPoolStats\<close> of the pool.\<close>

definition push_pool_stats :: "pool \<Rightarrow> progress \<Rightarrow> progress" where
  "push_pool_stats p pr =
     set_pool_stats \<lparr>pl_active_slots = int (card (dom (p_active p))), pl_max_slots = int (p_max_slots p),
                     pl_untried = int (length (p_untried p))\<rparr> pr"

section \<open>Steps\<close>

text \<open>
  A worker that downloads adds to its bytes and, after a productive session, loses its strikes;
  a worker that returns sends its address on the channel, whose capacity is the number of
  slots; the loop of \<open>run\<close> receives it or evaluates.
\<close>

datatype pool_event = Received bytes | Productive bytes | Returned bytes | Exit bytes | Evaluation

inductive pool_step :: "pool_event \<Rightarrow> pool \<Rightarrow> pool \<Rightarrow> bool" where
  receives_bytes: "p_active p a = Some w \<Longrightarrow> 0 \<le> n \<Longrightarrow>
    pool_step (Received a) p (p\<lparr>p_active := (p_active p)(a \<mapsto> w\<lparr>aw_bytes := aw_bytes w + n\<rparr>)\<rparr>)"
| productive: "a \<in> set (p_running p) \<Longrightarrow> pool_step (Productive a) p (p\<lparr>p_strikes := (p_strikes p)(a := None)\<rparr>)"
| returns: "p_running p = xs @ a # ys \<Longrightarrow> length (p_done p) < p_max_slots p \<Longrightarrow>
    pool_step (Returned a) p (p\<lparr>p_running := xs @ ys, p_done := p_done p @ [a]\<rparr>)"
| handles_exit: "p_done p = a # as \<Longrightarrow> pool_step (Exit a) p (handle_worker_exit now a (p\<lparr>p_done := as\<rparr>))"
| evaluates: "set order = dom (p_active p) \<Longrightarrow> distinct order \<Longrightarrow> pool_step Evaluation p (evaluate rnd now order p)"

definition run_start :: "int \<Rightarrow> int \<Rightarrow> int \<Rightarrow> bytes list \<Rightarrow> pool" where
  "run_start now max_peers depth peers =
     foldl (\<lambda>p a. start_worker now a p) (new_peer_pool max_peers depth peers) (initial_peers max_peers peers)"

text \<open>The events of a run so far, and the pool after them.\<close>

inductive pool_reach :: "int \<Rightarrow> int \<Rightarrow> bytes list \<Rightarrow> pool_event list \<Rightarrow> pool \<Rightarrow> bool" for max_peers depth peers where
  init: "pool_reach max_peers depth peers [] (run_start now max_peers depth peers)"
| step: "pool_reach max_peers depth peers es p \<Longrightarrow> pool_step e p p' \<Longrightarrow> pool_reach max_peers depth peers (es @ [e]) p'"

text \<open>The exits of an address that the pool has handled since the last productive session of the address.\<close>

definition exits_since :: "bytes \<Rightarrow> pool_event list \<Rightarrow> nat" where
  "exits_since a es = length (filter (\<lambda>e. e = Exit a) (takeWhile (\<lambda>e. e \<noteq> Productive a) (rev es)))"

lemma exits_since_snoc [simp]:
  "exits_since a [] = 0"
  "exits_since a (es @ [e]) = (if e = Productive a then 0 else if e = Exit a then Suc (exits_since a es) else exits_since a es)"
  by (simp_all add: exits_since_def)

section \<open>Accounting\<close>

text \<open>
  No address is doubled: an address is not both untried and active, the active ones are those
  with a running worker or a return under way, and no address with three strikes is among them. That none with
  fewer is lost is shown below (\<open>accounted\<close>).
\<close>

definition pool_ok :: "bytes list \<Rightarrow> pool \<Rightarrow> bool" where
  "pool_ok peers p \<longleftrightarrow>
     distinct (p_untried p) \<and> set (p_untried p) \<inter> dom (p_active p) = {} \<and>
     set (p_untried p) \<union> dom (p_active p) \<subseteq> set peers \<and>
     distinct (p_running p @ p_done p) \<and> set (p_running p @ p_done p) = dom (p_active p) \<and>
     (\<forall>a \<in> set (p_untried p) \<union> dom (p_active p). strikes_of p a < 3)"

lemma start_worker_fields [simp]:
  "p_untried (start_worker now a p) = p_untried p" "p_strikes (start_worker now a p) = p_strikes p"
  "p_done (start_worker now a p) = p_done p" "p_max_slots (start_worker now a p) = p_max_slots p"
  "dom (p_active (start_worker now a p)) = insert a (dom (p_active p))"
  "strikes_of (start_worker now a p) b = strikes_of p b"
  by (simp_all add: start_worker_def strikes_of_def)

lemma start_worker_untried:
  "start_worker now a (p\<lparr>p_untried := u\<rparr>) = (start_worker now a p)\<lparr>p_untried := u\<rparr>"
  by (simp add: start_worker_def)

lemma backfill_starts:
  "[] \<notin> set (p_untried p) \<Longrightarrow>
   backfill now n p =
     foldl (\<lambda>p a. start_worker now a p) (p\<lparr>p_untried := drop n (p_untried p)\<rparr>) (take n (p_untried p))"
proof (induction n arbitrary: p)
  case (Suc n)
  show ?case
  proof (cases "p_untried p")
    case Nil
    then show ?thesis by (simp add: pick_untried_def)
  next
    case (Cons a as)
    then have "a \<noteq> []" "[] \<notin> set as" using Suc.prems by auto
    then show ?thesis
      using Suc.IH [of "start_worker now a (p\<lparr>p_untried := as\<rparr>)"] Cons
      by (simp add: pick_untried_def start_worker_untried)
  qed
qed simp

lemma start_worker_ok:
  assumes "pool_ok peers p" "a \<in> set peers" "a \<notin> set (p_untried p)" "a \<notin> dom (p_active p)" "strikes_of p a < 3"
  shows "pool_ok peers (start_worker now a p)"
  using assms by (auto simp: pool_ok_def start_worker_def strikes_of_def)

lemma foldl_start_ok:
  "pool_ok peers p \<Longrightarrow> distinct as \<Longrightarrow> set as \<subseteq> set peers \<Longrightarrow> set as \<inter> (set (p_untried p) \<union> dom (p_active p)) = {} \<Longrightarrow>
   \<forall>a \<in> set as. strikes_of p a < 3 \<Longrightarrow> pool_ok peers (foldl (\<lambda>p a. start_worker now a p) p as)"
proof (induction as arbitrary: p)
  case (Cons a as)
  have "pool_ok peers (start_worker now a p)" using Cons.prems by (intro start_worker_ok) auto
  then show ?case using Cons.prems by (simp add: Cons.IH)
qed simp

lemma foldl_start_fields [simp]:
  "p_untried (foldl (\<lambda>p a. start_worker now a p) p as) = p_untried p"
  "dom (p_active (foldl (\<lambda>p a. start_worker now a p) p as)) = set as \<union> dom (p_active p)"
  "strikes_of (foldl (\<lambda>p a. start_worker now a p) p as) b = strikes_of p b"
  "p_max_slots (foldl (\<lambda>p a. start_worker now a p) p as) = p_max_slots p"
  by (induction as arbitrary: p) auto

lemma backfill_ok:
  assumes "pool_ok peers p" "[] \<notin> set peers"
  shows "pool_ok peers (backfill now n p)"
proof -
  have ne: "[] \<notin> set (p_untried p)" using assms by (auto simp: pool_ok_def)
  let ?p = "p\<lparr>p_untried := drop n (p_untried p)\<rparr>"
  have "distinct (take n (p_untried p) @ drop n (p_untried p))" using assms(1) by (simp add: pool_ok_def)
  then have d: "set (take n (p_untried p)) \<inter> set (drop n (p_untried p)) = {}" by (simp only: distinct_append)
  have sub: "set (take n (p_untried p)) \<subseteq> set (p_untried p)" "set (drop n (p_untried p)) \<subseteq> set (p_untried p)"
    by (rule set_take_subset set_drop_subset)+
  have "pool_ok peers ?p" using assms(1) sub(2) unfolding pool_ok_def strikes_of_def by auto
  then show ?thesis
    unfolding backfill_starts [OF ne]
    using assms(1) d sub by (intro foldl_start_ok) (auto simp: pool_ok_def strikes_of_def)
qed

lemma run_start_ok:
  assumes "distinct peers"
  shows "pool_ok peers (run_start now max_peers depth peers)"
proof -
  let ?n = "if max_peers \<le> 0 then 30 else nat max_peers"
  have "distinct (take ?n peers @ drop ?n peers)" using assms by simp
  then have "set (take ?n peers) \<inter> set (drop ?n peers) = {}" by (simp only: distinct_append)
  moreover have "pool_ok peers (new_peer_pool max_peers depth peers)"
    using assms set_drop_subset [of ?n peers] by (simp add: pool_ok_def new_peer_pool_def Let_def strikes_of_def)
  ultimately show ?thesis
    unfolding run_start_def initial_peers_def
    using assms set_take_subset [of ?n peers]
    by (intro foldl_start_ok) (auto simp: new_peer_pool_def Let_def strikes_of_def)
qed

lemma release_ok:
  assumes ok: "pool_ok peers p" and fin: "p_done p = a # as"
  shows "pool_ok peers (release a (p\<lparr>p_done := as\<rparr>))"
proof -
  have "a \<in> set (p_running p @ p_done p)" using fin by simp
  then have dom: "a \<in> dom (p_active p)" using ok unfolding pool_ok_def by blast
  moreover have "distinct (p_running p @ a # as)" using ok fin by (simp add: pool_ok_def)
  moreover have "set (p_untried p) \<inter> dom (p_active p) = {}" "set (p_untried p) \<union> dom (p_active p) \<subseteq> set peers"
    "\<forall>b \<in> set (p_untried p) \<union> dom (p_active p). strikes_of p b < 3"
    using ok by (simp_all add: pool_ok_def)
  ultimately have a: "a \<in> dom (p_active p)" "a \<notin> set as" "a \<notin> set (p_running p)" "a \<notin> set (p_untried p)"
    "a \<in> set peers" "strikes_of p a < 3"
    by simp_all blast+
  obtain w where w: "p_active p a = Some w" using a(1) by blast
  let ?k = "Suc (strikes_of p a)"
  let ?p = "p\<lparr>p_done := as, p_active := (p_active p)(a := None), p_strikes := (p_strikes p)(a \<mapsto> ?k)\<rparr>"
  have k: "strikes_of (p\<lparr>p_done := as, p_active := f\<rparr>) a = strikes_of p a" for f by (simp add: strikes_of_def)
  have rel: "release a (p\<lparr>p_done := as\<rparr>) = (if ?k < 3 then ?p\<lparr>p_untried := p_untried p @ [a]\<rparr> else ?p)"
    using w by (simp add: release_def Let_def k)
  have "set (p_running p @ p_done p) = dom (p_active p)" "distinct (p_running p @ p_done p)"
    using ok by (simp_all add: pool_ok_def)
  then have act: "set (p_running p) \<union> set as = dom (p_active p) - {a}" "distinct (p_running p @ as)"
    using fin a(2,3) by auto
  have dis: "distinct (p_untried p)" "set (p_untried p) \<inter> dom (p_active p) = {}"
    "set (p_untried p) \<union> dom (p_active p) \<subseteq> set peers" "\<forall>b \<in> set (p_untried p) \<union> dom (p_active p). strikes_of p b < 3"
    using ok by (simp_all add: pool_ok_def)
  have st: "strikes_of ?p b = (if b = a then ?k else strikes_of p b)"
    "strikes_of (?p\<lparr>p_untried := u\<rparr>) b = (if b = a then ?k else strikes_of p b)" for b u
    by (simp_all add: strikes_of_def)
  show ?thesis
  proof (cases "?k < 3")
    case True
    then show ?thesis
      unfolding rel pool_ok_def if_P [OF True] st using dis act a(4,5) by simp (use dis act in blast)
  next
    case False
    then show ?thesis
      unfolding rel pool_ok_def if_not_P [OF False] st using dis act a(4,5) by simp (use dis act in blast)
  qed
qed

lemma map_active_ok:
  assumes "pool_ok peers p" "\<forall>a. f a = None \<longleftrightarrow> p_active p a = None"
  shows "pool_ok peers (p\<lparr>p_active := f\<rparr>)"
proof -
  have "dom f = dom (p_active p)" using assms(2) by (auto simp: dom_def)
  then show ?thesis using assms(1) by (simp add: pool_ok_def strikes_of_def)
qed

lemma pool_step_ok:
  assumes "pool_step e p p'" "pool_ok peers p" "[] \<notin> set peers"
  shows "pool_ok peers p'"
  using assms(1)
proof (cases rule: pool_step.cases)
  case (receives_bytes a w n)
  then show ?thesis using map_active_ok [OF assms(2)] by simp
next
  case (productive a)
  then show ?thesis using assms(2) by (auto simp: pool_ok_def strikes_of_def)
next
  case (returns xs a ys)
  have "set (xs @ a # ys @ p_done p) = dom (p_active p)" "distinct (xs @ a # ys @ p_done p)"
    using assms(2) returns(3) by (simp_all add: pool_ok_def)
  then show ?thesis
    using assms(2) unfolding returns(2) pool_ok_def by (auto simp: strikes_of_def)
next
  case (handles_exit a as now)
  then show ?thesis
    using backfill_ok [OF release_ok [OF assms(2)] assms(3)] by (simp add: handle_worker_exit_def Let_def)
next
  case (evaluates order rnd now)
  then show ?thesis
    using backfill_ok [OF map_active_ok [OF assms(2)] assms(3)] by (simp add: evaluate_def Let_def)
qed

lemma pool_reach_ok:
  "pool_reach max_peers depth peers es p \<Longrightarrow> distinct peers \<Longrightarrow> [] \<notin> set peers \<Longrightarrow> pool_ok peers p"
  by (induction rule: pool_reach.induct) (use run_start_ok pool_step_ok in blast)+

text \<open>The addresses that are at hand: those that wait and those that are active.\<close>

definition at_hand :: "pool \<Rightarrow> bytes set" where
  "at_hand p = set (p_untried p) \<union> dom (p_active p)"

lemma at_hand_backfill:
  assumes "[] \<notin> set (p_untried p)"
  shows "at_hand (backfill now n p) = at_hand p"
  using set_append [of "take n (p_untried p)" "drop n (p_untried p)"]
  unfolding backfill_starts [OF assms] at_hand_def by auto

lemma backfill_strikes [simp]: "p_strikes (backfill now n p) = p_strikes p"
  by (induction n arbitrary: p) (auto simp: pick_untried_def split: list.splits)

lemma strikes_of_exit:
  assumes "a \<in> dom (p_active p)"
  shows "strikes_of (handle_worker_exit now a (p\<lparr>p_done := as\<rparr>)) b = (if b = a then Suc (strikes_of p a) else strikes_of p b)"
proof -
  have "strikes_of (release a (p\<lparr>p_done := as\<rparr>)) b = (if b = a then Suc (strikes_of p a) else strikes_of p b)"
    using assms by (auto simp: release_def Let_def strikes_of_def)
  then show ?thesis by (simp add: handle_worker_exit_def Let_def strikes_of_def)
qed

text \<open>A handled exit puts the address back, unless it is the third strike.\<close>

lemma at_hand_exit:
  assumes "pool_ok peers p" "[] \<notin> set peers" "p_done p = a # as"
  shows "at_hand (handle_worker_exit now a (p\<lparr>p_done := as\<rparr>)) =
    (if strikes_of p a < 2 then at_hand p else at_hand p - {a})"
proof -
  let ?q = "release a (p\<lparr>p_done := as\<rparr>)"
  have "a \<in> set (p_running p @ p_done p)" using assms(3) by simp
  then have a: "a \<in> dom (p_active p)" "a \<notin> set (p_untried p)" using assms(1) unfolding pool_ok_def by blast+
  have "[] \<notin> set (p_untried ?q)"
    using release_ok [OF assms(1,3)] assms(2) unfolding pool_ok_def by blast
  moreover have "strikes_of (p\<lparr>p_done := as, p_active := f\<rparr>) a = strikes_of p a" for f by (simp add: strikes_of_def)
  then have "at_hand ?q = (if strikes_of p a < 2 then at_hand p else at_hand p - {a})"
    using a by (auto simp: release_def Let_def at_hand_def)
  ultimately show ?thesis by (simp add: handle_worker_exit_def Let_def at_hand_backfill)
qed

lemma at_hand_evaluate:
  assumes "[] \<notin> set (p_untried p)"
  shows "at_hand (evaluate rnd now order p) = at_hand p"
proof -
  have "at_hand (p\<lparr>p_active := \<lambda>a. map_option (f a) (p_active p a)\<rparr>) = at_hand p" for f
    by (auto simp: at_hand_def dom_def)
  then show ?thesis using assms by (simp add: evaluate_def Let_def at_hand_backfill)
qed

lemma evaluate_strikes: "strikes_of (evaluate rnd now order p) a = strikes_of p a"
  by (simp add: evaluate_def Let_def strikes_of_def)

text \<open>Every address with fewer than three strikes is at hand, and the strikes are the exits since the last
  productive session.\<close>

definition accounted :: "bytes list \<Rightarrow> pool_event list \<Rightarrow> pool \<Rightarrow> bool" where
  "accounted peers es p \<longleftrightarrow> at_hand p = {a \<in> set peers. strikes_of p a < 3} \<and> (\<forall>a. strikes_of p a = exits_since a es \<and> exits_since a es \<le> 3)"

lemma accounted_step:
  assumes "pool_step e p p'" "pool_ok peers p" "[] \<notin> set peers" "accounted peers es p"
  shows "accounted peers (es @ [e]) p'"
  using assms(1)
proof (cases rule: pool_step.cases)
  case (receives_bytes a w n)
  then have "at_hand p' = at_hand p" "strikes_of p' b = strikes_of p b" for b by (auto simp: at_hand_def strikes_of_def)
  then show ?thesis using assms(4) receives_bytes(1) by (simp add: accounted_def)
next
  case (productive a)
  have "set (p_running p @ p_done p) = dom (p_active p)" using assms(2) by (simp add: pool_ok_def)
  then have "a \<in> at_hand p" using productive(3) by (auto simp: at_hand_def)
  then have "a \<in> set peers" "strikes_of p a < 3" using assms(4) by (auto simp: accounted_def)
  moreover have "at_hand p' = at_hand p" "strikes_of p' b = (if b = a then 0 else strikes_of p b)" for b
    by (simp_all add: productive(2) at_hand_def strikes_of_def)
  ultimately show ?thesis using assms(4) by (auto simp: accounted_def productive(1))
next
  case (returns xs a ys)
  then have "at_hand p' = at_hand p" "strikes_of p' b = strikes_of p b" for b by (simp_all add: at_hand_def strikes_of_def)
  then show ?thesis using assms(4) returns(1) by (simp add: accounted_def)
next
  case (handles_exit a as now)
  have "a \<in> set (p_running p @ p_done p)" using handles_exit(3) by simp
  then have a: "a \<in> dom (p_active p)" using assms(2) unfolding pool_ok_def by blast
  then have "a \<in> at_hand p" by (simp add: at_hand_def)
  then have "strikes_of p a < 3" using assms(4) by (auto simp: accounted_def)
  then show ?thesis
    using assms(4) at_hand_exit [OF assms(2,3) handles_exit(3), of now]
    unfolding accounted_def handles_exit(1,2) strikes_of_exit [OF a] by auto
next
  case (evaluates order rnd now)
  have "[] \<notin> set (p_untried p)" using assms(2,3) unfolding pool_ok_def by blast
  then show ?thesis using assms(4) by (simp add: accounted_def evaluates at_hand_evaluate evaluate_strikes)
qed

lemma run_start_accounted: "accounted peers [] (run_start now max_peers depth peers)"
proof -
  let ?n = "if max_peers \<le> 0 then 30 else nat max_peers"
  have "set (take ?n peers) \<union> set (drop ?n peers) = set peers" by (simp flip: set_append)
  moreover have "p_untried (run_start now max_peers depth peers) = drop ?n peers"
    "dom (p_active (run_start now max_peers depth peers)) = set (take ?n peers)"
    by (simp_all add: run_start_def initial_peers_def) (simp_all add: new_peer_pool_def Let_def)
  ultimately have "at_hand (run_start now max_peers depth peers) = set peers" by (simp only: at_hand_def) blast
  moreover have "strikes_of (run_start now max_peers depth peers) a = 0" for a
    by (simp add: run_start_def) (simp add: new_peer_pool_def Let_def strikes_of_def)
  ultimately show ?thesis by (simp add: accounted_def)
qed

lemma pool_reach_accounted:
  assumes "pool_reach max_peers depth peers es p" "distinct peers" "[] \<notin> set peers"
  shows "accounted peers es p"
  using assms(1)
proof (induction rule: pool_reach.induct)
  case (step es p e p')
  then show ?case using accounted_step pool_reach_ok [OF step.hyps(1) assms(2,3)] assms(3) by blast
qed (rule run_start_accounted)

text \<open>
  C29. Under any interleaving of downloads, returns, exits and evaluations: the strikes of an address are the exits
  that were handled since its last productive session; an address of the list waits or is active exactly if it has
  fewer than three strikes (with three it has been given up), never both; it waits at most once; and the
  active addresses are exactly those with a running worker or an exit on the channel, each once.
\<close>
theorem pool_accounting:
  assumes "pool_reach max_peers depth peers es p" "distinct peers" "[] \<notin> set peers"
  shows "(\<forall>a. strikes_of p a = exits_since a es \<and> exits_since a es \<le> 3) \<and>
    set (p_untried p) \<union> dom (p_active p) = {a \<in> set peers. strikes_of p a < 3} \<and>
    distinct (p_untried p) \<and> set (p_untried p) \<inter> dom (p_active p) = {} \<and>
    distinct (p_running p @ p_done p) \<and> set (p_running p @ p_done p) = dom (p_active p)"
  using pool_reach_ok [OF assms] pool_reach_accounted [OF assms]
  by (simp add: pool_ok_def accounted_def at_hand_def)

text \<open>One slot, two peers; the worker of the first returns and the pool handles its exit: the second is started
  and the first waits again, with one strike.\<close>

lemma sample_exit:
  defines "p \<equiv> run_start 0 1 0 [[97], [98]]"
  defines "q \<equiv> p\<lparr>p_running := [], p_done := [[97]]\<rparr>"
  shows "pool_reach 1 0 [[97], [98]] [Returned [97], Exit [97]] (handle_worker_exit 5 [97] (q\<lparr>p_done := []\<rparr>))"
proof -
  have p: "p_running p = [[97]]" "p_done p = []" "p_max_slots p = 1"
    by (simp_all add: p_def run_start_def new_peer_pool_def initial_peers_def start_worker_def)
  have "pool_step (Returned [97]) p q" unfolding q_def using pool_step.returns [of p "[]" "[97]" "[]"] p by simp
  then have "pool_reach 1 0 [[97], [98]] ([] @ [Returned [97]]) q"
    using pool_reach.step [OF pool_reach.init] by (simp add: p_def)
  moreover have "pool_step (Exit [97]) q (handle_worker_exit 5 [97] (q\<lparr>p_done := []\<rparr>))"
    by (rule pool_step.handles_exit) (simp add: q_def)
  ultimately have "pool_reach 1 0 [[97], [98]] (([] @ [Returned [97]]) @ [Exit [97]]) (handle_worker_exit 5 [97] (q\<lparr>p_done := []\<rparr>))"
    by (rule pool_reach.step)
  then show ?thesis by simp
qed

theorem pool_accounting_witness:
  "\<exists>p. pool_reach 1 0 [[97], [98]] [Returned [97], Exit [97]] p \<and> strikes_of p [97] = 1 \<and> strikes_of p [98] = 0 \<and>
     set (p_untried p) \<union> dom (p_active p) = {[97], [98]}"
proof -
  obtain p where p: "pool_reach 1 0 [[97], [98]] [Returned [97], Exit [97]] p" using sample_exit by blast
  have st: "strikes_of p a = exits_since a [Returned [97], Exit [97]]"
    and all: "set (p_untried p) \<union> dom (p_active p) = {a \<in> set [[97], [98]]. strikes_of p a < 3}" for a
    using pool_accounting [OF p] by simp_all
  have "strikes_of p [97] = 1" "strikes_of p [98] = 0" by (simp_all add: st exits_since_def)
  moreover from this have "{a \<in> set [[97], [98]]. strikes_of p a < 3} = {[97], [98]}" by auto
  ultimately show ?thesis using p all by metis
qed

section \<open>Retries end\<close>

fun is_exit :: "pool_event \<Rightarrow> bool" where
  "is_exit (Exit _) = True"
| "is_exit _ = False"

lemma idle_run_strikes:
  assumes "pool_reach max_peers depth peers es p" "\<forall>a. Productive a \<notin> set es" "distinct peers" "[] \<notin> set peers"
  shows "length (filter is_exit es) = (\<Sum>a\<in>set peers. exits_since a es)"
  using assms(1,2)
proof (induction rule: pool_reach.induct)
  case (step es p e p')
  have IH: "length (filter is_exit es) = (\<Sum>a\<in>set peers. exits_since a es)" using step by simp
  show ?case
  proof (cases "is_exit e")
    case True
    then obtain a where e: "e = Exit a" by (cases e) simp_all
    with step.hyps(2) have "a \<in> set (p_running p @ p_done p)" by (auto elim: pool_step.cases)
    then have a: "a \<in> set peers" using pool_reach_ok [OF step.hyps(1) assms(3,4)] unfolding pool_ok_def by blast
    have "(\<Sum>b\<in>set peers. exits_since b (es @ [e])) = (\<Sum>b\<in>set peers. exits_since b es + (if b = a then 1 else 0))"
      by (rule sum.cong) (auto simp: e)
    then show ?thesis using IH a by (simp add: sum.distrib e)
  next
    case False
    have "(\<Sum>b\<in>set peers. exits_since b (es @ [e])) = (\<Sum>b\<in>set peers. exits_since b es)"
      using False step.prems by (intro sum.cong) auto
    then show ?thesis using IH False by simp
  qed
qed simp

text \<open>
  A peer that never delivers is tried at most three times: without productive sessions the
  pool handles at most three exits for each address, whatever the interleaving.
\<close>
theorem idle_retries_end:
  assumes "pool_reach max_peers depth peers es p" "\<forall>a. Productive a \<notin> set es" "distinct peers" "[] \<notin> set peers"
  shows "length (filter is_exit es) \<le> 3 * length peers"
proof -
  have "exits_since a es \<le> 3" for a
    using pool_reach_accounted [OF assms(1,3,4)] unfolding accounted_def by metis
  then have "(\<Sum>a\<in>set peers. exits_since a es) \<le> (\<Sum>a\<in>set peers. 3)" by (intro sum_mono)
  also have "\<dots> = 3 * length peers" using assms(3) by (simp add: distinct_card)
  finally show ?thesis using idle_run_strikes [OF assms] by simp
qed

theorem idle_retries_end_witness:
  "length (filter is_exit [Returned [97], Exit [97]]) \<le> 3 * length [[97 :: u8], [98]]"
  by (rule idle_retries_end [OF sample_exit]) simp_all

section \<open>Where the code goes wrong\<close>

text \<open>
  When every peer has struck out, nothing changes any more; \<open>run\<close> goes on waiting, the channel
  of results is never closed, and \<open>File\<close> does not return although its download cannot go on.
\<close>

lemma exhausted_pool_waits:
  assumes "pool_ok peers p" "p_untried p = []" "p_active p = Map.empty" "pool_step e p p'"
  shows "p' = p"
proof -
  have none: "p_running p = []" "p_done p = []" using assms(1,3) by (simp_all add: pool_ok_def)
  have "p\<lparr>p_active := \<lambda>_. None\<rparr> = p" using assms(3) by (cases p) simp
  then have ev: "evaluate rnd now [] p = p" for rnd now
    using assms(3) by (simp add: evaluate_def to_cancel_def dead_workers_def live_workers_def Let_def)
  from assms(4) show ?thesis
    by (cases rule: pool_step.cases) (use none ev assms(3) in auto)
qed

text \<open>
  \<open>evaluate\<close> starts replacements while the cancelled workers still run: with one slot two
  workers run. The channel of exits has room for one; once \<open>run\<close> has left its loop, the other
  worker waits for ever to send its address, and so does \<open>run\<close> for the worker.
\<close>

lemma slots_exceeded:
  "\<exists>es p. pool_reach 1 0 [[97], [98]] es p \<and> p_max_slots p = 1 \<and> p_running p = [[98]] \<and> p_done p = [[97]] \<and>
     dom (p_active p) = {[97], [98]} \<and> \<not> length (p_done p) < p_max_slots p"
proof -
  let ?p = "run_start 0 1 0 [[97], [98]]"
  let ?q = "evaluate id 5000000000 [[97]] ?p"
  let ?r = "?q\<lparr>p_running := [[98]], p_done := [[97]]\<rparr>"
  have p: "p_active ?p = [[97] \<mapsto> \<lparr>aw_bytes = 0, aw_prev_bytes = 0, aw_prev_time = 0, aw_started = 0, aw_cancelled = False\<rparr>]"
    "p_untried ?p = [[98]]" "p_running ?p = [[97]]" "p_done ?p = []" "p_max_slots ?p = 1"
    by (simp_all add: run_start_def new_peer_pool_def initial_peers_def start_worker_def)
  have c: "to_cancel id 5000000000 [[97]] ?p = [[97]]"
    by (simp add: to_cancel_def dead_workers_def live_workers_def Let_def p in_grace_def grace_period_def)
  have q: "p_running ?q = [[98], [97]]" "p_done ?q = []" "p_max_slots ?q = 1" "dom (p_active ?q) = {[97], [98]}"
    using p by (auto simp: evaluate_def c Let_def pick_untried_def start_worker_def dom_def)
  have "pool_step Evaluation ?p ?q" by (rule pool_step.evaluates) (simp_all add: p)
  then have "pool_reach 1 0 [[97], [98]] ([] @ [Evaluation]) ?q" by (rule pool_reach.step [OF pool_reach.init])
  moreover have "pool_step (Returned [97]) ?q ?r" using pool_step.returns [of ?q "[[98]]" "[97]" "[]"] q by simp
  ultimately have "pool_reach 1 0 [[97], [98]] (([] @ [Evaluation]) @ [Returned [97]]) ?r" by (rule pool_reach.step)
  then show ?thesis using q by (intro exI [of _ "([] @ [Evaluation]) @ [Returned [97]]"] exI [of _ ?r]) simp
qed

end
