(* ===== verification/WorkerSession.thy ===== *)
theory WorkerSession
  imports Pool PeerConn
begin

text \<open>
  One connection of a pool worker, from dialling to the session (\<open>download/pool.go\<close>,
  \<open>runWorkerSession\<close>, with \<open>NegotiateUnchoke\<close> of \<open>download/piece.go\<close> over a real connection). It joins theory
  PeerConn, in which a connection may fail at any byte, with the interleaved download of theory Download:
  what the pool starts is a step of the download, so its properties hold of every pool.
\<close>

section \<open>Opening a session\<close>

text \<open>\<open>NegotiateUnchoke\<close>: the interest is sent while messages are read; the error of sending it counts only
  once the unchoke has come.\<close>

definition negotiate_conn :: "nat \<Rightarrow> peer_conn \<Rightarrow> peer_conn \<times> bytes option res" where
  "negotiate_conn num_pieces pc =
     (let (pc, werr) = conn_send pc [Some new_interested]
      in case negotiate_unchoke num_pieces None (cn_input (pc_info pc)) of
           Inl e \<Rightarrow> (pc, Inl e)
         | Inr (bitfield, rest) \<Rightarrow>
             (case werr of
                Some e \<Rightarrow> (pc, Inl e)
              | None \<Rightarrow> (pc\<lparr>pc_info := (pc_info pc)\<lparr>cn_input := rest\<rparr>\<rparr>, Inr bitfield)))"

text \<open>The bits of a \<open>nil\<close> bitfield are those of an empty one.\<close>

definition bits_of :: "bytes option \<Rightarrow> bytes" where
  "bits_of bf = (case bf of None \<Rightarrow> [] | Some b \<Rightarrow> b)"

definition open_session ::
    "torrent \<Rightarrow> bytes \<Rightarrow> nat \<Rightarrow> bytes \<Rightarrow> (net_conn \<times> bytes) res \<Rightarrow> int \<Rightarrow> download \<times> progress \<Rightarrow>
      (download \<times> progress) \<times> peer_conn option" where
  "open_session t peer_id depth addr dialled now st =
     (let (d, prog) = st
      in case dial_peer (t_info_hash t) peer_id dialled of
           Inl e \<Rightarrow> (st, None)
         | Inr pc \<Rightarrow>
             (case negotiate_conn (length (t_pieces t)) pc of
                (pc, Inl e) \<Rightarrow> (st, None)
              | (pc, Inr bf) \<Rightarrow>
                  ((d\<lparr>d_picker := add_peer_bits (d_picker d) (bits_of bf),
                      d_workers := d_workers d @ [Peer_Worker (new_session addr (bits_of bf) depth)]\<rparr>,
                    peer_connected now addr (bits_of bf) prog), Some pc)))"

text \<open>The callback of a block, with the worker's atomic counter, and what is deferred to the end of the session; the
  reader of the session takes its bits off the picker.\<close>

definition on_block :: "bytes \<Rightarrow> active_worker \<times> progress \<Rightarrow> int \<Rightarrow> active_worker \<times> progress" where
  "on_block addr st n = ((fst st)\<lparr>aw_bytes := wrap64 (aw_bytes (fst st) + n)\<rparr>, block_received addr n (snd st))"

definition end_session :: "bytes \<Rightarrow> peer_conn \<Rightarrow> progress \<Rightarrow> peer_conn \<times> progress" where
  "end_session addr pc prog = (conn_close pc, peer_disconnected addr prog)"

section \<open>Laws\<close>

text \<open>The worker's counter and the display count the same blocks.\<close>

lemma on_block_counts:
  assumes "\<forall>n \<in> set ns. 0 \<le> n" "0 \<le> aw_bytes w" "aw_bytes w + sum_list ns < 2 ^ 63"
    and "0 \<le> pg_bytes_down prog" "pg_bytes_down prog + sum_list ns < 2 ^ 63"
  shows "aw_bytes (fst (foldl (on_block addr) (w, prog) ns)) = aw_bytes w + sum_list ns \<and>
    pg_bytes_down (snd (foldl (on_block addr) (w, prog) ns)) = pg_bytes_down prog + sum_list ns"
  using assms
proof (induction ns arbitrary: w prog)
  case (Cons n ns)
  have "0 \<le> sum_list ns" using Cons.prems(1) by (intro sum_list_nonneg) simp
  then have r: "wrap64 (aw_bytes w + n) = aw_bytes w + n" "wrap64 (pg_bytes_down prog + n) = pg_bytes_down prog + n"
    using Cons.prems by (simp_all add: wrap64_def)
  have d: "pg_bytes_down (block_received addr n prog) = pg_bytes_down prog + n"
    using r(2) by (simp add: block_received_def with_peer_def Let_def split: option.splits)
  from Cons.IH [of "w\<lparr>aw_bytes := aw_bytes w + n\<rparr>" "block_received addr n prog"] Cons.prems d r(1) show ?case
    by (simp add: on_block_def add.assoc)
qed simp

text \<open>A session that does not open changes nothing; one that opens is a step of the download.\<close>

lemma open_session_cases:
  assumes "open_session t peer_id depth addr dialled now (d, prog) = ((d', prog'), opened)"
  obtains "opened = None" "d' = d" "prog' = prog"
  | bf pc where "opened = Some pc" "prog' = peer_connected now addr bf prog"
      "d' = d\<lparr>d_picker := add_peer_bits (d_picker d) bf, d_workers := d_workers d @ [Peer_Worker (new_session addr bf depth)]\<rparr>"
  using assms by (auto simp: open_session_def split: sum.splits prod.splits)

lemma open_session_reach:
  assumes "reach sha1 t d" "0 < depth"
  shows "reach sha1 t (fst (fst (open_session t peer_id depth addr dialled now (d, prog))))"
proof -
  obtain d' prog' opened where o: "open_session t peer_id depth addr dialled now (d, prog) = ((d', prog'), opened)"
    by (metis surj_pair)
  have "reach sha1 t d'"
  proof (rule open_session_cases [OF o])
    assume "d' = d"
    with assms(1) show ?thesis by simp
  next
    fix bf
    assume "d' = d\<lparr>d_picker := add_peer_bits (d_picker d) bf, d_workers := d_workers d @ [Peer_Worker (new_session addr bf depth)]\<rparr>"
    with reach.step [OF assms(1) download_step.start_peer [OF assms(2)]] show ?thesis by simp
  qed
  with o show ?thesis by simp
qed

text \<open>The peer of an open session has named the torrent's info hash; over a connection that takes everything it was
  sent the handshake and the interest.\<close>

lemma negotiate_conn_info:
  "negotiate_conn n pc = (pc', Inr bf) \<Longrightarrow> cn_info_hash (pc_info pc') = cn_info_hash (pc_info pc)"
proof -
  assume a: "negotiate_conn n pc = (pc', Inr bf)"
  obtain pc1 werr where s: "conn_send pc [Some new_interested] = (pc1, werr)" by (cases "conn_send pc [Some new_interested]")
  then have "pc_info pc1 = pc_info pc"
    by (auto simp: conn_send_def conn_flush_def conn_write_def split: prod.splits option.splits)
  with a s show ?thesis by (auto simp: negotiate_conn_def split: sum.splits option.splits)
qed

lemma open_session_hash:
  assumes "open_session t peer_id depth addr dialled now st = (st', Some pc)"
  shows "cn_info_hash (pc_info pc) = t_info_hash t"
proof -
  obtain c input where c: "dialled = Inr (c, input)"
    using assms by (cases dialled) (auto simp: open_session_def dial_peer_def split: prod.splits)
  obtain c' pc0 where d: "from_conn (t_info_hash t) peer_id c input = (c', Inr pc0)"
    using assms c by (cases "from_conn (t_info_hash t) peer_id c input")
      (auto simp: open_session_def dial_peer_def split: sum.splits prod.splits)
  then obtain bf where "negotiate_conn (length (t_pieces t)) pc0 = (pc, Inr bf)"
    using assms c by (auto simp: open_session_def dial_peer_def split: sum.splits prod.splits)
  from negotiate_conn_info [OF this] from_conn_open(2) [OF d] show ?thesis by simp
qed

lemma negotiate_conn_sends:
  assumes "healthy (pc_out pc)" "bd_buf (pc_out pc) = []"
  shows "nc_sent (bd_conn (pc_out (fst (negotiate_conn n pc)))) =
    nc_sent (bd_conn (pc_out pc)) @ write_message (Some new_interested)"
proof -
  obtain pc1 where s: "conn_send pc [Some new_interested] = (pc1, None)" using conn_send_healthy [OF assms(1)] by blast
  from conn_send_content(2) [OF s] assms(2) have
    "nc_sent (bd_conn (pc_out pc1)) = nc_sent (bd_conn (pc_out pc)) @ write_message (Some new_interested)"
    by (simp add: buf_content_def)
  then show ?thesis by (simp add: negotiate_conn_def s split: sum.splits)
qed

text \<open>However many sessions the pool opens, and whatever their peers do, the download stays in its reachable states.\<close>

lemma open_sessions_reach:
  assumes "reach sha1 t d" "0 < depth"
  shows "reach sha1 t (fst (foldl (\<lambda>st (addr, dialled, now). fst (open_session t peer_id depth addr dialled now st)) (d, prog) starts))"
  using assms(1)
proof (induction starts arbitrary: d prog)
  case (Cons s starts)
  obtain addr dialled now where s: "s = (addr, dialled, now)" by (metis surj_pair)
  obtain d' prog' where o: "fst (open_session t peer_id depth addr dialled now (d, prog)) = (d', prog')" by (metis surj_pair)
  with open_session_reach [OF Cons.prems assms(2), of peer_id addr dialled now prog] have "reach sha1 t d'" by simp
  from Cons.IH [OF this] o s show ?case by simp
qed simp

end
