(* ===== verification/Seed.thy ===== *)
theory Seed
  imports Pipeline
begin

text \<open>
  Seeding: the choker (\<open>seed/choke.go\<close>), the reader of the content on disk and its verification
  (\<open>seed/verify.go\<close>), and the seeder's answers to a peer's messages (\<open>seed/seed.go\<close>). The files
  are given by their bytes; errors of the file system other than the end of a file are left out.
\<close>

section \<open>Choking\<close>

record upload_conn =
  u_addr :: bytes
  u_interested :: bool
  u_choked :: bool
  u_upload_bytes :: int

record choker =
  ck_upload_slots :: nat
  ck_optimistic :: bytes

definition new_choker :: "int \<Rightarrow> choker" where
  "new_choker upload_slots =
     \<lparr>ck_upload_slots = (if upload_slots \<le> 0 then 4 else nat upload_slots), ck_optimistic = []\<rparr>"

text \<open>
  The connections come in the arbitrary order of a map; the ranking sorts them by descending
  upload, ties as they come. \<open>rnd\<close> is the random number of the optimistic choice.
\<close>

definition ranked :: "upload_conn list \<Rightarrow> upload_conn list" where
  "ranked conns = sort_key (\<lambda>c. - u_upload_bytes c) (filter u_interested conns)"

definition rotate_optimistic :: "nat \<Rightarrow> bool \<Rightarrow> upload_conn list \<Rightarrow> choker \<Rightarrow> choker" where
  "rotate_optimistic rnd rot interested c =
     (if rot \<and> ck_upload_slots c < length interested then
        let candidates = drop (ck_upload_slots c) interested
        in c\<lparr>ck_optimistic := u_addr (candidates ! (rnd mod length candidates))\<rparr>
      else c)"

definition unchoke_set :: "upload_conn list \<Rightarrow> choker \<Rightarrow> bytes set" where
  "unchoke_set interested c =
     set (map u_addr (take (ck_upload_slots c) interested)) \<union>
     (if ck_optimistic c \<noteq> [] then {ck_optimistic c} else {})"

text \<open>The decision for one connection, and the message it is sent.\<close>

definition apply_choke :: "bytes set \<Rightarrow> upload_conn \<Rightarrow> upload_conn \<times> (bytes \<times> wire_msg) list" where
  "apply_choke unchoked uc =
     (let should_unchoke = u_addr uc \<in> unchoked
      in if should_unchoke \<and> u_choked uc then (uc\<lparr>u_choked := False\<rparr>, [(u_addr uc, new_unchoke)])
         else if \<not> should_unchoke \<and> \<not> u_choked uc then (uc\<lparr>u_choked := True\<rparr>, [(u_addr uc, new_choke)])
         else (uc, []))"

definition evaluate_chokes ::
  "nat \<Rightarrow> bool \<Rightarrow> upload_conn list \<Rightarrow> choker \<Rightarrow> choker \<times> upload_conn list \<times> (bytes \<times> wire_msg) list" where
  "evaluate_chokes rnd rot conns c =
     (let interested = ranked conns;
          c = rotate_optimistic rnd rot interested c;
          results = map (apply_choke (unchoke_set interested c)) conns
      in (c, map fst results, concat (map snd results)))"

section \<open>Reading the content\<close>

record file_span =
  sp_offset :: int
  sp_length :: int
  sp_content :: bytes

text \<open>\<open>newDiskReader\<close>: the spans of the files, one after the other.\<close>

primrec layout :: "int \<Rightarrow> (int \<times> bytes) list \<Rightarrow> file_span list" where
  "layout off [] = []"
| "layout off (f # fs) =
     \<lparr>sp_offset = off, sp_length = fst f, sp_content = snd f\<rparr> # layout (wrap64 (off + fst f)) fs"

text \<open>The contents of the torrent's files, in their order, or of the single file.\<close>

definition disk_reader :: "torrent \<Rightarrow> bytes list \<Rightarrow> file_span list" where
  "disk_reader t contents =
     (if t_files t = [] then [\<lparr>sp_offset = 0, sp_length = t_length t, sp_content = hd contents\<rparr>]
      else layout 0 (zip (map f_length (t_files t)) contents))"

text \<open>
  The loop of \<open>ReadPiece\<close>: the bytes it reads from an offset on, when so many remain. A file
  shorter than its span ends early, and the next file is then read from its beginning.
\<close>

primrec read_spans :: "file_span list \<Rightarrow> int \<Rightarrow> nat \<Rightarrow> bytes" where
  "read_spans [] off left = []"
| "read_spans (sp # sps) off left =
     (if sp_offset sp + sp_length sp \<le> off then read_spans sps off left
      else if left = 0 then []
      else
        let file_offset = (if off - sp_offset sp < 0 then 0 else off - sp_offset sp);
            can_read = (if int left < sp_length sp - file_offset then left
                        else nat (sp_length sp - file_offset));
            got = take can_read (drop (nat file_offset) (sp_content sp))
        in got @ read_spans sps (off + int (length got)) (left - length got))"

definition read_piece :: "torrent \<Rightarrow> file_span list \<Rightarrow> nat \<Rightarrow> nat \<Rightarrow> bytes res" where
  "read_piece t spans index len =
     (let got = read_spans spans (wrap64 (int index * t_piece_length t)) len
      in if length got < len then Inl (Fail ''short read'') else Inr got)"

record verify_result =
  v_total :: nat
  v_valid :: nat
  v_invalid :: "nat list"

definition piece_valid :: "(bytes \<Rightarrow> bytes) \<Rightarrow> torrent \<Rightarrow> file_span list \<Rightarrow> nat \<Rightarrow> bool" where
  "piece_valid sha1 t spans i =
     (case read_piece t spans i (plen t i) of
        Inl _ \<Rightarrow> False
      | Inr data \<Rightarrow> length data = plen t i \<and> sha1 data = t_pieces t ! i)"

definition verify_data :: "(bytes \<Rightarrow> bytes) \<Rightarrow> torrent \<Rightarrow> file_span list \<Rightarrow> verify_result" where
  "verify_data sha1 t spans =
     foldl (\<lambda>r i. if piece_valid sha1 t spans i then r\<lparr>v_valid := v_valid r + 1\<rparr>
                  else r\<lparr>v_invalid := v_invalid r @ [i]\<rparr>)
       \<lparr>v_total = length (t_pieces t), v_valid = 0, v_invalid = []\<rparr> [0..<length (t_pieces t)]"

section \<open>Serving a peer\<close>

text \<open>What the message loop does with a message: go on with a connection, answer, or close.\<close>

datatype reply = Continue upload_conn | Answer upload_conn wire_msg nat | Close

definition serve_request :: "torrent \<Rightarrow> file_span list \<Rightarrow> bytes \<Rightarrow> upload_conn \<Rightarrow> reply" where
  "serve_request t spans payload uc =
     (if u_choked uc then Continue uc
      else if length payload < 12 then Close
      else
        let index = unat (get32 (slice payload 0 4));
            start = unat (get32 (slice payload 4 8));
            len = unat (get32 (slice payload 8 12))
        in if length (t_pieces t) \<le> index \<or> 16384 < len \<or> len = 0 then Close
           else if piece_len t (int index) < int start + int len then Close
           else (case read_piece t spans index (plen t index) of
                   Inl _ \<Rightarrow> Close
                 | Inr data \<Rightarrow>
                     if length data \<noteq> plen t index then Close
                     else Answer (uc\<lparr>u_upload_bytes := u_upload_bytes uc + int len\<rparr>)
                            \<lparr>wm_id = msg_id_of ''piece'',
                             wm_payload = put32 (of_nat index) @ put32 (of_nat start) @ slice data start (start + len)\<rparr>
                            len))"

definition serve_message :: "torrent \<Rightarrow> file_span list \<Rightarrow> wire_msg option \<Rightarrow> upload_conn \<Rightarrow> reply" where
  "serve_message t spans m uc =
     (case m of
        None \<Rightarrow> Continue uc
      | Some m \<Rightarrow>
          if wm_id m = msg_id_of ''interested'' then Continue (uc\<lparr>u_interested := True\<rparr>)
          else if wm_id m = msg_id_of ''not_interested'' then Continue (uc\<lparr>u_interested := False\<rparr>)
          else if wm_id m = msg_id_of ''request'' then serve_request t spans (wm_payload m) uc
          else Continue uc)"

text \<open>The loop over the messages of a peer: the answers, and the bytes uploaded.\<close>

primrec serve :: "torrent \<Rightarrow> file_span list \<Rightarrow> wire_msg option list \<Rightarrow> upload_conn \<Rightarrow> wire_msg list \<times> nat" where
  "serve t spans [] uc = ([], 0)"
| "serve t spans (m # ms) uc =
     (case serve_message t spans m uc of
        Continue uc' \<Rightarrow> serve t spans ms uc'
      | Close \<Rightarrow> ([], 0)
      | Answer uc' r n \<Rightarrow> (r # fst (serve t spans ms uc'), n + snd (serve t spans ms uc')))"

text \<open>The full bitfield that a connection starts with.\<close>

definition seed_bitfield :: "nat \<Rightarrow> bytes" where
  "seed_bitfield num_pieces =
     (let n = (num_pieces + 7) div 8;
          bf = replicate n 0xFF;
          spare = n * 8 - num_pieces
      in if 0 < spare then bf[n - 1 := (bf ! (n - 1)) AND push_bit spare 0xFF] else bf)"

section \<open>Complete files\<close>

text \<open>Every file has the length that the torrent gives it.\<close>

definition content_ok :: "torrent \<Rightarrow> bytes list \<Rightarrow> bool" where
  "content_ok t contents \<longleftrightarrow>
     length (concat contents) < 2 ^ 63 \<and>
     (if t_files t = [] then (\<exists>c. contents = [c] \<and> t_length t = int (length c))
      else map f_length (t_files t) = map (\<lambda>c. int (length c)) contents)"

lemma read_spans_0 [simp]: "read_spans sps off 0 = []"
  by (induction sps) simp_all

lemma read_spans_layout:
  "int o1 + int (length (concat cs)) < 2 ^ 63 \<Longrightarrow> o1 \<le> p \<Longrightarrow>
   read_spans (layout (int o1) (map (\<lambda>c. (int (length c), c)) cs)) (int p) n = take n (drop (p - o1) (concat cs))"
proof (induction cs arbitrary: o1 p n)
  case (Cons c cs)
  have w: "wrap64 (int o1 + int (length c)) = int (o1 + length c)"
    using Cons.prems(1) by (simp add: in_int64_def)
  have small: "int (o1 + length c) + int (length (concat cs)) < 2 ^ 63" using Cons.prems(1) by simp
  show ?case
  proof (cases "o1 + length c \<le> p")
    case True
    have "read_spans (layout (int (o1 + length c)) (map (\<lambda>c. (int (length c), c)) cs)) (int p) n =
        take n (drop (p - (o1 + length c)) (concat cs))"
      by (rule Cons.IH [OF small True])
    with True show ?thesis by (simp add: w)
  next
    case False
    show ?thesis
    proof (cases "n = 0")
      case False
      define q where "q = p - o1"
      have q: "q < length c" "p = o1 + q" using \<open>\<not> o1 + length c \<le> p\<close> Cons.prems(2) by (simp_all add: q_def)
      show ?thesis
      proof (cases "length c - q \<le> n")
        case True
        have rest: "read_spans (layout (int (o1 + length c)) (map (\<lambda>c. (int (length c), c)) cs))
            (int (o1 + length c)) (n - (length c - q)) = take (n - (length c - q)) (concat cs)"
          using Cons.IH [OF small, of "o1 + length c" "n - (length c - q)"] by simp
        have p: "int o1 + int q + int (length c - q) = int (o1 + length c)" using q(1) by simp
        have "\<not> int n < int (length c) - int q" "nat (int (length c) - int q) = length c - q"
          using True q(1) by linarith+
        then show ?thesis using q False rest by (simp add: w Let_def p)
      next
        case short: False
        then have "int n < int (length c) - int q" "n + q - length c = 0" by linarith+
        then show ?thesis using q False by (simp add: w Let_def)
      qed
    qed simp
  qed
qed simp

lemma content_total:
  assumes "content_ok t cs"
  shows "total_length t = int (length (concat cs))"
proof (cases "t_files t = []")
  case True
  then show ?thesis using assms by (auto simp: content_ok_def total_length_def is_single_file_def)
next
  case False
  have "foldl (\<lambda>total f. wrap64 (total + f_length f)) (int a) fs = int (a + length (concat cs))"
    if "map f_length fs = map (\<lambda>c. int (length c)) cs" "int a + int (length (concat cs)) < 2 ^ 63"
    for a and fs :: "tfile list"
    using that
  proof (induction fs arbitrary: cs a)
    case (Cons f fs)
    then obtain c cs' where cs: "cs = c # cs'" "f_length f = int (length c)"
      "map f_length fs = map (\<lambda>c. int (length c)) cs'" by (cases cs) auto
    have w: "wrap64 (int a + int (length c)) = int (a + length c)" using Cons.prems(2) cs(1) by (simp add: in_int64_def)
    show ?case using Cons.IH [OF cs(3), of "a + length c"] Cons.prems(2) cs(1,2) w by simp
  qed simp
  from this [of "t_files t" 0] show ?thesis
    using assms False by (simp add: content_ok_def total_length_def is_single_file_def)
qed

lemma disk_reader_layout:
  assumes "content_ok t cs"
  shows "disk_reader t cs = layout 0 (map (\<lambda>c. (int (length c), c)) cs)"
proof (cases "t_files t = []")
  case True
  then show ?thesis using assms by (auto simp: content_ok_def disk_reader_def)
next
  case False
  then have "map f_length (t_files t) = map (\<lambda>c. int (length c)) cs" using assms by (simp add: content_ok_def)
  then show ?thesis using False by (simp add: disk_reader_def zip_map1 zip_same_conv_map comp_def)
qed

text \<open>The bytes of piece \<open>i\<close> in the content.\<close>

definition piece_data :: "torrent \<Rightarrow> bytes list \<Rightarrow> nat \<Rightarrow> bytes" where
  "piece_data t contents i = slice (concat contents) (piece_start t i) (piece_start t i + plen t i)"

lemma length_piece_data:
  "content_ok t cs \<Longrightarrow> well_sized t \<Longrightarrow> i < length (t_pieces t) \<Longrightarrow> length (piece_data t cs i) = plen t i"
  using piece_place(2) [of t i] content_total [of t cs] by (simp add: piece_data_def slice_def)

lemma read_piece_data:
  assumes "content_ok t cs" "well_sized t" "i < length (t_pieces t)"
  shows "read_piece t (disk_reader t cs) i (plen t i) = Inr (piece_data t cs i)"
proof -
  have st: "wrap64 (int i * t_piece_length t) = int (piece_start t i)"
  proof -
    have pos: "0 < t_piece_length t" using assms(2) by (simp add: well_sized_def Let_def)
    have "int i * t_piece_length t \<le> int (length (t_pieces t)) * t_piece_length t"
      using assms(3) pos by (intro mult_right_mono) simp_all
    also have "\<dots> < 2 ^ 63" using assms(2) by (simp add: well_sized_def Let_def)
    finally have "int i * t_piece_length t < 2 ^ 63" .
    moreover have "0 \<le> int i * t_piece_length t" using pos by simp
    ultimately have "in_int64 (int i * t_piece_length t)" unfolding in_int64_def by linarith
    then show ?thesis using pos by (simp add: piece_start_def)
  qed
  have "read_spans (layout (int 0) (map (\<lambda>c. (int (length c), c)) cs)) (int (piece_start t i)) (plen t i) =
      take (plen t i) (drop (piece_start t i - 0) (concat cs))"
    using assms(1) by (intro read_spans_layout) (simp_all add: content_ok_def)
  then have "read_spans (disk_reader t cs) (wrap64 (int i * t_piece_length t)) (plen t i) = piece_data t cs i"
    by (simp add: disk_reader_layout [OF assms(1)] st piece_data_def slice_def)
  then show ?thesis using length_piece_data [OF assms] by (simp add: read_piece_def Let_def)
qed

section \<open>Properties\<close>

lemma verified_pieces:
  assumes "content_ok t cs" "well_sized t"
  shows "verify_data sha1 t (disk_reader t cs) =
    \<lparr>v_total = length (t_pieces t),
     v_valid = length (filter (\<lambda>i. sha1 (piece_data t cs i) = t_pieces t ! i) [0..<length (t_pieces t)]),
     v_invalid = filter (\<lambda>i. sha1 (piece_data t cs i) \<noteq> t_pieces t ! i) [0..<length (t_pieces t)]\<rparr>"
proof -
  let ?v = "piece_valid sha1 t (disk_reader t cs)"
  have valid: "?v i \<longleftrightarrow> sha1 (piece_data t cs i) = t_pieces t ! i" if "i < length (t_pieces t)" for i
    using read_piece_data [OF assms that] length_piece_data [OF assms that] by (simp add: piece_valid_def)
  have "foldl (\<lambda>r i. if ?v i then r\<lparr>v_valid := v_valid r + 1\<rparr> else r\<lparr>v_invalid := v_invalid r @ [i]\<rparr>)
      \<lparr>v_total = n, v_valid = 0, v_invalid = []\<rparr> is =
    \<lparr>v_total = n, v_valid = length (filter ?v is), v_invalid = filter (\<lambda>i. \<not> ?v i) is\<rparr>" for n "is"
    by (induction "is" rule: rev_induct) simp_all
  then have "verify_data sha1 t (disk_reader t cs) =
    \<lparr>v_total = length (t_pieces t), v_valid = length (filter ?v [0..<length (t_pieces t)]),
     v_invalid = filter (\<lambda>i. \<not> ?v i) [0..<length (t_pieces t)]\<rparr>"
    by (simp add: verify_data_def)
  moreover have "filter ?v [0..<length (t_pieces t)] =
      filter (\<lambda>i. sha1 (piece_data t cs i) = t_pieces t ! i) [0..<length (t_pieces t)]"
    "filter (\<lambda>i. \<not> ?v i) [0..<length (t_pieces t)] =
      filter (\<lambda>i. sha1 (piece_data t cs i) \<noteq> t_pieces t ! i) [0..<length (t_pieces t)]"
    by (rule filter_cong; use valid in simp)+
  ultimately show ?thesis by simp
qed

text \<open>
  C30. For complete files, verification agrees with hashing the pieces of the concatenated content,
  wherever the borders between files lie: the invalid pieces are, in order, those whose bytes
  have another hash, and the valid ones are all the rest.
\<close>
theorem verify_data_spec:
  assumes "content_ok t cs" "well_sized t"
  shows "verify_data sha1 t (disk_reader t cs) =
    \<lparr>v_total = length (t_pieces t),
     v_valid = length (filter (\<lambda>i. sha1 (piece_data t cs i) = t_pieces t ! i) [0..<length (t_pieces t)]),
     v_invalid = filter (\<lambda>i. sha1 (piece_data t cs i) \<noteq> t_pieces t ! i) [0..<length (t_pieces t)]\<rparr>"
  by (rule verified_pieces [OF assms])

text \<open>A request for a block of the plan is answered with that block.\<close>

lemma serve_block:
  assumes ok: "content_ok t cs" "well_sized t" "i < length (t_pieces t)"
    and sizes: "i < 2 ^ 32" "plen t i < 2 ^ 32" and bl: "(b, l) \<in> set (block_plan (plen t i))" and "\<not> u_choked uc"
  shows "serve_message t (disk_reader t cs) (Some (new_request (of_nat i) (of_nat b) (of_nat l))) uc =
    Answer (uc\<lparr>u_upload_bytes := u_upload_bytes uc + int l\<rparr>) (piece_msg i (piece_data t cs i) (b, l)) l"
proof -
  have blb: "b + l \<le> plen t i" "l \<le> 16384" using block_plan_bounds [OF bl] by (simp_all add: block_size_def)
  have pos: "0 < l"
  proof -
    obtain k where "k < block_count (plen t i)" "block_at (plen t i) k = (b, l)" using bl by (auto simp: block_plan_def)
    then show ?thesis using block_at_bounds(2) [of k "plen t i"] by simp
  qed
  have u: "unat (of_nat i :: u32) = i" "unat (of_nat b :: u32) = b" "unat (of_nat l :: u32) = l"
    using sizes blb by (simp_all add: unat_of_nat)
  have pay: "wm_payload (new_request (of_nat i) (of_nat b) (of_nat l)) =
      put32 (of_nat i) @ put32 (of_nat b) @ put32 (of_nat l)" by (simp add: new_request_def msg_def)
  have g: "get32 (slice (put32 x @ put32 y @ put32 z) 0 4) = x" "get32 (slice (put32 x @ put32 y @ put32 z) 4 8) = y"
    "get32 (slice (put32 x @ put32 y @ put32 z) 8 12) = z" for x y z :: u32 by (simp_all add: slice_def)
  have "\<not> piece_len t (int i) < int b + int l" using blb(1) pos by linarith
  moreover have "length (piece_data t cs i) = plen t i" by (rule length_piece_data [OF ok])
  ultimately show ?thesis
    using blb pos assms(3,7) read_piece_data [OF ok]
    by (simp add: serve_message_def serve_request_def new_request_def msg_def msg_id_of_def g u Let_def
        piece_msg_def new_piece_def)
qed

lemma block_plan_total: "sum_list (map snd (block_plan pl)) = pl"
proof -
  have "m \<le> block_count pl \<Longrightarrow> sum_list (map snd (map (block_at pl) [0..<m])) = min pl (m * block_size)" for m
  proof (induction m)
    case (Suc m)
    then show ?case using block_at_bounds(4,5) [of m pl] by simp
  qed simp
  from this [of "block_count pl"] show ?thesis using block_count_bounds(2) [of pl] by (simp add: block_plan_def min_def)
qed

lemma serve_plan:
  assumes "content_ok t cs" "well_sized t" "i < length (t_pieces t)" "i < 2 ^ 32" "plen t i < 2 ^ 32"
    and "\<not> u_choked uc"
  shows "serve t (disk_reader t cs) (map Some (block_requests i (plen t i))) uc =
    (map (piece_msg i (piece_data t cs i)) (block_plan (plen t i)), plen t i)"
proof -
  let ?serve = "serve t (disk_reader t cs)"
  have run: "?serve (map (\<lambda>(b, l). Some (new_request (of_nat i) (of_nat b) (of_nat l))) bls) uc =
      (map (piece_msg i (piece_data t cs i)) bls, sum_list (map snd bls))"
    if "set bls \<subseteq> set (block_plan (plen t i))" "\<not> u_choked uc" for bls uc
    using that
  proof (induction bls arbitrary: uc)
    case (Cons bl bls)
    obtain b l where bl: "bl = (b, l)" by (cases bl)
    have "serve_message t (disk_reader t cs) (Some (new_request (of_nat i) (of_nat b) (of_nat l))) uc =
        Answer (uc\<lparr>u_upload_bytes := u_upload_bytes uc + int l\<rparr>) (piece_msg i (piece_data t cs i) (b, l)) l"
      using Cons.prems by (intro serve_block [OF assms(1-5)]) (auto simp: bl)
    then show ?case using Cons by (simp add: bl)
  qed simp
  have "block_requests i (plen t i) = map (\<lambda>(b, l). new_request (of_nat i) (of_nat b) (of_nat l)) (block_plan (plen t i))"
    by (simp add: block_requests_def)
  then have "map Some (block_requests i (plen t i)) =
      map (\<lambda>(b, l). Some (new_request (of_nat i) (of_nat b) (of_nat l))) (block_plan (plen t i))"
    by (simp add: comp_def case_prod_beta')
  then show ?thesis using run [OF subset_refl assms(6)] block_plan_total by simp
qed

text \<open>
  Serving a piece: an unchoked peer that sends the requests of a piece's plan is sent, in that
  order, the blocks of the content at the requested places, and the uploaded bytes add up to
  the length of the piece.
\<close>
theorem serve_piece:
  assumes "content_ok t cs" "well_sized t" "i < length (t_pieces t)" "i < 2 ^ 32" "plen t i < 2 ^ 32"
    and "\<not> u_choked uc"
  shows "serve t (disk_reader t cs) (map Some (block_requests i (plen t i))) uc =
    (map (piece_msg i (piece_data t cs i)) (block_plan (plen t i)), plen t i)"
  by (rule serve_plan [OF assms])

lemma apply_choke_eq:
  "apply_choke U uc = (uc\<lparr>u_choked := u_addr uc \<notin> U\<rparr>,
     if u_choked uc = (u_addr uc \<in> U) then [(u_addr uc, if u_choked uc then new_unchoke else new_choke)] else [])"
  by (auto simp: apply_choke_def Let_def)

lemma rotate_optimistic_slots [simp]: "ck_upload_slots (rotate_optimistic rnd rot is c) = ck_upload_slots c"
  by (simp add: rotate_optimistic_def Let_def)

lemma top_ranked:
  assumes "x \<in> set (take n (ranked conns))" "y \<in> set (ranked conns)" "y \<notin> set (take n (ranked conns))"
  shows "u_upload_bytes y \<le> u_upload_bytes x"
proof -
  let ?r = "ranked conns"
  have "y \<in> set (drop n ?r)" using assms(2,3) by (metis UnE append_take_drop_id set_append)
  moreover have "sorted (map (\<lambda>c. - u_upload_bytes c) (take n ?r @ drop n ?r))"
    unfolding append_take_drop_id ranked_def by (rule sorted_sort_key)
  ultimately have "- u_upload_bytes x \<le> - u_upload_bytes y" using assms(1) unfolding map_append sorted_append by auto
  then show ?thesis by simp
qed

text \<open>
  C32. One evaluation of the choker, for connections with different addresses in any order: each
  connection ends unchoked exactly if its address is in the unchoke set, and is sent a message
  exactly if this is a change; at most one more than the upload slots are unchoked; every
  interested peer left choked has been sent no more bytes since it connected than any peer that holds a regular
  slot (the ranking is by this total, not by a speed); and when the interested peers fit in the slots, all of
  them are unchoked.
\<close>
theorem choke_spec:
  assumes "evaluate_chokes rnd rot conns c = (c', conns', msgs)" "distinct (map u_addr conns)"
  defines "U \<equiv> unchoke_set (ranked conns) c'"
  shows "conns' = map (\<lambda>uc. uc\<lparr>u_choked := u_addr uc \<notin> U\<rparr>) conns \<and>
    msgs = map (\<lambda>uc. (u_addr uc, if u_choked uc then new_unchoke else new_choke))
             (filter (\<lambda>uc. u_choked uc = (u_addr uc \<in> U)) conns) \<and>
    length (filter (\<lambda>uc. \<not> u_choked uc) conns') \<le> ck_upload_slots c + 1 \<and>
    (\<forall>x \<in> set conns. \<forall>y \<in> set conns. u_interested x \<and> u_interested y \<and> u_addr x \<in> U \<and>
       u_addr x \<noteq> ck_optimistic c' \<and> u_addr y \<notin> U \<longrightarrow> u_upload_bytes y \<le> u_upload_bytes x) \<and>
    (length (filter u_interested conns) \<le> ck_upload_slots c \<longrightarrow> (\<forall>x \<in> set conns. u_interested x \<longrightarrow> u_addr x \<in> U))"
proof -
  let ?n = "ck_upload_slots c" and ?r = "ranked conns"
  have c': "c' = rotate_optimistic rnd rot ?r c" and res: "conns' = map fst (map (apply_choke U) conns)"
    "msgs = concat (map snd (map (apply_choke U) conns))"
    using assms(1) by (auto simp: evaluate_chokes_def Let_def U_def)
  have slots: "ck_upload_slots c' = ?n" by (simp add: c')
  have U: "U = set (map u_addr (take ?n ?r)) \<union> (if ck_optimistic c' \<noteq> [] then {ck_optimistic c'} else {})"
    by (simp add: U_def unchoke_set_def slots)
  have r: "set ?r = {x \<in> set conns. u_interested x}" "length ?r = length (filter u_interested conns)"
    by (auto simp: ranked_def)
  have conns: "conns' = map (\<lambda>uc. uc\<lparr>u_choked := u_addr uc \<notin> U\<rparr>) conns"
    by (simp add: res apply_choke_eq)
  moreover have "msgs = map (\<lambda>uc. (u_addr uc, if u_choked uc then new_unchoke else new_choke))
      (filter (\<lambda>uc. u_choked uc = (u_addr uc \<in> U)) conns)"
    unfolding res(2) by (induction conns) (simp_all add: apply_choke_eq)
  moreover have "length (filter (\<lambda>uc. \<not> u_choked uc) conns') \<le> ?n + 1"
  proof -
    have "length (filter (\<lambda>uc. \<not> u_choked uc) conns') = length (filter (\<lambda>uc. u_addr uc \<in> U) conns)"
      unfolding conns by (simp add: filter_map comp_def)
    also have "\<dots> = card (set (map u_addr (filter (\<lambda>uc. u_addr uc \<in> U) conns)))"
      using assms(2) by (metis distinct_card distinct_map_filter length_map)
    also have "\<dots> \<le> card U"
      by (rule card_mono) (auto simp: U)
    also have "\<dots> \<le> card (set (map u_addr (take ?n ?r))) + 1"
      unfolding U using card_Un_le [of "set (map u_addr (take ?n ?r))" "{ck_optimistic c'}"] by simp
    also have "\<dots> \<le> ?n + 1"
      using card_length [of "map u_addr (take ?n ?r)"] by simp
    finally show ?thesis .
  qed
  moreover have "u_upload_bytes y \<le> u_upload_bytes x"
    if "x \<in> set conns" "y \<in> set conns" "u_interested x" "u_interested y" "u_addr x \<in> U" "u_addr x \<noteq> ck_optimistic c'"
      "u_addr y \<notin> U" for x y
  proof -
    from that(5,6) obtain z where z: "z \<in> set (take ?n ?r)" "u_addr z = u_addr x" by (auto simp: U split: if_splits)
    then have "z \<in> set conns" using r(1) set_take_subset [of ?n ?r] by blast
    then have "z = x" using z(2) that(1) assms(2) by (auto simp: distinct_map inj_on_def)
    moreover have "y \<notin> set (take ?n ?r)" using that(7) by (auto simp: U)
    moreover have "y \<in> set ?r" using that r by simp
    ultimately show ?thesis using top_ranked z(1) by blast
  qed
  moreover have "u_addr x \<in> U" if "length (filter u_interested conns) \<le> ?n" "x \<in> set conns" "u_interested x" for x
  proof -
    have "x \<in> set (take ?n ?r)" using that r by simp
    then show ?thesis by (auto simp: U)
  qed
  ultimately show ?thesis by blast
qed

section \<open>Witnesses and departures\<close>

definition one_byte_pieces :: torrent where
  "one_byte_pieces =
     \<lparr>t_announce = [], t_announce_list = [], t_url_list = [], t_http_seeds = [], t_info_hash = [], t_name = [],
      t_piece_length = 2, t_pieces = [[1, 2], [3]], t_length = 0,
      t_files = [\<lparr>f_length = 1, f_path = [], f_attr = []\<rparr>, \<lparr>f_length = 2, f_path = [], f_attr = []\<rparr>],
      t_private = False\<rparr>"

lemma one_byte_pieces_ok:
  "content_ok one_byte_pieces [[1], [2, 3]]" "well_sized one_byte_pieces"
  "piece_len one_byte_pieces 0 = 2" "piece_len one_byte_pieces 1 = 1" "t_pieces one_byte_pieces = [[1, 2], [3]]"
  "t_piece_length one_byte_pieces = 2"
  by (simp_all add: content_ok_def one_byte_pieces_def well_sized_def total_length_def is_single_file_def wrap64_def
      piece_len_def Let_def)

theorem verify_data_spec_witness:
  "v_invalid (verify_data (\<lambda>b. b) one_byte_pieces (disk_reader one_byte_pieces [[1], [2, 3]])) = []"
proof -
  have "[0..<2] = [0, 1]" by (simp add: upt_rec)
  then show ?thesis
    using verify_data_spec [OF one_byte_pieces_ok(1,2), of "\<lambda>b. b"]
    by (simp add: one_byte_pieces_ok(3-) piece_data_def piece_start_def slice_def)
qed

theorem serve_piece_witness:
  "\<exists>uc. snd (serve one_byte_pieces (disk_reader one_byte_pieces [[1], [2, 3]]) (map Some (block_requests 0 2)) uc) = 2"
proof -
  let ?uc = "\<lparr>u_addr = [], u_interested = True, u_choked = False, u_upload_bytes = 0\<rparr>"
  have "snd (serve one_byte_pieces (disk_reader one_byte_pieces [[1], [2, 3]]) (map Some (block_requests 0 2)) ?uc) = 2"
    using serve_piece [OF one_byte_pieces_ok(1,2), of 0 ?uc] by (simp add: one_byte_pieces_ok)
  then show ?thesis by blast
qed

theorem choke_spec_witness:
  "\<exists>c' conns' msgs. evaluate_chokes 0 False
       [\<lparr>u_addr = [1], u_interested = True, u_choked = True, u_upload_bytes = 5\<rparr>] (new_choker 0) = (c', conns', msgs) \<and>
     length (filter (\<lambda>uc. \<not> u_choked uc) conns') \<le> 5"
proof -
  let ?conns = "[\<lparr>u_addr = [1], u_interested = True, u_choked = True, u_upload_bytes = 5\<rparr>]"
  obtain c' conns' msgs where e: "evaluate_chokes 0 False ?conns (new_choker 0) = (c', conns', msgs)"
    by (metis surj_pair)
  have "length (filter (\<lambda>uc. \<not> u_choked uc) conns') \<le> 5"
    using choke_spec [OF e] by (simp add: new_choker_def)
  then show ?thesis using e by blast
qed

text \<open>
  The optimistic address is kept until the next rotation that has more interested peers than
  slots: a peer that is no longer interested keeps its slot.
\<close>

lemma optimistic_not_interested:
  assumes "ck_optimistic c = a" "a \<noteq> []" "length (filter u_interested conns) \<le> ck_upload_slots c"
    and "uc \<in> set conns" "u_addr uc = a" "evaluate_chokes rnd rot conns c = (c', conns', msgs)"
  shows "uc\<lparr>u_choked := False\<rparr> \<in> set conns'"
proof -
  have "ranked conns = ranked conns \<and> length (ranked conns) \<le> ck_upload_slots c" using assms(3) by (simp add: ranked_def)
  then have "rotate_optimistic rnd rot (ranked conns) c = c" by (simp add: rotate_optimistic_def)
  then have "conns' = map (\<lambda>uc. uc\<lparr>u_choked := u_addr uc \<notin> unchoke_set (ranked conns) c\<rparr>) conns"
    using assms(6) by (auto simp: evaluate_chokes_def Let_def apply_choke_eq)
  moreover have "a \<in> unchoke_set (ranked conns) c" using assms(1,2) by (simp add: unchoke_set_def)
  ultimately show ?thesis using assms(4,5) by force
qed

end
