(* ===== verification/Seeder.thy ===== *)
theory Seeder
  imports Seed
begin

text \<open>
  The seeder as a whole (\<open>seed/seed.go\<close>): the accept loop, the threads of the connections and the
  choker (\<open>seed/choke.go\<close>), which share the registered connections. Each step is one critical section, one access
  of a counter, or the visit of one connection by the choker, which holds no lock while it reads and writes their
  fields. A step that reads or writes a plain field (\<open>choked\<close>, \<open>interested\<close>) is taken to be atomic.
\<close>

section \<open>State\<close>

text \<open>
  The connections are objects, named by their position in the list of all that were ever accepted; each has a
  thread, which is in one of its phases: the handshake, the loop over messages, a reply that is due, written, or
  counted for its connection but not yet in the total, the deferred removal, the end.
\<close>

datatype phase = Handshaking | Serving | Replying nat | Replied nat | Counted nat | Leaving | Gone

record peer_link =
  ln_conn :: upload_conn
  ln_phase :: phase

text \<open>
  Where the choker is: it waits for a tick; or looks for the interested ones among the connections of its
  snapshot (all, those to be looked at, those found); or applies its decision to the remaining ones.
\<close>

datatype evaluating = Choker_Idle | Filtering bool "nat list" "nat list" "nat list" | Applying "nat list" "bytes set"

record seeder =
  sd_max_conns :: nat
  sd_links :: "peer_link list"
  sd_conns :: "bytes \<rightharpoonup> nat"
  sd_choker :: choker
  sd_eval :: evaluating
  sd_uploaded :: int

definition new_seeder :: "int \<Rightarrow> int \<Rightarrow> seeder" where
  "new_seeder max_conns upload_slots =
     (let max_conns = (if max_conns \<le> 0 then 50 else max_conns);
          upload_slots = (if upload_slots \<le> 0 then 4 else upload_slots)
      in \<lparr>sd_max_conns = nat max_conns, sd_links = [], sd_conns = Map.empty, sd_choker = new_choker upload_slots,
          sd_eval = Choker_Idle, sd_uploaded = 0\<rparr>)"

definition new_upload_conn :: "bytes \<Rightarrow> upload_conn" where
  "new_upload_conn a = \<lparr>u_addr = a, u_interested = False, u_choked = True, u_upload_bytes = 0\<rparr>"

text \<open>\<open>Stats\<close>.\<close>

definition stats :: "seeder \<Rightarrow> nat \<times> int" where
  "stats s = (card (dom (sd_conns s)), sd_uploaded s)"

abbreviation conn_at :: "seeder \<Rightarrow> nat \<Rightarrow> upload_conn" where
  "conn_at s i \<equiv> ln_conn (sd_links s ! i)"

section \<open>Steps\<close>

text \<open>
  A thread by itself, with what it adds to the total. The choke state is looked at when a request
  is handled; by the time the reply is written the choker may have changed it. The loop ends when reading
  or writing fails, a message is refused or the seeder is cancelled.
\<close>

inductive link_step :: "torrent \<Rightarrow> file_span list \<Rightarrow> peer_link \<Rightarrow> int \<Rightarrow> peer_link \<Rightarrow> bool" for t spans where
  handshake_fails: "link_step t spans \<lparr>ln_conn = uc, ln_phase = Handshaking\<rparr> 0 \<lparr>ln_conn = uc, ln_phase = Gone\<rparr>"
| silent: "serve_message t spans m uc = Continue uc' \<Longrightarrow>
    link_step t spans \<lparr>ln_conn = uc, ln_phase = Serving\<rparr> 0 \<lparr>ln_conn = uc', ln_phase = Serving\<rparr>"
| answers: "serve_message t spans m uc = Answer uc' r n \<Longrightarrow>
    link_step t spans \<lparr>ln_conn = uc, ln_phase = Serving\<rparr> 0 \<lparr>ln_conn = uc, ln_phase = Replying n\<rparr>"
| writes: "link_step t spans \<lparr>ln_conn = uc, ln_phase = Replying n\<rparr> 0 \<lparr>ln_conn = uc, ln_phase = Replied n\<rparr>"
| counts: "link_step t spans \<lparr>ln_conn = uc, ln_phase = Replied n\<rparr> 0
    \<lparr>ln_conn = uc\<lparr>u_upload_bytes := u_upload_bytes uc + int n\<rparr>, ln_phase = Counted n\<rparr>"
| totals: "link_step t spans \<lparr>ln_conn = uc, ln_phase = Counted n\<rparr> (int n) \<lparr>ln_conn = uc, ln_phase = Serving\<rparr>"
| closes: "link_step t spans \<lparr>ln_conn = uc, ln_phase = Serving\<rparr> 0 \<lparr>ln_conn = uc, ln_phase = Leaving\<rparr>"
| write_fails: "link_step t spans \<lparr>ln_conn = uc, ln_phase = Replying n\<rparr> 0 \<lparr>ln_conn = uc, ln_phase = Leaving\<rparr>"

text \<open>
  The accept loop compares the registered connections with the limit; a connection is registered
  only after its handshake, by its own thread, under its address, whatever is registered there; and a
  thread that leaves removes what is registered under its address. The choker takes the registered connections in any
  order; while it sorts them their counters change, so that the ranking may be any order of them.
\<close>

inductive seeder_step :: "torrent \<Rightarrow> file_span list \<Rightarrow> seeder \<Rightarrow> seeder \<Rightarrow> bool" for t spans where
  accept: "card (dom (sd_conns s)) < sd_max_conns s \<Longrightarrow>
    seeder_step t spans s
      (s\<lparr>sd_links := sd_links s @ [\<lparr>ln_conn = new_upload_conn a, ln_phase = Handshaking\<rparr>]\<rparr>)"
| refuse: "sd_max_conns s \<le> card (dom (sd_conns s)) \<Longrightarrow> seeder_step t spans s s"
| registers: "i < length (sd_links s) \<Longrightarrow> sd_links s ! i = \<lparr>ln_conn = uc, ln_phase = Handshaking\<rparr> \<Longrightarrow>
    seeder_step t spans s
      (s\<lparr>sd_links := (sd_links s)[i := \<lparr>ln_conn = uc, ln_phase = Serving\<rparr>], sd_conns := (sd_conns s)(u_addr uc \<mapsto> i)\<rparr>)"
| moves: "i < length (sd_links s) \<Longrightarrow> link_step t spans (sd_links s ! i) k l \<Longrightarrow>
    seeder_step t spans s (s\<lparr>sd_links := (sd_links s)[i := l], sd_uploaded := sd_uploaded s + k\<rparr>)"
| deregisters: "i < length (sd_links s) \<Longrightarrow> sd_links s ! i = \<lparr>ln_conn = uc, ln_phase = Leaving\<rparr> \<Longrightarrow>
    seeder_step t spans s
      (s\<lparr>sd_links := (sd_links s)[i := \<lparr>ln_conn = uc, ln_phase = Gone\<rparr>], sd_conns := (sd_conns s)(u_addr uc := None)\<rparr>)"
| snapshots: "sd_eval s = Choker_Idle \<Longrightarrow> distinct ids \<Longrightarrow> set ids = ran (sd_conns s) \<Longrightarrow>
    seeder_step t spans s (s\<lparr>sd_eval := Filtering rot ids ids []\<rparr>)"
| filters: "sd_eval s = Filtering rot ids (i # todo) found \<Longrightarrow>
    seeder_step t spans s
      (s\<lparr>sd_eval := Filtering rot ids todo (if u_interested (conn_at s i) then found @ [i] else found)\<rparr>)"
| ranks: "sd_eval s = Filtering rot ids [] found \<Longrightarrow> mset ranking = mset found \<Longrightarrow>
    c' = rotate_optimistic rnd rot (map (conn_at s) ranking) (sd_choker s) \<Longrightarrow>
    seeder_step t spans s
      (s\<lparr>sd_choker := c', sd_eval := Applying ids (unchoke_set (map (conn_at s) ranking) c')\<rparr>)"
| applies: "sd_eval s = Applying (i # todo) unchokes \<Longrightarrow>
    seeder_step t spans s
      (s\<lparr>sd_links := (sd_links s)[i := (sd_links s ! i)\<lparr>ln_conn := fst (apply_choke unchokes (conn_at s i))\<rparr>],
         sd_eval := Applying todo unchokes\<rparr>)"
| finishes: "sd_eval s = Applying [] unchokes \<Longrightarrow> seeder_step t spans s (s\<lparr>sd_eval := Choker_Idle\<rparr>)"

inductive seeder_reach :: "torrent \<Rightarrow> file_span list \<Rightarrow> int \<Rightarrow> int \<Rightarrow> seeder \<Rightarrow> bool" for t spans max_conns slots where
  init: "seeder_reach t spans max_conns slots (new_seeder max_conns slots)"
| step: "seeder_reach t spans max_conns slots s \<Longrightarrow> seeder_step t spans s s' \<Longrightarrow> seeder_reach t spans max_conns slots s'"

inductive_cases link_stepE: "link_step t spans l k l'"

section \<open>An evaluation alone\<close>

text \<open>If nothing moves in between, the steps of an evaluation are \<open>evaluate_chokes\<close> on the snapshot.\<close>

inductive seeder_steps :: "torrent \<Rightarrow> file_span list \<Rightarrow> seeder \<Rightarrow> seeder \<Rightarrow> bool" for t spans where
  Stay: "seeder_steps t spans s s"
| Then: "seeder_step t spans s s' \<Longrightarrow> seeder_steps t spans s' s'' \<Longrightarrow> seeder_steps t spans s s''"

lemma seeder_steps_trans: "seeder_steps t spans s s' \<Longrightarrow> seeder_steps t spans s' s'' \<Longrightarrow> seeder_steps t spans s s''"
  by (induction rule: seeder_steps.induct) (auto intro: seeder_steps.Then)

lemma filters_alone:
  "seeder_steps t spans (s\<lparr>sd_eval := Filtering rot ids todo found\<rparr>)
     (s\<lparr>sd_eval := Filtering rot ids [] (found @ filter (\<lambda>i. u_interested (conn_at s i)) todo)\<rparr>)"
proof (induction todo arbitrary: found)
  case (Cons i todo)
  let ?found = "if u_interested (conn_at s i) then found @ [i] else found"
  have "seeder_step t spans (s\<lparr>sd_eval := Filtering rot ids (i # todo) found\<rparr>) (s\<lparr>sd_eval := Filtering rot ids todo ?found\<rparr>)"
    using seeder_step.filters [of "s\<lparr>sd_eval := Filtering rot ids (i # todo) found\<rparr>" rot ids i todo found t spans] by simp
  then show ?case using Cons.IH [of ?found] by (auto intro: seeder_steps.Then split: if_splits)
qed (simp add: seeder_steps.Stay)

lemma applies_alone:
  assumes "distinct todo" "set todo \<subseteq> {..<length (sd_links s)}"
  shows "\<exists>links. seeder_steps t spans (s\<lparr>sd_eval := Applying todo U\<rparr>) (s\<lparr>sd_links := links, sd_eval := Choker_Idle\<rparr>) \<and>
    length links = length (sd_links s) \<and>
    (\<forall>i < length links. links ! i = (if i \<in> set todo then (sd_links s ! i)\<lparr>ln_conn := fst (apply_choke U (conn_at s i))\<rparr>
       else sd_links s ! i))"
  using assms
proof (induction todo arbitrary: s)
  case Nil
  have "seeder_step t spans (s\<lparr>sd_eval := Applying [] U\<rparr>) (s\<lparr>sd_links := sd_links s, sd_eval := Choker_Idle\<rparr>)"
    using seeder_step.finishes [of "s\<lparr>sd_eval := Applying [] U\<rparr>" U t spans] by simp
  then show ?case by (intro exI [of _ "sd_links s"]) (auto intro: seeder_steps.intros)
next
  case (Cons i todo)
  let ?s = "s\<lparr>sd_links := (sd_links s)[i := (sd_links s ! i)\<lparr>ln_conn := fst (apply_choke U (conn_at s i))\<rparr>]\<rparr>"
  have "set todo \<subseteq> {..<length (sd_links ?s)}" "distinct todo" using Cons.prems by simp_all
  from Cons.IH [OF this(2,1)] obtain links where l:
    "seeder_steps t spans (?s\<lparr>sd_eval := Applying todo U\<rparr>) (?s\<lparr>sd_links := links, sd_eval := Choker_Idle\<rparr>)"
    "length links = length (sd_links s)"
    "\<forall>j < length links. links ! j = (if j \<in> set todo then (sd_links ?s ! j)\<lparr>ln_conn := fst (apply_choke U (conn_at ?s j))\<rparr>
       else sd_links ?s ! j)" by auto
  have "seeder_step t spans (s\<lparr>sd_eval := Applying (i # todo) U\<rparr>) (?s\<lparr>sd_eval := Applying todo U\<rparr>)"
    using seeder_step.applies [of "s\<lparr>sd_eval := Applying (i # todo) U\<rparr>" i todo U t spans] by simp
  then have "seeder_steps t spans (s\<lparr>sd_eval := Applying (i # todo) U\<rparr>) (s\<lparr>sd_links := links, sd_eval := Choker_Idle\<rparr>)"
    using l(1) by (auto intro: seeder_steps.Then)
  moreover have "links ! j = (if j \<in> set (i # todo) then (sd_links s ! j)\<lparr>ln_conn := fst (apply_choke U (conn_at s j))\<rparr>
       else sd_links s ! j)" if "j < length links" for j
    using l(2,3) that Cons.prems by (auto simp: nth_list_update)
  ultimately show ?case using l(2) by blast
qed

lemma map_insort: "map g (insort_key (\<lambda>x. f (g x)) x xs) = insort_key f (g x) (map g xs)"
  by (induction xs) simp_all

lemma map_sort_key: "map g (sort_key (\<lambda>x. f (g x)) xs) = sort_key f (map g xs)"
  by (induction xs) (simp_all add: map_insort)

lemma evaluation_alone:
  assumes "sd_eval s = Choker_Idle" "distinct ids" "set ids = ran (sd_conns s)" "set ids \<subseteq> {..<length (sd_links s)}"
    and ev: "evaluate_chokes rnd rot (map (conn_at s) ids) (sd_choker s) = (c', conns', msgs)"
  shows "\<exists>s'. seeder_steps t spans s s' \<and> sd_eval s' = Choker_Idle \<and> sd_choker s' = c' \<and> map (conn_at s') ids = conns'"
proof -
  define found where "found = filter (\<lambda>i. u_interested (conn_at s i)) ids"
  define ranking where "ranking = sort_key (\<lambda>i. - u_upload_bytes (conn_at s i)) found"
  have r: "map (conn_at s) ranking = ranked (map (conn_at s) ids)"
    using map_sort_key [of "conn_at s" "\<lambda>c. - u_upload_bytes c" found]
    by (simp add: ranked_def ranking_def found_def filter_map comp_def)
  let ?U = "unchoke_set (ranked (map (conn_at s) ids)) c'"
  have c': "c' = rotate_optimistic rnd rot (ranked (map (conn_at s) ids)) (sd_choker s)"
    and conns': "conns' = map (\<lambda>i. fst (apply_choke ?U (conn_at s i))) ids"
    using ev by (auto simp: evaluate_chokes_def Let_def)
  let ?s = "\<lambda>e. s\<lparr>sd_eval := e\<rparr>"
  have 1: "seeder_step t spans s (?s (Filtering rot ids ids []))" by (rule seeder_step.snapshots [OF assms(1-3)])
  have 2: "seeder_steps t spans (?s (Filtering rot ids ids [])) (?s (Filtering rot ids [] found))"
    using filters_alone [where s = s and found = "[]" and todo = ids] by (simp add: found_def)
  have 3: "seeder_step t spans (?s (Filtering rot ids [] found)) (s\<lparr>sd_choker := c', sd_eval := Applying ids ?U\<rparr>)"
    using seeder_step.ranks [of "?s (Filtering rot ids [] found)" rot ids found ranking c' rnd t spans] r c'
    by (simp add: ranking_def)
  have "seeder_steps t spans s ((s\<lparr>sd_choker := c'\<rparr>)\<lparr>sd_eval := Applying ids ?U\<rparr>)"
    using seeder_steps.Then [OF 1 seeder_steps_trans [OF 2 seeder_steps.Then [OF 3 seeder_steps.Stay]]] by simp
  moreover obtain links where l: "seeder_steps t spans ((s\<lparr>sd_choker := c'\<rparr>)\<lparr>sd_eval := Applying ids ?U\<rparr>)
      (s\<lparr>sd_choker := c', sd_links := links, sd_eval := Choker_Idle\<rparr>)" "length links = length (sd_links s)"
    "\<forall>i < length links. links ! i = (if i \<in> set ids then (sd_links s ! i)\<lparr>ln_conn := fst (apply_choke ?U (conn_at s i))\<rparr>
       else sd_links s ! i)"
    using applies_alone [of ids "s\<lparr>sd_choker := c'\<rparr>" t spans ?U] assms(2,4) by auto
  ultimately have "seeder_steps t spans s (s\<lparr>sd_choker := c', sd_links := links, sd_eval := Choker_Idle\<rparr>)"
    using seeder_steps_trans by blast
  moreover have "map (\<lambda>i. ln_conn (links ! i)) ids = conns'"
    unfolding conns' using l(2,3) assms(4) by (intro map_cong) auto
  ultimately show ?thesis by (intro exI [of _ "s\<lparr>sd_choker := c', sd_links := links, sd_eval := Choker_Idle\<rparr>"]) simp
qed

section \<open>The invariant\<close>

text \<open>The registered connections that are unchoked.\<close>

definition unchoked :: "seeder \<Rightarrow> nat set" where
  "unchoked s = {i \<in> ran (sd_conns s). \<not> u_choked (conn_at s i)}"

text \<open>Bytes counted for a connection that are not yet in the total.\<close>

fun uncounted :: "phase \<Rightarrow> int" where
  "uncounted (Counted n) = int n"
| "uncounted _ = 0"

text \<open>
  A registered connection is known under its address and has passed its handshake; before that it is choked. What
  is unchoked was unchoked by the last evaluation, whose addresses are \<open>P\<close>, or by the one that is applied now.
\<close>

definition registry_ok :: "seeder \<Rightarrow> bool" where
  "registry_ok s \<longleftrightarrow>
     (\<forall>a i. sd_conns s a = Some i \<longrightarrow> i < length (sd_links s) \<and> u_addr (conn_at s i) = a \<and> ln_phase (sd_links s ! i) \<noteq> Handshaking) \<and>
     (\<forall>i < length (sd_links s). ln_phase (sd_links s ! i) = Handshaking \<longrightarrow> u_choked (conn_at s i))"

definition known :: "seeder \<Rightarrow> nat \<Rightarrow> bool" where
  "known s i \<longleftrightarrow> i < length (sd_links s) \<and> ln_phase (sd_links s ! i) \<noteq> Handshaking"

definition slots_ok :: "nat \<Rightarrow> bytes set \<Rightarrow> seeder \<Rightarrow> bool" where
  "slots_ok slots P s \<longleftrightarrow> finite P \<and> card P \<le> slots + 1 \<and> ck_upload_slots (sd_choker s) = slots \<and>
     (case sd_eval s of
        Choker_Idle \<Rightarrow> \<forall>i \<in> unchoked s. u_addr (conn_at s i) \<in> P
      | Filtering rot ids todo found \<Rightarrow>
          (\<forall>i \<in> set ids. known s i) \<and> (\<forall>i \<in> unchoked s. i \<in> set ids \<and> u_addr (conn_at s i) \<in> P)
      | Applying todo U \<Rightarrow>
          (\<forall>i \<in> set todo. known s i) \<and> finite U \<and> card U \<le> slots + 1 \<and>
          (\<forall>i \<in> unchoked s. u_addr (conn_at s i) \<in> U \<or> i \<in> set todo \<and> u_addr (conn_at s i) \<in> P))"

definition total_ok :: "seeder \<Rightarrow> bool" where
  "total_ok s \<longleftrightarrow>
     (\<Sum>l\<leftarrow>sd_links s. u_upload_bytes (ln_conn l)) = sd_uploaded s + (\<Sum>l\<leftarrow>sd_links s. uncounted (ln_phase l))"

text \<open>A message leaves the address and the choke state of its connection alone.\<close>

lemma serve_message_Continue:
  "serve_message t spans m uc = Continue uc' \<Longrightarrow>
    u_addr uc' = u_addr uc \<and> u_choked uc' = u_choked uc \<and> u_upload_bytes uc' = u_upload_bytes uc"
  by (auto simp: serve_message_def serve_request_def Let_def split: option.splits if_splits sum.splits)

lemma serve_message_Answer:
  "serve_message t spans m uc = Answer uc' r n \<Longrightarrow> \<not> u_choked uc \<and> 0 < n \<and> n \<le> 16384"
  by (auto simp: serve_message_def serve_request_def Let_def split: option.splits if_splits sum.splits)

lemma link_step_keeps:
  "link_step t spans l k l' \<Longrightarrow>
    u_addr (ln_conn l') = u_addr (ln_conn l) \<and> u_choked (ln_conn l') = u_choked (ln_conn l) \<and>
    (ln_phase l' = Handshaking \<longrightarrow> ln_phase l = Handshaking) \<and>
    u_upload_bytes (ln_conn l') - uncounted (ln_phase l') = u_upload_bytes (ln_conn l) - uncounted (ln_phase l) + k"
  by (erule link_stepE) (auto dest: serve_message_Continue)

text \<open>A reply is due only to a peer that was unchoked when its request was handled, for at most 16 KiB.\<close>

lemma link_step_reply:
  "link_step t spans l k l' \<Longrightarrow> ln_phase l' = Replying n \<Longrightarrow> \<not> u_choked (ln_conn l) \<and> 0 < n \<and> n \<le> 16384"
  by (erule link_stepE) (auto dest: serve_message_Answer)

lemma sum_list_map_update:
  fixes f :: "'a \<Rightarrow> int"
  shows "i < length xs \<Longrightarrow> (\<Sum>x\<leftarrow>xs[i := y]. f x) = (\<Sum>x\<leftarrow>xs. f x) - f (xs ! i) + f y"
  by (induction xs arbitrary: i) (auto simp: nth_Cons split: nat.splits)

lemma total_ok_replace:
  assumes "total_ok s" "i < length (sd_links s)" "sd_links s' = (sd_links s)[i := l']" "sd_uploaded s' = sd_uploaded s + k"
    and "u_upload_bytes (ln_conn l') - uncounted (ln_phase l') =
      u_upload_bytes (conn_at s i) - uncounted (ln_phase (sd_links s ! i)) + k"
  shows "total_ok s'"
  using assms(1,4,5) unfolding total_ok_def assms(3) sum_list_map_update [OF assms(2)] by simp

lemma apply_choke_fields [simp]:
  "u_addr (fst (apply_choke U uc)) = u_addr uc" "u_upload_bytes (fst (apply_choke U uc)) = u_upload_bytes uc"
  "u_choked (fst (apply_choke U uc)) \<longleftrightarrow> u_addr uc \<notin> U"
  by (simp_all add: apply_choke_def Let_def)


text \<open>The unchoke set of a ranking has an address for each slot and the optimistic one.\<close>

lemma unchoke_set_bound: "finite (unchoke_set rs c)" "card (unchoke_set rs c) \<le> ck_upload_slots c + 1"
proof -
  show "finite (unchoke_set rs c)" by (simp add: unchoke_set_def)
  let ?T = "set (map u_addr (take (ck_upload_slots c) rs))"
  have "card (unchoke_set rs c) \<le> card (?T \<union> {ck_optimistic c})"
    unfolding unchoke_set_def by (rule card_mono) auto
  also have "\<dots> \<le> card ?T + 1" using card_Un_le [of ?T "{ck_optimistic c}"] by simp
  also have "card ?T \<le> ck_upload_slots c"
    using card_length [of "map u_addr (take (ck_upload_slots c) rs)"] by simp
  finally show "card (unchoke_set rs c) \<le> ck_upload_slots c + 1" by simp
qed

definition seeder_ok :: "nat \<Rightarrow> seeder \<Rightarrow> bool" where
  "seeder_ok slots s \<longleftrightarrow> registry_ok s \<and> (\<exists>P. slots_ok slots P s) \<and> total_ok s"

lemma registered_known: "registry_ok s \<Longrightarrow> i \<in> ran (sd_conns s) \<Longrightarrow> known s i"
  by (auto simp: registry_ok_def known_def ran_def)

lemma registered_addr: "registry_ok s \<Longrightarrow> sd_conns s a = Some i \<Longrightarrow> u_addr (conn_at s i) = a"
  by (simp add: registry_ok_def)

text \<open>Nothing is lost if nobody else is unchoked and nobody known is forgotten.\<close>

lemma slots_ok_mono:
  assumes ok: "slots_ok slots P s" and same: "sd_eval s' = sd_eval s" "sd_choker s' = sd_choker s"
    and k: "\<And>i. known s i \<Longrightarrow> known s' i"
    and u: "\<And>i. i \<in> unchoked s' \<Longrightarrow> i \<in> unchoked s \<and> u_addr (conn_at s' i) = u_addr (conn_at s i)"
  shows "slots_ok slots P s'"
proof (cases "sd_eval s")
  case Choker_Idle
  then show ?thesis using ok u by (simp add: slots_ok_def same)
next
  case (Filtering rot ids todo found)
  then show ?thesis using ok k u by (simp add: slots_ok_def same)
next
  case (Applying todo U)
  then have "finite P" "card P \<le> slots + 1" "ck_upload_slots (sd_choker s) = slots" "finite U" "card U \<le> slots + 1"
    and a: "\<forall>i \<in> set todo. known s i"
      "\<forall>i \<in> unchoked s. u_addr (conn_at s i) \<in> U \<or> i \<in> set todo \<and> u_addr (conn_at s i) \<in> P"
    using ok by (simp_all add: slots_ok_def)
  moreover have "\<forall>i \<in> unchoked s'. u_addr (conn_at s' i) \<in> U \<or> i \<in> set todo \<and> u_addr (conn_at s' i) \<in> P"
    using a(2) u by fastforce
  ultimately show ?thesis using Applying k by (simp add: slots_ok_def same)
qed

text \<open>
  One connection object is replaced by one with the same address and choke state, not earlier in its life.
\<close>

lemma replace_ok:
  assumes ok: "registry_ok s" "slots_ok slots P s" and i: "i < length (sd_links s)"
    and s': "sd_links s' = (sd_links s)[i := l]" "sd_conns s' = sd_conns s" "sd_eval s' = sd_eval s" "sd_choker s' = sd_choker s"
    and l: "u_addr (ln_conn l) = u_addr (conn_at s i)" "u_choked (ln_conn l) = u_choked (conn_at s i)"
      "ln_phase l = Handshaking \<Longrightarrow> ln_phase (sd_links s ! i) = Handshaking"
  shows "registry_ok s'" "slots_ok slots P s'"
proof -
  show "registry_ok s'" using ok(1) i l by (auto simp: registry_ok_def s' nth_list_update)
  show "slots_ok slots P s'"
    using ok(2) s'(3,4)
    by (rule slots_ok_mono) (use i l in \<open>auto simp: known_def unchoked_def s' nth_list_update split: if_splits\<close>)
qed

lemma registers_ok:
  assumes ok: "registry_ok s" "slots_ok slots P s" and i: "i < length (sd_links s)" "sd_links s ! i = \<lparr>ln_conn = uc, ln_phase = Handshaking\<rparr>"
    and s': "s' = s\<lparr>sd_links := (sd_links s)[i := \<lparr>ln_conn = uc, ln_phase = Serving\<rparr>], sd_conns := (sd_conns s)(u_addr uc \<mapsto> i)\<rparr>"
  shows "registry_ok s'" "slots_ok slots P s'"
proof -
  have ch: "u_choked uc" using ok(1) i by (auto simp: registry_ok_def)
  have ran: "j \<in> ran (sd_conns s)" if "j \<in> ran (sd_conns s')" "j \<noteq> i" for j
    using that by (auto simp: s' ran_def split: if_splits)
  have "a = u_addr uc" if "sd_conns s a = Some i" for a using registered_addr [OF ok(1) that] i by simp
  then show "registry_ok s'" using ok(1) i by (auto simp: registry_ok_def s' nth_list_update)
  show "slots_ok slots P s'" using ok(2)
  proof (rule slots_ok_mono)
    fix j assume "known s j"
    then show "known s' j" using i by (auto simp: known_def s' nth_list_update)
  next
    fix j assume j: "j \<in> unchoked s'"
    then have "j \<noteq> i" using ch i by (auto simp: unchoked_def s')
    then show "j \<in> unchoked s \<and> u_addr (conn_at s' j) = u_addr (conn_at s j)"
      using j ran by (auto simp: unchoked_def s')
  qed (simp_all add: s')
qed

lemma accept_ok:
  assumes ok: "registry_ok s" "slots_ok slots P s"
    and s': "s' = s\<lparr>sd_links := sd_links s @ [\<lparr>ln_conn = new_upload_conn a, ln_phase = Handshaking\<rparr>]\<rparr>"
  shows "registry_ok s'" "slots_ok slots P s'"
proof -
  show "registry_ok s'"
    using ok(1) by (auto simp: registry_ok_def s' nth_append new_upload_conn_def less_Suc_eq)
  have "i < length (sd_links s)" if "i \<in> ran (sd_conns s)" for i
    using registered_known [OF ok(1) that] by (simp add: known_def)
  then show "slots_ok slots P s'"
    by (intro slots_ok_mono [OF ok(2)]) (auto simp: known_def unchoked_def s' nth_append)
qed

lemma deregisters_ok:
  assumes ok: "registry_ok s" "slots_ok slots P s" and i: "i < length (sd_links s)" "sd_links s ! i = \<lparr>ln_conn = uc, ln_phase = Leaving\<rparr>"
    and s': "s' = s\<lparr>sd_links := (sd_links s)[i := \<lparr>ln_conn = uc, ln_phase = Gone\<rparr>], sd_conns := (sd_conns s)(u_addr uc := None)\<rparr>"
  shows "registry_ok s'" "slots_ok slots P s'"
proof -
  have ran: "ran (sd_conns s') \<subseteq> ran (sd_conns s)" by (auto simp: s' ran_def)
  have "a = u_addr uc" if "sd_conns s a = Some i" for a using registered_addr [OF ok(1) that] i by simp
  then show "registry_ok s'" using ok(1) i by (auto simp: registry_ok_def s' nth_list_update split: if_splits)
  show "slots_ok slots P s'"
    by (intro slots_ok_mono [OF ok(2)])
      (use ran i in \<open>auto simp: known_def unchoked_def s' nth_list_update split: if_splits\<close>)
qed

text \<open>The steps of an evaluation.\<close>

lemma snapshots_ok:
  assumes "registry_ok s" "slots_ok slots P s" "sd_eval s = Choker_Idle" "set ids = ran (sd_conns s)"
    and s': "s' = s\<lparr>sd_eval := Filtering rot ids ids []\<rparr>"
  shows "slots_ok slots P s'"
  using assms(2,3) registered_known [OF assms(1)] assms(4) by (simp add: slots_ok_def s' known_def unchoked_def)

lemma ranks_ok:
  assumes "slots_ok slots P s" "sd_eval s = Filtering rot ids [] found" "ck_upload_slots c' = ck_upload_slots (sd_choker s)"
    and s': "s' = s\<lparr>sd_choker := c', sd_eval := Applying ids (unchoke_set rs c')\<rparr>"
  shows "slots_ok slots P s'"
  using assms(1-3) unchoke_set_bound [of rs c'] by (simp add: slots_ok_def s' known_def unchoked_def)

lemma applies_ok:
  assumes ok: "registry_ok s" "slots_ok slots P s" and e: "sd_eval s = Applying (i # todo) U"
    and s': "s' = s\<lparr>sd_links := (sd_links s)[i := (sd_links s ! i)\<lparr>ln_conn := fst (apply_choke U (conn_at s i))\<rparr>],
      sd_eval := Applying todo U\<rparr>"
  shows "registry_ok s'" "slots_ok slots P s'" "total_ok s \<Longrightarrow> total_ok s'"
proof -
  have i: "i < length (sd_links s)" "ln_phase (sd_links s ! i) \<noteq> Handshaking"
    and sl: "finite P" "card P \<le> slots + 1" "ck_upload_slots (sd_choker s) = slots" "finite U" "card U \<le> slots + 1"
      "\<forall>j \<in> set todo. known s j"
    and un: "\<forall>j \<in> unchoked s. u_addr (conn_at s j) \<in> U \<or> j \<in> set (i # todo) \<and> u_addr (conn_at s j) \<in> P"
    using ok(2) e by (simp_all add: slots_ok_def known_def)
  show "registry_ok s'" using ok(1) i by (auto simp: registry_ok_def s' nth_list_update)
  have "\<forall>j \<in> unchoked s'. u_addr (conn_at s' j) \<in> U \<or> j \<in> set todo \<and> u_addr (conn_at s' j) \<in> P"
  proof
    fix j assume j: "j \<in> unchoked s'"
    show "u_addr (conn_at s' j) \<in> U \<or> j \<in> set todo \<and> u_addr (conn_at s' j) \<in> P"
    proof (cases "j = i")
      case True
      then show ?thesis using j i by (simp add: unchoked_def s')
    next
      case False
      then have "j \<in> unchoked s" "conn_at s' j = conn_at s j" using j by (simp_all add: unchoked_def s')
      then show ?thesis using un False by auto
    qed
  qed
  moreover have "\<forall>j \<in> set todo. known s' j" using sl(6) i by (auto simp: known_def s' nth_list_update)
  ultimately show "slots_ok slots P s'" using sl by (simp add: slots_ok_def s')
  show "total_ok s'" if "total_ok s"
    using that i(1) by (rule total_ok_replace [where k = 0 and l' = "(sd_links s ! i)\<lparr>ln_conn := fst (apply_choke U (conn_at s i))\<rparr>"])
      (simp_all add: s')
qed

lemma seeder_ok_step:
  assumes "seeder_step t spans s s'" "seeder_ok slots s"
  shows "seeder_ok slots s'"
proof -
  obtain P where ok: "registry_ok s" "slots_ok slots P s" and tot: "total_ok s"
    using assms(2) by (auto simp: seeder_ok_def)
  from assms(1) show ?thesis
  proof cases
    case (accept a)
    then have "total_ok s'" using tot by (simp add: total_ok_def new_upload_conn_def)
    then show ?thesis using accept_ok [OF ok accept(1)] by (auto simp: seeder_ok_def)
  next
    case refuse
    then show ?thesis using assms(2) by simp
  next
    case (registers i uc)
    then have "total_ok s'" by (intro total_ok_replace [OF tot registers(2), where k = 0 and l' = "\<lparr>ln_conn = uc, ln_phase = Serving\<rparr>"]) simp_all
    then show ?thesis using registers_ok [OF ok registers(2,3,1)] by (auto simp: seeder_ok_def)
  next
    case (moves i k l)
    note keeps = link_step_keeps [OF moves(3)]
    then have bytes: "u_upload_bytes (ln_conn l) - uncounted (ln_phase l) =
        u_upload_bytes (conn_at s i) - uncounted (ln_phase (sd_links s ! i)) + k" by blast
    have "total_ok s'" by (rule total_ok_replace [OF tot moves(2) _ _ bytes]) (simp_all add: moves(1))
    moreover have "registry_ok s'" "slots_ok slots P s'"
      by (rule replace_ok [OF ok moves(2), where l = l], use keeps in \<open>simp_all add: moves(1)\<close>)+
    ultimately show ?thesis by (auto simp: seeder_ok_def)
  next
    case (deregisters i uc)
    then have "total_ok s'" by (intro total_ok_replace [OF tot deregisters(2), where k = 0 and l' = "\<lparr>ln_conn = uc, ln_phase = Gone\<rparr>"]) simp_all
    then show ?thesis using deregisters_ok [OF ok deregisters(2,3,1)] by (auto simp: seeder_ok_def)
  next
    case (snapshots ids rot)
    have "slots_ok slots P s'" using snapshots_ok [OF ok snapshots(2,4,1)] .
    then show ?thesis using ok(1) tot snapshots(1) by (auto simp: seeder_ok_def registry_ok_def total_ok_def)
  next
    case (filters rot ids i todo found)
    have "slots_ok slots P s'" using ok(2) filters(2) by (simp add: slots_ok_def filters(1) known_def unchoked_def)
    then show ?thesis using ok(1) tot filters(1) by (auto simp: seeder_ok_def registry_ok_def total_ok_def)
  next
    case (ranks rot ids found ranking c' rnd)
    have "slots_ok slots P s'" using ranks_ok [OF ok(2) ranks(2) _ ranks(1)] ranks(4) by simp
    then show ?thesis using ok(1) tot ranks(1) by (auto simp: seeder_ok_def registry_ok_def total_ok_def)
  next
    case (applies i todo U)
    show ?thesis using applies_ok [OF ok applies(2,1)] tot by (auto simp: seeder_ok_def)
  next
    case (finishes U)
    have "slots_ok slots U s'" using ok(2) finishes(2) by (simp add: slots_ok_def finishes(1) unchoked_def)
    then show ?thesis using ok(1) tot finishes(1) by (auto simp: seeder_ok_def registry_ok_def total_ok_def)
  qed
qed

lemma new_seeder_ok: "seeder_ok (if slots \<le> 0 then 4 else nat slots) (new_seeder max_conns slots)"
  by (auto simp: seeder_ok_def new_seeder_def new_choker_def Let_def registry_ok_def slots_ok_def total_ok_def unchoked_def
    intro: exI [of _ "{}"])

lemma seeder_reach_ok:
  "seeder_reach t spans max_conns slots s \<Longrightarrow> seeder_ok (if slots \<le> 0 then 4 else nat slots) s"
  by (induction rule: seeder_reach.induct) (use new_seeder_ok seeder_ok_step in blast)+


section \<open>Properties\<close>

text \<open>A step after which a reply is due has looked at the choke state before.\<close>

lemma seeder_step_reply:
  assumes "seeder_step t spans s s'" "i < length (sd_links s)"
    and "ln_phase (sd_links s' ! i) = Replying k" "ln_phase (sd_links s ! i) \<noteq> Replying k"
  shows "\<not> u_choked (conn_at s i) \<and> 0 < k \<and> k \<le> 16384"
  using assms
proof cases
  case (moves j n l)
  with assms(3,4) have "i = j" "ln_phase l = Replying k" by (auto simp: nth_list_update split: if_splits)
  then show ?thesis using link_step_reply [OF moves(3), of k] by simp
next
  case (applies j todo U)
  with assms(2-4) show ?thesis by (cases "i = j") simp_all
qed (auto simp: nth_append nth_list_update split: if_splits)

text \<open>Whoever is unchoked has an address in a set, so that the set bounds their number.\<close>

lemma unchoked_card:
  assumes "registry_ok s" "\<forall>i \<in> unchoked s. u_addr (conn_at s i) \<in> A" "finite A"
  shows "finite (unchoked s) \<and> card (unchoked s) \<le> card A"
proof -
  have "inj_on (\<lambda>i. u_addr (conn_at s i)) (unchoked s)"
    using registered_addr [OF assms(1)] by (fastforce simp: inj_on_def unchoked_def ran_def)
  moreover have "(\<lambda>i. u_addr (conn_at s i)) ` unchoked s \<subseteq> A" using assms(2) by auto
  ultimately show ?thesis using assms(3) by (blast intro: inj_on_finite card_inj_on_le)
qed

lemma unchoked_bound:
  assumes "registry_ok s" "slots_ok n P s"
  shows "finite (unchoked s) \<and> card (unchoked s) \<le> 2 * (n + 1) \<and>
    ((\<forall>todo U. sd_eval s \<noteq> Applying todo U) \<longrightarrow> card (unchoked s) \<le> n + 1)"
proof (cases "sd_eval s")
  case (Applying todo U)
  then have P: "finite P" "card P \<le> n + 1" "finite U" "card U \<le> n + 1"
    and "\<forall>i \<in> unchoked s. u_addr (conn_at s i) \<in> U \<union> P"
    using assms(2) by (auto simp: slots_ok_def)
  then have "finite (unchoked s) \<and> card (unchoked s) \<le> card (U \<union> P)"
    by (intro unchoked_card [OF assms(1)]) auto
  then show ?thesis using P card_Un_le [of U P] Applying by simp
qed (use assms(2) unchoked_card [OF assms(1), of P] in \<open>auto simp: slots_ok_def\<close>)

text \<open>
  C31. Uploads are limited, whatever the threads of the connections, the accept loop and the choker do
  in between each other. In every reachable state no more registered connections are unchoked than the upload slots and
  one, unless the choker is just applying a decision, when those of the previous decision may still be unchoked (at most
  twice as many); the bytes counted for all connections so far are the uploaded total and what is counted but
  not yet added to it; and whenever a reply becomes due its connection is unchoked at that moment and the
  reply holds at most 16 KiB.
\<close>

theorem seeder_limits:
  assumes "seeder_reach t spans max_conns slots s" "n = (if slots \<le> 0 then 4 else nat slots)"
  shows "finite (unchoked s) \<and> card (unchoked s) \<le> 2 * (n + 1) \<and>
    ((\<forall>todo U. sd_eval s \<noteq> Applying todo U) \<longrightarrow> card (unchoked s) \<le> n + 1) \<and>
    (\<Sum>l\<leftarrow>sd_links s. u_upload_bytes (ln_conn l)) = snd (stats s) + (\<Sum>l\<leftarrow>sd_links s. uncounted (ln_phase l)) \<and>
    (\<forall>s' i k. seeder_step t spans s s' \<longrightarrow> i < length (sd_links s) \<longrightarrow> ln_phase (sd_links s ! i) \<noteq> Replying k \<longrightarrow>
       ln_phase (sd_links s' ! i) = Replying k \<longrightarrow> \<not> u_choked (conn_at s i) \<and> 0 < k \<and> k \<le> 16384)"
proof -
  obtain P where ok: "registry_ok s" "slots_ok n P s" "total_ok s"
    using seeder_reach_ok [OF assms(1)] assms(2) by (auto simp: seeder_ok_def)
  show ?thesis using unchoked_bound [OF ok(1,2)] ok(3) seeder_step_reply by (simp add: total_ok_def stats_def)
qed

section \<open>Runs\<close>

text \<open>A seeder with one upload slot, in which everything but the connections, the choker's place and the total is as given.\<close>

abbreviation one_slot :: "peer_link list \<Rightarrow> (bytes \<rightharpoonup> nat) \<Rightarrow> evaluating \<Rightarrow> seeder" where
  "one_slot links conns e \<equiv>
     \<lparr>sd_max_conns = 1, sd_links = links, sd_conns = conns, sd_choker = new_choker 1, sd_eval = e, sd_uploaded = 0\<rparr>"

abbreviation link_of :: "bytes \<Rightarrow> phase \<Rightarrow> peer_link" where
  "link_of a p \<equiv> \<lparr>ln_conn = new_upload_conn a, ln_phase = p\<rparr>"

lemmas seeder_run = seeder_reach.step [where max_conns = 1 and slots = 1]

lemma one_slot_new: "seeder_reach t spans 1 1 (one_slot [] Map.empty Choker_Idle)"
  using seeder_reach.init [of t spans 1 1] by (simp add: new_seeder_def)

text \<open>
  The limit of connections is compared before the handshake and not again: two connections
  accepted in a row are both registered although one is allowed.
\<close>

lemma two_accepted:
  "seeder_reach t spans 1 1 (one_slot [link_of a Handshaking, link_of b Handshaking] Map.empty Choker_Idle)"
proof -
  have "seeder_reach t spans 1 1 (one_slot [link_of a Handshaking] Map.empty Choker_Idle)"
    by (rule seeder_run [OF one_slot_new])
      (use seeder_step.accept [where s = "one_slot [] Map.empty Choker_Idle" and a = a] in simp)
  then show ?thesis
    by (rule seeder_run)
      (use seeder_step.accept [where s = "one_slot [link_of a Handshaking] Map.empty Choker_Idle" and a = b] in simp)
qed

lemma two_registered:
  "seeder_reach t spans 1 1 (one_slot [link_of a Serving, link_of b Serving] [a \<mapsto> 0, b \<mapsto> 1] Choker_Idle)"
proof -
  have "seeder_reach t spans 1 1 (one_slot [link_of a Serving, link_of b Handshaking] [a \<mapsto> 0] Choker_Idle)"
    by (rule seeder_run [OF two_accepted [where a = a and b = b]])
      (use seeder_step.registers [where s = "one_slot [link_of a Handshaking, link_of b Handshaking] Map.empty Choker_Idle"
        and i = 0 and uc = "new_upload_conn a"] in \<open>simp add: new_upload_conn_def\<close>)
  then show ?thesis
    by (rule seeder_run)
      (use seeder_step.registers [where s = "one_slot [link_of a Serving, link_of b Handshaking] [a \<mapsto> 0] Choker_Idle"
        and i = 1 and uc = "new_upload_conn b"] in \<open>simp add: new_upload_conn_def\<close>)
qed

lemma max_conns_exceeded: "\<exists>s. seeder_reach t spans 1 1 s \<and> sd_max_conns s = 1 \<and> fst (stats s) = 2"
  using two_registered [of t spans "[1]" "[2]"]
  by (intro exI [of _ "one_slot [link_of [1] Serving, link_of [2] Serving] [[1] \<mapsto> 0, [2] \<mapsto> 1] Choker_Idle"])
    (simp add: stats_def)

text \<open>
  A thread that leaves removes whatever is registered under its address. When the peer has connected
  again from the same address before the thread of its old connection noticed, the new connection is still served but
  is unknown to the choker and to the limit from then on.
\<close>

lemma stale_delete:
  "\<exists>s. seeder_reach t spans 1 1 s \<and> ln_phase (sd_links s ! 1) = Serving \<and> sd_conns s = Map.empty"
proof -
  have "seeder_reach t spans 1 1 (one_slot [link_of [1] Leaving, link_of [1] Serving] [[1] \<mapsto> 1] Choker_Idle)"
    by (rule seeder_run [OF two_registered [where a = "[1]" and b = "[1]"]])
      (use seeder_step.moves [where s = "one_slot [link_of [1] Serving, link_of [1] Serving] [[1] \<mapsto> 0, [1] \<mapsto> 1] Choker_Idle"
        and i = 0 and k = 0 and l = "link_of [1] Leaving" and t = t and spans = spans] link_step.closes in simp)
  then have "seeder_reach t spans 1 1 (one_slot [link_of [1] Gone, link_of [1] Serving] Map.empty Choker_Idle)"
    by (rule seeder_run)
      (use seeder_step.deregisters [where s = "one_slot [link_of [1] Leaving, link_of [1] Serving] [[1] \<mapsto> 1] Choker_Idle"
        and i = 0 and uc = "new_upload_conn [1]"] in \<open>simp add: new_upload_conn_def\<close>)
  then show ?thesis
    by (intro exI [of _ "one_slot [link_of [1] Gone, link_of [1] Serving] Map.empty Choker_Idle"]) simp
qed


text \<open>One peer connects, is interested and is unchoked by an evaluation.\<close>

lemma one_unchoked:
  "\<exists>s. seeder_reach t spans 1 1 s \<and> sd_eval s = Choker_Idle \<and> unchoked s = {0}"
proof -
  let ?c = "(new_upload_conn [1])\<lparr>u_interested := True\<rparr>"
  let ?s = "\<lambda>c e. one_slot [\<lparr>ln_conn = c, ln_phase = Serving\<rparr>] [[1] \<mapsto> 0] e"
  have "seeder_reach t spans 1 1 (one_slot [link_of [1] Handshaking] Map.empty Choker_Idle)"
    by (rule seeder_run [OF one_slot_new])
      (use seeder_step.accept [where s = "one_slot [] Map.empty Choker_Idle" and a = "[1]"] in simp)
  then have "seeder_reach t spans 1 1 (?s (new_upload_conn [1]) Choker_Idle)"
    by (rule seeder_run)
      (use seeder_step.registers [where s = "one_slot [link_of [1] Handshaking] Map.empty Choker_Idle"
        and i = 0 and uc = "new_upload_conn [1]"] in \<open>simp add: new_upload_conn_def\<close>)
  moreover have "serve_message t spans (Some \<lparr>wm_id = msg_id_of ''interested'', wm_payload = []\<rparr>) (new_upload_conn [1]) = Continue ?c"
    by (simp add: serve_message_def)
  ultimately have "seeder_reach t spans 1 1 (?s ?c Choker_Idle)"
    by - (erule seeder_run, use seeder_step.moves [where s = "?s (new_upload_conn [1]) Choker_Idle" and i = 0
      and l = "\<lparr>ln_conn = ?c, ln_phase = Serving\<rparr>" and k = 0] link_step.silent in fastforce)
  then have "seeder_reach t spans 1 1 (?s ?c (Filtering False [0] [0] []))"
    by (rule seeder_run)
      (use seeder_step.snapshots [where s = "?s ?c Choker_Idle" and ids = "[0]" and rot = False] in simp)
  then have "seeder_reach t spans 1 1 (?s ?c (Filtering False [0] [] [0]))"
    by (rule seeder_run)
      (use seeder_step.filters [where s = "?s ?c (Filtering False [0] [0] [])" and i = 0 and todo = "[]"
        and rot = False and ids = "[0]" and found = "[]"] in simp)
  then have "seeder_reach t spans 1 1 (?s ?c (Applying [0] {[1]}))"
    by (rule seeder_run)
      (use seeder_step.ranks [where s = "?s ?c (Filtering False [0] [] [0])" and ranking = "[0]" and found = "[0]"
        and c' = "new_choker 1" and rot = False and ids = "[0]"] in
        \<open>simp add: rotate_optimistic_def unchoke_set_def new_choker_def new_upload_conn_def\<close>)
  then have "seeder_reach t spans 1 1 (?s (?c\<lparr>u_choked := False\<rparr>) (Applying [] {[1]}))"
    by (rule seeder_run)
      (use seeder_step.applies [where s = "?s ?c (Applying [0] {[1]})" and i = 0 and todo = "[]" and unchokes = "{[1]}"] in
        \<open>simp add: apply_choke_def new_upload_conn_def\<close>)
  then have "seeder_reach t spans 1 1 (?s (?c\<lparr>u_choked := False\<rparr>) Choker_Idle)"
    by (rule seeder_run)
      (use seeder_step.finishes [where s = "?s (?c\<lparr>u_choked := False\<rparr>) (Applying [] {[1]})" and unchokes = "{[1]}"] in simp)
  then show ?thesis
    by (rule_tac exI [of _ "?s (?c\<lparr>u_choked := False\<rparr>) Choker_Idle"]) (auto simp: unchoked_def)
qed

theorem seeder_limits_witness:
  "\<exists>s. seeder_reach one_byte_pieces [] 1 1 s \<and> unchoked s = {0} \<and> card (unchoked s) \<le> 2"
proof -
  obtain s where s: "seeder_reach one_byte_pieces [] 1 1 s" "sd_eval s = Choker_Idle" "unchoked s = {0}"
    using one_unchoked [of one_byte_pieces "[]"] by blast
  then have "card (unchoked s) \<le> 2" using seeder_limits [OF s(1) refl] by simp
  with s show ?thesis by blast
qed

end
