(* ===== verification/Lsd.thy ===== *)
theory Lsd
  imports GoStd GoStrings
begin

text \<open>
  Local service discovery: the announcement on the wire (\<open>lsd/announce.go\<close>) and the service that
  announces the active torrents and turns the datagrams it receives into peers
  (\<open>lsd/service.go\<close>). The random bytes are arguments; theory LsdService runs the service.
\<close>

section \<open>Announcements\<close>

record lsd_announce =
  an_host :: bytes
  an_port :: u16
  an_infohash :: bytes
  an_cookie :: bytes

definition request_line :: bytes where
  "request_line = str ''BT-SEARCH * HTTP/1.1''"

definition ipv4_multicast :: bytes where
  "ipv4_multicast = str ''239.192.152.143''"

definition lsd_port :: nat where
  "lsd_port = 6771"

abbreviation crlf :: bytes where
  "crlf \<equiv> [13, 10]"

definition format_announce :: "lsd_announce \<Rightarrow> bytes" where
  "format_announce a =
     request_line @ crlf @ str ''Host: '' @ an_host a @ crlf @
     str ''Port: '' @ itoa (uint (an_port a)) @ crlf @
     str ''Infohash: '' @ hex_encode (an_infohash a) @ crlf @
     str ''cookie: '' @ an_cookie a @ crlf @ crlf"

text \<open>The announcement read so far, and whether its port and its hash were seen.\<close>

definition parse_header :: "bytes \<Rightarrow> lsd_announce \<times> bool \<times> bool \<Rightarrow> (lsd_announce \<times> bool \<times> bool) res" where
  "parse_header line st =
     (let (a, has_port, has_hash) = st
      in if line = [] then Inr st
         else case index_byte 58 line of
           None \<Rightarrow> Inr st
         | Some idx \<Rightarrow>
             let key = lower_runes (trim_space (take idx line)); val = trim_space (drop (idx + 1) line)
             in if key = str ''host'' then Inr (a\<lparr>an_host := val\<rparr>, has_port, has_hash)
                else if key = str ''port'' then
                  (case parse_uint 16 val of
                     Inl _ \<Rightarrow> Inl (Fail ''bad port'')
                   | Inr p \<Rightarrow> Inr (a\<lparr>an_port := of_nat p\<rparr>, True, has_hash))
                else if key = str ''infohash'' then
                  (if length val \<noteq> 40 then Inl (Fail ''invalid infohash'')
                   else case hex_decode val of
                     Inl _ \<Rightarrow> Inl (Fail ''invalid infohash'')
                   | Inr b \<Rightarrow> Inr (a\<lparr>an_infohash := b\<rparr>, has_port, True))
                else if key = str ''cookie'' then Inr (a\<lparr>an_cookie := val\<rparr>, has_port, has_hash)
                else Inr st)"

primrec parse_headers :: "bytes list \<Rightarrow> lsd_announce \<times> bool \<times> bool \<Rightarrow> (lsd_announce \<times> bool \<times> bool) res" where
  "parse_headers [] st = Inr st"
| "parse_headers (l # ls) st = (case parse_header l st of Inl e \<Rightarrow> Inl e | Inr st' \<Rightarrow> parse_headers ls st')"

definition parse_lsd_announce :: "bytes \<Rightarrow> lsd_announce res" where
  "parse_lsd_announce data =
     (let lines = split_lines data
      in if hd lines \<noteq> request_line then Inl (Fail ''not a BT-SEARCH message'')
         else case parse_headers (tl lines) (\<lparr>an_host = [], an_port = 0, an_infohash = replicate 20 0, an_cookie = []\<rparr>, False, False) of
           Inl e \<Rightarrow> Inl e
         | Inr (a, has_port, has_hash) \<Rightarrow>
             if \<not> has_port then Inl (Fail ''missing Port header'')
             else if \<not> has_hash then Inl (Fail ''missing Infohash header'')
             else Inr a)"

section \<open>The service\<close>

record service =
  sv_listen_port :: u16
  sv_cookie :: bytes
  sv_active :: "bytes set"

text \<open>\<open>generateCookie\<close>, from eight random bytes.\<close>

definition generate_cookie :: "bytes \<Rightarrow> bytes" where
  "generate_cookie random = str ''pp-'' @ hex_encode random"

definition new_service :: "u16 \<Rightarrow> bytes \<Rightarrow> service" where
  "new_service listen_port random =
     \<lparr>sv_listen_port = listen_port, sv_cookie = generate_cookie random, sv_active = {}\<rparr>"

definition add_infohash :: "bytes \<Rightarrow> service \<Rightarrow> service" where
  "add_infohash ih s = s\<lparr>sv_active := insert ih (sv_active s)\<rparr>"

definition remove_infohash :: "bytes \<Rightarrow> service \<Rightarrow> service" where
  "remove_infohash ih s = s\<lparr>sv_active := sv_active s - {ih}\<rparr>"

text \<open>What \<open>listen\<close> does with a datagram from an address: the peer that it sends, if any.\<close>

definition max_datagram :: nat where
  "max_datagram = 512"

definition receive_datagram :: "service \<Rightarrow> bytes \<Rightarrow> bytes \<Rightarrow> (bytes \<times> bytes) option" where
  "receive_datagram s src_ip data =
     (case parse_lsd_announce (take max_datagram data) of
        Inl _ \<Rightarrow> None
      | Inr a \<Rightarrow>
          if an_cookie a = sv_cookie s then None
          else if an_infohash a \<notin> sv_active s then None
          else Some (join_host_port (ip_string src_ip) (itoa (uint (an_port a))), an_infohash a))"

text \<open>The datagrams of \<open>sendAnnounces\<close>, for the active hashes in the order of the map.\<close>

definition lsd_host :: bytes where
  "lsd_host = ipv4_multicast @ [58] @ itoa (int lsd_port)"

definition send_announces :: "service \<Rightarrow> bytes list \<Rightarrow> bytes list" where
  "send_announces s hashes =
     map (\<lambda>ih. format_announce
       \<lparr>an_host = lsd_host, an_port = sv_listen_port s, an_infohash = ih,
        an_cookie = sv_cookie s\<rparr>) hashes"

text \<open>\<open>jitterDuration\<close>, from a random number below twice the maximum, in nanoseconds.\<close>

definition jitter_duration :: "nat \<Rightarrow> nat \<Rightarrow> int" where
  "jitter_duration bound n = int (n mod (2 * bound)) - int bound"

section \<open>Announcements read back\<close>

definition clean :: "bytes \<Rightarrow> bool" where
  "clean s \<longleftrightarrow> (\<forall>c \<in> set s. printable c)"

lemma clean_trim: "clean s \<Longrightarrow> trim_space (32 # s) = s"
  by (cases "s = []") (simp_all add: trim_space_blank trim_space_printable clean_def)

lemma printable_neq: "printable c \<Longrightarrow> c \<noteq> 13"
  by (auto simp: printable_def)

lemma clean_no_cr: "clean s \<Longrightarrow> 13 \<notin> set s"
  using printable_neq by (auto simp: clean_def)

lemma clean_append [simp]: "clean (s @ t) \<longleftrightarrow> clean s \<and> clean t"
  by (auto simp: clean_def)

lemma clean_itoa: "0 \<le> i \<Longrightarrow> clean (itoa i)"
  using set_dec_digits printable_digit by (auto simp: clean_def itoa_def)

lemma clean_hex: "clean (hex_encode bs)"
proof -
  have "printable (hex_char v)" if "v < 16" for v
  proof -
    have "unat v < 16" using that by (simp add: word_less_nat_alt)
    moreover have "unat (48 + v) = 48 + unat v" "unat (87 + v) = 87 + unat v"
      using \<open>unat v < 16\<close> by (simp_all add: unat_word_ariths)
    ultimately show ?thesis by (simp add: hex_char_def printable_def word_less_nat_alt word_le_nat_alt)
  qed
  then show ?thesis by (induction bs) (simp_all add: clean_def nibble_high nibble_low)
qed

lemma index_byte_key: "58 \<notin> set k \<Longrightarrow> index_byte 58 (k @ 58 # v) = Some (length k)"
  by (rule index_byte_first)

text \<open>A header line with its key, a colon, a blank and a clean value.\<close>

lemma header_parts:
  assumes "58 \<notin> set k" "clean v"
  shows "parse_header (k @ 58 # 32 # v) st =
    (let (a, has_port, has_hash) = st; key = lower_runes (trim_space k)
     in if key = str ''host'' then Inr (a\<lparr>an_host := v\<rparr>, has_port, has_hash)
        else if key = str ''port'' then
          (case parse_uint 16 v of
             Inl _ \<Rightarrow> Inl (Fail ''bad port'')
           | Inr p \<Rightarrow> Inr (a\<lparr>an_port := of_nat p\<rparr>, True, has_hash))
        else if key = str ''infohash'' then
          (if length v \<noteq> 40 then Inl (Fail ''invalid infohash'')
           else case hex_decode v of
             Inl _ \<Rightarrow> Inl (Fail ''invalid infohash'')
           | Inr b \<Rightarrow> Inr (a\<lparr>an_infohash := b\<rparr>, has_port, True))
        else if key = str ''cookie'' then Inr (a\<lparr>an_cookie := v\<rparr>, has_port, has_hash)
        else Inr st)"
  using assms by (simp add: parse_header_def index_byte_key clean_trim Let_def split: prod.splits)

lemma printable_letters: "(33 :: u8) \<le> c \<Longrightarrow> c \<le> 126 \<Longrightarrow> printable c"
  by (simp add: printable_def)

lemma header_keys:
  "lower_runes (trim_space (str ''Host'')) = str ''host''" "lower_runes (trim_space (str ''Port'')) = str ''port''"
  "lower_runes (trim_space (str ''Infohash'')) = str ''infohash''"
  "lower_runes (trim_space (str ''cookie'')) = str ''cookie''"
  by (simp_all add: trim_space_printable printable_def lower_byte_def)

lemma parse_format:
  assumes "clean (an_host a)" "clean (an_cookie a)" "length (an_infohash a) = 20"
  shows "parse_lsd_announce (format_announce a) = Inr a"
proof -
  let ?l1 = "str ''Host'' @ 58 # 32 # an_host a" and ?l2 = "str ''Port'' @ 58 # 32 # itoa (uint (an_port a))"
  let ?l3 = "str ''Infohash'' @ 58 # 32 # hex_encode (an_infohash a)" and ?l4 = "str ''cookie'' @ 58 # 32 # an_cookie a"
  have "str ''Host: '' = str ''Host'' @ [58, 32]" "str ''Port: '' = str ''Port'' @ [58, 32]"
    "str ''Infohash: '' = str ''Infohash'' @ [58, 32]" "str ''cookie: '' = str ''cookie'' @ [58, 32]" by simp_all
  then have f: "format_announce a = request_line @ 13 # 10 # ?l1 @ 13 # 10 # ?l2 @ 13 # 10 # ?l3 @ 13 # 10 # ?l4 @ 13 # 10 # [] @ 13 # 10 # []"
    by (simp add: format_announce_def del: str_Cons)
  have cl: "clean (itoa (uint (an_port a)))" by (rule clean_itoa) simp
  have no: "13 \<notin> set (k @ 58 # 32 # v)" if "13 \<notin> set k" "clean v" for k v
    using that clean_no_cr by auto
  have n0: "13 \<notin> set request_line" by (simp add: request_line_def)
  have n1: "13 \<notin> set ?l1" by (rule no) (simp_all add: assms)
  have n2: "13 \<notin> set ?l2" by (rule no) (simp_all add: cl)
  have n3: "13 \<notin> set ?l3" by (rule no) (simp_all add: clean_hex)
  have n4: "13 \<notin> set ?l4" by (rule no) (simp_all add: assms)
  have "13 \<notin> set []" by simp
  then have lines: "split_lines (format_announce a) = [request_line, ?l1, ?l2, ?l3, ?l4, [], []]"
    unfolding f using n0 n1 n2 n3 n4 split_lines_line split_lines.simps(1) by metis
  have "unat (an_port a) < 2 ^ LENGTH(16)" by (rule unsigned_less)
  then have port: "parse_uint 16 (itoa (uint (an_port a))) = Inr (unat (an_port a))"
    by (simp add: itoa_def)
  have colon: "58 \<notin> set (str ''Host'')" "58 \<notin> set (str ''Port'')" "58 \<notin> set (str ''Infohash'')" "58 \<notin> set (str ''cookie'')"
    by simp_all
  have empty: "parse_header [] st = Inr st" for st by (simp add: parse_header_def split: prod.splits)
  note parts = header_parts [OF colon(1) assms(1)] header_parts [OF colon(2) cl]
    header_parts [OF colon(3) clean_hex] header_parts [OF colon(4) assms(2)]
  have "parse_headers [?l1, ?l2, ?l3, ?l4, [], []]
      (\<lparr>an_host = [], an_port = 0, an_infohash = replicate 20 0, an_cookie = []\<rparr>, False, False) = Inr (a, True, True)"
    using assms(3) by (simp only: parse_headers.simps parts header_keys port empty) simp
  then show ?thesis by (simp only: parse_lsd_announce_def lines Let_def) simp
qed

lemma format_announce_length:
  assumes "length (an_host a) \<le> 64" "length (an_cookie a) \<le> 64" "length (an_infohash a) = 20"
  shows "length (format_announce a) \<le> max_datagram"
proof -
  have "unat (an_port a) < 2 ^ LENGTH(16)" by (rule unsigned_less)
  then have "length (itoa (uint (an_port a))) \<le> 5"
    using length_dec_digits_le [of "unat (an_port a)" 5] by (simp add: itoa_def)
  then show ?thesis
    using assms by (simp add: format_announce_def request_line_def max_datagram_def)
qed

section \<open>Two services\<close>

lemma cookie_clean: "clean (generate_cookie r)"
proof -
  have "clean (str ''pp-'')" by (simp add: clean_def printable_def)
  then show ?thesis by (simp only: generate_cookie_def clean_append clean_hex)
qed

lemma cookie_eq: "generate_cookie r = generate_cookie r' \<longleftrightarrow> r = r'"
  by (metis generate_cookie_def hex_decode_encode same_append_eq sum.inject(2))

lemma cookie_length: "length (generate_cookie r) = 3 + 2 * length r"
  by (simp add: generate_cookie_def)

lemma receive_announced:
  assumes "length r = 8" "length ih = 20"
  shows "receive_datagram s src (format_announce
      \<lparr>an_host = lsd_host, an_port = p, an_infohash = ih, an_cookie = generate_cookie r\<rparr>) =
    (if generate_cookie r = sv_cookie s \<or> ih \<notin> sv_active s then None
     else Some (join_host_port (ip_string src) (itoa (uint p)), ih))"
proof -
  let ?a = "\<lparr>an_host = lsd_host, an_port = p, an_infohash = ih, an_cookie = generate_cookie r\<rparr>"
  have ip: "clean ipv4_multicast" "clean [58]" by (simp_all add: ipv4_multicast_def clean_def printable_def)
  have "clean lsd_host" by (simp only: lsd_host_def clean_append ip clean_itoa of_nat_0_le_iff)
  moreover have "length lsd_host \<le> 64"
    using length_dec_digits_le [of lsd_port 4] by (simp add: lsd_host_def ipv4_multicast_def lsd_port_def itoa_def)
  ultimately have host: "clean (an_host ?a)" "length (an_host ?a) \<le> 64" by simp_all
  then have "parse_lsd_announce (format_announce ?a) = Inr ?a"
    using assms by (intro parse_format) (simp_all add: cookie_clean)
  moreover have "length (format_announce ?a) \<le> max_datagram"
    using host assms by (intro format_announce_length) (simp_all add: cookie_length)
  ultimately show ?thesis by (simp add: receive_datagram_def)
qed

text \<open>Local discovery between two services on one network: every datagram that a service sends for
  its active torrents fits the receiver's buffer and is read back, and the receiver reports the
  sender's address and port for exactly the torrents that it has itself active; a datagram with its
  own cookie (its own announcement, received again) is dropped.
\<close>

theorem lsd_exchange:
  assumes "length r = 8" "length r' = 8" "\<forall>ih \<in> set hashes. length ih = 20"
    and "sv_cookie s = sv_cookie (new_service p r)" "sv_cookie s' = sv_cookie (new_service p' r')"
  shows "map (receive_datagram s' src) (send_announces s hashes) =
    map (\<lambda>ih. if r = r' \<or> ih \<notin> sv_active s' then None
              else Some (join_host_port (ip_string src) (itoa (uint (sv_listen_port s))), ih)) hashes"
  using assms by (auto simp: send_announces_def new_service_def receive_announced cookie_eq)

theorem lsd_exchange_witness:
  "map (receive_datagram (add_infohash (replicate 20 7) (new_service 80 (replicate 8 2))) [10, 0, 0, 1])
     (send_announces (new_service 6881 (replicate 8 1)) [replicate 20 7, replicate 20 9]) =
   [Some (join_host_port (ip_string [10, 0, 0, 1]) (itoa 6881), replicate 20 7), None]"
  using lsd_exchange [of "replicate 8 1" "replicate 8 2" "[replicate 20 7, replicate 20 9]"
      "new_service 6881 (replicate 8 1)" 6881 "add_infohash (replicate 20 7) (new_service 80 (replicate 8 2))" 80 "[10, 0, 0, 1]"]
  by (simp add: add_infohash_def new_service_def)

text \<open>The pause between two rounds of announcements, in nanoseconds, stays between 270 and 330 seconds.\<close>

lemma announce_pause:
  assumes "0 < bound"
  shows "int bound * 9 \<le> 10 * int bound + jitter_duration bound n" "10 * int bound + jitter_duration bound n < 11 * int bound"
proof -
  have "n mod (2 * bound) < 2 * bound" using assms by simp
  then have "int (n mod (2 * bound)) < 2 * int bound" by linarith
  then show "int bound * 9 \<le> 10 * int bound + jitter_duration bound n" "10 * int bound + jitter_duration bound n < 11 * int bound"
    by (simp_all add: jitter_duration_def)
qed

end
