(* ===== verification/LsdService.thy ===== *)
theory LsdService
  imports Lsd
begin

text \<open>
  The running service of local discovery (\<open>lsd/service.go\<close>, \<open>Service.Run\<close>) as a step relation: the
  listener, the announcer and \<open>Run\<close> itself each stand at a point of their code, and every interleaving of
  their steps, of datagrams, of the caller's changes to the active torrents and of its cancellation
  is a run. Times are left out: a timer may fire at any moment, in the place where it is awaited. A read of the
  open socket may return an error at any time, but only on the closed socket must it; taking a datagram and looking
  up its torrent are one step.
\<close>

section \<open>State\<close>

text \<open>Where the goroutines are: the listener reads, or holds a peer for the channel, or has returned; the
  announcer dials, sends the remaining datagrams of a round, waits for its timer, or has returned.\<close>

datatype listener = Reading | Offering "bytes \<times> bytes" | Listener_Returned

datatype announcing = Dialling | Sending "bytes list" | Pausing int | Announcer_Returned

datatype runner = Awaiting_Cancel | Awaiting_Group | Run_Returned

record lsd_run =
  lr_service :: service
  lr_cancelled :: bool
  lr_listening :: bool
  lr_listener :: listener
  lr_announcer :: announcing
  lr_runner :: runner
  lr_peers :: "(bytes \<times> bytes) list"
  lr_sent :: "bytes list"

text \<open>\<open>Run\<close> after it has joined the multicast group and started its goroutines.\<close>

definition start_run :: "service \<Rightarrow> lsd_run" where
  "start_run s =
     \<lparr>lr_service = s, lr_cancelled = False, lr_listening = True, lr_listener = Reading, lr_announcer = Dialling,
      lr_runner = Awaiting_Cancel, lr_peers = [], lr_sent = []\<rparr>"

definition announce_interval :: int where
  "announce_interval = 300 * 10 ^ 9"

definition announce_jitter :: nat where
  "announce_jitter = 30 * 10 ^ 9"

section \<open>Steps\<close>

datatype lsd_event =
    Add_Infohash bytes | Remove_Infohash bytes | Cancel
  | Receive bytes bytes | Read_Error | Read_Closed | Deliver | Drop_Peer
  | Dial_Failed nat | Dialled "bytes list" | Send_Datagram bool | Round_Over nat | Timer | Stop_Announcer
  | Close_Listener | Return

definition pause :: "nat \<Rightarrow> announcing" where
  "pause n = Pausing (announce_interval + jitter_duration announce_jitter n)"

inductive lsd_step :: "lsd_event \<Rightarrow> lsd_run \<Rightarrow> lsd_run \<Rightarrow> bool" where
  Add_Infohash: "lsd_step (Add_Infohash ih) s (s\<lparr>lr_service := add_infohash ih (lr_service s)\<rparr>)"
| Remove_Infohash: "lsd_step (Remove_Infohash ih) s (s\<lparr>lr_service := remove_infohash ih (lr_service s)\<rparr>)"
| Cancel: "lsd_step Cancel s (s\<lparr>lr_cancelled := True\<rparr>)"
| Receive: "lr_listener s = Reading \<Longrightarrow> lr_listening s \<Longrightarrow>
    lsd_step (Receive src data) s
      (s\<lparr>lr_listener := (case receive_datagram (lr_service s) src data of None \<Rightarrow> Reading | Some p \<Rightarrow> Offering p)\<rparr>)"
| Read_Error: "lr_listener s = Reading \<Longrightarrow> lr_listening s \<Longrightarrow>
    lsd_step Read_Error s (s\<lparr>lr_listener := (if lr_cancelled s then Listener_Returned else Reading)\<rparr>)"
| Read_Closed: "lr_listener s = Reading \<Longrightarrow> \<not> lr_listening s \<Longrightarrow>
    lsd_step Read_Closed s (s\<lparr>lr_listener := (if lr_cancelled s then Listener_Returned else Reading)\<rparr>)"
| Deliver: "lr_listener s = Offering p \<Longrightarrow>
    lsd_step Deliver s (s\<lparr>lr_listener := Reading, lr_peers := lr_peers s @ [p]\<rparr>)"
| Drop_Peer: "lr_listener s = Offering p \<Longrightarrow> lr_cancelled s \<Longrightarrow>
    lsd_step Drop_Peer s (s\<lparr>lr_listener := Listener_Returned\<rparr>)"
| Dial_Failed: "lr_announcer s = Dialling \<Longrightarrow> lsd_step (Dial_Failed n) s (s\<lparr>lr_announcer := pause n\<rparr>)"
| Dialled: "lr_announcer s = Dialling \<Longrightarrow> distinct hashes \<Longrightarrow> set hashes = sv_active (lr_service s) \<Longrightarrow>
    lsd_step (Dialled hashes) s (s\<lparr>lr_announcer := Sending (send_announces (lr_service s) hashes)\<rparr>)"
| Send_Datagram: "lr_announcer s = Sending (d # ds) \<Longrightarrow>
    lsd_step (Send_Datagram ok) s
      (s\<lparr>lr_announcer := Sending ds, lr_sent := (if ok then lr_sent s @ [d] else lr_sent s)\<rparr>)"
| Round_Over: "lr_announcer s = Sending [] \<Longrightarrow> lsd_step (Round_Over n) s (s\<lparr>lr_announcer := pause n\<rparr>)"
| Timer: "lr_announcer s = Pausing d \<Longrightarrow> lsd_step Timer s (s\<lparr>lr_announcer := Dialling\<rparr>)"
| Stop_Announcer: "lr_announcer s = Pausing d \<Longrightarrow> lr_cancelled s \<Longrightarrow>
    lsd_step Stop_Announcer s (s\<lparr>lr_announcer := Announcer_Returned\<rparr>)"
| Close_Listener: "lr_runner s = Awaiting_Cancel \<Longrightarrow> lr_cancelled s \<Longrightarrow>
    lsd_step Close_Listener s (s\<lparr>lr_listening := False, lr_runner := Awaiting_Group\<rparr>)"
| Return: "lr_runner s = Awaiting_Group \<Longrightarrow> lr_listener s = Listener_Returned \<Longrightarrow> lr_announcer s = Announcer_Returned \<Longrightarrow>
    lsd_step Return s (s\<lparr>lr_runner := Run_Returned\<rparr>)"

inductive_cases lsd_stepE: "lsd_step e s s'"

inductive_simps lsd_step_simps:
  "lsd_step Cancel s s'" "lsd_step (Receive src data) s s'" "lsd_step Read_Error s s'" "lsd_step Read_Closed s s'" "lsd_step Deliver s s'"
  "lsd_step Drop_Peer s s'" "lsd_step (Dialled hashes) s s'" "lsd_step (Send_Datagram ok) s s'" "lsd_step (Round_Over n) s s'"
  "lsd_step Stop_Announcer s s'" "lsd_step Close_Listener s s'" "lsd_step Return s s'"

inductive lsd_trace :: "lsd_run \<Rightarrow> lsd_event list \<Rightarrow> lsd_run \<Rightarrow> bool" where
  Nil: "lsd_trace s [] s"
| Snoc: "lsd_trace s es s' \<Longrightarrow> lsd_step e s' s'' \<Longrightarrow> lsd_trace s (es @ [e]) s''"

section \<open>What a run keeps\<close>

text \<open>\<open>Run\<close> leaves its first wait only after the cancellation and closes the socket then; a goroutine has
  returned only after the cancellation, and \<open>Run\<close> only after both.\<close>

definition lsd_inv :: "lsd_run \<Rightarrow> bool" where
  "lsd_inv s \<longleftrightarrow>
     lr_listening s = (lr_runner s = Awaiting_Cancel) \<and>
     (lr_runner s \<noteq> Awaiting_Cancel \<longrightarrow> lr_cancelled s) \<and>
     (lr_listener s = Listener_Returned \<longrightarrow> lr_cancelled s) \<and>
     (lr_announcer s = Announcer_Returned \<longrightarrow> lr_cancelled s) \<and>
     (lr_runner s = Run_Returned \<longrightarrow> lr_listener s = Listener_Returned \<and> lr_announcer s = Announcer_Returned) \<and>
     finite (sv_active (lr_service s))"

lemma lsd_inv_step: "lsd_step e s s' \<Longrightarrow> lsd_inv s \<Longrightarrow> lsd_inv s'"
  by (erule lsd_stepE) (simp_all add: lsd_inv_def pause_def add_infohash_def remove_infohash_def split: option.splits)

lemma lsd_inv_trace: "lsd_trace (start_run sv) es s \<Longrightarrow> finite (sv_active sv) \<Longrightarrow> lsd_inv s"
proof (induction "start_run sv" es s rule: lsd_trace.induct)
  case Nil
  then show ?case by (simp add: lsd_inv_def start_run_def)
next
  case (Snoc es s e s')
  then show ?case using lsd_inv_step by blast
qed

section \<open>The sequential listener\<close>

text \<open>What the listener has to report: the peer of every datagram, judged by the torrents that are active when
  the datagram is read.\<close>

fun reports :: "service \<Rightarrow> lsd_event list \<Rightarrow> (bytes \<times> bytes) list" where
  "reports sv [] = []"
| "reports sv (Add_Infohash ih # es) = reports (add_infohash ih sv) es"
| "reports sv (Remove_Infohash ih # es) = reports (remove_infohash ih sv) es"
| "reports sv (Receive src data # es) =
     (case receive_datagram sv src data of None \<Rightarrow> reports sv es | Some p \<Rightarrow> p # reports sv es)"
| "reports sv (_ # es) = reports sv es"

fun service_after :: "service \<Rightarrow> lsd_event list \<Rightarrow> service" where
  "service_after sv [] = sv"
| "service_after sv (Add_Infohash ih # es) = service_after (add_infohash ih sv) es"
| "service_after sv (Remove_Infohash ih # es) = service_after (remove_infohash ih sv) es"
| "service_after sv (_ # es) = service_after sv es"

lemma reports_append: "reports sv (es @ es') = reports sv es @ reports (service_after sv es) es'"
  by (induction sv es rule: reports.induct) (simp_all split: option.splits)

lemma service_after_append: "service_after sv (es @ es') = service_after (service_after sv es) es'"
  by (induction sv es rule: service_after.induct) simp_all

lemma service_after_fixed [simp]:
  "sv_cookie (service_after sv es) = sv_cookie sv" "sv_listen_port (service_after sv es) = sv_listen_port sv"
  by (induction sv es rule: service_after.induct) (simp_all add: add_infohash_def remove_infohash_def)

lemma trace_service: "lsd_trace (start_run sv) es s \<Longrightarrow> lr_service s = service_after sv es"
proof (induction "start_run sv" es s rule: lsd_trace.induct)
  case Nil
  then show ?case by (simp add: start_run_def)
next
  case (Snoc es s e s')
  from Snoc.hyps(3,2) show ?case by cases (simp_all add: service_after_append)
qed

text \<open>The peer that the listener holds, or held when it gave up.\<close>

definition pending :: "lsd_run \<Rightarrow> (bytes \<times> bytes) list set" where
  "pending s =
     (case lr_listener s of Reading \<Rightarrow> {[]} | Offering p \<Rightarrow> {[p]} | Listener_Returned \<Rightarrow> {ps. length ps \<le> 1})"

lemma trace_reports:
  assumes "lsd_trace (start_run sv) es s"
  shows "\<exists>ps \<in> pending s. reports sv es = lr_peers s @ ps"
  using assms
proof (induction "start_run sv" es s rule: lsd_trace.induct)
  case Nil
  then show ?case by (simp add: pending_def start_run_def)
next
  case (Snoc es s e s')
  then obtain ps where ps: "ps \<in> pending s" "reports sv es = lr_peers s @ ps" by blast
  have sv: "lr_service s = service_after sv es" using Snoc.hyps(1) by (rule trace_service)
  from Snoc.hyps(3) show ?case
  proof cases
    case (Receive src data)
    with ps sv show ?thesis by (auto simp: reports_append pending_def split: option.splits)
  next
    case Read_Error
    with ps show ?thesis by (auto simp: reports_append pending_def)
  next
    case Read_Closed
    with ps show ?thesis by (auto simp: reports_append pending_def)
  qed (use ps in \<open>auto simp: reports_append pending_def\<close>)
qed

text \<open>Every datagram sent announces a torrent that was active when its round began.\<close>

definition announces :: "service \<Rightarrow> bytes \<Rightarrow> bool" where
  "announces sv d \<longleftrightarrow> (\<exists>ih. d \<in> set (send_announces sv [ih]) \<and> ih \<in> sv_active sv)"

definition announced_by :: "service \<Rightarrow> lsd_event list \<Rightarrow> bytes \<Rightarrow> bool" where
  "announced_by sv es d \<longleftrightarrow> (\<exists>es' es''. es = es' @ es'' \<and> announces (service_after sv es') d)"

lemma announced_by_snoc: "announced_by sv es d \<Longrightarrow> announced_by sv (es @ es') d"
  unfolding announced_by_def by (metis append.assoc)

lemma trace_sent:
  assumes "lsd_trace (start_run sv) es s"
  shows "\<forall>d \<in> set (lr_sent s) \<union> (case lr_announcer s of Sending ds \<Rightarrow> set ds | _ \<Rightarrow> {}). announced_by sv es d"
  using assms
proof (induction "start_run sv" es s rule: lsd_trace.induct)
  case Nil
  then show ?case by (simp add: start_run_def)
next
  case (Snoc es s e s')
  have sv: "lr_service s = service_after sv es" using Snoc.hyps(1) by (rule trace_service)
  from Snoc.hyps(3) show ?case
  proof cases
    case (Dialled hashes)
    then have "announces (service_after sv es) d" if "d \<in> set (send_announces (lr_service s) hashes)" for d
      using that sv by (auto simp: announces_def send_announces_def)
    then have "announced_by sv (es @ [e]) d" if "d \<in> set (send_announces (lr_service s) hashes)" for d
      using that by (auto simp: announced_by_def)
    with Snoc.hyps(2) Dialled show ?thesis using announced_by_snoc by (auto simp: sv)
  qed (use Snoc.hyps(2) announced_by_snoc in \<open>auto simp: pause_def split: if_splits announcing.splits\<close>)
qed

text \<open>C40. The running service against the sequential one. Whatever the interleaving of the listener, the
  announcer, the caller and the network, the peers on the channel are those that the datagrams
  received so far announce for the torrents active when each was read, in their order and each once,
  except for at most one, which the listener still holds or gave up at the cancellation; every datagram
  sent announces, under the cookie and the port of this service, a torrent that was active when its
  round began.
\<close>

theorem lsd_delivers:
  assumes "lsd_trace (start_run sv) es s"
  shows "(\<exists>ps. reports sv es = lr_peers s @ ps \<and> length ps \<le> 1 \<and> (lr_listener s = Reading \<longrightarrow> ps = [])) \<and>
    (\<forall>d \<in> set (lr_sent s). \<exists>es' es'' ih. es = es' @ es'' \<and> ih \<in> sv_active (service_after sv es') \<and>
       d = format_announce \<lparr>an_host = lsd_host, an_port = sv_listen_port sv, an_infohash = ih, an_cookie = sv_cookie sv\<rparr>)"
proof
  show "\<exists>ps. reports sv es = lr_peers s @ ps \<and> length ps \<le> 1 \<and> (lr_listener s = Reading \<longrightarrow> ps = [])"
    using trace_reports [OF assms] by (auto simp: pending_def split: listener.splits)
  show "\<forall>d \<in> set (lr_sent s). \<exists>es' es'' ih. es = es' @ es'' \<and> ih \<in> sv_active (service_after sv es') \<and>
       d = format_announce \<lparr>an_host = lsd_host, an_port = sv_listen_port sv, an_infohash = ih, an_cookie = sv_cookie sv\<rparr>"
  proof
    fix d assume "d \<in> set (lr_sent s)"
    then have "announced_by sv es d" using trace_sent [OF assms] by blast
    then show "\<exists>es' es'' ih. es = es' @ es'' \<and> ih \<in> sv_active (service_after sv es') \<and>
       d = format_announce \<lparr>an_host = lsd_host, an_port = sv_listen_port sv, an_infohash = ih, an_cookie = sv_cookie sv\<rparr>"
      by (simp add: announced_by_def announces_def send_announces_def) blast
  qed
qed

text \<open>A service that has one active torrent hears another one of its network.\<close>

definition sample_service :: service where
  "sample_service = add_infohash (replicate 20 7) (new_service 80 (replicate 8 2))"

definition sample_datagram :: bytes where
  "sample_datagram = format_announce \<lparr>an_host = lsd_host, an_port = 6881, an_infohash = replicate 20 7, an_cookie = generate_cookie (replicate 8 1)\<rparr>"

definition sample_peer :: "bytes \<times> bytes" where
  "sample_peer = (join_host_port (ip_string [10, 0, 0, 1]) (itoa 6881), replicate 20 7)"

lemma sample_receive: "receive_datagram sample_service [10, 0, 0, 1] sample_datagram = Some sample_peer"
  by (simp add: sample_datagram_def receive_announced sample_service_def add_infohash_def new_service_def cookie_eq sample_peer_def)

lemma sample_trace:
  "lsd_trace (start_run sample_service) [Receive [10, 0, 0, 1] sample_datagram, Deliver]
     ((start_run sample_service)\<lparr>lr_peers := [sample_peer]\<rparr>)"
proof -
  let ?s = "start_run sample_service"
  have "lsd_step (Receive [10, 0, 0, 1] sample_datagram) ?s (?s\<lparr>lr_listener := Offering sample_peer\<rparr>)"
    using lsd_step.Receive [of ?s "[10, 0, 0, 1]" sample_datagram] by (simp add: start_run_def sample_receive)
  moreover have "lsd_step Deliver (?s\<lparr>lr_listener := Offering sample_peer\<rparr>) (?s\<lparr>lr_peers := [sample_peer]\<rparr>)"
    using lsd_step.Deliver [of "?s\<lparr>lr_listener := Offering sample_peer\<rparr>" sample_peer] by (simp add: start_run_def)
  ultimately have "lsd_trace ?s (([] @ [Receive [10, 0, 0, 1] sample_datagram]) @ [Deliver]) (?s\<lparr>lr_peers := [sample_peer]\<rparr>)"
    by (rule lsd_trace.Snoc [OF lsd_trace.Snoc [OF lsd_trace.Nil]])
  then show ?thesis by simp
qed

theorem lsd_delivers_witness:
  "\<exists>s. lsd_trace (start_run sample_service) [Receive [10, 0, 0, 1] sample_datagram, Deliver] s \<and> lr_peers s = [sample_peer]"
  using lsd_delivers [OF sample_trace] sample_trace by (auto simp: start_run_def)

section \<open>Shutdown\<close>

text \<open>The steps that the service takes towards its end without waiting for a peer's datagram or an error of the open
  socket, for the reader of the channel or for a timer.\<close>

fun closing :: "lsd_event \<Rightarrow> bool" where
  "closing (Add_Infohash _) = False"
| "closing (Remove_Infohash _) = False"
| "closing Cancel = False"
| "closing (Receive _ _) = False"
| "closing Read_Error = False"
| "closing Deliver = False"
| "closing Timer = False"
| "closing _ = True"

fun announcer_rank :: "nat \<Rightarrow> announcing \<Rightarrow> nat" where
  "announcer_rank n Dialling = n + 3"
| "announcer_rank n (Sending ds) = length ds + 2"
| "announcer_rank n (Pausing _) = 1"
| "announcer_rank n Announcer_Returned = 0"

fun listener_rank :: "listener \<Rightarrow> nat" where
  "listener_rank Listener_Returned = 0"
| "listener_rank _ = 1"

fun runner_rank :: "runner \<Rightarrow> nat" where
  "runner_rank Awaiting_Cancel = 2"
| "runner_rank Awaiting_Group = 1"
| "runner_rank Run_Returned = 0"

definition lsd_rank :: "lsd_run \<Rightarrow> nat" where
  "lsd_rank s =
     runner_rank (lr_runner s) + listener_rank (lr_listener s) +
     announcer_rank (card (sv_active (lr_service s))) (lr_announcer s)"

lemma closing_step_rank:
  "lsd_step e s s' \<Longrightarrow> closing e \<Longrightarrow> lr_cancelled s \<Longrightarrow> lr_cancelled s' \<and> lsd_rank s' < lsd_rank s"
  by (erule lsd_stepE) (auto simp: lsd_rank_def pause_def send_announces_def distinct_card dest!: sym [of "set _"])

lemma closing_trace_rank:
  assumes "lsd_trace s es s'" "list_all closing es" "lr_cancelled s"
  shows "lr_cancelled s' \<and> length es + lsd_rank s' \<le> lsd_rank s"
  using assms
proof (induction rule: lsd_trace.induct)
  case (Snoc s es s' e s'')
  then have "lr_cancelled s'" "length es + lsd_rank s' \<le> lsd_rank s" by simp_all
  with closing_step_rank [OF Snoc.hyps(2)] Snoc.prems show ?case by simp
qed simp

lemma closing_enabled:
  assumes "lsd_inv s" "lr_cancelled s" "lr_runner s \<noteq> Run_Returned"
  shows "\<exists>e s'. closing e \<and> lsd_step e s s'"
proof (cases "lr_runner s = Awaiting_Cancel")
  case True
  then have "lsd_step Close_Listener s (s\<lparr>lr_listening := False, lr_runner := Awaiting_Group\<rparr>)"
    using assms(2) by (rule lsd_step.Close_Listener)
  then show ?thesis using closing.simps by blast
next
  case group: False
  then have closed: "\<not> lr_listening s" using assms(1) by (simp add: lsd_inv_def)
  show ?thesis
  proof (cases "lr_listener s")
    case Reading
    from lsd_step.Read_Closed [OF this closed] show ?thesis using closing.simps by blast
  next
    case (Offering p)
    from lsd_step.Drop_Peer [OF this assms(2)] show ?thesis using closing.simps by blast
  next
    case listener: Listener_Returned
    show ?thesis
    proof (cases "lr_announcer s")
      case Dialling
      from lsd_step.Dial_Failed [OF this] show ?thesis using closing.simps by blast
    next
      case (Sending ds)
      then show ?thesis using lsd_step.Send_Datagram lsd_step.Round_Over closing.simps by (cases ds) blast+
    next
      case (Pausing d)
      from lsd_step.Stop_Announcer [OF this assms(2)] show ?thesis using closing.simps by blast
    next
      case Announcer_Returned
      moreover have "lr_runner s = Awaiting_Group" using group assms(3) by (cases "lr_runner s") simp_all
      ultimately show ?thesis using listener lsd_step.Return closing.simps by blast
    qed
  qed
qed

lemma lsd_inv_closing: "lsd_trace s es s' \<Longrightarrow> lsd_inv s \<Longrightarrow> lsd_inv s'"
  by (induction rule: lsd_trace.induct) (auto simp: lsd_inv_step)

text \<open>C39. The end of the service. From every state that a run can reach after the cancellation, the
  service can always take a step of its own until \<open>Run\<close> has returned, and after at most as many such
  steps as its rank counts (one for each datagram of the round being sent, and six more) it has: no reader
  of the peers channel, no timer and no error of the network is needed, since \<open>Run\<close> closes the socket that
  the listener reads. Once \<open>Run\<close> has returned the socket is closed, no peer is
  delivered and no datagram is sent any more.
\<close>

theorem lsd_shutdown:
  assumes "lsd_trace (start_run sv) es s" "finite (sv_active sv)" "lr_cancelled s"
  shows "(\<forall>es' s'. lsd_trace s es' s' \<and> list_all closing es' \<longrightarrow>
      length es' \<le> lsd_rank s \<and> (lr_runner s' = Run_Returned \<or> (\<exists>e s''. closing e \<and> lsd_step e s' s''))) \<and>
    (lr_runner s = Run_Returned \<longrightarrow> \<not> lr_listening s \<and>
      (\<forall>e s'. lsd_step e s s' \<longrightarrow> lr_peers s' = lr_peers s \<and> lr_sent s' = lr_sent s \<and> lr_runner s' = Run_Returned))"
proof
  have inv: "lsd_inv s" using lsd_inv_trace assms(1,2) .
  show "\<forall>es' s'. lsd_trace s es' s' \<and> list_all closing es' \<longrightarrow>
      length es' \<le> lsd_rank s \<and> (lr_runner s' = Run_Returned \<or> (\<exists>e s''. closing e \<and> lsd_step e s' s''))"
  proof (intro allI impI)
    fix es' s' assume t: "lsd_trace s es' s' \<and> list_all closing es'"
    then have "lr_cancelled s'" "length es' \<le> lsd_rank s" using closing_trace_rank [of s es' s'] assms(3) by simp_all
    moreover have "lsd_inv s'" using t inv lsd_inv_closing by blast
    ultimately show "length es' \<le> lsd_rank s \<and> (lr_runner s' = Run_Returned \<or> (\<exists>e s''. closing e \<and> lsd_step e s' s''))"
      using closing_enabled by blast
  qed
  show "lr_runner s = Run_Returned \<longrightarrow> \<not> lr_listening s \<and>
      (\<forall>e s'. lsd_step e s s' \<longrightarrow> lr_peers s' = lr_peers s \<and> lr_sent s' = lr_sent s \<and> lr_runner s' = Run_Returned)"
    using inv by (auto simp: lsd_inv_def elim!: lsd_stepE)
qed

theorem lsd_shutdown_witness:
  "\<exists>es s. lsd_trace (start_run sample_service) es s \<and> lr_cancelled s \<and> \<not> lr_listening s \<and>
     (\<exists>e s'. closing e \<and> lsd_step e s s')"
proof -
  let ?s = "(start_run sample_service)\<lparr>lr_cancelled := True\<rparr>"
  let ?s' = "?s\<lparr>lr_listening := False, lr_runner := Awaiting_Group\<rparr>"
  have "lsd_trace (start_run sample_service) ([] @ [Cancel]) ?s"
    by (rule lsd_trace.Snoc [OF lsd_trace.Nil lsd_step.Cancel])
  moreover have "lsd_step Close_Listener ?s ?s'" by (rule lsd_step.Close_Listener) (simp_all add: start_run_def)
  ultimately have t: "lsd_trace (start_run sample_service) (([] @ [Cancel]) @ [Close_Listener]) ?s'" by (rule lsd_trace.Snoc)
  have f: "finite (sv_active sample_service)" by (simp add: sample_service_def add_infohash_def new_service_def)
  have "lr_runner ?s' = Run_Returned \<or> (\<exists>e s''. closing e \<and> lsd_step e ?s' s'')"
    using lsd_shutdown [OF t f] lsd_trace.Nil [of ?s'] by fastforce
  then have "\<exists>e s''. closing e \<and> lsd_step e ?s' s''" by simp
  moreover have "lr_cancelled ?s'" "\<not> lr_listening ?s'" by simp_all
  ultimately show ?thesis using t by blast
qed

end
