(* ===== verification/Discovery.thy ===== *)
theory Discovery
  imports Prelude
begin

text \<open>
  The discovery manager (\<open>discovery/discovery.go\<close>): one goroutine per source, which asks its
  source once and passes on the addresses that nobody has seen, over a channel of 64 places. A step
  is a call that holds the mutex or an operation of a channel; what a source answers is an argument.
\<close>

section \<open>The manager\<close>

text \<open>\<open>Manager.seen\<close>, with \<open>addIfNew\<close>, \<open>Seen\<close>, \<open>Count\<close> and \<open>Reset\<close>.\<close>

type_synonym seen_addrs = "bytes list"

definition add_if_new :: "bytes \<Rightarrow> seen_addrs \<Rightarrow> bool \<times> seen_addrs" where
  "add_if_new addr seen = (if addr \<in> set seen then (False, seen) else (True, addr # seen))"

definition seen_addr :: "seen_addrs \<Rightarrow> bytes \<Rightarrow> bool" where
  "seen_addr seen addr = (addr \<in> set seen)"

definition seen_count :: "seen_addrs \<Rightarrow> nat" where
  "seen_count seen = length seen"

definition reset_seen :: "seen_addrs \<Rightarrow> seen_addrs" where
  "reset_seen seen = []"

text \<open>
  A goroutine of \<open>Discover\<close>: its source has answered and addresses are left, an address is
  registered and about to be sent, or it has returned.
\<close>

datatype source_run = Asked "goerr + bytes list" | Checking "bytes list" | Sending bytes "bytes list" | Returned

record discovery =
  ds_seen :: seen_addrs
  ds_runs :: "source_run list"
  ds_chan :: "bytes list"
  ds_received :: "bytes list"
  ds_cancelled :: bool
  ds_closed :: bool

definition channel_places :: nat where
  "channel_places = 64"

definition discover :: "seen_addrs \<Rightarrow> (goerr + bytes list) list \<Rightarrow> discovery" where
  "discover seen answers =
     \<lparr>ds_seen = seen, ds_runs = map Asked answers, ds_chan = [], ds_received = [], ds_cancelled = False, ds_closed = False\<rparr>"

definition after_answer :: "goerr + bytes list \<Rightarrow> source_run" where
  "after_answer r = (case r of Inl _ \<Rightarrow> Returned | Inr peers \<Rightarrow> Checking peers)"

definition check_addr :: "nat \<Rightarrow> bytes \<Rightarrow> bytes list \<Rightarrow> discovery \<Rightarrow> discovery" where
  "check_addr i a rest d =
     (let (fresh, seen) = add_if_new a (ds_seen d)
      in d\<lparr>ds_seen := seen, ds_runs := (ds_runs d)[i := if fresh then Sending a rest else Checking rest]\<rparr>)"

inductive discover_step :: "discovery \<Rightarrow> discovery \<Rightarrow> bool" where
  answer: "i < length (ds_runs d) \<Longrightarrow> ds_runs d ! i = Asked r \<Longrightarrow>
    discover_step d (d\<lparr>ds_runs := (ds_runs d)[i := after_answer r]\<rparr>)"
| check: "i < length (ds_runs d) \<Longrightarrow> ds_runs d ! i = Checking (a # rest) \<Longrightarrow>
    discover_step d (check_addr i a rest d)"
| all_checked: "i < length (ds_runs d) \<Longrightarrow> ds_runs d ! i = Checking [] \<Longrightarrow>
    discover_step d (d\<lparr>ds_runs := (ds_runs d)[i := Returned]\<rparr>)"
| send: "i < length (ds_runs d) \<Longrightarrow> ds_runs d ! i = Sending a rest \<Longrightarrow> length (ds_chan d) < channel_places \<Longrightarrow>
    discover_step d (d\<lparr>ds_runs := (ds_runs d)[i := Checking rest], ds_chan := ds_chan d @ [a]\<rparr>)"
| quit: "i < length (ds_runs d) \<Longrightarrow> ds_runs d ! i = Sending a rest \<Longrightarrow> ds_cancelled d \<Longrightarrow>
    discover_step d (d\<lparr>ds_runs := (ds_runs d)[i := Returned]\<rparr>)"
| receive: "ds_chan d = a # c \<Longrightarrow> discover_step d (d\<lparr>ds_chan := c, ds_received := ds_received d @ [a]\<rparr>)"
| close_chan: "\<forall>r \<in> set (ds_runs d). r = Returned \<Longrightarrow> \<not> ds_closed d \<Longrightarrow> discover_step d (d\<lparr>ds_closed := True\<rparr>)"
| cancel: "\<not> ds_cancelled d \<Longrightarrow> discover_step d (d\<lparr>ds_cancelled := True\<rparr>)"

inductive_cases discover_stepE: "discover_step d d'"

section \<open>Every address once\<close>

text \<open>The addresses that a goroutine has registered and not yet sent, and those it may still send.\<close>

definition registered :: "source_run \<Rightarrow> bytes list" where
  "registered r = (case r of Sending a _ \<Rightarrow> [a] | _ \<Rightarrow> [])"

definition to_check :: "source_run \<Rightarrow> bytes set" where
  "to_check r = (case r of Asked (Inr peers) \<Rightarrow> set peers | Checking as \<Rightarrow> set as | Sending _ as \<Rightarrow> set as | _ \<Rightarrow> {})"

definition delivered :: "discovery \<Rightarrow> bytes list" where
  "delivered d = ds_received d @ ds_chan d"

definition in_flight :: "discovery \<Rightarrow> bytes multiset" where
  "in_flight d = mset (delivered d) + sum_list (map (mset \<circ> registered) (ds_runs d))"

lemma sum_list_update:
  fixes f :: "'a \<Rightarrow> 'b multiset"
  assumes "i < length rs"
  shows "sum_list (map f (rs[i := r])) + f (rs ! i) = sum_list (map f rs) + f r"
  using assms
proof (induction rs arbitrary: i)
  case (Cons x xs)
  then show ?case by (cases i) (simp_all add: ac_simps)
qed simp

lemma in_flight_update:
  "i < length (ds_runs d) \<Longrightarrow> ds_runs d ! i = r' \<Longrightarrow>
   in_flight (d\<lparr>ds_runs := (ds_runs d)[i := r]\<rparr>) + mset (registered r') = in_flight d + mset (registered r)"
  using sum_list_update [of i "ds_runs d" "mset \<circ> registered" r] by (simp add: in_flight_def delivered_def ac_simps)

abbreviation to_come :: "source_run list \<Rightarrow> bytes set" where
  "to_come rs \<equiv> \<Union> (to_check ` set rs)"

lemma to_come_sub: "to_check r \<subseteq> to_check r' \<Longrightarrow> i < length rs \<Longrightarrow> rs ! i = r' \<Longrightarrow> to_come (rs[i := r]) \<subseteq> to_come rs"
  using set_update_subset_insert [of rs i r] nth_mem [of i rs] by fastforce

lemma to_come_sup:
  assumes "to_check r' \<subseteq> to_check r \<union> C" "i < length rs" "rs ! i = r'"
  shows "to_come rs \<subseteq> to_come (rs[i := r]) \<union> C"
proof
  fix a assume "a \<in> to_come rs"
  then obtain j where j: "j < length rs" "a \<in> to_check (rs ! j)" by (auto simp: in_set_conv_nth)
  have "rs[i := r] ! j \<in> set (rs[i := r])" "r \<in> set (rs[i := r])"
    using j(1) assms(2) by (simp_all add: set_update_memI)
  then show "a \<in> to_come (rs[i := r]) \<union> C" using j assms by (cases "j = i") auto
qed

text \<open>
  What the steps keep, for the addresses \<open>seen\<close> before and all addresses \<open>A\<close> of the answers: every
  registered address was seen before, is under way or, after a cancellation, was dropped.
\<close>

definition discovery_inv :: "seen_addrs \<Rightarrow> bytes set \<Rightarrow> discovery \<Rightarrow> bool" where
  "discovery_inv seen A d \<longleftrightarrow>
     distinct (ds_seen d) \<and> mset seen + in_flight d \<subseteq># mset (ds_seen d) \<and>
     (\<not> ds_cancelled d \<longrightarrow> mset (ds_seen d) = mset seen + in_flight d) \<and>
     set (ds_seen d) \<union> to_come (ds_runs d) \<subseteq> set seen \<union> A \<and>
     (\<not> ds_cancelled d \<longrightarrow> set seen \<union> A \<subseteq> set (ds_seen d) \<union> to_come (ds_runs d)) \<and>
     (ds_closed d \<longrightarrow> (\<forall>r \<in> set (ds_runs d). r = Returned))"

lemma still_open: "discovery_inv seen A d \<Longrightarrow> i < length (ds_runs d) \<Longrightarrow> ds_runs d ! i = r \<Longrightarrow> r \<noteq> Returned \<Longrightarrow> \<not> ds_closed d"
  using nth_mem by (auto simp: discovery_inv_def)

lemma inv_change:
  assumes inv: "discovery_inv seen A d" and "\<not> ds_closed d"
    and "distinct (ds_seen d')" "mset (ds_seen d') + in_flight d = mset (ds_seen d) + in_flight d'"
    and "ds_cancelled d' = ds_cancelled d" "ds_closed d' = ds_closed d"
    and "set (ds_seen d') \<union> to_come (ds_runs d') = set (ds_seen d) \<union> to_come (ds_runs d)"
  shows "discovery_inv seen A d'"
proof -
  obtain X where X: "mset (ds_seen d) = mset seen + in_flight d + X" and "ds_cancelled d \<or> X = {#}"
    using inv unfolding discovery_inv_def subset_mset.le_iff_add by (metis add.right_neutral)
  moreover have "mset (ds_seen d') = mset seen + in_flight d' + X" using assms(4) X by (simp add: ac_simps)
  ultimately show ?thesis using inv assms unfolding discovery_inv_def by (simp only:) auto
qed

lemma inv_run:
  assumes "discovery_inv seen A d" "i < length (ds_runs d)" "ds_runs d ! i = r'" "r' \<noteq> Returned"
    and "registered r = registered r'" "to_check r = to_check r'"
  shows "discovery_inv seen A (d\<lparr>ds_runs := (ds_runs d)[i := r]\<rparr>)"
proof (rule inv_change [OF assms(1) still_open [OF assms(1-4)]])
  have "in_flight (d\<lparr>ds_runs := (ds_runs d)[i := r]\<rparr>) = in_flight d"
    using in_flight_update [OF assms(2,3), of r] assms(5) by simp
  then show "mset (ds_seen (d\<lparr>ds_runs := (ds_runs d)[i := r]\<rparr>)) + in_flight d =
    mset (ds_seen d) + in_flight (d\<lparr>ds_runs := (ds_runs d)[i := r]\<rparr>)" by simp
  have "to_come ((ds_runs d)[i := r]) = to_come (ds_runs d)"
    using to_come_sub [of r r' i "ds_runs d"] to_come_sup [of r' r "{}" i "ds_runs d"] assms by auto
  then show "set (ds_seen (d\<lparr>ds_runs := (ds_runs d)[i := r]\<rparr>)) \<union> to_come (ds_runs (d\<lparr>ds_runs := (ds_runs d)[i := r]\<rparr>)) =
    set (ds_seen d) \<union> to_come (ds_runs d)" by simp
qed (use assms in \<open>simp_all add: discovery_inv_def\<close>)

lemma inv_check:
  assumes inv: "discovery_inv seen A d" and i: "i < length (ds_runs d)" "ds_runs d ! i = Checking (a # rest)"
  shows "discovery_inv seen A (check_addr i a rest d)"
proof -
  let ?r = "if a \<in> set (ds_seen d) then Checking rest else Sending a rest"
  let ?rs = "(ds_runs d)[i := ?r]" and ?s = "if a \<in> set (ds_seen d) then ds_seen d else a # ds_seen d"
  have d': "check_addr i a rest d = d\<lparr>ds_seen := ?s, ds_runs := ?rs\<rparr>" by (simp add: check_addr_def add_if_new_def)
  have op: "\<not> ds_closed d" using still_open [OF inv i] by simp
  have "in_flight (d\<lparr>ds_seen := ?s, ds_runs := ?rs\<rparr>) = in_flight (d\<lparr>ds_runs := ?rs\<rparr>)"
    by (simp add: in_flight_def delivered_def)
  also have "\<dots> = in_flight d + mset (registered ?r)" using in_flight_update [OF i, of ?r] by (simp add: registered_def)
  finally have w: "in_flight (check_addr i a rest d) = in_flight d + mset (registered ?r)" unfolding d' .
  have "to_come ?rs \<subseteq> to_come (ds_runs d)" by (rule to_come_sub [OF _ i]) (auto simp: to_check_def)
  moreover have "to_come (ds_runs d) \<subseteq> to_come ?rs \<union> {a}" by (rule to_come_sup [OF _ i]) (auto simp: to_check_def)
  moreover have "a \<in> to_come (ds_runs d)" using i nth_mem [OF i(1)] by (force simp: to_check_def)
  ultimately have u: "set ?s \<union> to_come ?rs = set (ds_seen d) \<union> to_come (ds_runs d)" by (simp split: if_splits) blast+
  have runs': "ds_seen (check_addr i a rest d) = ?s" "ds_runs (check_addr i a rest d) = ?rs" by (simp_all add: d')
  show ?thesis
  proof (rule inv_change [OF inv op])
    show "mset (ds_seen (check_addr i a rest d)) + in_flight d = mset (ds_seen d) + in_flight (check_addr i a rest d)"
      unfolding w by (simp add: d' registered_def)
    show "set (ds_seen (check_addr i a rest d)) \<union> to_come (ds_runs (check_addr i a rest d)) = set (ds_seen d) \<union> to_come (ds_runs d)"
      unfolding runs' by (rule u)
  qed (use inv in \<open>simp_all add: d' discovery_inv_def\<close>)
qed

lemma inv_send:
  assumes inv: "discovery_inv seen A d" and i: "i < length (ds_runs d)" "ds_runs d ! i = Sending a rest"
  shows "discovery_inv seen A (d\<lparr>ds_runs := (ds_runs d)[i := Checking rest], ds_chan := ds_chan d @ [a]\<rparr>)"
proof -
  let ?rs = "(ds_runs d)[i := Checking rest]"
  let ?d = "d\<lparr>ds_runs := ?rs, ds_chan := ds_chan d @ [a]\<rparr>"
  have op: "\<not> ds_closed d" using still_open [OF inv i] by simp
  have "in_flight ?d = in_flight (d\<lparr>ds_runs := ?rs\<rparr>) + {#a#}" by (simp add: in_flight_def delivered_def)
  then have w: "in_flight ?d = in_flight d" using in_flight_update [OF i, of "Checking rest"] by (simp add: registered_def)
  have u: "to_come ?rs = to_come (ds_runs d)"
    using to_come_sub [OF _ i, of "Checking rest"] to_come_sup [OF _ i, of "Checking rest" "{}"] by (auto simp: to_check_def)
  show ?thesis
  proof (rule inv_change [OF inv op])
    show "mset (ds_seen ?d) + in_flight d = mset (ds_seen d) + in_flight ?d" by (simp only: w) simp
    show "set (ds_seen ?d) \<union> to_come (ds_runs ?d) = set (ds_seen d) \<union> to_come (ds_runs d)"
      using u by simp
  qed (use inv in \<open>simp_all add: discovery_inv_def\<close>)
qed

lemma inv_quit:
  assumes inv: "discovery_inv seen A d" and i: "i < length (ds_runs d)" "ds_runs d ! i = Sending a rest" and "ds_cancelled d"
  shows "discovery_inv seen A (d\<lparr>ds_runs := (ds_runs d)[i := Returned]\<rparr>)"
proof -
  let ?d = "d\<lparr>ds_runs := (ds_runs d)[i := Returned]\<rparr>"
  have "in_flight ?d + {#a#} = in_flight d" using in_flight_update [OF i, of Returned] by (simp add: registered_def)
  then have "in_flight ?d \<subseteq># in_flight d" by (metis mset_subset_eq_add_left)
  then have "mset seen + in_flight ?d \<subseteq># mset (ds_seen d)"
    using inv by (meson discovery_inv_def mset_subset_eq_mono_add subset_mset.order_refl subset_mset.order_trans)
  moreover have "to_come (ds_runs ?d) \<subseteq> to_come (ds_runs d)"
    using to_come_sub [OF _ i, of Returned] by (auto simp: to_check_def)
  moreover have "\<not> ds_closed d" using still_open [OF inv i] by simp
  ultimately show ?thesis using inv assms(4) unfolding discovery_inv_def by simp blast
qed

lemma discover_step_inv: "discover_step d d' \<Longrightarrow> discovery_inv seen A d \<Longrightarrow> discovery_inv seen A d'"
proof (induction rule: discover_step.induct)
  case (answer i d r)
  show ?case
    by (rule inv_run [OF answer.prems answer.hyps]) (simp_all add: after_answer_def registered_def to_check_def split: sum.splits)
next
  case (all_checked i d)
  show ?case by (rule inv_run [OF all_checked.prems all_checked.hyps]) (simp_all add: registered_def to_check_def)
next
  case (receive d a c)
  then have "in_flight (d\<lparr>ds_chan := c, ds_received := ds_received d @ [a]\<rparr>) = in_flight d"
    by (simp add: in_flight_def delivered_def)
  then show ?case using receive by (simp add: discovery_inv_def)
next
  case (check i d a rest)
  then show ?case by (intro inv_check)
next
  case (send i d a rest)
  then show ?case by (intro inv_send)
next
  case (quit i d a rest)
  then show ?case by (intro inv_quit)
qed (simp_all add: discovery_inv_def in_flight_def delivered_def)

text \<open>All the addresses that the sources answer.\<close>

definition answers_of :: "(goerr + bytes list) list \<Rightarrow> bytes set" where
  "answers_of answers = \<Union> ((\<lambda>r. case r of Inl _ \<Rightarrow> {} | Inr peers \<Rightarrow> set peers) ` set answers)"

lemma discover_inv: "distinct seen \<Longrightarrow> discovery_inv seen (answers_of answers) (discover seen answers)"
proof -
  have "sum_list (map (mset \<circ> registered) (map Asked answers)) = {#}"
    by (induction answers) (simp_all add: registered_def)
  moreover have "to_come (map Asked answers) = answers_of answers"
    by (auto simp: answers_of_def to_check_def split: sum.splits)
  ultimately show "distinct seen \<Longrightarrow> ?thesis"
    by (auto simp: discovery_inv_def discover_def in_flight_def delivered_def)
qed

section \<open>Discovery ends\<close>

definition run_weight :: "source_run \<Rightarrow> nat" where
  "run_weight r = (case r of
     Asked (Inl _) \<Rightarrow> 1 | Asked (Inr peers) \<Rightarrow> 3 * length peers + 2 | Checking as \<Rightarrow> 3 * length as + 1
   | Sending _ as \<Rightarrow> 3 * length as + 3 | Returned \<Rightarrow> 0)"

definition discovery_weight :: "discovery \<Rightarrow> nat" where
  "discovery_weight d =
     sum_list (map run_weight (ds_runs d)) + length (ds_chan d) + of_bool (\<not> ds_closed d) + of_bool (\<not> ds_cancelled d)"

lemma run_weight_update:
  "i < length rs \<Longrightarrow> rs ! i = r' \<Longrightarrow> sum_list (map run_weight (rs[i := r])) + run_weight r' = sum_list (map run_weight rs) + run_weight r"
proof (induction rs arbitrary: i)
  case (Cons x xs)
  then show ?case by (cases i) (auto simp: algebra_simps)
qed simp

lemma discover_step_weight: "discover_step d d' \<Longrightarrow> discovery_weight d' < discovery_weight d"
proof (induction rule: discover_step.induct)
  case (answer i d r)
  have "run_weight (after_answer r) < run_weight (Asked r)"
    by (simp add: after_answer_def run_weight_def split: sum.splits)
  then show ?case using run_weight_update [OF answer, of "after_answer r"] by (simp add: discovery_weight_def)
next
  case (check i d a rest)
  then show ?case using run_weight_update [OF check, of "Sending a rest"] run_weight_update [OF check, of "Checking rest"]
    by (auto simp: discovery_weight_def check_addr_def add_if_new_def run_weight_def)
next
  case (all_checked i d)
  then show ?case using run_weight_update [OF all_checked, of Returned] by (simp add: discovery_weight_def run_weight_def)
next
  case (send i d a rest)
  then show ?case using run_weight_update [OF send(1,2), of "Checking rest"] by (simp add: discovery_weight_def run_weight_def)
next
  case (quit i d a rest)
  then show ?case using run_weight_update [OF quit(1,2), of Returned] by (simp add: discovery_weight_def run_weight_def)
qed (simp_all add: discovery_weight_def)

lemma discover_progress:
  assumes "\<not> ds_closed d \<or> ds_chan d \<noteq> []"
  shows "\<exists>d'. discover_step d d' \<and> ds_cancelled d' = ds_cancelled d"
proof (cases "ds_chan d")
  case (Cons a c)
  show ?thesis by (intro exI conjI, rule discover_step.receive [OF Cons])
        (simp add: check_addr_def split: prod.splits)
next
  case Nil
  then have op: "\<not> ds_closed d" using assms by simp
  show ?thesis
  proof (cases "\<forall>r \<in> set (ds_runs d). r = Returned")
    case True
    show ?thesis by (intro exI conjI, rule discover_step.close_chan [OF True op])
        (simp add: check_addr_def split: prod.splits)
  next
    case False
    then obtain i where i: "i < length (ds_runs d)" "ds_runs d ! i \<noteq> Returned" by (auto simp: in_set_conv_nth)
    have space: "length (ds_chan d) < channel_places" using Nil by (simp add: channel_places_def)
    consider (asked) r where "ds_runs d ! i = Asked r" | (none_left) "ds_runs d ! i = Checking []"
      | (left) a rest where "ds_runs d ! i = Checking (a # rest)" | (sending) a rest where "ds_runs d ! i = Sending a rest"
      using i(2) by (cases "ds_runs d ! i"; metis list.exhaust)
    then show ?thesis
    proof cases
      case asked
      show ?thesis by (intro exI conjI, rule discover_step.answer [OF i(1) asked])
        (simp add: check_addr_def split: prod.splits)
    next
      case none_left
      have "discover_step d (d\<lparr>ds_runs := (ds_runs d)[i := Returned]\<rparr>)"
        using i(1) none_left by (rule discover_step.all_checked)
      then show ?thesis by (intro exI conjI, assumption) simp
    next
      case left
      show ?thesis by (intro exI conjI, rule discover_step.check [OF i(1) left])
        (simp add: check_addr_def split: prod.splits)
    next
      case sending
      show ?thesis by (intro exI conjI, rule discover_step.send [OF i(1) sending space])
        (simp add: check_addr_def split: prod.splits)
    qed
  qed
qed

text \<open>C38. Discovery delivers every address once. Whatever the interleaving of the sources, the addresses
  on the channel and those received are pairwise distinct, were not seen before this call and come
  from an answer; every run ends, and one that ends without a cancellation has delivered
  exactly the answered addresses that had not been seen. A goroutine still at work keeps the channel open.
\<close>

theorem discover_exactly_once:
  assumes "distinct seen" "discover_step\<^sup>*\<^sup>* (discover seen answers) d"
  shows "distinct (delivered d) \<and> set (delivered d) \<subseteq> answers_of answers - set seen \<and>
    (ds_closed d \<longrightarrow> (\<forall>r \<in> set (ds_runs d). r = Returned)) \<and>
    (ds_closed d \<and> ds_chan d = [] \<and> \<not> ds_cancelled d \<longrightarrow>
       set (ds_received d) = answers_of answers - set seen \<and> seen_count (ds_seen d) = length seen + length (ds_received d)) \<and>
    (\<not> ds_closed d \<or> ds_chan d \<noteq> [] \<longrightarrow>
       (\<exists>d'. discover_step d d' \<and> ds_cancelled d' = ds_cancelled d)) \<and>
    (\<forall>d'. discover_step d d' \<longrightarrow> discovery_weight d' < discovery_weight d)"
proof -
  have inv: "discovery_inv seen (answers_of answers) d"
    using assms(2) by induction (use assms(1) in \<open>auto intro: discover_inv discover_step_inv\<close>)
  have "mset (seen @ delivered d) \<subseteq># mset (ds_seen d)"
  proof -
    have "mset (seen @ delivered d) \<subseteq># mset seen + in_flight d" by (simp add: in_flight_def)
    then show ?thesis using inv by (meson discovery_inv_def subset_mset.order_trans)
  qed
  then obtain M where "mset (ds_seen d) = mset (seen @ delivered d) + M" by (auto simp: subset_mset.le_iff_add)
  then have m: "mset (ds_seen d) = mset ((seen @ delivered d) @ xs)" if "mset xs = M" for xs using that by simp
  obtain xs where "mset xs = M" using ex_mset by blast
  note m = m [OF this]
  have "distinct ((seen @ delivered d) @ xs)" using mset_eq_imp_distinct_iff [OF m] inv by (simp add: discovery_inv_def)
  then have "distinct (seen @ delivered d)" and sub: "set (delivered d) \<subseteq> set (ds_seen d)"
    using mset_eq_setD [OF m] by auto
  moreover have "set (ds_seen d) \<subseteq> set seen \<union> answers_of answers" using inv by (simp add: discovery_inv_def)
  moreover have "ds_closed d \<longrightarrow> (\<forall>r \<in> set (ds_runs d). r = Returned)" using inv by (simp add: discovery_inv_def)
  moreover have "set (ds_received d) = answers_of answers - set seen \<and> seen_count (ds_seen d) = length seen + length (ds_received d)"
    if "ds_closed d \<and> ds_chan d = [] \<and> \<not> ds_cancelled d"
  proof -
    have ret: "\<forall>r \<in> set (ds_runs d). r = Returned" using inv that by (simp add: discovery_inv_def)
    then have "map (mset \<circ> registered) (ds_runs d) = map (\<lambda>_. {#}) (ds_runs d)" by (auto simp: registered_def)
    then have "sum_list (map (mset \<circ> registered) (ds_runs d)) = {#}" by (simp only: sum_list_0)
    then have m: "mset (ds_seen d) = mset (seen @ ds_received d)"
      using inv that by (simp add: discovery_inv_def in_flight_def delivered_def)
    have "to_come (ds_runs d) = {}" using ret by (auto simp: to_check_def)
    then have "set (ds_seen d) = set seen \<union> answers_of answers" using inv that by (auto simp: discovery_inv_def)
    then show ?thesis
      using mset_eq_setD [OF m] mset_eq_length [OF m] \<open>distinct (seen @ delivered d)\<close>
      by (auto simp: seen_count_def delivered_def that)
  qed
  ultimately show ?thesis using discover_progress [of d] discover_step_weight [of d] by (intro conjI impI allI) auto
qed

text \<open>One source that answers a new address and one that was seen.\<close>

lemma discover_run:
  fixes a b :: bytes
  assumes "a \<noteq> b"
  shows "discover_step\<^sup>*\<^sup>* (discover [b] [Inr [a, b]])
    \<lparr>ds_seen = [a, b], ds_runs = [Returned], ds_chan = [], ds_received = [a], ds_cancelled = False, ds_closed = True\<rparr>"
proof -
  let ?d = "\<lambda>seen r c recv cl. \<lparr>ds_seen = seen, ds_runs = [r], ds_chan = c, ds_received = recv, ds_cancelled = False, ds_closed = cl\<rparr>"
  have "discover_step (discover [b] [Inr [a, b]]) (?d [b] (Checking [a, b]) [] [] False)"
    using answer [of 0 "discover [b] [Inr [a, b]]"] by (simp add: discover_def after_answer_def)
  moreover have "discover_step (?d [b] (Checking [a, b]) [] [] False) (?d [a, b] (Sending a [b]) [] [] False)"
    using check [of 0 "?d [b] (Checking [a, b]) [] [] False" a "[b]"] assms by (simp add: check_addr_def add_if_new_def)
  moreover have "discover_step (?d [a, b] (Sending a [b]) [] [] False) (?d [a, b] (Checking [b]) [a] [] False)"
    using send [of 0 "?d [a, b] (Sending a [b]) [] [] False" a "[b]"] by (simp add: channel_places_def)
  moreover have "discover_step (?d [a, b] (Checking [b]) [a] [] False) (?d [a, b] (Checking []) [a] [] False)"
    using check [of 0 "?d [a, b] (Checking [b]) [a] [] False" b "[]"] by (simp add: check_addr_def add_if_new_def)
  moreover have "discover_step (?d [a, b] (Checking []) [a] [] False) (?d [a, b] Returned [a] [] False)"
    using all_checked [of 0 "?d [a, b] (Checking []) [a] [] False"] by simp
  moreover have "discover_step (?d [a, b] Returned [a] [] False) (?d [a, b] Returned [] [a] False)"
    using receive [of "?d [a, b] Returned [a] [] False" a "[]"] by simp
  moreover have "discover_step (?d [a, b] Returned [] [a] False) (?d [a, b] Returned [] [a] True)"
    using close_chan [of "?d [a, b] Returned [] [a] False"] by simp
  ultimately show ?thesis by (meson rtranclp.rtrancl_refl converse_rtranclp_into_rtranclp)
qed

theorem discover_exactly_once_witness:
  "set [[1 :: u8]] = answers_of [Inr [[1], [2]]] - set [[2]]"
  using discover_exactly_once [OF _ discover_run [of "[1]" "[2]"]] by simp

end
