(* ===== verification/Throttle.thy ===== *)
theory Throttle
  imports GoFloat GoIO
begin

text \<open>
  The token bucket of \<open>throttle/throttle.go\<close>, with its reader and its writer. The \<open>float64\<close>
  arithmetic is exact up to the argument \<open>rnd\<close>, which rounds the result of every operation; times are
  readings of Go's monotonic clock in nanoseconds.
\<close>

section \<open>The limiter\<close>

record limiter =
  lm_rate :: real
  lm_tokens :: real
  lm_burst :: nat
  lm_last :: int

definition unlimited :: limiter where
  "unlimited = \<lparr>lm_rate = 0, lm_tokens = 0, lm_burst = 0, lm_last = 0\<rparr>"

definition new_limiter :: "(real \<Rightarrow> real) \<Rightarrow> int \<Rightarrow> int \<Rightarrow> limiter" where
  "new_limiter rnd now bytes_per_sec =
     (if bytes_per_sec \<le> 0 then unlimited
      else \<lparr>lm_rate = rnd (of_int bytes_per_sec), lm_tokens = rnd (of_int bytes_per_sec),
            lm_burst = nat bytes_per_sec, lm_last = now\<rparr>)"

definition refill :: "(real \<Rightarrow> real) \<Rightarrow> int \<Rightarrow> limiter \<Rightarrow> limiter" where
  "refill rnd now l =
     (let tokens = rnd (lm_tokens l + rnd (seconds rnd (now - lm_last l) * lm_rate l)); burst = rnd (of_nat (lm_burst l))
      in l\<lparr>lm_tokens := if burst < tokens then burst else tokens, lm_last := now\<rparr>)"

text \<open>
  One round of \<open>Wait\<close>, which holds the mutex: the tokens are taken, or the time to sleep is returned.
\<close>

definition try_take :: "(real \<Rightarrow> real) \<Rightarrow> nat \<Rightarrow> int \<Rightarrow> limiter \<Rightarrow> limiter \<times> int option" where
  "try_take rnd n now l =
     (let l = refill rnd now l; want = rnd (of_nat n)
      in if want \<le> lm_tokens l then (l\<lparr>lm_tokens := rnd (lm_tokens l - want)\<rparr>, None)
         else let deficit = rnd (want - lm_tokens l)
              in (l, Some (to_int (rnd (rnd (deficit / lm_rate l) * 10 ^ 9)))))"

text \<open>\<open>Wait\<close> on the readings of the clock of its rounds; \<open>False\<close> if it still waits after them.\<close>

primrec wait_loop :: "(real \<Rightarrow> real) \<Rightarrow> nat \<Rightarrow> int list \<Rightarrow> limiter \<Rightarrow> limiter \<times> bool" where
  "wait_loop rnd n [] l = (l, False)"
| "wait_loop rnd n (now # nows) l =
     (case try_take rnd n now l of (l, None) \<Rightarrow> (l, True) | (l, Some _) \<Rightarrow> wait_loop rnd n nows l)"

definition limiter_wait :: "(real \<Rightarrow> real) \<Rightarrow> nat \<Rightarrow> int list \<Rightarrow> limiter \<Rightarrow> limiter \<times> bool" where
  "limiter_wait rnd n nows l = (if lm_rate l = 0 then (l, True) else wait_loop rnd n nows l)"

section \<open>Readers and writers\<close>

text \<open>
  \<open>Reader.Read\<close>: the size of the buffer that the wrapped reader gets, and what is asked of the
  limiter once it has returned \<open>n\<close> bytes.
\<close>

definition read_limit :: "nat \<Rightarrow> nat \<Rightarrow> nat" where
  "read_limit burst len = (if 0 < burst \<and> burst < len then burst else len)"

definition read_wait :: "nat \<Rightarrow> nat list" where
  "read_wait n = (if 0 < n then [n] else [])"

text \<open>
  \<open>Writer.Write\<close> over a writer \<open>w\<close> with a state: the state, the number of bytes written, the error, and
  what was asked of the limiter. A writer that accepts nothing without an error keeps the loop going,
  hence the fuel.
\<close>

fun write_loop :: "nat \<Rightarrow> ('s \<Rightarrow> bytes \<Rightarrow> 's \<times> nat \<times> goerr option) \<Rightarrow> nat \<Rightarrow> bytes \<Rightarrow> nat \<Rightarrow> nat list \<Rightarrow> 's \<Rightarrow>
    ('s \<times> nat \<times> goerr option \<times> nat list) option" where
  "write_loop 0 w chunk p written waits s = None"
| "write_loop (Suc fuel) w chunk p written waits s =
     (if length p \<le> written then Some (s, written, None, waits)
      else let end_pos = min (written + chunk) (length p);
               (s, n, err) = w s (slice p written end_pos);
               waits = waits @ [end_pos - written]
           in case err of
                Some e \<Rightarrow> Some (s, written + n, Some e, waits)
              | None \<Rightarrow> write_loop fuel w chunk p (written + n) waits s)"

definition write_limited :: "nat \<Rightarrow> nat \<Rightarrow> ('s \<Rightarrow> bytes \<Rightarrow> 's \<times> nat \<times> goerr option) \<Rightarrow> bytes \<Rightarrow> 's \<Rightarrow>
    ('s \<times> nat \<times> goerr option \<times> nat list) option" where
  "write_limited fuel burst w p s = write_loop fuel w (if burst = 0 then length p else burst) p 0 [] s"

section \<open>The rate\<close>

text \<open>A limiter that limits.\<close>

definition limits :: "limiter \<Rightarrow> bool" where
  "limits l \<longleftrightarrow> 0 < lm_burst l \<and> lm_burst l < 2 ^ 53 \<and> lm_rate l = of_nat (lm_burst l) \<and>
     0 \<le> lm_tokens l \<and> lm_tokens l \<le> of_nat (lm_burst l)"

lemma ieee_nat: "float64_rounding rnd \<Longrightarrow> n \<le> 2 ^ 53 \<Longrightarrow> rnd (of_nat n) = of_nat n"
  using ieee_exact [of rnd "int n"] float64_ieee of_nat_le_iff [of n "2 ^ 53", where 'a = int] by fastforce

lemma limits_new: "float64_rounding rnd \<Longrightarrow> 0 < b \<Longrightarrow> b < 2 ^ 53 \<Longrightarrow> limits (new_limiter rnd now b)"
  using ieee_exact [OF float64_ieee, of rnd b] by (simp add: limits_def new_limiter_def nat_less_iff)

text \<open>The tokens that a pause of some nanoseconds earns, and a unit of the rounding error of a token count.\<close>

definition earned :: "limiter \<Rightarrow> int \<Rightarrow> real" where
  "earned l d = of_int d / 10 ^ 9 * of_nat (lm_burst l)"

definition ulp :: "limiter \<Rightarrow> real" where
  "ulp l = of_nat (lm_burst l) / 2 ^ 53"

definition drift :: "real \<Rightarrow> real" where
  "drift x = 3 * x / 2 ^ 53"

lemma drift_add: "drift (x + y) = drift x + drift y"
  by (simp add: drift_def add_divide_distrib [symmetric])

lemma earned_pos: "0 \<le> d \<Longrightarrow> 0 \<le> earned l d"
  by (simp add: earned_def)

lemma ulp_pos: "0 \<le> ulp l"
  by (simp add: ulp_def)

lemma earned_split: "a \<le> b \<Longrightarrow> b \<le> c \<Longrightarrow> earned l (c - a) = earned l (b - a) + earned l (c - b)"
  by (simp add: earned_def of_nat_diff left_diff_distrib diff_divide_distrib)

lemma last_ge_hd: "sorted (a # xs) \<Longrightarrow> a \<le> last (a # xs)"
  by (cases xs rule: rev_cases) auto

text \<open>The product of the elapsed seconds and the rate, rounded.\<close>

lemma income_error:
  assumes "float64_rounding rnd" "limits l" "0 \<le> d" "d < 2 ^ 63"
  shows "0 \<le> rnd (seconds rnd d * lm_rate l)"
    "\<bar>rnd (seconds rnd d * lm_rate l) - earned l d\<bar> \<le> drift (earned l d) + 6 * ulp l"
proof -
  define b where "b = real (lm_burst l)"
  have b: "1 \<le> b" "b \<le> 2 ^ 53" "lm_rate l = b"
  proof -
    have "lm_burst l \<le> 2 ^ 53" using assms(2) by (simp add: limits_def)
    then show "b \<le> 2 ^ 53" unfolding b_def using of_nat_le_iff [of "lm_burst l" "2 ^ 53", where 'a = real] by simp
  qed (use assms(2) in \<open>simp_all add: limits_def b_def\<close>)
  define E e where "E = real_of_int d / 10 ^ 9" and "e = seconds rnd d"
  have e: "0 \<le> e" "\<bar>e - E\<bar> \<le> (E + 4) / 2 ^ 53"
    using seconds_float64 [OF assms(1,3,4)] by (simp_all add: E_def e_def)
  have E: "0 \<le> E" using assms(3) by (simp add: E_def)
  have E63: "E \<le> 2 ^ 63" 
  proof -
    have "real_of_int d \<le> 2 ^ 63" using assms(4) by (metis less_imp_le of_int_le_iff of_int_numeral of_int_power)
    moreover have "E \<le> real_of_int d" using assms(3) by (simp add: E_def)
    ultimately show ?thesis by linarith
  qed
  have "(E + 4) / 2 ^ 53 \<le> E + 1" using E by (simp add: field_simps)
  then have e2: "e \<le> 2 * E + 1" using e(2) by linarith
  have eb0: "0 \<le> e * b" using e(1) b(1) by simp
  have "e * b \<le> 2 ^ 65 * 2 ^ 53" using e e2 E63 b by (intro mult_mono) auto
  also have "\<dots> \<le> (2 :: real) ^ 200" unfolding power_add [symmetric] by (rule power_increasing) simp_all
  finally have "\<bar>rnd (e * b) - e * b\<bar> \<le> (e * b + 1) / 2 ^ 53" by (rule float64_error [OF assms(1) eb0])
  also have "\<dots> \<le> (2 * E + 2) * b / 2 ^ 53"
  proof (rule divide_right_mono)
    have "e * b \<le> (2 * E + 1) * b" using e2 b(1) by (intro mult_right_mono) simp_all
    then show "e * b + 1 \<le> (2 * E + 2) * b" using b(1) by (simp add: algebra_simps)
  qed simp
  finally have p: "\<bar>rnd (e * b) - e * b\<bar> \<le> (2 * E + 2) * b / 2 ^ 53" .
  have "\<bar>e * b - E * b\<bar> = \<bar>e - E\<bar> * b" using b(1) by (simp add: left_diff_distrib [symmetric] abs_mult)
  also have "\<dots> \<le> (E + 4) / 2 ^ 53 * b" using e(2) b(1) by (intro mult_right_mono) simp_all
  finally have "\<bar>rnd (e * b) - E * b\<bar> \<le> (2 * E + 2) * b / 2 ^ 53 + (E + 4) / 2 ^ 53 * b" using p by linarith
  also have "\<dots> = 3 * (E * b) / 2 ^ 53 + 6 * (b / 2 ^ 53)" by (simp add: field_simps)
  finally show "\<bar>rnd (seconds rnd d * lm_rate l) - earned l d\<bar> \<le> drift (earned l d) + 6 * ulp l"
    by (simp add: b(3) earned_def ulp_def drift_def E_def e_def b_def)
  show "0 \<le> rnd (seconds rnd d * lm_rate l)"
    using ieee_mono [OF float64_ieee [OF assms(1)] eb0] ieee_exact [OF float64_ieee [OF assms(1)], of 0]
    by (simp add: b(3) e_def)
qed

text \<open>A refill adds what was earned, up to eight units and a share of it, but nothing beyond the burst.\<close>

lemma refill_float64:
  assumes "float64_rounding rnd" "limits l" "lm_last l \<le> now" "now - lm_last l < 2 ^ 63"
  defines "g \<equiv> earned l (now - lm_last l)"
  shows "limits (refill rnd now l)" "lm_burst (refill rnd now l) = lm_burst l" "lm_last (refill rnd now l) = now"
    "lm_tokens (refill rnd now l) \<le> lm_tokens l + g + drift g + 8 * ulp l"
    "lm_tokens (refill rnd now l) < of_nat (lm_burst l) \<longrightarrow>
       lm_tokens l + g - drift g - 8 * ulp l \<le> lm_tokens (refill rnd now l)"
proof -
  note ieee = float64_ieee [OF assms(1)]
  define b p where "b = real (lm_burst l)" and "p = rnd (seconds rnd (now - lm_last l) * lm_rate l)"
  define t where "t = lm_tokens l"
  have l: "0 \<le> t" "t \<le> b" "1 \<le> b" "rnd b = b"
    using assms(2) ieee_nat [OF assms(1), of "lm_burst l"] by (simp_all add: limits_def b_def t_def)
  have p: "0 \<le> p" "\<bar>p - g\<bar> \<le> drift g + 6 * ulp l"
    using income_error [OF assms(1,2), of "now - lm_last l"] assms(3,4) by (simp_all add: p_def g_def)
  have r: "lm_tokens (refill rnd now l) = min b (rnd (t + p))"
    by (simp add: refill_def Let_def b_def [symmetric] p_def [symmetric] t_def [symmetric] l(4) min_def)
  have pos: "0 \<le> rnd (t + p)"
    using ieee_mono [OF ieee, of 0 "t + p"] ieee_exact [OF ieee, of 0] l(1) p(1) by simp
  show "limits (refill rnd now l)" using assms(2) r pos l(3) by (auto simp: limits_def refill_def Let_def b_def)
  show "lm_burst (refill rnd now l) = lm_burst l" "lm_last (refill rnd now l) = now" by (simp_all add: refill_def Let_def)
  have err: "\<bar>rnd (t + p) - (t + p)\<bar> \<le> 2 * ulp l" if "t + p < b"
  proof -
    have "b \<le> 2 ^ 53" using assms(2) of_nat_le_iff [of "lm_burst l" "2 ^ 53", where 'a = real] by (simp add: limits_def b_def)
    also have "\<dots> \<le> (2 :: real) ^ 200" by (rule power_increasing) simp_all
    finally have "t + p \<le> 2 ^ 200" using that by linarith
    then have "\<bar>rnd (t + p) - (t + p)\<bar> \<le> (t + p + 1) / 2 ^ 53" using l(1) p(1) by (intro float64_error [OF assms(1)]) simp_all
    also have "\<dots> \<le> 2 * b / 2 ^ 53" using that l(3) by (intro divide_right_mono) simp_all
    finally show ?thesis by (simp add: ulp_def b_def)
  qed
  have full: "rnd (t + p) \<ge> b" if "b \<le> t + p" using ieee_mono [OF ieee that] l(4) by simp
  show "lm_tokens (refill rnd now l) \<le> lm_tokens l + g + drift g + 8 * ulp l"
    using err p(2) ulp_pos [of l] unfolding r t_def [symmetric] by (cases "t + p < b") linarith+
  show "lm_tokens (refill rnd now l) < of_nat (lm_burst l) \<longrightarrow>
       lm_tokens l + g - drift g - 8 * ulp l \<le> lm_tokens (refill rnd now l)"
    using err full p(2) unfolding r t_def [symmetric] b_def [symmetric] by (cases "t + p < b") linarith+
qed

text \<open>One round: what is taken is taken up to two more units.\<close>

lemma try_take_float64:
  fixes n :: nat
  assumes "float64_rounding rnd" "limits l" "lm_last l \<le> now" "now - lm_last l < 2 ^ 63"
  defines "r \<equiv> refill rnd now l" and "l' \<equiv> fst (try_take rnd n now l)" and "w \<equiv> snd (try_take rnd n now l)"
  shows "limits l'" "lm_burst l' = lm_burst l" "lm_last l' = now"
    "w \<noteq> None \<longrightarrow> lm_tokens l' = lm_tokens r"
    "w = None \<longrightarrow> lm_tokens l' \<le> lm_tokens r - of_nat n + 2 * ulp l"
    "n \<le> lm_burst l \<longrightarrow> w = None \<longleftrightarrow> of_nat n \<le> lm_tokens r"
    "lm_burst l < n \<longrightarrow> w \<noteq> None"
proof -
  note ieee = float64_ieee [OF assms(1)]
  note rf = refill_float64 [OF assms(1-4), folded r_def]
  define want where "want = rnd (of_nat n)"
  have w: "w = None \<longleftrightarrow> want \<le> lm_tokens r" and l': "l' = (if w = None then r\<lparr>lm_tokens := rnd (lm_tokens r - want)\<rparr> else r)"
    by (auto simp: w_def l'_def try_take_def Let_def r_def [symmetric] want_def)
  have r: "0 \<le> lm_tokens r" "lm_tokens r \<le> of_nat (lm_burst l)" "lm_burst l < 2 ^ 53" "1 \<le> lm_burst l"
    using rf(1,2) by (simp_all add: limits_def)
  have small: "want = of_nat n" if "n \<le> lm_burst l" unfolding want_def by (rule ieee_nat [OF assms(1)]) (use that r(3) in simp)
  have big: "lm_tokens r < want" if "lm_burst l < n"
  proof -
    have "rnd (of_nat (lm_burst l + 1)) \<le> want" unfolding want_def by (rule ieee_mono [OF ieee]) (use that in simp)
    moreover have "rnd (of_nat (lm_burst l + 1)) = of_nat (lm_burst l + 1)" by (rule ieee_nat [OF assms(1)]) (use r(3) in simp)
    ultimately show ?thesis using r(2) by simp
  qed
  show never: "lm_burst l < n \<longrightarrow> w \<noteq> None" using big w by auto
  show "n \<le> lm_burst l \<longrightarrow> w = None \<longleftrightarrow> of_nat n \<le> lm_tokens r" using small w by simp
  show "w \<noteq> None \<longrightarrow> lm_tokens l' = lm_tokens r" by (simp add: l')
  show "lm_burst l' = lm_burst l" "lm_last l' = now" using rf(2,3) by (simp_all add: l')
  have took: "want = of_nat n" "want \<le> lm_tokens r" if "w = None"
    using that small never w by (metis not_less)+
  have "\<bar>rnd (lm_tokens r - of_nat n) - (lm_tokens r - of_nat n)\<bar> \<le> 2 * ulp l \<and>
      0 \<le> rnd (lm_tokens r - of_nat n) \<and> rnd (lm_tokens r - of_nat n) \<le> of_nat (lm_burst l)" if "w = None"
  proof -
    let ?x = "lm_tokens r - of_nat n"
    have x: "0 \<le> ?x" "?x \<le> of_int (int (lm_burst l))" using took [OF that] r(2) by simp_all
    have b: "real (lm_burst l) \<le> 2 ^ 53" using r(3) of_nat_le_iff [of "lm_burst l" "2 ^ 53", where 'a = real] by simp
    also have "\<dots> \<le> (2 :: real) ^ 200" by (rule power_increasing) simp_all
    finally have "\<bar>rnd ?x - ?x\<bar> \<le> (?x + 1) / 2 ^ 53" using x by (intro float64_error [OF assms(1)]) simp_all
    also have "\<dots> \<le> 2 * of_nat (lm_burst l) / 2 ^ 53"
    proof (rule divide_right_mono)
      have "(1 :: real) \<le> of_nat (lm_burst l)" using r(4) by (metis of_nat_1 of_nat_le_iff)
      then show "?x + 1 \<le> 2 * of_nat (lm_burst l)" using x(2) by simp
    qed simp
    finally have "\<bar>rnd ?x - ?x\<bar> \<le> 2 * ulp l" by (simp add: ulp_def)
    moreover have "0 \<le> rnd ?x" "rnd ?x \<le> of_int (int (lm_burst l))"
      using ieee_between [OF ieee, of 0 ?x "int (lm_burst l)"] x r(3) by simp_all
    ultimately show ?thesis by simp
  qed
  then show "w = None \<longrightarrow> lm_tokens l' \<le> lm_tokens r - of_nat n + 2 * ulp l" "limits l'"
    using took rf(1,2) unfolding l' limits_def by (auto simp: abs_le_iff)
qed

text \<open>
  The rounds of all the callers of one limiter, in the order in which they hold its mutex: the bytes
  that they are granted.
\<close>

primrec granted :: "(real \<Rightarrow> real) \<Rightarrow> (nat \<times> int) list \<Rightarrow> limiter \<Rightarrow> nat" where
  "granted rnd [] l = 0"
| "granted rnd (c # calls) l =
     (case try_take rnd (fst c) (snd c) l of (l', r) \<Rightarrow> (if r = None then fst c else 0) + granted rnd calls l')"

primrec after_calls :: "(real \<Rightarrow> real) \<Rightarrow> (nat \<times> int) list \<Rightarrow> limiter \<Rightarrow> limiter" where
  "after_calls rnd [] l = l"
| "after_calls rnd (c # calls) l = after_calls rnd calls (fst (try_take rnd (fst c) (snd c) l))"

lemma granted_Cons:
  "granted rnd (c # calls) l =
    (if snd (try_take rnd (fst c) (snd c) l) = None then fst c else 0) + granted rnd calls (fst (try_take rnd (fst c) (snd c) l))"
  by (simp split: prod.splits)

declare granted.simps(2) [simp del]

text \<open>Readings of the clock in their order, from the last refill on.\<close>

definition readings :: "limiter \<Rightarrow> int list \<Rightarrow> bool" where
  "readings l ts \<longleftrightarrow> 0 \<le> lm_last l \<and> sorted (lm_last l # ts) \<and> last (lm_last l # ts) < 2 ^ 63"

lemma readings_Cons:
  assumes "readings l (t # ts)"
  shows "lm_last l \<le> t" "t - lm_last l < 2 ^ 63" "lm_last l' = t \<Longrightarrow> readings l' ts" "t \<le> last (t # ts)"
proof -
  show "lm_last l \<le> t" "lm_last l' = t \<Longrightarrow> readings l' ts" using assms by (auto simp: readings_def)
  have "sorted (t # ts)" using assms by (simp add: readings_def)
  then show "t \<le> last (t # ts)" by (rule last_ge_hd)
  then show "t - lm_last l < 2 ^ 63" using assms by (auto simp: readings_def)
qed

lemma after_calls_limits:
  "float64_rounding rnd \<Longrightarrow> limits l \<Longrightarrow> readings l (map snd calls) \<Longrightarrow>
    limits (after_calls rnd calls l) \<and> lm_burst (after_calls rnd calls l) = lm_burst l \<and>
    lm_last (after_calls rnd calls l) = last (lm_last l # map snd calls)"
proof (induction calls arbitrary: l)
  case (Cons c calls)
  have r: "readings l (snd c # map snd calls)" using Cons.prems(3) by simp
  note t = try_take_float64(1-3) [OF Cons.prems(1,2) readings_Cons(1,2) [OF r], of "fst c"]
  show ?case using Cons.IH [OF Cons.prems(1) t(1) readings_Cons(3) [OF r t(3)]] t(2,3) by simp
qed simp

lemma granted_bound:
  "float64_rounding rnd \<Longrightarrow> limits l \<Longrightarrow> readings l (map snd calls) \<Longrightarrow> t = last (lm_last l # map snd calls) \<Longrightarrow>
   of_nat (granted rnd calls l) \<le>
     lm_tokens l + earned l (t - lm_last l) + drift (earned l (t - lm_last l)) + 10 * of_nat (length calls) * ulp l"
proof (induction calls arbitrary: l)
  case Nil
  then show ?case by (simp add: limits_def earned_def drift_def)
next
  case (Cons c calls)
  let ?l = "fst (try_take rnd (fst c) (snd c) l)" and ?r = "refill rnd (snd c) l"
  have r: "readings l (snd c # map snd calls)" using Cons.prems(3) by simp
  note le = readings_Cons(1,2,4) [OF r]
  note e = try_take_float64 [OF Cons.prems(1,2) le(1,2), of "fst c"]
  have t: "t = last (snd c # map snd calls)" using Cons.prems(4) by simp
  let ?g1 = "earned l (snd c - lm_last l)" and ?g2 = "earned l (t - snd c)"
  have same: "earned ?l d = earned l d" "ulp ?l = ulp l" for d by (simp_all add: earned_def ulp_def e(2))
  have ih: "of_nat (granted rnd calls ?l) \<le>
      lm_tokens ?l + ?g2 + drift ?g2 + 10 * of_nat (length calls) * ulp l"
    using Cons.IH [OF Cons.prems(1) e(1) readings_Cons(3) [OF r e(3)]] t by (simp only: same e(3))
  have rf: "lm_tokens ?r \<le> lm_tokens l + ?g1 + drift ?g1 + 8 * ulp l"
    by (rule refill_float64(4) [OF Cons.prems(1,2) le(1,2)])
  have split: "earned l (t - lm_last l) = ?g1 + ?g2" using le(1,3) t by (intro earned_split) simp_all
  have len: "10 * of_nat (length (c # calls)) * ulp l = 10 * ulp l + 10 * of_nat (length calls) * ulp l"
    by (simp add: algebra_simps)
  have "of_nat (granted rnd (c # calls) l) - lm_tokens ?r \<le> of_nat (granted rnd calls ?l) - lm_tokens ?l + 2 * ulp l"
    using e(4,5) ulp_pos [of l] by (cases "snd (try_take rnd (fst c) (snd c) l)") (simp_all add: granted_Cons)
  then show ?case unfolding split drift_add len using ih rf by linarith
qed

lemma wait_loop_Cons:
  "wait_loop rnd n (now # nows) l =
    (case try_take rnd n now l of (l', r) \<Rightarrow> if r = None then (l', True) else wait_loop rnd n nows l')"
  by (simp split: prod.splits option.splits)

declare wait_loop.simps(2) [simp del]

lemma wait_loop_returns:
  "float64_rounding rnd \<Longrightarrow> limits l \<Longrightarrow> readings l nows \<Longrightarrow> nows \<noteq> [] \<Longrightarrow> n \<le> lm_burst l \<Longrightarrow>
   of_nat n \<le> lm_tokens l + earned l (last nows - lm_last l) - drift (earned l (last nows - lm_last l)) -
     8 * of_nat (length nows) * ulp l \<Longrightarrow>
   snd (wait_loop rnd n nows l)"
proof (induction nows arbitrary: l)
  case (Cons now nows)
  let ?l = "fst (try_take rnd n now l)"
  note le = readings_Cons(1,2,4) [OF Cons.prems(3)]
  note e = try_take_float64 [OF Cons.prems(1,2) le(1,2), of n]
  note rf = refill_float64 [OF Cons.prems(1,2) le(1,2)]
  show ?case
  proof (cases "snd (try_take rnd n now l)")
    case None
    then show ?thesis by (cases "try_take rnd n now l") (simp add: wait_loop_Cons)
  next
    case (Some w)
    let ?g1 = "earned l (now - lm_last l)"
    have less: "lm_tokens ?l < of_nat n" using Some e(4,6) Cons.prems(5) by auto
    moreover have "real n \<le> of_nat (lm_burst l)" using Cons.prems(5) by simp
    ultimately have tok: "lm_tokens l + ?g1 - drift ?g1 - 8 * ulp l \<le> lm_tokens ?l"
      using rf(5) e(4) Some by simp
    have len: "8 * of_nat (length (now # nows)) * ulp l = 8 * ulp l + 8 * of_nat (length nows) * ulp l"
      by (simp add: algebra_simps)
    have ne: "nows \<noteq> []" using Cons.prems(6) less tok by auto
    let ?g2 = "earned l (last nows - now)"
    have split: "earned l (last nows - lm_last l) = ?g1 + ?g2" using le ne by (intro earned_split) simp_all
    have "last (now # nows) = last nows" using ne by simp
    then have "of_nat n \<le> lm_tokens ?l + ?g2 - drift ?g2 - 8 * of_nat (length nows) * ulp l"
      using Cons.prems(6) tok len split drift_add [of ?g1 ?g2] by (simp only:)
    moreover have "earned ?l d = earned l d" "ulp ?l = ulp l" for d by (simp_all add: earned_def ulp_def e(2))
    ultimately have "snd (wait_loop rnd n nows ?l)"
      using Cons.prems(1,5) e(1-3) ne readings_Cons(3) [OF Cons.prems(3) e(3)] by (intro Cons.IH) simp_all
    then show ?thesis using Some by (cases "try_take rnd n now l") (simp add: wait_loop_Cons)
  qed
qed simp

lemma wait_loop_never:
  "float64_rounding rnd \<Longrightarrow> limits l \<Longrightarrow> readings l nows \<Longrightarrow> lm_burst l < n \<Longrightarrow> \<not> snd (wait_loop rnd n nows l)"
proof (induction nows arbitrary: l)
  case (Cons now nows)
  note e = try_take_float64 [OF Cons.prems(1,2) readings_Cons(1,2) [OF Cons.prems(3)], of n]
  have "snd (try_take rnd n now l) \<noteq> None" using e(7) Cons.prems(4) by simp
  moreover have "\<not> snd (wait_loop rnd n nows (fst (try_take rnd n now l)))"
    using Cons.prems(1,4) e(1,2) readings_Cons(3) [OF Cons.prems(3) e(3)] by (intro Cons.IH) simp_all
  ultimately show ?case by (auto simp: wait_loop_Cons split: prod.splits)
qed simp

text \<open>The document on bandwidth gives the bucket room for two seconds, and at least 64 KiB; the code gives it one second.\<close>

lemma burst_is_one_second: "0 < b \<Longrightarrow> lm_burst (new_limiter rnd now b) = nat b \<and> nat b < max (2 * nat b) (64 * 1024)"
  by (simp add: new_limiter_def)

text \<open>C37. The token bucket, in \<open>float64\<close> arithmetic, for fewer than \<open>2 ^ 53\<close> bytes per second. Whatever calls came
  before and however many callers compete, the bytes granted in a window of time are at most one burst (the bytes
  of one second) and what the rate allows for the length of the window, up to the rounding: a share of
  \<open>3 / 2 ^ 53\<close> of that allowance and \<open>10 / 2 ^ 53\<close> of a burst for every round. A \<open>Wait\<close> for at most a
  burst that is alone returns as soon as more than one second has passed, whatever its rounds in between, if they
  are at most a million; one for more than a burst never returns.\<close>

theorem limiter_rate:
  assumes "float64_rounding rnd" "0 < b" "b < 2 ^ 53"
    and l: "l = after_calls rnd before (new_limiter rnd start b)"
    and before: "readings (new_limiter rnd start b) (map snd before)"
    and "readings l (map snd calls)" "readings l (nows @ [now])" "lm_last l + 10 ^ 9 < now" "length nows < 10 ^ 6"
  defines "allowance \<equiv> of_int b * of_int (last (lm_last l # map snd calls) - lm_last l) / (10 ^ 9 :: real)"
  shows "of_nat (granted rnd calls l) \<le>
      of_int b + allowance + 3 * allowance / 2 ^ 53 + 10 * of_nat (length calls) * of_int b / 2 ^ 53 \<and>
    (snd (limiter_wait rnd n (nows @ [now]) l) \<longleftrightarrow> int n \<le> b)"
proof
  have lim: "limits l" and burst: "lm_burst l = nat b"
    using after_calls_limits [OF assms(1) limits_new [OF assms(1-3)] before] assms(2)
    by (simp_all add: l new_limiter_def)
  then have tok: "0 \<le> lm_tokens l" "lm_tokens l \<le> of_int b" "lm_rate l \<noteq> 0" and b: "real (lm_burst l) = of_int b"
    using assms(2) by (simp_all add: limits_def)
  have "earned l (last (lm_last l # map snd calls) - lm_last l) = allowance" "ulp l = of_int b / 2 ^ 53"
    unfolding earned_def ulp_def b allowance_def by simp_all
  then have "of_nat (granted rnd calls l) \<le>
      lm_tokens l + allowance + drift allowance + 10 * of_nat (length calls) * (of_int b / 2 ^ 53)"
    using granted_bound [OF assms(1) lim assms(6) refl] by (simp only:)
  then show "of_nat (granted rnd calls l) \<le>
      of_int b + allowance + 3 * allowance / 2 ^ 53 + 10 * of_nat (length calls) * of_int b / 2 ^ 53"
    unfolding drift_def times_divide_eq_right using tok(2) by linarith
  have "snd (wait_loop rnd n (nows @ [now]) l)" if "int n \<le> b"
  proof (rule wait_loop_returns [OF assms(1) lim assms(7)])
    define E where "E = real_of_int (now - lm_last l) / 10 ^ 9"
    have "real_of_int (10 ^ 9 + 1) \<le> of_int (now - lm_last l)" using assms(8) by (intro iffD2 [OF of_int_le_iff]) linarith
    then have "real_of_int (10 ^ 9 + 1) / 10 ^ 9 \<le> E" unfolding E_def by (intro divide_right_mono) simp_all
    moreover have "real (length nows) \<le> 999999" using assms(9) by simp
    ultimately have "1 \<le> E - 3 * E / 2 ^ 53 - 8 * of_nat (length (nows @ [now])) / 2 ^ 53" by (simp add: field_simps)
    then have "1 * real_of_int b \<le> (E - 3 * E / 2 ^ 53 - 8 * of_nat (length (nows @ [now])) / 2 ^ 53) * of_int b"
      using assms(2) by (intro mult_right_mono) simp_all
    also have "\<dots> = E * of_int b - drift (E * of_int b) - 8 * of_nat (length (nows @ [now])) * (of_int b / 2 ^ 53)"
      by (simp add: drift_def left_diff_distrib diff_divide_distrib)
    finally have "of_int b \<le> E * of_int b - drift (E * of_int b) - 8 * of_nat (length (nows @ [now])) * (of_int b / 2 ^ 53)"
      by simp
    moreover have "(of_nat n :: real) \<le> of_int b" using that by (metis of_int_le_iff of_int_of_nat_eq)
    moreover have eu: "earned l (last (nows @ [now]) - lm_last l) = E * of_int b" "ulp l = of_int b / 2 ^ 53"
      unfolding earned_def ulp_def b E_def by simp_all
    ultimately show "of_nat n \<le> lm_tokens l + earned l (last (nows @ [now]) - lm_last l) -
        drift (earned l (last (nows @ [now]) - lm_last l)) - 8 * of_nat (length (nows @ [now])) * ulp l"
      unfolding eu using tok(1) by linarith
  qed (use that burst in simp_all)
  moreover have "\<not> snd (wait_loop rnd n (nows @ [now]) l)" if "\<not> int n \<le> b"
    using that burst assms(2) by (intro wait_loop_never [OF assms(1) lim assms(7)]) linarith
  ultimately show "snd (limiter_wait rnd n (nows @ [now]) l) \<longleftrightarrow> int n \<le> b"
    using tok(3) by (auto simp: limiter_wait_def)
qed

theorem limiter_rate_witness:
  "snd (limiter_wait (\<lambda>x. x) 100 [500000000, 1000000001] (new_limiter (\<lambda>x. x) 0 100)) \<and>
   \<not> snd (limiter_wait (\<lambda>x. x) 101 [500000000, 1000000001] (new_limiter (\<lambda>x. x) 0 100))"
proof -
  let ?l = "new_limiter (\<lambda>x. x) 0 100"
  have r: "readings ?l []" "readings ?l ([500000000] @ [1000000001])" "readings ?l (map snd [])"
    by (simp_all add: readings_def new_limiter_def)
  have "snd (limiter_wait (\<lambda>x. x) n ([500000000] @ [1000000001]) ?l) \<longleftrightarrow> int n \<le> 100" for n
    using limiter_rate [where b = 100 and before = "[]" and start = 0 and calls = "[]" and n = n, OF float64_id _ _ _ r(3) r(3) r(2)]
    by (simp add: new_limiter_def)
  from this [of 100] this [of 101] show ?thesis by simp
qed

section \<open>The writer asks for at most a burst\<close>

text \<open>A writer that keeps the contract of \<open>io.Writer\<close>: it reports at most the bytes it was given, and all of them without an error.\<close>

definition honest_writer :: "('s \<Rightarrow> bytes \<Rightarrow> 's \<times> nat \<times> goerr option) \<Rightarrow> bool" where
  "honest_writer w \<longleftrightarrow> (\<forall>s p. case w s p of (s', n, err) \<Rightarrow> n \<le> length p \<and> (err = None \<longrightarrow> n = length p))"

lemma write_loop_waits:
  assumes "honest_writer w" "0 < chunk"
  shows "length p - written < fuel \<Longrightarrow> written \<le> length p \<Longrightarrow> \<forall>x \<in> set waits. x \<le> chunk \<Longrightarrow>
    \<exists>s' n err waits'. write_loop fuel w chunk p written waits s = Some (s', n, err, waits') \<and>
      (\<forall>x \<in> set waits'. x \<le> chunk) \<and> n \<le> length p \<and> (err = None \<longrightarrow> n = length p)"
proof (induction fuel arbitrary: written waits s)
  case (Suc fuel)
  show ?case
  proof (cases "length p \<le> written")
    case False
    let ?e = "min (written + chunk) (length p)"
    obtain s' n err where w: "w s (slice p written ?e) = (s', n, err)" by (cases "w s (slice p written ?e)")
    have n: "n \<le> ?e - written" "err = None \<longrightarrow> n = ?e - written"
      using assms(1) w False unfolding honest_writer_def by (metis (mono_tags, lifting) case_prod_conv length_slice min.absorb1 min.cobounded2 diff_le_mono)+
    show ?thesis
    proof (cases err)
      case None
      then have "n = ?e - written" using n by simp
      then have n': "length p - (written + n) < fuel" "written + n \<le> length p"
        using Suc.prems False assms(2) by (simp_all add: min_def split: if_splits)
      have "\<forall>x \<in> set (waits @ [?e - written]). x \<le> chunk" using Suc.prems(3) by auto
      from Suc.IH [OF n' this] show ?thesis using False w None by simp
    next
      case (Some e)
      then show ?thesis using False w n Suc.prems by auto
    qed
  qed (use Suc.prems in auto)
qed simp

lemma write_limited_spec:
  assumes "honest_writer w" "0 < burst"
  shows "\<exists>s' n err waits. write_limited (Suc (length p)) burst w p s = Some (s', n, err, waits) \<and>
    (\<forall>x \<in> set waits. x \<le> burst) \<and> n \<le> length p \<and> (err = None \<longrightarrow> n = length p)"
  unfolding write_limited_def using write_loop_waits [OF assms, of p 0 "Suc (length p)" "[]"] assms(2) by simp

lemma read_limit_burst: "0 < burst \<Longrightarrow> n \<le> read_limit burst len \<Longrightarrow> \<forall>x \<in> set (read_wait n). x \<le> burst"
  by (simp add: read_limit_def read_wait_def split: if_splits)

section \<open>A limited writer is a writer\<close>

text \<open>\<open>Writer.Write\<close> with fuel enough for every chunk, and \<open>WrapWriter\<close>, which leaves a writer without a
  limit as it is.\<close>

definition throttled_write :: "nat \<Rightarrow> 's writer \<Rightarrow> 's writer" where
  "throttled_write burst w s p =
     (case write_limited (Suc (length p)) burst w p s of
        Some (s', n, err, waits) \<Rightarrow> (s', n, err)
      | None \<Rightarrow> (s, 0, Some Panic))"

definition wrap_writer :: "limiter option \<Rightarrow> 's writer \<Rightarrow> 's writer" where
  "wrap_writer l w =
     (case l of None \<Rightarrow> w | Some l \<Rightarrow> if lm_rate l = 0 then w else throttled_write (lm_burst l) w)"

text \<open>\<open>Reader.Read\<close> and \<open>WrapReader\<close>, over a reader from its state and the size of the buffer to the bytes
  read; what is asked of the limiter comes with them.\<close>

type_synonym 's reader = "'s \<Rightarrow> nat \<Rightarrow> 's \<times> bytes \<times> goerr option"

definition throttled_read :: "nat \<Rightarrow> 's reader \<Rightarrow> 's \<Rightarrow> nat \<Rightarrow> ('s \<times> bytes \<times> goerr option) \<times> nat list" where
  "throttled_read burst r s len =
     (let (s', bs, err) = r s (read_limit burst len) in ((s', bs, err), read_wait (length bs)))"

definition wrap_reader :: "limiter option \<Rightarrow> 's reader \<Rightarrow> 's \<Rightarrow> nat \<Rightarrow> ('s \<times> bytes \<times> goerr option) \<times> nat list" where
  "wrap_reader l r s len =
     (case l of
        None \<Rightarrow> (r s len, [])
      | Some l \<Rightarrow> if lm_rate l = 0 then (r s len, []) else throttled_read (lm_burst l) r s len)"

locale limited_writer = io_writer +
  fixes burst :: nat
  assumes burst_pos: "0 < burst"
begin

lemma honest: "honest_writer write_to"
  using write_taken write_complete by (force simp: honest_writer_def split: prod.splits)

lemma write_loop_content:
  "write_loop fuel write_to chunk p written waits s = Some (s', n, err, ws) \<Longrightarrow> written \<le> length p \<Longrightarrow>
    content s = before @ take written p \<Longrightarrow> content s' = before @ take n p"
proof (induction fuel arbitrary: written waits s)
  case (Suc fuel)
  show ?case
  proof (cases "length p \<le> written")
    case False
    let ?e = "min (written + chunk) (length p)"
    obtain s1 k err1 where w: "write_to s (slice p written ?e) = (s1, k, err1)" by (cases "write_to s (slice p written ?e)")
    note taken = write_taken [OF w]
    have k: "k \<le> ?e - written" using taken by simp
    then have "take k (slice p written ?e) = take k (drop written p)" by (simp add: slice_def min_absorb1)
    then have s1: "content s1 = before @ take (written + k) p" using taken Suc.prems(3) by (simp add: take_add)
    have le: "written + k \<le> length p" using k False by linarith
    show ?thesis
    proof (cases err1)
      case None
      with Suc.prems(1) False w have
        "write_loop fuel write_to chunk p (written + k) (waits @ [?e - written]) s1 = Some (s', n, err, ws)"
        by (simp add: Let_def)
      from Suc.IH [OF this le s1] show ?thesis .
    next
      case (Some e)
      with Suc.prems(1) False w s1 show ?thesis by (simp add: Let_def)
    qed
  qed (use Suc.prems in auto)
qed simp

lemma throttled_writer: "io_writer (throttled_write burst write_to) content"
proof
  fix s p s' n err assume "throttled_write burst write_to s p = (s', n, err)"
  moreover obtain s1 k e ws where l: "write_limited (Suc (length p)) burst write_to p s = Some (s1, k, e, ws)"
    "k \<le> length p" "e = None \<longrightarrow> k = length p"
    using write_limited_spec [OF honest burst_pos, of p s] by blast
  ultimately have e: "s' = s1" "n = k" "err = e" by (simp_all add: throttled_write_def)
  with l show "content s' = content s @ take n p \<and> n \<le> length p"
    using write_loop_content [of "Suc (length p)" _ p 0 "[]" s s1 k e ws "content s"] by (simp add: write_limited_def)
next
  fix s p s' n assume "throttled_write burst write_to s p = (s', n, None)"
  then show "n = length p"
    using write_limited_spec [OF honest burst_pos, of p s] by (auto simp: throttled_write_def)
qed

end

sublocale limited_writer \<subseteq> limited: io_writer "throttled_write burst write_to" content
  by (rule throttled_writer)

text \<open>A connection to a peer behind a limiter of at least one byte per second.\<close>

interpretation throttled_conn: limited_writer net_write nc_sent "Suc b" for b
  by unfold_locales simp

lemma wrap_writer_writer:
  assumes "limits l"
  shows "io_writer (wrap_writer (Some l) net_write) nc_sent" "io_writer (wrap_writer None net_write) nc_sent"
proof -
  obtain b where "lm_burst l = Suc b" using assms by (cases "lm_burst l") (auto simp: limits_def)
  then show "io_writer (wrap_writer (Some l) net_write) nc_sent"
    using throttled_conn.throttled_writer [of b] net_writer.io_writer_axioms by (simp add: wrap_writer_def)
  show "io_writer (wrap_writer None net_write) nc_sent"
    using net_writer.io_writer_axioms by (simp add: wrap_writer_def)
qed

text \<open>What a limited writer hands on is what was written, whatever the chunks.\<close>

lemma throttled_parts:
  "write_parts (throttled_write (Suc b) net_write) c ps = (c', None) \<Longrightarrow> nc_sent c' = nc_sent c @ concat ps"
  by (rule throttled_conn.limited.write_parts_all)

end
