(* ===== verification/TorrentInfo.thy ===== *)
theory TorrentInfo
  imports Torrent GoFloat
begin

text \<open>
  Where a torrent comes from and how it is shown (\<open>torrent/torrent.go\<close>): \<open>Load\<close> with its two
  sources, a file and an HTTP server, both arguments, and the summary \<open>String\<close> with its sizes.
  The division of two \<open>float64\<close> rounds by an argument \<open>rnd\<close>.
\<close>

section \<open>Loading\<close>

text \<open>What a GET returns (status and body, whose reading may fail), and what the file system returns.\<close>

record source_env =
  se_get :: "bytes \<Rightarrow> (nat \<times> bytes res) res"
  se_read_file :: "bytes \<Rightarrow> bytes res"

definition parse_file :: "(bytes \<Rightarrow> bytes) \<Rightarrow> source_env \<Rightarrow> bytes \<Rightarrow> torrent res" where
  "parse_file sha1 e path = (case se_read_file e path of Inl err \<Rightarrow> Inl err | Inr data \<Rightarrow> parse sha1 data)"

definition fetch_and_parse :: "(bytes \<Rightarrow> bytes) \<Rightarrow> source_env \<Rightarrow> bytes \<Rightarrow> torrent res" where
  "fetch_and_parse sha1 e url =
     (case se_get e url of
        Inl err \<Rightarrow> Inl err
      | Inr (status, body) \<Rightarrow>
          if status \<noteq> 200 then Inl (Fail ''HTTP status'')
          else (case body of Inl err \<Rightarrow> Inl err | Inr data \<Rightarrow> parse sha1 data))"

definition load :: "(bytes \<Rightarrow> bytes) \<Rightarrow> source_env \<Rightarrow> bytes \<Rightarrow> torrent res" where
  "load sha1 e path_or_url =
     (if has_prefix path_or_url ''http://'' \<or> has_prefix path_or_url ''https://''
      then fetch_and_parse sha1 e path_or_url else parse_file sha1 e path_or_url)"

section \<open>Summaries\<close>

definition format_size :: "(real \<Rightarrow> real) \<Rightarrow> int \<Rightarrow> bytes" where
  "format_size rnd n =
     (if 2 ^ 30 \<le> n then fmt_f2 (rnd (rnd (of_int n) / 2 ^ 30)) @ str '' GiB''
      else if 2 ^ 20 \<le> n then fmt_f2 (rnd (rnd (of_int n) / 2 ^ 20)) @ str '' MiB''
      else if 2 ^ 10 \<le> n then fmt_f2 (rnd (rnd (of_int n) / 2 ^ 10)) @ str '' KiB''
      else itoa n @ str '' B'')"

definition file_line :: "(real \<Rightarrow> real) \<Rightarrow> tfile \<Rightarrow> bytes" where
  "file_line rnd f =
     str ''  '' @ join_bytes [47] (f_path f) @ str '' '' @ [0xE2, 0x80, 0x94] @ str '' '' @
     format_size rnd (f_length f) @ (if is_pad f then str '' [pad]'' else []) @ [10]"

definition url_lines :: "bytes list \<Rightarrow> bytes" where
  "url_lines urls = concat (map (\<lambda>u. str ''  '' @ u @ [10]) urls)"

definition torrent_string :: "(real \<Rightarrow> real) \<Rightarrow> torrent \<Rightarrow> bytes" where
  "torrent_string rnd t =
     str ''Name:         '' @ t_name t @ [10] @
     str ''Tracker:      '' @ t_announce t @ [10] @
     str ''Info Hash:    '' @ hex_encode (t_info_hash t) @ [10] @
     str ''Piece Length: '' @ itoa (t_piece_length t) @ str '' ('' @ itoa (t_piece_length t sdiv 1024) @ str '' KiB)'' @ [10] @
     str ''Pieces:       '' @ itoa (int (length (t_pieces t))) @ [10] @
     (if is_single_file t then
        str ''Length:       '' @ itoa (t_length t) @ str '' ('' @ format_size rnd (t_length t) @ str '')'' @ [10] @
        str ''Mode:         single-file'' @ [10]
      else
        str ''Total Size:   '' @ itoa (total_length t) @ str '' ('' @ format_size rnd (total_length t) @ str '')'' @ [10] @
        str ''Mode:         multi-file ('' @ itoa (int (length (t_files t))) @ str '' files)'' @ [10] @
        concat (map (file_line rnd) (t_files t))) @
     (if 0 < length (t_url_list t)
      then str ''Web Seeds:    '' @ itoa (int (length (t_url_list t))) @ [10] @ url_lines (t_url_list t) else []) @
     (if 0 < length (t_http_seeds t)
      then str ''HTTP Seeds:   '' @ itoa (int (length (t_http_seeds t))) @ str '' (BEP 17)'' @ [10] @ url_lines (t_http_seeds t)
      else [])"

section \<open>Laws\<close>

text \<open>A loaded torrent is a parsed one, wherever it comes from, with the hash of its raw info dictionary.\<close>

lemma load_parses: "load sha1 e path = Inr t \<Longrightarrow> \<exists>data. parse sha1 data = Inr t"
  by (auto simp: load_def fetch_and_parse_def parse_file_def split: if_splits sum.splits)

text \<open>
  Sizes are exact up to half of the last digit shown: for sizes below 8 PiB the \<open>float64\<close> of the size is
  exact, and so is its quotient by a power of two, so only the two decimals round.
\<close>

lemma fmt_f2_error:
  assumes "0 \<le> x"
  shows "\<exists>k. 0 \<le> k \<and> fmt_f2 x = itoa (k div 100) @ [46] @ itoa (k mod 100 div 10) @ itoa (k mod 10) \<and>
    \<bar>of_int k / 100 - x\<bar> \<le> 1 / 200"
proof (intro exI conjI)
  have "\<bar>of_int (round_even (100 * x)) - 100 * x\<bar> \<le> 1 / 2" by (rule round_even_near)
  then show "\<bar>of_int (round_even (100 * x)) / 100 - x\<bar> \<le> 1 / 200" by linarith
  show "0 \<le> round_even (100 * x)" using assms by (simp add: round_even_def Let_def)
  show "fmt_f2 x = itoa (round_even (100 * x) div 100) @ [46] @ itoa (round_even (100 * x) mod 100 div 10) @
      itoa (round_even (100 * x) mod 10)"
    by (simp add: fmt_f2_def Let_def)
qed

theorem format_size_accurate:
  assumes "ieee_rounding rnd" "\<forall>m :: int. \<bar>m\<bar> \<le> 2 ^ 53 \<longrightarrow> rnd (of_int m / 2 ^ 30) = of_int m / 2 ^ 30"
    and "2 ^ 30 \<le> n" "n \<le> 2 ^ 53"
  shows "\<exists>k. 0 \<le> k \<and> format_size rnd n =
      itoa (k div 100) @ [46] @ itoa (k mod 100 div 10) @ itoa (k mod 10) @ str '' GiB'' \<and>
    \<bar>of_int k / 100 - of_int n / 2 ^ 30\<bar> \<le> (1 / 200 :: real)"
proof -
  have eq: "rnd (rnd (of_int n) / 2 ^ 30) = of_int n / 2 ^ 30"
    using assms(2) [rule_format, of n] assms(3,4) ieee_exact [OF assms(1), of n] by simp
  obtain k where "0 \<le> k" "\<bar>of_int k / 100 - of_int n / 2 ^ 30\<bar> \<le> (1 / 200 :: real)"
    "fmt_f2 (of_int n / 2 ^ 30) = itoa (k div 100) @ [46] @ itoa (k mod 100 div 10) @ itoa (k mod 10)"
    using fmt_f2_error [of "of_int n / 2 ^ 30"] assms(3) by auto
  then show ?thesis unfolding format_size_def eq using assms(3) by (intro exI [of _ k]) simp
qed

theorem format_size_accurate_witness: "format_size (\<lambda>x. x) (3 * 2 ^ 29) = str ''1.50 GiB''"
proof -
  have r: "ieee_rounding (\<lambda>x. x)" by (simp add: ieee_rounding_def mono_def)
  obtain k :: int where k: "format_size (\<lambda>x. x) (3 * 2 ^ 29) =
      itoa (k div 100) @ [46] @ itoa (k mod 100 div 10) @ itoa (k mod 10) @ str '' GiB''"
    "\<bar>of_int k / 100 - of_int (3 * 2 ^ 29) / 2 ^ 30\<bar> \<le> (1 / 200 :: real)"
    using format_size_accurate [OF r, of "3 * 2 ^ 29"] by auto
  then have "\<bar>of_int k / 100 - 3 / 2\<bar> \<le> (1 / 200 :: real)" by simp
  then have "of_int k < (151 :: real)" "(149 :: real) < of_int k" by linarith+
  then have "k = 150" by linarith
  then show ?thesis unfolding k(1) by (simp add: itoa_def dec_digits.simps digit_def)
qed

section \<open>Torrents of version 2\<close>

text \<open>The files of a torrent of BEP 52 and its summary (\<open>torrent/merkle.go\<close>).\<close>

record v2_file_entry =
  vf_path :: "bytes list"
  vf_length :: int
  vf_pieces_root :: bytes

record v2_info =
  vi_meta_version :: int
  vi_file_tree :: "v2_file_entry list"
  vi_piece_length :: int

definition v2_string :: "v2_info \<Rightarrow> bytes" where
  "v2_string v =
     str ''v2 torrent: '' @ itoa (int (length (vi_file_tree v))) @ str '' files, piece_length='' @ itoa (vi_piece_length v)"

end
