(* ===== verification/PeerId.thy ===== *)
theory PeerId
  imports GoStrings
begin

text \<open>
  Peer identifiers in the style of Azureus (\<open>client/peerid.go\<close>): the own identifier from the version,
  and the client and version that another identifier names.
\<close>

definition client_id :: bytes where
  "client_id = str ''PP''"

definition version :: bytes where
  "version = str ''0.1.0''"

text \<open>\<open>strings.SplitN\<close> at a byte, with at most \<open>n\<close> cuts (a limit of \<open>n + 1\<close> parts).\<close>

primrec split_n :: "u8 \<Rightarrow> nat \<Rightarrow> bytes \<Rightarrow> bytes list" where
  "split_n c 0 s = [s]"
| "split_n c (Suc n) s =
     (case index_byte c s of None \<Rightarrow> [s] | Some i \<Rightarrow> take i s # split_n c n (drop (i + 1) s))"

text \<open>The verb \<open>%c\<close> of a byte: the UTF-8 encoding of the rune with its number.\<close>

definition rune_of_byte :: "u8 \<Rightarrow> bytes" where
  "rune_of_byte b = (if b < 128 then [b] else [0xC0 OR drop_bit 6 b, 0x80 OR (b AND 0x3F)])"

definition version_digit :: "bytes list \<Rightarrow> nat \<Rightarrow> u8" where
  "version_digit parts i = (if i < length parts \<and> 0 < length (parts ! i) then parts ! i ! 0 else 48)"

definition format_version_prefix :: "bytes \<Rightarrow> bytes" where
  "format_version_prefix v =
     (let parts = split_n 46 2 v
      in [45] @ client_id @ concat (map (\<lambda>i. rune_of_byte (version_digit parts i)) [0, 1, 2]) @ rune_of_byte 48 @ [45])"

text \<open>\<open>GeneratePeerID\<close>, from twelve random bytes.\<close>

definition generate_peer_id :: "bytes \<Rightarrow> bytes" where
  "generate_peer_id random = take 8 (copy_array 20 (format_version_prefix version)) @ random"

definition known_clients :: "(bytes \<times> bytes) list" where
  "known_clients =
     [(str ''PP'', str ''Peer Pressure''), (str ''qB'', str ''qBittorrent''), (str ''TR'', str ''Transmission''),
      (str ''DE'', str ''Deluge''), (str ''AZ'', str ''Vuze''), (str ''UT'', [0xC2, 0xB5] @ str ''Torrent''),
      (str ''lt'', str ''libtorrent''), (str ''LT'', str ''libtorrent (Rasterbar)''), (str ''BI'', str ''BiglyBT'')]"

definition parse_peer_id :: "bytes \<Rightarrow> bytes \<times> bytes \<times> bool" where
  "parse_peer_id i =
     (if i ! 0 = 45 \<and> i ! 7 = 45 then
        let code = slice i 1 3; ver = slice i 3 7;
            name = (case map_of known_clients code of Some n \<Rightarrow> n | None \<Rightarrow> str ''Unknown ('' @ code @ str '')'')
        in (name, ver, True)
      else ([], [], False))"

definition user_agent :: bytes where
  "user_agent = str ''Peer Pressure '' @ version"

text \<open>The own identifier names this client and its version, whatever the random bytes are.\<close>

lemma own_prefix: "format_version_prefix version = str ''-PP0100-''"
proof -
  have "split_n 46 (Suc (Suc 0)) version = [[48], [49], [48]]" by (simp add: version_def)
  then have parts: "split_n 46 2 version = [[48], [49], [48]]" by (simp only: numeral_2_eq_2)
  show ?thesis
    by (simp only: format_version_prefix_def parts Let_def) (simp add: client_id_def rune_of_byte_def version_digit_def)
qed

lemma own_peer_id:
  assumes "length random = 12"
  shows "length (generate_peer_id random) = 20"
    "parse_peer_id (generate_peer_id random) = (str ''Peer Pressure'', str ''0100'', True)"
proof -
  have i: "generate_peer_id random = str ''-PP0100-'' @ random"
    by (simp add: generate_peer_id_def own_prefix copy_array_def)
  then show "length (generate_peer_id random) = 20" using assms by simp
  show "parse_peer_id (generate_peer_id random) = (str ''Peer Pressure'', str ''0100'', True)"
    by (simp add: i parse_peer_id_def known_clients_def slice_def)
qed

text \<open>A byte from 128 on is two bytes of the prefix, whose last dash is then lost.\<close>

lemma prefix_length: "length (format_version_prefix v) = 8 + length (filter (\<lambda>i. 128 \<le> version_digit (split_n 46 2 v) i) [0, 1, 2])"
  by (auto simp: format_version_prefix_def client_id_def rune_of_byte_def Let_def not_less)

end
