(* ===== verification/Cli.thy ===== *)
theory Cli
  imports Download Seeder TorrentCreate TorrentInfo Magnet Metadata Tracker DhtNode PeerId
begin

text \<open>
  The program (\<open>cmd/peer-pressure/main.go\<close>): how the commands put the packages together. What comes
  from outside is an argument: the files, the answer of a tracker to an announce and the order in which
  trackers answer, the bytes that a dialled peer sends, and the outcome of the DHT lookup. A fatal error
  is \<open>Inl\<close>; \<open>Inl Panic\<close> is a run-time panic, which ends the program as well.
\<close>

section \<open>Commands\<close>

datatype log_level = LevelWarn | LevelInfo | LevelDebug

text \<open>\<open>slog\<close> orders its levels by severity; a handler passes the records of its level and above.\<close>

fun severity :: "log_level \<Rightarrow> int" where
  "severity LevelDebug = - 4"
| "severity LevelInfo = 0"
| "severity LevelWarn = 4"

instantiation log_level :: linorder
begin

definition less_eq_log_level :: "log_level \<Rightarrow> log_level \<Rightarrow> bool" where
  "less_eq_log_level a b \<longleftrightarrow> severity a \<le> severity b"

definition less_log_level :: "log_level \<Rightarrow> log_level \<Rightarrow> bool" where
  "less_log_level a b \<longleftrightarrow> severity a < severity b"

instance
proof
  fix a b :: log_level
  assume "a \<le> b" "b \<le> a"
  then show "a = b" by (cases a; cases b) (simp_all add: less_eq_log_level_def)
qed (auto simp: less_eq_log_level_def less_log_level_def)

end

datatype command = CmdInfo | CmdPeers | CmdDownload | CmdSeed | CmdCreate | CmdVersion | CmdHelp

definition take_flag :: "log_level \<times> bytes list \<Rightarrow> bytes \<Rightarrow> log_level \<times> bytes list" where
  "take_flag st a =
     (if a = str ''--verbose'' then (LevelInfo, snd st)
      else if a = str ''--debug'' then (LevelDebug, snd st)
      else (fst st, snd st @ [a]))"

definition global_flags :: "bytes list \<Rightarrow> log_level \<times> bytes list" where
  "global_flags args = foldl take_flag (LevelWarn, []) args"

text \<open>The records that reach the standard error output.\<close>

definition logged :: "bytes list \<Rightarrow> (log_level \<times> 'a) list \<Rightarrow> 'a list" where
  "logged args records = map snd (filter (\<lambda>r. fst (global_flags args) \<le> fst r) records)"

text \<open>Warnings are always logged, and nothing less without a flag; the last flag decides.\<close>

lemma level_le_warn: "l \<le> LevelWarn"
  by (cases l) (simp_all add: less_eq_log_level_def)

lemma warnings_logged: "(LevelWarn, x) \<in> set records \<Longrightarrow> x \<in> set (logged args records)"
  by (force simp: logged_def level_le_warn)

lemma global_flags_last:
  "fst (global_flags (args @ [str ''--debug''])) = LevelDebug" "fst (global_flags (args @ [str ''--verbose''])) = LevelInfo"
  by (simp_all add: global_flags_def take_flag_def)

definition commands :: "(bytes \<times> command) list" where
  "commands =
     [(str ''info'', CmdInfo), (str ''peers'', CmdPeers), (str ''download'', CmdDownload), (str ''seed'', CmdSeed),
      (str ''create'', CmdCreate), (str ''version'', CmdVersion), (str ''--version'', CmdVersion), (str ''-v'', CmdVersion),
      (str ''help'', CmdHelp), (str ''--help'', CmdHelp), (str ''-h'', CmdHelp)]"

definition dispatch_command :: "bytes list \<Rightarrow> (command \<times> bytes list) res" where
  "dispatch_command args =
     (case snd (global_flags args) of
        [] \<Rightarrow> Inl (Fail ''usage'')
      | cmd # rest \<Rightarrow> (case map_of commands cmd of None \<Rightarrow> Inl (Fail ''unknown command'') | Some c \<Rightarrow> Inr (c, rest)))"

section \<open>Trackers\<close>

text \<open>Addresses are taken once, with the map \<open>seen\<close> of the addresses taken so far.\<close>

definition merge_new :: "bytes list \<Rightarrow> bytes list \<Rightarrow> bytes list" where
  "merge_new = foldl (\<lambda>addrs a. if a \<in> set addrs then addrs else addrs @ [a])"

text \<open>The results in the order of their arrival. A goroutine that panics ends the program.\<close>

definition collect_responses :: "response res list \<Rightarrow> bytes list res" where
  "collect_responses outs =
     (if Inl Panic \<in> set outs then Inl Panic
      else Inr (foldl (\<lambda>addrs r. case r of Inl _ \<Rightarrow> addrs | Inr resp \<Rightarrow> merge_new addrs (map tp_addr (r_peers resp))) [] outs))"

type_synonym announcer = "bytes \<Rightarrow> announce_params \<Rightarrow> response res"

definition started :: "bytes \<Rightarrow> bytes \<Rightarrow> u16 \<Rightarrow> int \<Rightarrow> announce_params" where
  "started info_hash peer_id port left =
     \<lparr>a_info_hash = info_hash, a_peer_id = peer_id, a_port = port, a_uploaded = 0, a_downloaded = 0, a_left = left,
      a_event = str ''started'', a_num_want = 200\<rparr>"

definition announce_all_trackers ::
    "announcer \<Rightarrow> (bytes list \<Rightarrow> bytes list) \<Rightarrow> bytes \<Rightarrow> bytes list \<Rightarrow> bytes \<Rightarrow> u16 \<Rightarrow> bytes list res" where
  "announce_all_trackers announce arrival peer_id urls info_hash port =
     collect_responses (map (\<lambda>u. announce u (started info_hash peer_id port 0)) (arrival urls))"

definition announce_all ::
    "announcer \<Rightarrow> (bytes list \<Rightarrow> bytes list) \<Rightarrow> bytes \<Rightarrow> torrent \<Rightarrow> u16 \<Rightarrow> bytes list res" where
  "announce_all announce arrival peer_id t port =
     collect_responses (map (\<lambda>u. announce u (started (t_info_hash t) peer_id port (total_length t))) (arrival (trackers t)))"

section \<open>The DHT\<close>

text \<open>\<open>discoverDHTPeers\<close>: the peers, and the node unless it failed to bind or to bootstrap.\<close>

definition discover_dht_peers ::
    "bool \<Rightarrow> network \<Rightarrow> (udp_addr \<times> message res) list \<Rightarrow> bytes \<Rightarrow> bytes \<Rightarrow> (bytes list \<times> dht option) option" where
  "discover_dht_peers bound net replies node_id info_hash =
     (if \<not> bound then Some ([], None)
      else case bootstrap net (new_dht node_id) replies of
        None \<Rightarrow> None
      | Some (d, Inl _) \<Rightarrow> Some ([], None)
      | Some (d, Inr _) \<Rightarrow> map_option (\<lambda>r. (snd r, Some (fst r))) (get_peers net d info_hash))"

definition run_peers :: "bool \<Rightarrow> torrent \<Rightarrow> bytes list \<Rightarrow> bytes list \<Rightarrow> bytes list" where
  "run_peers no_dht t tracker_peers dht_peers =
     (if \<not> no_dht \<and> \<not> is_private t then merge_new tracker_peers dht_peers else tracker_peers)"

section \<open>Magnet links\<close>

text \<open>One peer of \<open>fetchMetadataFromPeers\<close>, by the bytes it sends.\<close>

definition peer_metadata :: "(bytes \<Rightarrow> bytes) \<Rightarrow> bytes \<Rightarrow> bytes \<Rightarrow> bytes \<Rightarrow> bytes res" where
  "peer_metadata sha1 peer_id info_hash input =
     (case snd (do_handshake info_hash peer_id input) of
        Inl e \<Rightarrow> Inl e
      | Inr c \<Rightarrow>
          if \<not> supports_extensions (cn_reserved c) then Inl (Fail ''no extensions'')
          else case read_ext_handshake (cn_input c) of
            Inl e \<Rightarrow> Inl e
          | Inr (ext, rest) \<Rightarrow>
              if map_of (eh_m ext) (str ''ut_metadata'') \<in> {None, Some 0} then Inl (Fail ''no ut_metadata'')
              else case fetch_metadata sha1 (Some ext) info_hash rest of
                Inl e \<Rightarrow> Inl e
              | Inr (md, _) \<Rightarrow> Inr md)"

primrec fetch_metadata_from_peers ::
    "(bytes \<Rightarrow> bytes) \<Rightarrow> (bytes \<Rightarrow> bytes res) \<Rightarrow> bytes \<Rightarrow> bytes \<Rightarrow> bytes list \<Rightarrow> bytes option res" where
  "fetch_metadata_from_peers sha1 dial peer_id info_hash [] = Inr None"
| "fetch_metadata_from_peers sha1 dial peer_id info_hash (a # addrs) =
     (case dial a of
        Inl _ \<Rightarrow> fetch_metadata_from_peers sha1 dial peer_id info_hash addrs
      | Inr input \<Rightarrow>
          (case peer_metadata sha1 peer_id info_hash input of
             Inr md \<Rightarrow> Inr (Some md)
           | Inl e \<Rightarrow> if e = Panic then Inl Panic else fetch_metadata_from_peers sha1 dial peer_id info_hash addrs))"

definition public_trackers :: "bytes list" where
  "public_trackers =
     [str ''udp://tracker.opentrackr.org:1337/announce'', str ''udp://open.stealth.si:80/announce'',
      str ''udp://tracker.openbittorrent.com:6969/announce'', str ''udp://exodus.desync.com:6969/announce'']"

definition resolve_magnet ::
    "(bytes \<Rightarrow> bytes) \<Rightarrow> announcer \<Rightarrow> (bytes list \<Rightarrow> bytes list) \<Rightarrow> (bytes \<Rightarrow> bytes res) \<Rightarrow> bytes \<Rightarrow> bytes \<Rightarrow> u16 \<Rightarrow>
      (torrent \<times> bytes list) res" where
  "resolve_magnet sha1 announce arrival dial peer_id uri port =
     (case parse_link uri of
        Inl e \<Rightarrow> Inl e
      | Inr link \<Rightarrow>
          let urls = (if l_trackers link = [] then public_trackers else l_trackers link)
          in case announce_all_trackers announce arrival peer_id urls (l_info_hash link) port of
               Inl e \<Rightarrow> Inl e
             | Inr addrs \<Rightarrow>
                 if addrs = [] then Inl (Fail ''no peers found'')
                 else case fetch_metadata_from_peers sha1 dial peer_id (l_info_hash link) addrs of
                   Inl e \<Rightarrow> Inl e
                 | Inr None \<Rightarrow> Inl (Fail ''could not fetch metadata'')
                 | Inr (Some md) \<Rightarrow>
                     (case from_info_dict md (l_info_hash link) urls of Inl e \<Rightarrow> Inl e | Inr t \<Rightarrow> Inr (t, addrs)))"

section \<open>A download\<close>

record download_opts =
  op_output :: bytes
  op_port :: int
  op_max_peers :: int
  op_quiet :: bool
  op_no_dht :: bool

record download_config =
  dc_torrent :: torrent
  dc_peers :: "bytes list"
  dc_web_seeds :: "bytes list"
  dc_http_seeds :: "bytes list"
  dc_output :: bytes
  dc_peer_id :: bytes
  dc_max_peers :: int
  dc_quiet :: bool

text \<open>The torrent and the addresses of the trackers, from a magnet link or a file.\<close>

definition download_source ::
    "(bytes \<Rightarrow> bytes) \<Rightarrow> source_env \<Rightarrow> announcer \<Rightarrow> (bytes list \<Rightarrow> bytes list) \<Rightarrow> (bytes \<Rightarrow> bytes res) \<Rightarrow> bytes \<Rightarrow>
      bytes \<Rightarrow> u16 \<Rightarrow> (torrent \<times> bytes list) res" where
  "download_source sha1 src announce arrival dial peer_id arg port =
     (if has_prefix arg ''magnet:?'' then resolve_magnet sha1 announce arrival dial peer_id arg port
      else case load sha1 src arg of
        Inl e \<Rightarrow> Inl e
      | Inr t \<Rightarrow> (case announce_all announce arrival peer_id t port of Inl e \<Rightarrow> Inl e | Inr addrs \<Rightarrow> Inr (t, addrs)))"

text \<open>
  The configuration of the download, and the DHT node to which its completion is announced. \<open>dht\<close> is
  what the lookup returns, \<open>ready\<close> whether it has returned when the download begins.
\<close>

definition run_download ::
    "bytes \<Rightarrow> download_opts \<Rightarrow> (torrent \<times> bytes list) res \<Rightarrow> bytes list \<times> dht option \<Rightarrow> bool \<Rightarrow>
      (download_config \<times> dht option) res" where
  "run_download peer_id opts source dht ready =
     (case source of
        Inl e \<Rightarrow> Inl e
      | Inr (t, tracker_addrs) \<Rightarrow>
          let use_dht = (\<not> op_no_dht opts \<and> \<not> is_private t);
              waits = (tracker_addrs = [] \<and> use_dht \<and> t_url_list t = []);
              addrs = (if waits then fst dht else tracker_addrs)
          in if addrs = [] \<and> t_url_list t = [] then Inl (Fail ''no peers found in swarm'')
             else
               let (node, addrs) =
                     (if use_dht \<and> \<not> waits \<and> ready then (snd dht, addrs @ filter (\<lambda>a. a \<notin> set addrs) (fst dht))
                      else (None, addrs))
               in Inr (\<lparr>dc_torrent = t, dc_peers = addrs, dc_web_seeds = t_url_list t, dc_http_seeds = t_http_seeds t,
                        dc_output = (if op_output opts = [] then t_name t else op_output opts), dc_peer_id = peer_id,
                        dc_max_peers = op_max_peers opts, dc_quiet = op_quiet opts\<rparr>, node))"

section \<open>Seeding and creating\<close>

text \<open>\<open>runSeed\<close>: the torrent and the layout of its files, once every piece is verified.\<close>

definition run_seed :: "(bytes \<Rightarrow> bytes) \<Rightarrow> bytes res \<Rightarrow> bytes list \<Rightarrow> (torrent \<times> file_span list) res" where
  "run_seed sha1 raw contents =
     (case raw of
        Inl e \<Rightarrow> Inl e
      | Inr data \<Rightarrow>
          (case parse sha1 data of
             Inl e \<Rightarrow> Inl e
           | Inr t \<Rightarrow>
               let r = verify_data sha1 t (disk_reader t contents)
               in if v_invalid r \<noteq> [] then Inl (Fail ''invalid pieces'') else Inr (t, disk_reader t contents)))"

text \<open>\<open>runCreate\<close>: what is written, and the torrent read back for the summary (its error is dropped).\<close>

definition run_create :: "(bytes \<Rightarrow> bytes) \<Rightarrow> 64 word \<Rightarrow> bytes \<Rightarrow> fs_node \<Rightarrow> create_opts \<Rightarrow> (bytes \<times> torrent) res" where
  "run_create sha1 now name node opts =
     (if o_tracker opts = [] then Inl (Fail ''tracker URL is required'')
      else case create sha1 now name node (opts\<lparr>o_trackers := [], o_web_seeds := [], o_created_by := []\<rparr>) of
        Inl e \<Rightarrow> Inl e
      | Inr raw \<Rightarrow> (case parse sha1 raw of Inl _ \<Rightarrow> Inl Panic | Inr t \<Rightarrow> Inr (raw, t)))"

section \<open>Addresses\<close>

lemma set_merge_new [simp]: "set (merge_new as bs) = set as \<union> set bs"
  unfolding merge_new_def by (induction bs arbitrary: as) auto

lemma distinct_merge_new: "distinct as \<Longrightarrow> distinct (merge_new as bs)"
  unfolding merge_new_def by (induction bs arbitrary: as) auto

text \<open>The addresses of all the trackers that answered.\<close>

definition answered_peers :: "response res list \<Rightarrow> bytes set" where
  "answered_peers outs = {a. \<exists>resp. Inr resp \<in> set outs \<and> a \<in> tp_addr ` set (r_peers resp)}"

lemma collect_responses_spec:
  assumes "collect_responses outs = Inr addrs"
  shows "distinct addrs \<and> set addrs = answered_peers outs"
proof -
  let ?f = "\<lambda>addrs r. case r of Inl _ \<Rightarrow> addrs | Inr resp \<Rightarrow> merge_new addrs (map tp_addr (r_peers resp))"
  have "distinct as \<Longrightarrow> distinct (foldl ?f as outs) \<and> set (foldl ?f as outs) = set as \<union> answered_peers outs" for as
  proof (induction outs arbitrary: as)
    case Nil
    then show ?case by (simp add: answered_peers_def)
  next
    case (Cons r outs)
    have "distinct (?f as r)" using Cons.prems by (auto simp: distinct_merge_new split: sum.splits)
    moreover have "set (?f as r) \<union> answered_peers outs = set as \<union> answered_peers (r # outs)"
      by (auto simp: answered_peers_def split: sum.splits)
    ultimately show ?case using Cons.IH [of "?f as r"] by simp
  qed
  from this [of "[]"] show ?thesis using assms by (auto simp: collect_responses_def split: if_splits)
qed

section \<open>Metadata\<close>

lemma peer_metadata_hash: "peer_metadata sha1 peer_id h input = Inr md \<Longrightarrow> sha1 md = h"
  by (auto simp: peer_metadata_def fetch_metadata_def Let_def split: sum.splits prod.splits if_splits option.splits)

lemma fetched_hash: "fetch_metadata_from_peers sha1 dial peer_id h addrs = Inr (Some md) \<Longrightarrow> sha1 md = h"
  by (induction addrs) (auto simp: peer_metadata_hash split: sum.splits if_splits)

lemma parse_layout_info_hash: "parse_layout t info = Inr t' \<Longrightarrow> t_info_hash t' = t_info_hash t"
  by (auto simp: parse_layout_def Let_def split: sum.splits if_splits option.splits)

lemma parse_info_info_hash: "parse_info t info = Inr t' \<Longrightarrow> t_info_hash t' = t_info_hash t"
  by (auto simp: parse_info_def dest!: parse_layout_info_hash split: sum.splits if_splits option.splits bvalue.splits)

lemma from_info_dict_hash: "from_info_dict md h urls = Inr t \<Longrightarrow> t_info_hash t = h"
  by (auto simp: from_info_dict_def new_torrent_def dest!: parse_info_info_hash split: sum.splits bvalue.splits)

lemma resolve_magnet_cases:
  assumes "resolve_magnet sha1 announce arrival dial peer_id uri port = Inr (t, addrs)"
  obtains l urls md where "parse_link uri = Inr l"
    "urls = (if l_trackers l = [] then public_trackers else l_trackers l)"
    "announce_all_trackers announce arrival peer_id urls (l_info_hash l) port = Inr addrs" "addrs \<noteq> []"
    "fetch_metadata_from_peers sha1 dial peer_id (l_info_hash l) addrs = Inr (Some md)"
    "from_info_dict md (l_info_hash l) urls = Inr t"
proof -
  obtain l where l: "parse_link uri = Inr l" using assms by (cases "parse_link uri") (simp_all add: resolve_magnet_def)
  define urls where "urls = (if l_trackers l = [] then public_trackers else l_trackers l)"
  note r = assms [unfolded resolve_magnet_def l sum.case Let_def, folded urls_def]
  obtain addrs' where a: "announce_all_trackers announce arrival peer_id urls (l_info_hash l) port = Inr addrs'"
    using r by (cases "announce_all_trackers announce arrival peer_id urls (l_info_hash l) port") simp_all
  have ne: "addrs' \<noteq> []" using r by (auto simp: a)
  obtain m where m: "fetch_metadata_from_peers sha1 dial peer_id (l_info_hash l) addrs' = Inr m"
    using r ne by (cases "fetch_metadata_from_peers sha1 dial peer_id (l_info_hash l) addrs'") (simp_all add: a)
  obtain md where md: "m = Some md" using r ne by (cases m) (simp_all add: a m)
  obtain t' where t: "from_info_dict md (l_info_hash l) urls = Inr t'"
    using r ne by (cases "from_info_dict md (l_info_hash l) urls") (simp_all add: a m md)
  have "t' = t" "addrs' = addrs" using r ne by (simp_all add: a m md t)
  then show thesis using that [OF l urls_def] a ne m md t by simp
qed

text \<open>C6. What a magnet link resolves to is authenticated by the link. The torrent comes from
  metadata with the hash of the link, whichever peers and trackers sent it, and has that hash as its
  info hash; its peers are distinct, at least one, and all come from the answers of the trackers
  asked, the ones of the link or, without any, the public ones.\<close>

theorem resolve_magnet_authentic:
  assumes "resolve_magnet sha1 announce arrival dial peer_id uri port = Inr (t, addrs)"
  shows "\<exists>l md. parse_link uri = Inr l \<and> sha1 md = l_info_hash l \<and> t_info_hash t = l_info_hash l \<and>
    (let urls = if l_trackers l = [] then public_trackers else l_trackers l
     in from_info_dict md (l_info_hash l) urls = Inr t \<and>
        set addrs = answered_peers (map (\<lambda>u. announce u (started (l_info_hash l) peer_id port 0)) (arrival urls))) \<and>
    addrs \<noteq> [] \<and> distinct addrs"
  using assms
proof (rule resolve_magnet_cases)
  fix l urls md
  assume r: "parse_link uri = Inr l" "urls = (if l_trackers l = [] then public_trackers else l_trackers l)"
    "announce_all_trackers announce arrival peer_id urls (l_info_hash l) port = Inr addrs" "addrs \<noteq> []"
    "fetch_metadata_from_peers sha1 dial peer_id (l_info_hash l) addrs = Inr (Some md)"
    "from_info_dict md (l_info_hash l) urls = Inr t"
  have "distinct addrs" "set addrs = answered_peers (map (\<lambda>u. announce u (started (l_info_hash l) peer_id port 0)) (arrival urls))"
    using r(3) collect_responses_spec unfolding announce_all_trackers_def by blast+
  then show ?thesis
    using r fetched_hash [OF r(5)] from_info_dict_hash [OF r(6)] by (intro exI [of _ l] exI [of _ md]) (simp add: Let_def)
qed

section \<open>An honest peer\<close>

text \<open>
  What a peer with the metadata sends: its handshake, other messages, its extension handshake and the
  answers to the requests, in any order and with other messages in between.
\<close>

definition honest_stream ::
    "handshake \<Rightarrow> wire_msg option list \<Rightarrow> (bytes \<times> int) list \<Rightarrow> bytes \<Rightarrow> bytes \<Rightarrow> u8 \<Rightarrow> (nat + wire_msg option) list \<Rightarrow> bytes" where
  "honest_stream hs before exts v data sub xs =
     write_handshake hs @ concat (map write_message before) @
     write_message (Some (new_ext_handshake exts (int (length data)) v)) @
     concat (map write_message (map (metadata_message sub data) xs)) @ []"

lemma honest_peer_metadata:
  assumes "handshake_ok hs" "hs_info_hash hs = sha1 data"
    and "\<forall>m \<in> set before. msg_ok m \<and> skipped m"
    and "exts_ok exts" "(str ''ut_metadata'', ut_id) \<in> set exts" "ut_id \<noteq> 0" "small v"
    and "msg_ok (Some (new_ext_handshake exts (int (length data)) v))"
    and "data \<noteq> []" "length data < 2 ^ 48"
    and "\<forall>x \<in> set xs. case x of Inl i \<Rightarrow> i < num_metadata_pieces (length data) | Inr m \<Rightarrow> never_metadata m"
    and "\<forall>i < num_metadata_pieces (length data). Inl i \<in> set xs"
  shows "peer_metadata sha1 peer_id (sha1 data) (honest_stream hs before exts v data sub xs) = Inr data"
proof -
  let ?rest = "concat (map write_message (map (metadata_message sub data) xs)) @ []"
  let ?ext = "\<lparr>eh_m = sort_key fst exts, eh_metadata_size = max (int (length data)) 0, eh_v = v, eh_upload_only = False\<rparr>"
  have "int (length data) < 2 ^ 48" using assms(10) by simp
  then have sz: "in_int64 (int (length data))" by (simp add: in_int64_def)
  have "distinct (map fst (sort_key fst exts))" "(str ''ut_metadata'', ut_id) \<in> set (sort_key fst exts)"
    using assms(4,5) by (simp_all add: exts_ok_def distinct_map_sort_key)
  then have ut: "map_of (eh_m ?ext) (str ''ut_metadata'') = Some ut_id" by (simp del: str_Cons)
  obtain rest' where f: "fetch_metadata sha1 (Some ?ext) (sha1 data) ?rest = Inr (data, rest')"
    using fetch_metadata_answers [OF assms(9,10) ut assms(6) _ assms(11,12), of sha1 sub "[]"] by auto
  have "read_ext_handshake (concat (map write_message before) @
      write_message (Some (new_ext_handshake exts (int (length data)) v)) @ ?rest) = Inr (?ext, ?rest)"
    by (rule read_exchanged [OF assms(3,4,7) sz assms(8)])
  then show ?thesis
    using f ut assms(6) supports_advertise(1) [of "hs_reserved hs"] assms(1,2)
    by (simp add: peer_metadata_def honest_stream_def do_handshake_def read_write_handshake handshake_ok_def del: str_Cons append_Nil2)
qed

section \<open>A sample\<close>

text \<open>A torrent of one byte, with a hash function that knows its info dictionary and its piece.\<close>

definition sample_info :: bdict where
  "sample_info = [(str ''length'', BInt 1), (str ''name'', BString [97]), (str ''piece length'', BInt 1),
     (str ''pieces'', BString (replicate 20 2))]"

definition sample_md :: bytes where
  "sample_md = encode (BDict sample_info)"

definition sample_sha1 :: "bytes \<Rightarrow> bytes" where
  "sample_sha1 b = (if b = sample_md then replicate 20 1 else if b = [7] then replicate 20 2 else replicate 20 3)"

definition sample_magnet :: link where
  "sample_magnet = \<lparr>l_info_hash = replicate 20 1, l_name = [], l_trackers = [[116]], l_select_only = []\<rparr>"

definition sample_announce :: announcer where
  "sample_announce u p = Inr \<lparr>r_interval = 0, r_peers = [\<lparr>tp_ip = [10, 0, 0, 1], tp_port = 6881\<rparr>], r_complete = 1,
     r_incomplete = 0, r_external_ip = []\<rparr>"

definition sample_dial :: "bytes \<Rightarrow> bytes res" where
  "sample_dial a = Inr (honest_stream \<lparr>hs_info_hash = replicate 20 1, hs_peer_id = replicate 20 0, hs_reserved = replicate 8 0\<rparr>
     [] [(str ''ut_metadata'', 1)] [] sample_md 1 [Inl 0])"

definition one_byte :: torrent where
  "one_byte = \<lparr>t_announce = [116], t_announce_list = [], t_url_list = [], t_http_seeds = [], t_info_hash = replicate 20 1,
     t_name = [97], t_piece_length = 1, t_pieces = [replicate 20 2], t_length = 1, t_files = [], t_private = False\<rparr>"

lemma sample_wf: "wf_value (BDict sample_info)"
  by (simp add: sample_info_def small_def)

lemma sample_parse: "from_info_dict sample_md (replicate 20 1) [[116]] = Inr one_byte"
proof -
  have "decode sample_md = Inr (BDict (norm_dict sample_info))"
    unfolding sample_md_def by (rule decode_encode_dict [OF sample_wf])
  moreover have "parse_info (new_torrent [116] [] [] [] (replicate 20 1)) (norm_dict sample_info) =
      parse_info (new_torrent [116] [] [] [] (replicate 20 1)) sample_info"
    by (rule parse_info_norm [OF sample_wf])
  moreover have "parse_info (new_torrent [116] [] [] [] (replicate 20 1)) sample_info = Inr one_byte"
    by (simp add: parse_info_def parse_layout_def dict_string_def dict_int_def dict_get_def get_int_def sample_info_def
        hash_len_def decode_indexed_def new_torrent_def one_byte_def)
  ultimately show ?thesis by (simp add: from_info_dict_def)
qed

lemma sample_length: "length sample_md = 71"
  by (simp add: sample_md_def sample_info_def enc_entry_def enc_string_def append_string_def itoa_def dec_digits.simps)

lemma sample_resolved:
  "parse_link (link_string sample_magnet) = Inr sample_magnet"
  "resolve_magnet sample_sha1 sample_announce (\<lambda>us. us) sample_dial [] (link_string sample_magnet) 6881 =
     Inr (one_byte, [tp_addr \<lparr>tp_ip = [10, 0, 0, 1], tp_port = 6881\<rparr>])"
proof -
  have "link_ok sample_magnet" by (simp add: link_ok_def sample_magnet_def)
  from parse_link_string [OF this] show l: "parse_link (link_string sample_magnet) = Inr sample_magnet"
    by (simp add: sample_magnet_def)
  have n: "num_metadata_pieces (length sample_md) = 1"
    unfolding num_metadata_pieces_def metadata_piece_size_def using sample_length by (intro div_nat_eqI) simp_all
  have "sample_md \<noteq> []" using sample_length by auto
  have h: "sample_sha1 sample_md = replicate 20 1" by (simp add: sample_sha1_def)
  have "peer_metadata sample_sha1 [] (sample_sha1 sample_md)
      (honest_stream \<lparr>hs_info_hash = replicate 20 1, hs_peer_id = replicate 20 0, hs_reserved = replicate 8 0\<rparr>
        [] [(str ''ut_metadata'', 1)] [] sample_md 1 [Inl 0]) = Inr sample_md"
  proof (rule honest_peer_metadata [where ut_id = 1])
    show "msg_ok (Some (new_ext_handshake [(str ''ut_metadata'', 1)] (int (length sample_md)) []))"
      by (simp add: sample_length msg_ok_def new_ext_handshake_def new_ext_message_def msg_def ext_dict_eq
          max_message_len_def enc_entry_def enc_string_def append_string_def itoa_def dec_digits.simps)
  qed (use n h sample_length \<open>sample_md \<noteq> []\<close> in \<open>simp_all add: handshake_ok_def exts_ok_def small_def in_int64_def\<close>)
  then show "resolve_magnet sample_sha1 sample_announce (\<lambda>us. us) sample_dial [] (link_string sample_magnet) 6881 =
      Inr (one_byte, [tp_addr \<lparr>tp_ip = [10, 0, 0, 1], tp_port = 6881\<rparr>])"
    using l sample_parse h
    by (simp add: resolve_magnet_def sample_magnet_def announce_all_trackers_def collect_responses_def sample_announce_def
        merge_new_def sample_dial_def)
qed

theorem resolve_magnet_authentic_witness:
  "\<exists>md. sample_sha1 md = replicate 20 1 \<and> t_info_hash one_byte = replicate 20 1"
  using resolve_magnet_authentic [OF sample_resolved(2)] sample_resolved(1) by (auto simp: sample_magnet_def)

section \<open>Private torrents\<close>

text \<open>A private torrent stays off the DHT, whatever the options: the lookup is not used for peers, no
  node is kept to announce the completion, and the download is the same for every outcome of it. Every
  download that starts has a peer or a web seed, and its peers are those of the trackers and,
  for other torrents, of the DHT.\<close>

theorem private_stays_private:
  assumes "run_download peer_id opts (Inr (t, addrs)) dht ready = Inr (cfg, node)"
  shows "dc_torrent cfg = t \<and> (dc_peers cfg \<noteq> [] \<or> dc_web_seeds cfg \<noteq> []) \<and>
    set (dc_peers cfg) \<subseteq> set addrs \<union> set (fst dht) \<and>
    (is_private t \<or> op_no_dht opts \<longrightarrow> node = None \<and> dc_peers cfg = addrs \<and>
       (\<forall>dht' ready'. run_download peer_id opts (Inr (t, addrs)) dht' ready' = Inr (cfg, None)))"
  using assms by (auto simp: run_download_def Let_def split: if_splits)

theorem private_stays_private_witness:
  "\<exists>cfg. run_download [] \<lparr>op_output = [], op_port = 6881, op_max_peers = 30, op_quiet = True, op_no_dht = False\<rparr>
      (Inr ((new_torrent [] [] [] [] [])\<lparr>t_private := True\<rparr>, [[1]])) ([[2]], None) True = Inr (cfg, None) \<and> dc_peers cfg = [[1]]"
proof -
  let ?t = "(new_torrent [] [] [] [] [])\<lparr>t_private := True\<rparr>"
  let ?o = "\<lparr>op_output = [], op_port = 6881, op_max_peers = 30, op_quiet = True, op_no_dht = False\<rparr>"
  obtain cfg node where r: "run_download [] ?o (Inr (?t, [[1]])) ([[2]], None) True = Inr (cfg, node)"
    by (simp add: run_download_def is_private_def new_torrent_def)
  moreover have "node = None \<and> dc_peers cfg = [[1]]"
    using private_stays_private [OF r] by (simp add: is_private_def)
  ultimately show ?thesis by blast
qed

section \<open>Where the code goes wrong\<close>

text \<open>A torrent with HTTP seeds only is refused, although the download could use them.\<close>

lemma http_seeds_ignored:
  "is_private t \<Longrightarrow> t_url_list t = [] \<Longrightarrow> t_http_seeds t = [seed] \<Longrightarrow>
    run_download peer_id opts (Inr (t, [])) dht ready = Inl (Fail ''no peers found in swarm'')"
  by (simp add: run_download_def Let_def)

text \<open>When the download waits for the DHT, or starts before it answers, the node is not kept: the completion is never announced.\<close>

lemma waiting_forgets_node:
  "run_download peer_id opts (Inr (t, addrs)) dht ready = Inr (cfg, Some d) \<Longrightarrow>
    ready \<and> (addrs \<noteq> [] \<or> t_url_list t \<noteq> [])"
  by (auto simp: run_download_def Let_def split: if_splits)

text \<open>A peer that announces metadata too large for memory ends the program.\<close>

lemma metadata_panic:
  assumes "dial a = Inr input" "peer_metadata sha1 peer_id h input = Inl Panic"
  shows "fetch_metadata_from_peers sha1 dial peer_id h (a # addrs) = Inl Panic"
  using assms by simp

end
