(* ===== verification/GoFlag.thy ===== *)
theory GoFlag
  imports GoStrings
begin

text \<open>
  Command-line flags (Go's package \<open>flag\<close>): the values that flags take (\<open>strconv.ParseBool\<close>, and
  \<open>strconv.ParseInt\<close> with base 0) and \<open>FlagSet.Parse\<close>, which stops at the first argument that is
  not a flag. A flag set is a list of names with the kinds of their values; parsing returns the values in the
  order of the arguments, of which the last one of a name counts.
\<close>

section \<open>Values\<close>

datatype flag_kind = Bool_Flag | Int_Flag | String_Flag

datatype flag_value = Bool_Value bool | Int_Value int | String_Value bytes

definition parse_bool :: "bytes \<Rightarrow> bool option" where
  "parse_bool s =
     (if s \<in> set (map str [''1'', ''t'', ''T'', ''TRUE'', ''true'', ''True'']) then Some True
      else if s \<in> set (map str [''0'', ''f'', ''F'', ''FALSE'', ''false'', ''False'']) then Some False
      else None)"

text \<open>The digits of a number in a base up to 36, between which underscores may stand.\<close>

definition to_lower :: "u8 \<Rightarrow> u8" where
  "to_lower c = c OR 32"

definition digit_val :: "u8 \<Rightarrow> nat option" where
  "digit_val c =
     (if is_digit c then Some (unat c - 48)
      else if 97 \<le> to_lower c \<and> to_lower c \<le> 122 then Some (unat (to_lower c) - 87)
      else None)"

primrec base_val :: "nat \<Rightarrow> nat \<Rightarrow> bytes \<Rightarrow> nat option" where
  "base_val base acc [] = Some acc"
| "base_val base acc (c # cs) =
     (if c = 95 then base_val base acc cs
      else case digit_val c of
        None \<Rightarrow> None
      | Some d \<Rightarrow> if base \<le> d then None else base_val base (acc * base + d) cs)"

text \<open>The base that a prefix names, and the digits after the prefix; a leading zero alone means octal.\<close>

definition split_base :: "bytes \<Rightarrow> nat \<times> bytes" where
  "split_base s =
     (if starts_with 48 s then
        (if 3 \<le> length s \<and> to_lower (s ! 1) = 98 then (2, drop 2 s)
         else if 3 \<le> length s \<and> to_lower (s ! 1) = 111 then (8, drop 2 s)
         else if 3 \<le> length s \<and> to_lower (s ! 1) = 120 then (16, drop 2 s)
         else (8, drop 1 s))
      else (10, s))"

text \<open>\<open>underscoreOK\<close>: each underscore stands between digits, where the prefix counts as one.\<close>

primrec underscore_scan :: "bool \<Rightarrow> u8 \<Rightarrow> bytes \<Rightarrow> bool" where
  "underscore_scan hex saw [] \<longleftrightarrow> saw \<noteq> 95"
| "underscore_scan hex saw (c # cs) \<longleftrightarrow>
     (if is_digit c \<or> hex \<and> 97 \<le> to_lower c \<and> to_lower c \<le> 102 then underscore_scan hex 48 cs
      else if c = 95 then saw = 48 \<and> underscore_scan hex 95 cs
      else saw \<noteq> 95 \<and> underscore_scan hex 33 cs)"

definition underscore_ok :: "bytes \<Rightarrow> bool" where
  "underscore_ok s \<longleftrightarrow>
     (if starts_with 48 s \<and> 2 \<le> length s \<and> to_lower (s ! 1) \<in> {98, 111, 120}
      then underscore_scan (to_lower (s ! 1) = 120) 48 (drop 2 s)
      else underscore_scan False 94 s)"

text \<open>\<open>strconv.ParseInt(s, 0, 64)\<close>.\<close>

definition parse_int_any :: "bytes \<Rightarrow> int option" where
  "parse_int_any s =
     (let neg = starts_with 45 s;
          u = (if neg \<or> starts_with 43 s then drop 1 s else s);
          (base, ds) = split_base u
      in if u = [] then None
         else case base_val base 0 ds of
           None \<Rightarrow> None
         | Some v \<Rightarrow>
             if 95 \<in> set ds \<and> \<not> underscore_ok u then None
             else if \<not> neg \<and> 2 ^ 63 \<le> v then None
             else if neg \<and> 2 ^ 63 < v then None
             else Some (if neg then - int v else int v))"

definition flag_set_value :: "flag_kind \<Rightarrow> bytes \<Rightarrow> flag_value option" where
  "flag_set_value k s =
     (case k of
        Bool_Flag \<Rightarrow> map_option Bool_Value (parse_bool s)
      | Int_Flag \<Rightarrow> map_option Int_Value (parse_int_any s)
      | String_Flag \<Rightarrow> Some (String_Value s))"

section \<open>Parsing\<close>

type_synonym flag_set = "(bytes \<times> flag_kind) list"

type_synonym settings = "(bytes \<times> flag_value) list"

definition is_flag :: "bytes \<Rightarrow> bool" where
  "is_flag s \<longleftrightarrow> 2 \<le> length s \<and> hd s = 45"

text \<open>The name of a flag without its dashes, and the value after the first equals sign.\<close>

definition flag_name :: "bytes \<Rightarrow> bytes" where
  "flag_name s = (if s ! 1 = 45 then drop 2 s else drop 1 s)"

definition split_value :: "bytes \<Rightarrow> bytes \<times> bytes option" where
  "split_value name =
     (case index_byte 61 name of None \<Rightarrow> (name, None) | Some i \<Rightarrow> (take i name, Some (drop (i + 1) name)))"

definition keep_setting ::
    "bytes \<Rightarrow> flag_value option \<Rightarrow> (settings \<times> bytes list) res \<Rightarrow> (settings \<times> bytes list) res" where
  "keep_setting name v r =
     (case v of
        None \<Rightarrow> Inl (Fail ''invalid value'')
      | Some v \<Rightarrow> (case r of Inl e \<Rightarrow> Inl e | Inr (sets, rest) \<Rightarrow> Inr ((name, v) # sets, rest)))"

fun parse_flags :: "flag_set \<Rightarrow> bytes list \<Rightarrow> (settings \<times> bytes list) res" where
  "parse_flags fs [] = Inr ([], [])"
| "parse_flags fs (s # args) =
     (if \<not> is_flag s then Inr ([], s # args)
      else if s = [45, 45] then Inr ([], args)
      else if flag_name s = [] \<or> hd (flag_name s) = 45 \<or> hd (flag_name s) = 61 then Inl (Fail ''bad flag syntax'')
      else
        let (name, value) = split_value (flag_name s)
        in case map_of fs name of
             None \<Rightarrow> Inl (if name = str ''help'' \<or> name = str ''h'' then Fail ''help'' else Fail ''flag not defined'')
           | Some k \<Rightarrow>
               if k = Bool_Flag then
                 keep_setting name (flag_set_value k (case value of None \<Rightarrow> str ''true'' | Some v \<Rightarrow> v)) (parse_flags fs args)
               else (case value of
                       Some v \<Rightarrow> keep_setting name (flag_set_value k v) (parse_flags fs args)
                     | None \<Rightarrow>
                         (case args of
                            [] \<Rightarrow> Inl (Fail ''flag needs an argument'')
                          | v # args' \<Rightarrow> keep_setting name (flag_set_value k v) (parse_flags fs args'))))"

declare parse_flags.simps(2) [simp del]

text \<open>The value of a flag after parsing.\<close>

definition string_setting :: "settings \<Rightarrow> string \<Rightarrow> bytes \<Rightarrow> bytes" where
  "string_setting sets name dflt =
     (case map_of (rev sets) (str name) of Some (String_Value s) \<Rightarrow> s | _ \<Rightarrow> dflt)"

definition int_setting :: "settings \<Rightarrow> string \<Rightarrow> int \<Rightarrow> int" where
  "int_setting sets name dflt =
     (case map_of (rev sets) (str name) of Some (Int_Value i) \<Rightarrow> i | _ \<Rightarrow> dflt)"

definition bool_setting :: "settings \<Rightarrow> string \<Rightarrow> bool \<Rightarrow> bool" where
  "bool_setting sets name dflt =
     (case map_of (rev sets) (str name) of Some (Bool_Value b) \<Rightarrow> b | _ \<Rightarrow> dflt)"

section \<open>Laws\<close>

text \<open>Nothing after the first argument that is no flag is read as a flag.\<close>

lemma parse_flags_stop: "\<not> is_flag s \<Longrightarrow> parse_flags fs (s # args) = Inr ([], s # args)"
  by (simp add: parse_flags.simps(2))

text \<open>A flag written \<open>-name=value\<close>, whatever the value, reads back.\<close>

definition flag_arg :: "bytes \<Rightarrow> bytes \<Rightarrow> bytes" where
  "flag_arg name v = 45 # name @ 61 # v"

definition flag_word :: "bytes \<Rightarrow> bool" where
  "flag_word name \<longleftrightarrow> name \<noteq> [] \<and> hd name \<noteq> 45 \<and> 61 \<notin> set name"

lemma parse_flag_arg:
  assumes "flag_word name" "map_of fs name = Some k" "flag_set_value k v = Some x"
  shows "parse_flags fs (flag_arg name v # args) = keep_setting name (Some x) (parse_flags fs args)"
proof -
  obtain c cs where c: "name = c # cs" "c \<noteq> 45" "c \<noteq> 61"
    using assms(1) by (cases name) (auto simp: flag_word_def)
  have n: "flag_name (flag_arg name v) = name @ 61 # v" using c by (simp add: flag_name_def flag_arg_def)
  have "61 \<notin> set name" using assms(1) by (simp add: flag_word_def)
  then have sv: "split_value (name @ 61 # v) = (name, Some v)" by (simp add: split_value_def index_byte_first)
  have "is_flag (flag_arg name v)" "flag_arg name v \<noteq> [45, 45]" using c by (simp_all add: is_flag_def flag_arg_def)
  moreover have "\<not> (name @ 61 # v = [] \<or> hd (name @ 61 # v) = 45 \<or> hd (name @ 61 # v) = 61)" using c by simp
  ultimately show ?thesis
    using assms(2,3) by (cases "k = Bool_Flag") (simp_all add: parse_flags.simps(2) n sv)
qed

lemma parse_flag_args:
  assumes "\<forall>(n, v, x) \<in> set sets. flag_word n \<and> (\<exists>k. map_of fs n = Some k \<and> flag_set_value k v = Some x)"
    and "rest = [] \<or> \<not> is_flag (hd rest)"
  shows "parse_flags fs (map (\<lambda>(n, v, x). flag_arg n v) sets @ rest) = Inr (map (\<lambda>(n, v, x). (n, x)) sets, rest)"
  using assms(1)
proof (induction sets)
  case Nil
  then show ?case using assms(2) by (cases rest) (simp_all add: parse_flags_stop)
next
  case (Cons s sets)
  obtain n v x where s: "s = (n, v, x)" by (cases s)
  with Cons.prems obtain k where "flag_word n" "map_of fs n = Some k" "flag_set_value k v = Some x" by auto
  from parse_flag_arg [OF this] Cons show ?case by (simp add: s keep_setting_def)
qed

text \<open>A decimal number without a leading zero reads back.\<close>

lemma to_lower_digit: "is_digit c \<Longrightarrow> digit_val c = Some (unat c - 48)"
  by (simp add: digit_val_def)

lemma base_val_digits: "\<forall>c \<in> set ds. is_digit c \<Longrightarrow> base_val 10 acc ds = dec_val_acc acc ds"
proof (induction ds arbitrary: acc)
  case (Cons c ds)
  then have "is_digit c" "unat c - 48 < 10" "c \<noteq> 95" by (auto simp: is_digit_unat)
  with Cons show ?case by (simp add: to_lower_digit mult.commute)
qed simp

lemma parse_int_any_itoa:
  assumes "0 < i" "i < 2 ^ 63"
  shows "parse_int_any (itoa i) = Some i"
proof -
  define ds where "ds = dec_digits (nat i)"
  have ds: "itoa i = ds" "ds \<noteq> []" "\<forall>c \<in> set ds. is_digit c"
    using assms(1) set_dec_digits by (simp_all add: itoa_def ds_def)
  then obtain c cs where c: "ds = c # cs" "is_digit c" by (cases ds) auto
  moreover have "c \<noteq> 48" using hd_dec_digits_zero [of "nat i"] assms(1) c(1) by (auto simp: ds_def)
  moreover have "base_val 10 0 ds = Some (nat i)" using base_val_digits [OF ds(3)] by (simp add: ds_def)
  moreover have "95 \<notin> set ds" using ds(3) by (auto simp: is_digit_def)
  ultimately show ?thesis
    using assms by (simp add: parse_int_any_def ds(1) starts_with_def split_base_def)
qed

end
