(* ===== verification/CliArgs.thy ===== *)
theory CliArgs
  imports Cli GoFlag
begin

text \<open>
  The arguments of the commands (\<open>cmd/peer-pressure/main.go\<close>): the flag set of each command, its defaults
  and its positional arguments, and the commands from their arguments on. An argument error, which ends the
  program with a usage text, is \<open>Inl\<close>.
\<close>

section \<open>Flag sets\<close>

text \<open>\<open>fs.Parse\<close>, then \<open>fs.NArg\<close> and \<open>fs.Arg\<close>.\<close>

definition command_args :: "flag_set \<Rightarrow> nat \<Rightarrow> bytes list \<Rightarrow> (settings \<times> bytes list) res" where
  "command_args fs n args =
     (case parse_flags fs args of
        Inl e \<Rightarrow> Inl e
      | Inr (sets, rest) \<Rightarrow> if length rest < n then Inl (Fail ''usage'') else Inr (sets, rest))"

definition info_args :: "bytes list \<Rightarrow> bytes res" where
  "info_args args = (case command_args [] 1 args of Inl e \<Rightarrow> Inl e | Inr (_, rest) \<Rightarrow> Inr (hd rest))"

definition peers_flags :: flag_set where
  "peers_flags = [(str ''port'', Int_Flag), (str ''no-dht'', Bool_Flag)]"

definition peers_args :: "bytes list \<Rightarrow> (int \<times> bool \<times> bytes) res" where
  "peers_args args =
     (case command_args peers_flags 1 args of
        Inl e \<Rightarrow> Inl e
      | Inr (sets, rest) \<Rightarrow> Inr (int_setting sets ''port'' 6881, bool_setting sets ''no-dht'' False, hd rest))"

definition download_flags :: flag_set where
  "download_flags =
     [(str ''o'', String_Flag), (str ''port'', Int_Flag), (str ''peers'', Int_Flag), (str ''q'', Bool_Flag),
      (str ''no-dht'', Bool_Flag)]"

definition download_args :: "bytes list \<Rightarrow> (download_opts \<times> bytes) res" where
  "download_args args =
     (case command_args download_flags 1 args of
        Inl e \<Rightarrow> Inl e
      | Inr (sets, rest) \<Rightarrow>
          Inr (\<lparr>op_output = string_setting sets ''o'' [], op_port = int_setting sets ''port'' 6881,
                op_max_peers = int_setting sets ''peers'' 30, op_quiet = bool_setting sets ''q'' False,
                op_no_dht = bool_setting sets ''no-dht'' False\<rparr>, hd rest))"

record seed_opts =
  so_torrent :: bytes
  so_data :: bytes
  so_listen :: bytes
  so_max_conns :: int
  so_upload_slots :: int

definition seed_flags :: flag_set where
  "seed_flags = [(str ''listen'', String_Flag), (str ''max-conns'', Int_Flag), (str ''upload-slots'', Int_Flag)]"

definition seed_args :: "bytes list \<Rightarrow> seed_opts res" where
  "seed_args args =
     (case command_args seed_flags 2 args of
        Inl e \<Rightarrow> Inl e
      | Inr (sets, rest) \<Rightarrow>
          Inr \<lparr>so_torrent = rest ! 0, so_data = rest ! 1, so_listen = string_setting sets ''listen'' (str '':6881''),
               so_max_conns = int_setting sets ''max-conns'' 50, so_upload_slots = int_setting sets ''upload-slots'' 4\<rparr>)"

text \<open>\<open>filepath.Base\<close>.\<close>

definition base_name :: "bytes \<Rightarrow> bytes" where
  "base_name path =
     (if path = [] then [46]
      else let p = rev (dropWhile (\<lambda>c. c = 47) (rev path))
           in if p = [] then [47] else rev (takeWhile (\<lambda>c. c \<noteq> 47) (rev p)))"

record create_command_opts =
  cc_path :: bytes
  cc_output :: bytes
  cc_opts :: create_opts

definition create_flags :: flag_set where
  "create_flags =
     [(str ''t'', String_Flag), (str ''o'', String_Flag), (str ''piece-size'', Int_Flag), (str ''private'', Bool_Flag),
      (str ''comment'', String_Flag)]"

definition create_args :: "bytes list \<Rightarrow> create_command_opts res" where
  "create_args args =
     (case command_args create_flags 1 args of
        Inl e \<Rightarrow> Inl e
      | Inr (sets, rest) \<Rightarrow>
          if string_setting sets ''t'' [] = [] then Inl (Fail ''tracker URL is required'')
          else
            let path = hd rest; out = string_setting sets ''o'' []
            in Inr \<lparr>cc_path = path, cc_output = (if out = [] then base_name path @ str ''.torrent'' else out),
                    cc_opts = \<lparr>o_tracker = string_setting sets ''t'' [], o_trackers = [],
                      o_piece_length = int_setting sets ''piece-size'' 0, o_private = bool_setting sets ''private'' False,
                      o_comment = string_setting sets ''comment'' [], o_web_seeds = [], o_created_by = []\<rparr>\<rparr>)"

section \<open>Commands from their arguments on\<close>

definition info_command :: "(bytes \<Rightarrow> bytes) \<Rightarrow> (real \<Rightarrow> real) \<Rightarrow> source_env \<Rightarrow> bytes list \<Rightarrow> bytes res" where
  "info_command sha1 rnd src args =
     (case info_args args of
        Inl e \<Rightarrow> Inl e
      | Inr path \<Rightarrow> (case load sha1 src path of Inl e \<Rightarrow> Inl e | Inr t \<Rightarrow> Inr (torrent_string rnd t)))"

definition peers_command ::
    "(bytes \<Rightarrow> bytes) \<Rightarrow> source_env \<Rightarrow> announcer \<Rightarrow> (bytes list \<Rightarrow> bytes list) \<Rightarrow> bytes \<Rightarrow> (bytes \<Rightarrow> bytes list) \<Rightarrow>
      bytes list \<Rightarrow> bytes list res" where
  "peers_command sha1 src announce arrival peer_id dht args =
     (case peers_args args of
        Inl e \<Rightarrow> Inl e
      | Inr (port, no_dht, path) \<Rightarrow>
          (case load sha1 src path of
             Inl e \<Rightarrow> Inl e
           | Inr t \<Rightarrow>
               (case announce_all announce arrival peer_id t (word_of_int port) of
                  Inl e \<Rightarrow> Inl e
                | Inr addrs \<Rightarrow> Inr (run_peers no_dht t addrs (dht (t_info_hash t))))))"

definition download_command ::
    "(bytes \<Rightarrow> bytes) \<Rightarrow> source_env \<Rightarrow> announcer \<Rightarrow> (bytes list \<Rightarrow> bytes list) \<Rightarrow> (bytes \<Rightarrow> bytes res) \<Rightarrow> bytes \<Rightarrow>
      bytes list \<times> dht option \<Rightarrow> bool \<Rightarrow> bytes list \<Rightarrow> (download_config \<times> dht option) res" where
  "download_command sha1 src announce arrival dial peer_id dht ready args =
     (case download_args args of
        Inl e \<Rightarrow> Inl e
      | Inr (opts, arg) \<Rightarrow>
          run_download peer_id opts
            (download_source sha1 src announce arrival dial peer_id arg (word_of_int (op_port opts))) dht ready)"

text \<open>What the seed command starts: the torrent, the layout of its verified files, the announce and the seeder.\<close>

definition seed_announce :: "bytes \<Rightarrow> torrent \<Rightarrow> (bytes \<times> announce_params) option" where
  "seed_announce peer_id t =
     (if t_announce t = [] then None else Some (t_announce t, (started (t_info_hash t) peer_id 6881 0)\<lparr>a_num_want := 0\<rparr>))"

definition seed_command ::
    "(bytes \<Rightarrow> bytes) \<Rightarrow> (bytes \<Rightarrow> bytes res) \<Rightarrow> (bytes \<Rightarrow> bytes list) \<Rightarrow> bytes \<Rightarrow> bytes list \<Rightarrow>
      (torrent \<times> file_span list \<times> (bytes \<times> announce_params) option \<times> seeder) res" where
  "seed_command sha1 read_file data_files peer_id args =
     (case seed_args args of
        Inl e \<Rightarrow> Inl e
      | Inr so \<Rightarrow>
          (case run_seed sha1 (read_file (so_torrent so)) (data_files (so_data so)) of
             Inl e \<Rightarrow> Inl e
           | Inr (t, spans) \<Rightarrow>
               Inr (t, spans, seed_announce peer_id t, new_seeder (so_max_conns so) (so_upload_slots so))))"

definition create_command ::
    "(bytes \<Rightarrow> bytes) \<Rightarrow> 64 word \<Rightarrow> (bytes \<Rightarrow> fs_node res) \<Rightarrow> bytes list \<Rightarrow> (bytes \<times> bytes \<times> torrent) res" where
  "create_command sha1 now files args =
     (case create_args args of
        Inl e \<Rightarrow> Inl e
      | Inr c \<Rightarrow>
          (case files (cc_path c) of
             Inl e \<Rightarrow> Inl e
           | Inr node \<Rightarrow>
               (case run_create sha1 now (base_name (cc_path c)) node (cc_opts c) of
                  Inl e \<Rightarrow> Inl e
                | Inr (raw, t) \<Rightarrow> Inr (cc_output c, raw, t))))"

section \<open>Options read back\<close>

text \<open>Options before the path, each written \<open>-name=value\<close>, are the options of the download.\<close>

lemma set_value_simps [simp]:
  "flag_set_value String_Flag s = Some (String_Value s)"
  "0 < i \<Longrightarrow> i < 2 ^ 63 \<Longrightarrow> flag_set_value Int_Flag (itoa i) = Some (Int_Value i)"
  by (simp_all add: flag_set_value_def parse_int_any_itoa)

lemma set_bool_value:
  "flag_set_value Bool_Flag (str ''true'') = Some (Bool_Value True)"
  "flag_set_value Bool_Flag (str ''false'') = Some (Bool_Value False)"
  by (simp_all add: flag_set_value_def parse_bool_def)

lemmas set_bool_value_bytes [simp] = set_bool_value [simplified]

lemma download_args_read:
  assumes "0 < port" "port < 2 ^ 63" "0 < peers" "peers < 2 ^ 63" "\<not> is_flag path"
  shows "download_args
      [flag_arg (str ''o'') out, flag_arg (str ''port'') (itoa port), flag_arg (str ''peers'') (itoa peers),
       flag_arg (str ''q'') (if quiet then str ''true'' else str ''false''),
       flag_arg (str ''no-dht'') (if no_dht then str ''true'' else str ''false''), path] =
    Inr (\<lparr>op_output = out, op_port = port, op_max_peers = peers, op_quiet = quiet, op_no_dht = no_dht\<rparr>, path)"
proof -
  let ?bool = "\<lambda>b. if b then str ''true'' else str ''false''"
  define sets where "sets =
    [(str ''o'', out, String_Value out), (str ''port'', itoa port, Int_Value port),
     (str ''peers'', itoa peers, Int_Value peers), (str ''q'', ?bool quiet, Bool_Value quiet),
     (str ''no-dht'', ?bool no_dht, Bool_Value no_dht)]"
  have "parse_flags download_flags (map (\<lambda>(n, v, x). flag_arg n v) sets @ [path]) =
      Inr (map (\<lambda>(n, v, x). (n, x)) sets, [path])"
    using assms by (intro parse_flag_args) (auto simp: sets_def download_flags_def flag_word_def)
  then show ?thesis
    by (simp add: sets_def download_args_def command_args_def string_setting_def int_setting_def bool_setting_def)
qed

section \<open>Properties\<close>

text \<open>
  C7. The download command. What it starts is the torrent of its source, and its peers come from the trackers
  and the DHT; for a private torrent, or with \<open>-no-dht\<close>, they are exactly those of the trackers, no
  DHT node is kept for announcing the completion, and the outcome is the same whatever the DHT lookup
  returns and whenever it does.
\<close>

theorem download_command_private:
  assumes "download_command sha1 src announce arrival dial peer_id dht ready args = Inr (cfg, node)"
  shows "\<exists>opts arg addrs. download_args args = Inr (opts, arg) \<and>
    download_source sha1 src announce arrival dial peer_id arg (word_of_int (op_port opts)) = Inr (dc_torrent cfg, addrs) \<and>
    (dc_peers cfg \<noteq> [] \<or> dc_web_seeds cfg \<noteq> []) \<and> set (dc_peers cfg) \<subseteq> set addrs \<union> set (fst dht) \<and>
    (is_private (dc_torrent cfg) \<or> op_no_dht opts \<longrightarrow> node = None \<and> dc_peers cfg = addrs \<and>
       (\<forall>dht' ready'. download_command sha1 src announce arrival dial peer_id dht' ready' args = Inr (cfg, None)))"
proof -
  obtain opts arg where a: "download_args args = Inr (opts, arg)"
    using assms by (auto simp: download_command_def split: sum.splits)
  let ?source = "download_source sha1 src announce arrival dial peer_id arg (word_of_int (op_port opts))"
  have run: "download_command sha1 src announce arrival dial peer_id dht ready args = run_download peer_id opts ?source dht ready"
    for dht ready by (simp add: download_command_def a)
  obtain t addrs where s: "?source = Inr (t, addrs)"
    using assms run by (cases ?source) (auto simp: run_download_def)
  have r: "run_download peer_id opts (Inr (t, addrs)) dht ready = Inr (cfg, node)" using assms run s by simp
  note p = private_stays_private [OF r]
  then have "dc_torrent cfg = t" by blast
  with a s p run show ?thesis by (intro exI [of _ opts] exI [of _ arg] exI [of _ addrs]) simp
qed

text \<open>The magnet link of a torrent of one byte, with the DHT switched off.\<close>

definition sample_args :: "bytes list" where
  "sample_args = [flag_arg (str ''no-dht'') (str ''true''), link_string sample_magnet]"

lemma sample_link_chars: "\<not> is_flag (link_string sample_magnet)" "has_prefix (link_string sample_magnet) ''magnet:?''"
  by (simp_all add: is_flag_def link_string_def sample_magnet_def has_prefix_def)

lemma sample_download_args:
  "download_args sample_args =
     Inr (\<lparr>op_output = [], op_port = 6881, op_max_peers = 30, op_quiet = False, op_no_dht = True\<rparr>, link_string sample_magnet)"
proof -
  have "parse_flags download_flags (map (\<lambda>(n, v, x). flag_arg n v) [(str ''no-dht'', str ''true'', Bool_Value True)] @
      [link_string sample_magnet]) = Inr ([(str ''no-dht'', Bool_Value True)], [link_string sample_magnet])"
    using sample_link_chars(1) by (subst parse_flag_args) (simp_all add: download_flags_def flag_word_def)
  then show ?thesis
    by (simp add: sample_args_def download_args_def command_args_def string_setting_def int_setting_def bool_setting_def)
qed

theorem download_command_private_witness:
  "\<forall>src dht ready. \<exists>cfg. download_command sample_sha1 src sample_announce (\<lambda>us. us) sample_dial [] dht ready sample_args = Inr (cfg, None) \<and>
     dc_torrent cfg = one_byte \<and> dc_peers cfg = [tp_addr \<lparr>tp_ip = [10, 0, 0, 1], tp_port = 6881\<rparr>]"
proof (intro allI)
  fix src dht ready
  obtain cfg node where r: "download_command sample_sha1 src sample_announce (\<lambda>us. us) sample_dial [] dht ready sample_args = Inr (cfg, node)"
    using sample_resolved(2) sample_link_chars(2)
    by (auto simp: download_command_def sample_download_args download_source_def run_download_def Let_def)
  from download_command_private [OF r] r show "\<exists>cfg. download_command sample_sha1 src sample_announce (\<lambda>us. us) sample_dial [] dht ready sample_args = Inr (cfg, None) \<and>
     dc_torrent cfg = one_byte \<and> dc_peers cfg = [tp_addr \<lparr>tp_ip = [10, 0, 0, 1], tp_port = 6881\<rparr>]"
    using sample_resolved(2) sample_link_chars(2) by (auto simp: sample_download_args download_source_def)
qed

section \<open>Where the documentation departs from the code\<close>

text \<open>
  Parsing stops at the first argument that is no flag, so options after the paths are not options: the
  documented call \<open>create <path> -t <tracker_url>\<close> ends with the complaint that the tracker is missing, and the
  seeder listens on its default address whatever follows the paths.
\<close>

lemma create_options_after_path:
  "\<not> is_flag path \<Longrightarrow> create_args (path # args) = Inl (Fail ''tracker URL is required'')"
  by (simp add: create_args_def command_args_def parse_flags_stop string_setting_def)

lemma seed_options_after_paths:
  "\<not> is_flag path \<Longrightarrow> seed_args (path # data # args) =
    Inr \<lparr>so_torrent = path, so_data = data, so_listen = str '':6881'', so_max_conns = 50, so_upload_slots = 4\<rparr>"
  by (simp add: seed_args_def command_args_def parse_flags_stop string_setting_def int_setting_def)

text \<open>The seeder announces the default port to the tracker, whatever address it listens on.\<close>

lemma seed_announces_default_port:
  "seed_command sha1 read_file data_files peer_id args = Inr (t, spans, Some (u, p), s) \<Longrightarrow> a_port p = 6881"
  by (auto simp: seed_command_def seed_announce_def started_def split: sum.splits if_splits)

end
