(* ===== verification/Spec2Isabelle.thy ===== *)
theory Spec2Isabelle
  imports Bencode DhtTable DhtKrpc DhtNode DhtStore DhtSecurity PeerWire PeerExt PeerConn Picker Piece Merkle
    Torrent TorrentCreate Pex Tracker Magnet Metadata Utp WorkerSession Seeder LsdService Discovery Throttle Progress TorrentInfo CliArgs
begin

text \<open>
  A verification development of Peer Pressure, the BitTorrent client in \<open>src/peer-pressure\<close> (Go). All file
  names below are relative to that directory.

  \<^bold>\<open>The program.\<close> The commands of \<open>cmd/peer-pressure/main.go\<close> put the packages together. A torrent comes from a
  metainfo file (\<open>torrent\<close>) or from a magnet link (\<open>magnet\<close>), whose metadata a peer sends; both are
  bencoded (\<open>bencode\<close>) and identified by the SHA-1 of the info dictionary. Peers come from trackers over HTTP and
  UDP (\<open>tracker\<close>), from the DHT (\<open>dht\<close>), from peer exchange (\<open>pex\<close>) and from the local network (\<open>lsd\<close>), which
  \<open>discovery\<close> merges. A download (\<open>download\<close>) runs a pool of workers, one for each peer connection (\<open>peer\<close>) or
  HTTP seed; they share a piece picker, and a collector writes the verified pieces to the file. The seeder
  (\<open>seed\<close>) verifies the content on disk, accepts connections, answers requests and unchokes by turns.
  \<open>throttle\<close> limits rates, \<open>utp\<close> is the codec and the congestion controller of uTP, \<open>client\<close> names clients.

  \<^bold>\<open>How the model reads.\<close> Bytes are \<open>8 word\<close>, Go's unsigned integers words of their width, \<open>int\<close> and \<open>int64\<close> are
  \<open>int\<close> with \<open>wrap64\<close> where the source can leave the range, slices and strings are lists, structs are
  records with a prefix to their fields, maps are HOL maps or lists of pairs. An operation that can fail returns
  \<open>goerr + 'a\<close>: \<open>Inl\<close> is the error, \<open>Inl Panic\<close> a run-time panic; the texts of errors are shortened. An
  operation that changes state takes it and returns it. What holds a mutex is one atomic function; goroutines are a
  step relation (\<open>inductive\<close>) whose steps are such functions, channel operations and messages, in any
  order. Names follow the source, in lower case with underscores.

  \<^bold>\<open>The library.\<close>
  \<^item> \<open>Prelude\<close>: types, errors, slices, big-endian integers, the collections \<open>codec_simps\<close> and \<open>inv_intros\<close>.
  \<^item> \<open>Codec\<close>: the locales \<open>stream_codec\<close>, \<open>prefix_decoder\<close>, \<open>fixed_codec\<close> and \<open>exact_codec\<close>, with the laws of the
    loops over concatenated values; every wire format interprets the one it implements.
  \<^item> \<open>GoStd\<close>, \<open>GoStrings\<close>, \<open>GoNet\<close>, \<open>GoUrl\<close>, \<open>GoFlag\<close>, \<open>GoFloat\<close>, \<open>GoIO\<close>: the parts of Go's standard library that
    decide results: \<open>strconv\<close>, \<open>encoding/hex\<close>, CRC-32C, \<open>strings\<close>, \<open>net\<close> (addresses as text), \<open>net/url\<close>
    (queries), \<open>flag\<close>, \<open>float64\<close> up to rounding, and \<open>io.Writer\<close> as the locale \<open>io_writer\<close> with its interpretations
    for a connection and for \<open>bufio.Writer\<close>.

  \<^bold>\<open>Data.\<close>
  \<^item> \<open>Bencode\<close> (\<open>bencode/bencode.go\<close>): values, encoder, decoder, raw dictionaries. Round trips, canonical
    values, the exact condition of the one panic, termination because every value consumes input.
  \<^item> \<open>Torrent\<close>, \<open>TorrentInfo\<close> (\<open>torrent/torrent.go\<close>): parsing, piece lengths, trackers, loading, summary;
    \<open>TorrentCreate\<close> (\<open>torrent/create.go\<close>): hashing in streams equals hashing the concatenation, and what was
    created is parsed back, with sizes that fit when no symbolic link is among the files; \<open>Merkle\<close> (\<open>torrent/merkle.go\<close>): the layers against the recursive root, proofs, binding.
  \<^item> \<open>Magnet\<close> (\<open>magnet/magnet.go\<close>, \<open>magnet/updateable.go\<close>) and \<open>Metadata\<close> (\<open>magnet/metadata.go\<close>): links, and metadata
    that is returned only with the right size and hash, from answers in any order.
  \<^item> \<open>PeerId\<close> (\<open>client/peerid.go\<close>): identifiers of clients.

  \<^bold>\<open>Peers.\<close>
  \<^item> \<open>PeerWire\<close> (\<open>peer/message.go\<close>), \<open>PeerConn\<close> (\<open>peer/conn.go\<close>), \<open>PeerExt\<close> (the other files of \<open>peer\<close>): handshakes,
    messages, buffered connections. What one end sends the other reads, and a prefix of it wherever the sending
    breaks off.
  \<^item> \<open>Tracker\<close> (all of \<open>tracker\<close>): announces and scrapes over HTTP and UDP, and tiers. An announce to a tracker
    that follows BEP 15 returns exactly its peers.
  \<^item> \<open>DhtTable\<close>, \<open>DhtKrpc\<close>, \<open>DhtNode\<close>, \<open>DhtStore\<close>, \<open>DhtSecurity\<close> (the files of \<open>dht\<close>): the routing table with its
    invariant and the nearest nodes; the transport as a step relation in which a response reaches the call that
    asked; lookups that end for every network (locale \<open>lookup_handler\<close>); a store that holds authentic items only.
  \<^item> \<open>Pex\<close> (\<open>pex\<close>): the receiver's view refines the sender's set. \<open>Lsd\<close>, \<open>LsdService\<close> (\<open>lsd\<close>): announcements; the
    running service against a sequential one, and its end after a cancellation. \<open>Discovery\<close>
    (\<open>discovery/discovery.go\<close>): every new address is delivered once.

  \<^bold>\<open>Transfer.\<close>
  \<^item> \<open>Picker\<close> (\<open>download/picker.go\<close>): operations and the swarm of workers with its invariant. \<open>Piece\<close>
    (\<open>download/piece.go\<close>): one piece over one connection. \<open>Pipeline\<close> (\<open>download/pipeline.go\<close>) and \<open>WebSeed\<close>
    (\<open>download/webseed.go\<close>, \<open>download/httpseed.go\<close>): the sessions. \<open>Download\<close> (\<open>download/session.go\<close>): all of them with
    the collector; only verified pieces are written, and no reachable state is stuck. \<open>Pool\<close>,
    \<open>WorkerSession\<close> (\<open>download/pool.go\<close>): slots and strikes, and the sessions of the workers, which are steps of the
    download. \<open>Progress\<close> (\<open>download/progress.go\<close>): the display.
  \<^item> \<open>Seed\<close> (\<open>seed/choke.go\<close>, \<open>seed/verify.go\<close>, \<open>seed/upload.go\<close>) and \<open>Seeder\<close> (\<open>seed/seed.go\<close>): verification, replies,
    choking, and the seeder as a step relation with its limits: the accept loop, the threads of the connections
    and the choker interleave at critical sections, single accesses of a counter and visits of one connection; an
    evaluation that nothing disturbs is the sequential one (\<open>evaluation_alone\<close>).
  \<^item> \<open>Throttle\<close> (\<open>throttle/throttle.go\<close>): the bytes granted in any window, with the
    rounding errors of \<open>float64\<close>, and when \<open>Wait\<close> returns; a limited writer is an \<open>io_writer\<close>
    again (a sublocale). \<open>Utp\<close> (all of \<open>utp\<close>): packets, acknowledgements, congestion control.
  \<^item> \<open>Cli\<close> and \<open>CliArgs\<close> (\<open>cmd/peer-pressure/main.go\<close>): the commands, from their arguments on.

  This theory composes them: a torrent created from files, its magnet link, the metadata, the seeder and the
  download. The two properties here follow content from the seeder's files to the downloader's file.

  \<^bold>\<open>Arguments.\<close> Code that is not in the repository, and the outside world, are arguments: the hash functions and
  Ed25519, random bytes, clock readings, rounding of \<open>float64\<close> (\<open>rnd\<close>, with the laws \<open>ieee_rounding\<close>, or
  \<open>float64_rounding\<close> where the relative error matters), the file system (contents, directory entries, symbolic links), the HTTP client, sockets and parsing of whole URLs (the record \<open>net_env\<close>), the network of a DHT
  lookup (which queried nodes answer, in which order, with what), the bytes a peer sends, the order in
  which a map is visited or answers arrive. No property assumes anything about collisions of a hash: where they matter, the
  conclusion is the equality of the hashes, or it exhibits the two different inputs with one hash that the
  run itself has hashed (\<open>magnet_to_content\<close>, \<open>Merkle.clash\<close>).

  \<^bold>\<open>Loops.\<close> Recursions that are not structural have a measure: the unread input (decoders, readers of messages, which
  consume at least one byte per round), the remaining attempts (UDP), the distance to a bound (doublings). A
  buffered write counts its remaining bytes twice and the non-empty buffer once. DHT lookups and the allowed fast
  set are \<open>partial_function (option)\<close>; lookups are proved to return for every network, since each round queries
  identifiers that were not queried before and a network has finitely many; the fast set
  returns when the chain of its hashes goes on yielding new indices (\<open>fast_loop_returns\<close>), as in the source. The only fuel is in \<open>write_loop\<close> of a limited writer: one more than the bytes to write, which
  suffices since every chunk takes at least one byte (\<open>write_limited_spec\<close>).

  \<^bold>\<open>Not modelled.\<close> The texts printed by the commands other than the summary of a torrent and the progress display,
  usage texts, log output and the wording of wrapped errors; \<open>RemoteAddr\<close> and other accessors of the operating
  system; the reading of a file system that fails in the middle of a file; the lengths
  of deadlines and timers (a deadline that passes is a read error or the end of the input, a timer may fire
  whenever it is awaited); data races, that is, accesses outside of a mutex that Go's memory model leaves open: a
  field that is shared without a mutex (the choke state of a connection) is read and written atomically.
\<close>

section \<open>One torrent, by its file and by its magnet link\<close>

text \<open>Two torrents with the same info dictionary.\<close>

definition same_info :: "torrent \<Rightarrow> torrent \<Rightarrow> bool" where
  "same_info t t' \<longleftrightarrow>
     t_name t' = t_name t \<and> t_piece_length t' = t_piece_length t \<and> t_pieces t' = t_pieces t \<and>
     t_length t' = t_length t \<and> t_files t' = t_files t \<and> t_private t' = t_private t"

lemma same_info_sizes:
  assumes "same_info t t'"
  shows "total_length t' = total_length t" "piece_len t' = piece_len t" "piece_start t' = piece_start t"
    "well_sized t' = well_sized t" "content_ok t' cs = content_ok t cs" "piece_data t' cs = piece_data t cs"
proof -
  show total: "total_length t' = total_length t" using assms by (simp add: same_info_def total_length_def is_single_file_def)
  show pl: "piece_len t' = piece_len t" using assms total by (simp add: fun_eq_iff same_info_def piece_len_def)
  show st: "piece_start t' = piece_start t" using assms by (simp add: fun_eq_iff same_info_def piece_start_def)
  show "well_sized t' = well_sized t" using assms total by (simp add: same_info_def well_sized_def)
  show "content_ok t' cs = content_ok t cs" using assms by (simp add: same_info_def content_ok_def)
  show "piece_data t' cs = piece_data t cs" using pl st by (simp add: fun_eq_iff piece_data_def)
qed

lemma parse_layout_same:
  "same_info t u \<Longrightarrow> parse_layout t info = Inr t' \<Longrightarrow> \<exists>u'. parse_layout u info = Inr u' \<and> same_info t' u'"
  by (auto simp: parse_layout_def same_info_def Let_def split: sum.splits option.splits if_splits)

lemma parse_info_same:
  assumes "same_info t u" "parse_info t info = Inr t'"
  shows "\<exists>u'. parse_info u info = Inr u' \<and> same_info t' u'"
proof -
  obtain name pl ps where d: "dict_string info ''name'' = Inr name" "dict_int info ''piece length'' = Inr pl"
    "dict_get info ''pieces'' = Some (BString ps)" "length ps mod hash_len = 0"
    using assms(2) by (auto simp: parse_info_def split: sum.splits option.splits bvalue.splits if_splits)
  let ?set = "\<lambda>t. t\<lparr>t_name := name, t_piece_length := pl, t_pieces := decode_indexed hash_len (copy_array hash_len) ps\<rparr>"
  obtain t1 where t1: "parse_layout (?set t) info = Inr t1"
    "t' = (if get_int info ''private'' = Some 1 then t1\<lparr>t_private := True\<rparr> else t1)"
    using assms(2) d by (auto simp: parse_info_def split: sum.splits)
  have "same_info (?set t) (?set u)" using assms(1) by (simp add: same_info_def)
  then obtain u1 where u1: "parse_layout (?set u) info = Inr u1" "same_info t1 u1" using parse_layout_same t1(1) by blast
  then show ?thesis using d t1(2) by (auto simp: parse_info_def same_info_def)
qed

lemma new_torrent_same: "same_info (new_torrent a b c d h) (new_torrent a' b' c' d' h')"
  by (simp add: same_info_def new_torrent_def)

text \<open>The bytes of the info dictionary in a torrent file, and the metadata that a magnet link has fetched.\<close>

definition info_bytes :: "bytes \<Rightarrow> bytes" where
  "info_bytes raw =
     (case decode_dict_raw raw of
        Inl _ \<Rightarrow> []
      | Inr entries \<Rightarrow> (case map_of entries (str ''info'') of None \<Rightarrow> [] | Some r \<Rightarrow> rv_raw r))"

definition fetched_metadata ::
  "(bytes \<Rightarrow> bytes) \<Rightarrow> (bytes \<Rightarrow> bytes res) \<Rightarrow> bytes \<Rightarrow> link \<Rightarrow> bytes list \<Rightarrow> bytes" where
  "fetched_metadata sha1 dial peer_id l addrs =
     (case fetch_metadata_from_peers sha1 dial peer_id (l_info_hash l) addrs of Inr (Some md) \<Rightarrow> md | _ \<Rightarrow> [])"

lemma parse_cases:
  assumes "parse sha1 raw = Inr t"
  obtains info a b c d where "decode (info_bytes raw) = Inr (BDict info)" "t_info_hash t = sha1 (info_bytes raw)"
    "parse_info (new_torrent a b c d (sha1 (info_bytes raw))) info = Inr t"
proof -
  obtain entries where e: "decode_dict_raw raw = Inr entries" using assms by (auto simp: parse_def split: sum.splits)
  obtain r where r: "map_of entries (str ''info'') = Some r" using assms e by (auto simp: parse_def split: option.splits)
  obtain info where info: "rv_val r = BDict info" using assms e r by (auto simp: parse_def split: bvalue.splits)
  have "decode (rv_raw r) = Inr (BDict info)"
    using raw_values_decode [OF e map_of_SomeD [OF r]] info by simp
  moreover note p = assms [unfolded parse_def e sum.case r option.case info bvalue.case]
  moreover have "t_info_hash t = sha1 (rv_raw r)" using parse_info_info_hash [OF p] by (simp add: new_torrent_def)
  moreover have "info_bytes raw = rv_raw r" by (simp only: info_bytes_def e r sum.case option.case)
  ultimately show thesis using that by simp
qed

lemma file_and_magnet:
  assumes "parse sha1 raw = Inr ts" "parse_link uri = Inr l" "l_info_hash l = t_info_hash ts"
    and "resolve_magnet sha1 announce arrival dial peer_id uri port = Inr (t, addrs)"
  shows "sha1 (fetched_metadata sha1 dial peer_id l addrs) = sha1 (info_bytes raw) \<and>
    (fetched_metadata sha1 dial peer_id l addrs = info_bytes raw \<longrightarrow> same_info ts t)"
proof (rule resolve_magnet_cases [OF assms(4)])
  fix l' urls md
  assume "parse_link uri = Inr l'" "fetch_metadata_from_peers sha1 dial peer_id (l_info_hash l') addrs = Inr (Some md)"
    "from_info_dict md (l_info_hash l') urls = Inr t"
  then have m: "fetched_metadata sha1 dial peer_id l addrs = md" "sha1 md = l_info_hash l"
    "from_info_dict md (l_info_hash l) urls = Inr t"
    using assms(2) fetched_hash by (auto simp: fetched_metadata_def)
  obtain info a b c d where r: "decode (info_bytes raw) = Inr (BDict info)" "t_info_hash ts = sha1 (info_bytes raw)"
    "parse_info (new_torrent a b c d (sha1 (info_bytes raw))) info = Inr ts" by (rule parse_cases [OF assms(1)])
  have "same_info ts t" if "md = info_bytes raw"
  proof -
    let ?new = "new_torrent (case urls of [] \<Rightarrow> [] | u # _ \<Rightarrow> u) (if 1 < length urls then [urls] else []) [] [] (l_info_hash l)"
    have "decode md = Inr (BDict info)" using r(1) that by simp
    then have "parse_info ?new info = Inr t" using m(3) unfolding from_info_dict_def by (simp only: sum.case bvalue.case)
    moreover obtain u where "parse_info ?new info = Inr u" "same_info ts u"
      using parse_info_same [OF new_torrent_same r(3)] by blast
    ultimately show ?thesis by simp
  qed
  then show ?thesis using m(1,2) r(2) assms(3) by simp
qed

section \<open>Seeded content\<close>

lemma run_seed_verified:
  assumes "run_seed sha1 (Inr raw) cs = Inr (t, spans)" "content_ok t cs" "well_sized t"
  shows "parse sha1 raw = Inr t" "spans = disk_reader t cs"
    "i < length (t_pieces t) \<Longrightarrow> sha1 (piece_data t cs i) = t_pieces t ! i"
proof -
  have p: "parse sha1 raw = Inr t" "spans = disk_reader t cs" "v_invalid (verify_data sha1 t (disk_reader t cs)) = []"
    using assms(1) by (auto simp: run_seed_def Let_def split: sum.splits if_splits)
  then show "parse sha1 raw = Inr t" "spans = disk_reader t cs" by simp_all
  assume "i < length (t_pieces t)"
  then show "sha1 (piece_data t cs i) = t_pieces t ! i"
    using p(3) unfolding verified_pieces [OF assms(2,3)] by (simp add: filter_empty_conv)
qed

text \<open>Two files of the content's length with the same pieces are the same.\<close>

lemma pieces_determine:
  assumes "well_sized t" "length f = nat (total_length t)" "length g = nat (total_length t)"
    and "\<forall>i < length (t_pieces t). slice f (piece_start t i) (piece_start t i + plen t i) = slice g (piece_start t i) (piece_start t i + plen t i)"
  shows "f = g"
proof (rule nth_equalityI)
  show "length f = length g" using assms(2,3) by simp
  fix k assume k: "k < length f"
  define pl where "pl = nat (t_piece_length t)"
  have pos: "0 < pl" "int pl = t_piece_length t" using assms(1) by (simp_all add: pl_def well_sized_def Let_def)
  define i where "i = k div pl"
  have "int k < int (length (t_pieces t)) * t_piece_length t"
  proof -
    have "int k < total_length t" using k assms(2) by simp
    also have "\<dots> \<le> int (length (t_pieces t)) * t_piece_length t" using assms(1) by (simp add: well_sized_def Let_def)
    finally show ?thesis .
  qed
  then have "k < length (t_pieces t) * pl" using pos(2) by (metis of_nat_less_imp_less of_nat_mult)
  then have i: "i < length (t_pieces t)" by (simp add: i_def less_mult_imp_div_less)
  have st: "piece_start t i = i * pl" by (simp add: piece_start_def pl_def)
  have kk: "i * pl \<le> k" "k < i * pl + pl" 
    using div_mult_mod_eq [of k pl] mod_less_divisor [OF pos(1), of k] unfolding i_def by linarith+
  have "int (plen t i) = min (int pl) (total_length t - int (i * pl))"
    using piece_len_eq [OF assms(1) i] pos(2) by simp
  then have in_piece: "k < i * pl + plen t i" using kk k assms(2) by linarith
  have "slice f (i * pl) (i * pl + plen t i) ! (k - i * pl) = slice g (i * pl) (i * pl + plen t i) ! (k - i * pl)"
    using assms(4) [rule_format, OF i] unfolding st by simp
  then show "f ! k = g ! k" using kk in_piece k assms(2,3) by (simp add: slice_def)
qed

section \<open>A sample run\<close>

definition sample_raw :: bytes where
  "sample_raw = encode (BDict [(str ''info'', BDict sample_info)])"

definition sample_file :: torrent where
  "sample_file = one_byte\<lparr>t_announce := []\<rparr>"

lemma one_byte_simps [simp]:
  "t_pieces one_byte = [replicate 20 2]" "t_piece_length one_byte = 1" "total_length one_byte = 1"
  "full_bitfield one_byte = [128]" "piece_len one_byte 0 = 1"
  by (simp_all add: one_byte_def total_length_def is_single_file_def full_bitfield_def make_full_bitfield_def
      piece_len_def Let_def wrap64_def)

lemma sample_same: "same_info sample_file one_byte"
  by (simp add: same_info_def sample_file_def)

lemma sample_file_ok: "well_sized sample_file" "content_ok sample_file [[7]]" "t_pieces sample_file = [replicate 20 2]"
  "piece_data sample_file [[7]] 0 = [7]" "piece_len sample_file 0 = 1" "t_info_hash sample_file = replicate 20 1"
proof -
  note sizes = same_info_sizes [OF sample_same]
  have "well_sized one_byte" by (simp add: well_sized_def)
  then show "well_sized sample_file" using sizes(4) by simp
  have "content_ok one_byte [[7]]" by (simp add: content_ok_def one_byte_def)
  then show "content_ok sample_file [[7]]" using sizes(5) by simp
  show "piece_len sample_file 0 = 1" using sizes(2) one_byte_simps(5) by metis
  have "piece_data one_byte [[7]] 0 = [7]" by (simp add: piece_data_def piece_start_def slice_def)
  then show "piece_data sample_file [[7]] 0 = [7]" using sizes(6) by simp
  show "t_pieces sample_file = [replicate 20 2]" "t_info_hash sample_file = replicate 20 1"
    by (simp_all add: sample_file_def one_byte_def)
qed

lemma sample_hashes: "sample_sha1 sample_md = replicate 20 1" "sample_sha1 [7] = replicate 20 2"
  "sample_sha1 x = replicate 20 1 \<Longrightarrow> x = sample_md" "sample_sha1 x = replicate 20 2 \<Longrightarrow> x = [7]"
proof -
  have "length sample_md \<noteq> length [7 :: u8]" using sample_length by simp
  then have "sample_md \<noteq> [7]" by metis
  then show "sample_sha1 sample_md = replicate 20 1" "sample_sha1 [7] = replicate 20 2" by (simp_all add: sample_sha1_def)
  show "sample_sha1 x = replicate 20 1 \<Longrightarrow> x = sample_md" "sample_sha1 x = replicate 20 2 \<Longrightarrow> x = [7]"
    by (auto simp: sample_sha1_def numeral_eq_Suc split: if_splits)
qed

lemma sample_seeded: "run_seed sample_sha1 (Inr sample_raw) [[7]] = Inr (sample_file, disk_reader sample_file [[7]])"
proof -
  have wf: "wf_value (BDict [(str ''info'', BDict sample_info)])" using sample_wf by (simp add: small_def)
  have "get_dict [(str ''info'', BDict sample_info)] ''info'' = Some sample_info" by (simp add: get_dict_def dict_get_def)
  from parse_encode [OF wf this, of sample_sha1]
  have "parse sample_sha1 sample_raw = parse_info (new_torrent [] [] [] [] (sample_sha1 sample_md)) sample_info"
    by (simp add: sample_raw_def sample_md_def dict_get_def read_announce_def read_announce_list_def read_url_list_def
        read_http_seeds_def del: encode_simps)
  also have "\<dots> = Inr sample_file"
    by (simp add: sample_hashes parse_info_def parse_layout_def dict_string_def dict_int_def dict_get_def get_int_def sample_info_def
        hash_len_def decode_indexed_def new_torrent_def one_byte_def sample_file_def)
  finally have p: "parse sample_sha1 sample_raw = Inr sample_file" .
  have "v_invalid (verify_data sample_sha1 sample_file (disk_reader sample_file [[7]])) = []"
    unfolding verified_pieces [OF sample_file_ok(2,1)] by (simp add: sample_file_ok sample_hashes)
  then show ?thesis by (simp add: run_seed_def p Let_def)
qed

lemma sample_downloaded:
  obtains d where "reach sample_sha1 one_byte d" "download_done one_byte d" "all_done (d_picker d)" "\<forall>i. \<not> under_way d i" "d_file d = [7]"
proof -
  have "\<exists>d. execs sample_sha1 one_byte [Start_Web [], Web_Pick 0 0, Web_Fetch 0 (body 7), Web_Report 0, Collect] (new_download one_byte) = Some d \<and>
      d_results d = [] \<and> d_completed d = 1 \<and> pk_done (d_picker d) = [True] \<and> d_file d = [7] \<and> (\<forall>w \<in> set (d_workers d). reporting w = None)"
    by (simp add: run_simps sample_hashes)
  then obtain d where d: "reach sample_sha1 one_byte d" "d_results d = []" "d_completed d = 1" "pk_done (d_picker d) = [True]" "d_file d = [7]"
    "\<forall>w \<in> set (d_workers d). reporting w = None" using execs_reach [OF reach.init] by blast
  then show thesis using that [of d] by (simp add: all_done_def under_way_def download_done_def)
qed

section \<open>From the seeder to the downloader\<close>

text \<open>C5. A verified seed serves what the downloader accepts. If the seed command has accepted the
  files of a torrent, then its replies to the requests for a piece make the downloader of that
  piece return exactly the bytes of the content, with the hash check passed, whatever follows in the stream.\<close>

theorem seed_to_download:
  assumes "run_seed sha1 (Inr raw) cs = Inr (t, spans)" "content_ok t cs" "well_sized t"
    and "i < length (t_pieces t)" "i < 2 ^ 32" "plen t i < 2 ^ 32" "\<not> u_choked uc"
  shows "\<exists>rest'. download_and_verify sha1 i (plen t i) (t_pieces t ! i)
      (concat (map (\<lambda>m. write_message (Some m)) (fst (serve t spans (map Some (block_requests i (plen t i))) uc))) @ rest) =
    Inr (piece_data t cs i, rest')"
proof -
  note seed = run_seed_verified [OF assms(1-3)]
  have len: "length (piece_data t cs i) = plen t i" by (rule length_piece_data [OF assms(2,3,4)])
  let ?plan = "block_plan (plen t i)"
  have "answered (map Inl bls) = bls" for bls by (induction bls) simp_all
  then have "mset (answered (map Inl ?plan)) = mset (block_plan (length (piece_data t cs i)))" by (simp add: len)
  moreover have "\<forall>m. Inr m \<in> set (map Inl ?plan) \<longrightarrow> ignorable m" by auto
  ultimately have "\<exists>rest'. download_and_verify sha1 i (plen t i) (sha1 (piece_data t cs i))
      (concat (map write_message (map (answer i (piece_data t cs i)) (map Inl ?plan))) @ rest) = Inr (piece_data t cs i, rest')"
    using blocks_any_order [of i "piece_data t cs i" "map Inl ?plan" sha1 rest] assms(5,6) by (simp add: len)
  then show ?thesis
    unfolding seed(3) [OF assms(4)] seed(2) serve_plan [OF assms(2-7)] by (simp add: comp_def)
qed

theorem seed_to_download_witness:
  "\<exists>uc rest. download_and_verify sample_sha1 0 1 (replicate 20 2)
     (concat (map (\<lambda>m. write_message (Some m)) (fst (serve sample_file (disk_reader sample_file [[7]]) (map Some (block_requests 0 1)) uc)))) =
   Inr ([7], rest)"
proof -
  let ?uc = "\<lparr>u_addr = [], u_interested = True, u_choked = False, u_upload_bytes = 0\<rparr>"
  show ?thesis
    using seed_to_download [OF sample_seeded sample_file_ok(2,1), of 0 ?uc "[]"] by (simp add: sample_file_ok) blast
qed

section \<open>From the magnet link to the content\<close>

text \<open>C1. A magnet link gives the content of the torrent that it names. A seeder has verified the files of a
  torrent; a link carries the info hash of that torrent. Whatever trackers and peers answer, if the link
  resolves and \<open>File\<close> then reports success, by whatever interleaving of its workers, then the torrent has the
  seeder's info dictionary and the file written is the concatenation of the seeder's files; or the run has found
  two different inputs with one SHA-1 hash, namely the metadata fetched and the info dictionary of the torrent
  file, or a piece as written and the seeder's piece. In endgame \<open>File\<close> counts a piece twice
  (\<open>Download.early_success\<close>), so for a run that entered it, success is taken with
  every piece finished and none on its way to the file.\<close>

theorem magnet_to_content:
  assumes "run_seed sha1 (Inr raw) cs = Inr (ts, spans)" "content_ok ts cs" "well_sized ts"
    and "parse_link uri = Inr l" "l_info_hash l = t_info_hash ts"
    and "resolve_magnet sha1 announce arrival dial peer_id uri port = Inr (t, addrs)"
    and "reach sha1 t d" "download_done t d"
    and "pk_endgame (d_picker d) \<longrightarrow> all_done (d_picker d) \<and> (\<forall>i. \<not> under_way d i)"
  shows "same_info ts t \<and> d_file d = concat cs \<or>
    fetched_metadata sha1 dial peer_id l addrs \<noteq> info_bytes raw \<and>
      sha1 (fetched_metadata sha1 dial peer_id l addrs) = sha1 (info_bytes raw) \<or>
    (\<exists>i < length (t_pieces ts). slice (d_file d) (piece_start ts i) (piece_start ts i + plen ts i) \<noteq> piece_data ts cs i \<and>
      sha1 (slice (d_file d) (piece_start ts i) (piece_start ts i + plen ts i)) = sha1 (piece_data ts cs i))"
proof (cases "fetched_metadata sha1 dial peer_id l addrs = info_bytes raw")
  case True
  note seed = run_seed_verified [OF assms(1-3)]
  have same: "same_info ts t" using file_and_magnet [OF seed(1) assms(4-6)] True by simp
  note sizes = same_info_sizes [OF same]
  have pieces: "t_pieces t = t_pieces ts" using same by (simp add: same_info_def)
  have ws: "well_sized t" using assms(3) sizes(4) by simp
  have "all_done (d_picker d) \<and> (\<forall>i. \<not> under_way d i)"
    using counted_before_endgame [OF assms(7) ws assms(8)] assms(9) by blast
  then have disk: "on_disk sha1 t d i" if "i < length (t_pieces ts)" for i
    using finished_on_disk [OF assms(7) ws] that pieces by simp
  have hash: "sha1 (slice (d_file d) (piece_start ts i) (piece_start ts i + plen ts i)) = sha1 (piece_data ts cs i)"
    if "i < length (t_pieces ts)" for i
    using disk [OF that] unfolding seed(3) [OF that] on_disk_def sizes pieces .
  have len: "length (d_file d) = nat (total_length ts)"
    using reach_ok [OF assms(7) ws] sizes(1) by (simp add: download_ok_def)
  have "d_file d = concat cs"
    if "\<forall>i < length (t_pieces ts). slice (d_file d) (piece_start ts i) (piece_start ts i + plen ts i) = piece_data ts cs i"
    using that len content_total [OF assms(2)] by (intro pieces_determine [OF assms(3)]) (simp_all add: piece_data_def)
  then show ?thesis using same hash by blast
qed (use file_and_magnet [OF run_seed_verified(1) [OF assms(1-3)] assms(4-6)] in simp)

theorem magnet_to_content_witness:
  "\<exists>d. reach sample_sha1 one_byte d \<and> download_done one_byte d \<and> d_file d = concat [[7]]"
proof (rule sample_downloaded)
  fix d assume d: "reach sample_sha1 one_byte d" "download_done one_byte d" "all_done (d_picker d)" "\<forall>i. \<not> under_way d i"
  have l: "l_info_hash sample_magnet = t_info_hash sample_file" by (simp add: sample_magnet_def sample_file_ok)
  have "sample_sha1 (info_bytes sample_raw) = replicate 20 1"
    using parse_cases [OF run_seed_verified(1) [OF sample_seeded sample_file_ok(2,1)]] sample_file_ok(6) by metis
  then have info: "info_bytes sample_raw = sample_md" by (rule sample_hashes(3))
  have unique: "x = info_bytes sample_raw" if "sample_sha1 x = sample_sha1 (info_bytes sample_raw)" for x
    using sample_hashes(3) [of x] that unfolding info sample_hashes(1) by blast
  have pieces: "x = piece_data sample_file [[7]] i"
    if "i < length (t_pieces sample_file)" "sample_sha1 x = sample_sha1 (piece_data sample_file [[7]] i)" for x i
  proof -
    have "i = 0" using that(1) by (simp add: sample_file_ok(3))
    then have p: "piece_data sample_file [[7]] i = [7]" by (simp only: sample_file_ok(4))
    show ?thesis unfolding p by (rule sample_hashes(4)) (simp only: that(2) p sample_hashes(2))
  qed
  have "d_file d = concat [[7]]"
    using magnet_to_content [OF sample_seeded sample_file_ok(2,1) sample_resolved(1) l sample_resolved(2) d(1,2)]
      d(3,4) unique pieces by blast
  then show ?thesis using d(1,2) by blast
qed

end
